(* ===== verification/Prelude.thy ===== *)
theory Prelude
  imports Main "HOL-Library.Word" "HOL-Library.Code_Target_Nat"
begin

text \<open>
  The shared vocabulary of the development: the machine integer types of the C++ sources, byte
  buffers as lists with pointer arithmetic written out, and the generic facts on lists and words
  that the component theories use. The collections \<open>chd_simps\<close> (rewriting that is always
  wanted) and \<open>buf_simps\<close> (buffer surgery) are filled here and extended by the components.
\<close>

unbundle bit_operations_syntax

named_theorems chd_simps "equations that normalise component states"
named_theorems buf_simps "equations on byte buffers and slices"

subsection \<open>Machine integers\<close>

type_synonym u8 = "8 word"
type_synonym u16 = "16 word"
type_synonym u32 = "32 word"
type_synonym u64 = "64 word"
type_synonym bytes = "8 word list"

subsection \<open>Buffers\<close>

text \<open>
  A C++ buffer is a list of bytes. \<open>&buf[n]\<close> as the source of a read is \<open>drop n buf\<close>;
  as the destination of a store it is \<open>at_off n f buf\<close>, which lets \<open>f\<close> update the part of
  the buffer that starts at \<open>n\<close>. \<open>slice n k buf\<close> are the \<open>k\<close> bytes at \<open>n\<close>, and
  \<open>overwrite n ys buf\<close> is \<^verbatim>\<open>memcpy(&buf[n], ys, length ys)\<close>.
\<close>

definition at_off :: "nat \<Rightarrow> ('a list \<Rightarrow> 'a list) \<Rightarrow> 'a list \<Rightarrow> 'a list" where
  "at_off n f xs = take n xs @ f (drop n xs)"

definition slice :: "nat \<Rightarrow> nat \<Rightarrow> 'a list \<Rightarrow> 'a list" where
  "slice n k xs = take k (drop n xs)"

definition overwrite :: "nat \<Rightarrow> 'a list \<Rightarrow> 'a list \<Rightarrow> 'a list" where
  "overwrite n ys xs = take n xs @ ys @ drop (n + length ys) xs"

lemma length_slice [simp, buf_simps]: "length (slice n k xs) = min k (length xs - n)"
  by (simp add: slice_def)

lemma slice_0 [simp, buf_simps]: "slice n 0 xs = []"
  by (simp add: slice_def)

lemma nth_slice: "i < k \<Longrightarrow> n + i < length xs \<Longrightarrow> slice n k xs ! i = xs ! (n + i)"
  by (simp add: slice_def)

lemma slice_all [simp]: "length xs \<le> k \<Longrightarrow> slice 0 k xs = xs"
  by (simp add: slice_def)

lemma slice_append_left: "n + k \<le> length xs \<Longrightarrow> slice n k (xs @ ys) = slice n k xs"
  by (simp add: slice_def)

lemma slice_append_right: "length xs \<le> n \<Longrightarrow> slice n k (xs @ ys) = slice (n - length xs) k ys"
  by (simp add: slice_def)

lemma slice_slice: "i + j \<le> k \<Longrightarrow> slice i j (slice n k xs) = slice (n + i) j xs"
  by (simp add: slice_def drop_take add.commute min_def)

lemma slice_add: "slice n (j + k) xs = slice n j xs @ slice (n + j) k xs"
  by (simp add: slice_def take_add add.commute)

lemma length_overwrite [simp, buf_simps]:
  "n + length ys \<le> length xs \<Longrightarrow> length (overwrite n ys xs) = length xs"
  by (simp add: overwrite_def)

lemma slice_overwrite_same:
  "n + length ys \<le> length xs \<Longrightarrow> k = length ys \<Longrightarrow> slice n k (overwrite n ys xs) = ys"
  by (simp add: slice_def overwrite_def)

lemma slice_overwrite_before:
  "n + length ys \<le> length xs \<Longrightarrow> i + k \<le> n \<Longrightarrow> slice i k (overwrite n ys xs) = slice i k xs"
  by (simp add: slice_def overwrite_def take_drop)

lemma slice_overwrite_after:
  assumes "n + length ys \<le> length xs" "n + length ys \<le> i"
  shows "slice i k (overwrite n ys xs) = slice i k xs"
proof -
  have "drop i (overwrite n ys xs) = drop i xs"
    using assms by (simp add: overwrite_def)
  then show ?thesis by (simp add: slice_def)
qed

lemma length_at_off [simp, buf_simps]:
  assumes "\<And>ys. length (f ys) = length ys"
  shows "length (at_off n f xs) = length xs"
  by (simp add: at_off_def assms)

lemma drop_at_off [simp, buf_simps]: "n \<le> length xs \<Longrightarrow> drop n (at_off n f xs) = f (drop n xs)"
  by (simp add: at_off_def)

lemma nth_at_off_before: "i < n \<Longrightarrow> n \<le> length xs \<Longrightarrow> at_off n f xs ! i = xs ! i"
  by (simp add: at_off_def nth_append)

subsection \<open>Lists\<close>

lemma list_eq_take_drop: "n \<le> length xs \<Longrightarrow> xs = take n xs @ drop n xs"
  by simp

lemma take_nth_eqI:
  "length xs = length ys \<Longrightarrow> (\<And>i. i < length xs \<Longrightarrow> xs ! i = ys ! i) \<Longrightarrow> xs = ys"
  by (simp add: list_eq_iff_nth_eq)

lemma replicate_split: "k \<le> n \<Longrightarrow> replicate n x = replicate k x @ replicate (n - k) x"
  by (metis le_add_diff_inverse replicate_add)

subsection \<open>Results\<close>

text \<open>Fallible operations return \<open>'e + 'a\<close>, the error on the left.\<close>

lemma Inr_projr: "\<not> isl x \<Longrightarrow> x = Inr (projr x)"
  by simp

subsection \<open>Numbers\<close>

lemma mod_apart: "a < b \<Longrightarrow> b < a + n \<Longrightarrow> (i + a) mod n \<noteq> (i + b) mod (n :: nat)"
proof
  assume ab: "a < b" "b < a + n" and "(i + a) mod n = (i + b) mod n"
  then have "n dvd b - a" using mod_eq_dvd_iff_nat [of "i + a" "i + b" n] by simp
  then show False using ab dvd_imp_le [of n "b - a"] by linarith
qed

text \<open>Unsigned 32 and 64 bit arithmetic on natural numbers.\<close>

definition w32 :: "nat \<Rightarrow> nat" where
  "w32 n = n mod 2 ^ 32"

definition w64 :: "nat \<Rightarrow> nat" where
  "w64 n = n mod 2 ^ 64"

text \<open>The conversion of a 32-bit value to \<^verbatim>\<open>int32_t\<close>.\<close>

definition s32 :: "nat \<Rightarrow> int" where
  "s32 n = (if w32 n < 2 ^ 31 then int (w32 n) else int (w32 n) - 2 ^ 32)"

lemma w32_code [code]: "w32 n = n mod 4294967296"
  by (simp add: w32_def)

lemma w64_code [code]: "w64 n = n mod 18446744073709551616"
  by (simp add: w64_def)

lemma w32_small: "n < 2 ^ 32 \<Longrightarrow> w32 n = n"
  by (simp add: w32_def)

lemma w64_small: "n < 2 ^ 64 \<Longrightarrow> w64 n = n"
  by (simp add: w64_def)

subsection \<open>Words\<close>

lemma bit_255_int [simp]: "bit (255 :: int) j \<longleftrightarrow> j < 8"
proof -
  have "(255 :: int) = mask 8" by (simp add: mask_eq_exp_minus_1)
  then show ?thesis by (simp only: bit_mask_iff) auto
qed

lemma xor_cancel: "a XOR k = b XOR k \<longleftrightarrow> a = b" for a b :: "'a::len word"
proof
  assume "a XOR k = b XOR k"
  then have "(a XOR k) XOR k = (b XOR k) XOR k" by simp
  then show "a = b" by (simp add: xor.assoc)
qed simp

lemma unat_of_nat_small: "n < 2 ^ LENGTH('a) \<Longrightarrow> unat (of_nat n :: 'a::len word) = n"
  by (simp add: take_bit_nat_eq_self_iff unsigned_of_nat)

lemma bit_outside: "LENGTH('a) \<le> n \<Longrightarrow> \<not> bit (w :: 'a::len word) n"
  using bit_imp_le_length leD by blast

text \<open>Reassembling a word from its bytes, least significant byte last.\<close>

lemma ucast_ucast_byte:
  "8 \<le> LENGTH('a) \<Longrightarrow> (ucast (ucast w :: 8 word) :: 'a::len word) = take_bit 8 w"
  by (rule bit_word_eqI) (auto simp: bit_simps)

lemma or_byte_step:
  "m = k + 8 \<Longrightarrow> push_bit k (take_bit 8 (drop_bit k d)) OR take_bit k d = take_bit m (d :: 'a::len word)"
  by (rule bit_word_eqI) (auto simp: bit_simps)

lemma byte_of_join_high:
  "(ucast (drop_bit k (push_bit k (ucast (b :: 8 word)) OR x)) :: 8 word) = b OR ucast (drop_bit k x)"
  if "k + 8 \<le> LENGTH('a)" for x :: "'a::len word"
  using that by (intro bit_word_eqI) (auto simp: bit_simps)

end
