(* ===== verification/Multibyte.thy ===== *)
theory Multibyte
  imports Prelude
begin

text \<open>
  Fixed-endian integer access to byte buffers, \<^verbatim>\<open>lib/util/multibyte.h\<close>. A pointer is a list that
  starts at the addressed byte; a load indexes it, a store updates it. The round-trip laws and the
  frame laws (a store keeps the length and the bytes after its own) are what every on-disk
  structure of the CHD format rests on.
\<close>

subsection \<open>Unsigned big-endian\<close>

definition get_u16be :: "bytes \<Rightarrow> u16" where
  "get_u16be buf = push_bit 8 (ucast (buf ! 0)) OR ucast (buf ! 1)"

definition get_u24be :: "bytes \<Rightarrow> u32" where
  "get_u24be buf =
     push_bit 16 (ucast (buf ! 0)) OR push_bit 8 (ucast (buf ! 1)) OR ucast (buf ! 2)"

definition get_u32be :: "bytes \<Rightarrow> u32" where
  "get_u32be buf =
     push_bit 24 (ucast (buf ! 0)) OR push_bit 16 (ucast (buf ! 1))
     OR push_bit 8 (ucast (buf ! 2)) OR ucast (buf ! 3)"

definition get_u48be :: "bytes \<Rightarrow> u64" where
  "get_u48be buf =
     push_bit 40 (ucast (buf ! 0)) OR push_bit 32 (ucast (buf ! 1))
     OR push_bit 24 (ucast (buf ! 2)) OR push_bit 16 (ucast (buf ! 3))
     OR push_bit 8 (ucast (buf ! 4)) OR ucast (buf ! 5)"

definition get_u64be :: "bytes \<Rightarrow> u64" where
  "get_u64be buf =
     push_bit 56 (ucast (buf ! 0)) OR push_bit 48 (ucast (buf ! 1))
     OR push_bit 40 (ucast (buf ! 2)) OR push_bit 32 (ucast (buf ! 3))
     OR push_bit 24 (ucast (buf ! 4)) OR push_bit 16 (ucast (buf ! 5))
     OR push_bit 8 (ucast (buf ! 6)) OR ucast (buf ! 7)"

definition put_u16be :: "u16 \<Rightarrow> bytes \<Rightarrow> bytes" where
  "put_u16be data buf = buf[0 := ucast (drop_bit 8 data), 1 := ucast data]"

definition put_u24be :: "u32 \<Rightarrow> bytes \<Rightarrow> bytes" where
  "put_u24be data buf =
     buf[0 := ucast (drop_bit 16 data), 1 := ucast (drop_bit 8 data), 2 := ucast data]"

definition put_u32be :: "u32 \<Rightarrow> bytes \<Rightarrow> bytes" where
  "put_u32be data buf =
     buf[0 := ucast (drop_bit 24 data), 1 := ucast (drop_bit 16 data),
         2 := ucast (drop_bit 8 data), 3 := ucast data]"

definition put_u48be :: "u64 \<Rightarrow> bytes \<Rightarrow> bytes" where
  "put_u48be data buf =
     buf[0 := ucast (drop_bit 40 data), 1 := ucast (drop_bit 32 data),
         2 := ucast (drop_bit 24 data), 3 := ucast (drop_bit 16 data),
         4 := ucast (drop_bit 8 data), 5 := ucast data]"

definition put_u64be :: "u64 \<Rightarrow> bytes \<Rightarrow> bytes" where
  "put_u64be data buf =
     buf[0 := ucast (drop_bit 56 data), 1 := ucast (drop_bit 48 data),
         2 := ucast (drop_bit 40 data), 3 := ucast (drop_bit 32 data),
         4 := ucast (drop_bit 24 data), 5 := ucast (drop_bit 16 data),
         6 := ucast (drop_bit 8 data), 7 := ucast data]"

subsection \<open>Unsigned little-endian\<close>

definition get_u16le :: "bytes \<Rightarrow> u16" where
  "get_u16le buf =
     ucast (buf ! 0)
     OR push_bit 8 (ucast (buf ! 1))"

definition get_u24le :: "bytes \<Rightarrow> u32" where
  "get_u24le buf =
     ucast (buf ! 0)
     OR push_bit 8 (ucast (buf ! 1))
     OR push_bit 16 (ucast (buf ! 2))"

definition get_u32le :: "bytes \<Rightarrow> u32" where
  "get_u32le buf =
     ucast (buf ! 0)
     OR push_bit 8 (ucast (buf ! 1))
     OR push_bit 16 (ucast (buf ! 2))
     OR push_bit 24 (ucast (buf ! 3))"

definition get_u48le :: "bytes \<Rightarrow> u64" where
  "get_u48le buf =
     ucast (buf ! 0)
     OR push_bit 8 (ucast (buf ! 1))
     OR push_bit 16 (ucast (buf ! 2))
     OR push_bit 24 (ucast (buf ! 3))
     OR push_bit 32 (ucast (buf ! 4))
     OR push_bit 40 (ucast (buf ! 5))"

definition get_u64le :: "bytes \<Rightarrow> u64" where
  "get_u64le buf =
     ucast (buf ! 0)
     OR push_bit 8 (ucast (buf ! 1))
     OR push_bit 16 (ucast (buf ! 2))
     OR push_bit 24 (ucast (buf ! 3))
     OR push_bit 32 (ucast (buf ! 4))
     OR push_bit 40 (ucast (buf ! 5))
     OR push_bit 48 (ucast (buf ! 6))
     OR push_bit 56 (ucast (buf ! 7))"

definition put_u16le :: "u16 \<Rightarrow> bytes \<Rightarrow> bytes" where
  "put_u16le data buf =
     buf[0 := ucast data,
         1 := ucast (drop_bit 8 data)]"

definition put_u24le :: "u32 \<Rightarrow> bytes \<Rightarrow> bytes" where
  "put_u24le data buf =
     buf[0 := ucast data,
         1 := ucast (drop_bit 8 data),
         2 := ucast (drop_bit 16 data)]"

definition put_u32le :: "u32 \<Rightarrow> bytes \<Rightarrow> bytes" where
  "put_u32le data buf =
     buf[0 := ucast data,
         1 := ucast (drop_bit 8 data),
         2 := ucast (drop_bit 16 data),
         3 := ucast (drop_bit 24 data)]"

definition put_u48le :: "u64 \<Rightarrow> bytes \<Rightarrow> bytes" where
  "put_u48le data buf =
     buf[0 := ucast data,
         1 := ucast (drop_bit 8 data),
         2 := ucast (drop_bit 16 data),
         3 := ucast (drop_bit 24 data),
         4 := ucast (drop_bit 32 data),
         5 := ucast (drop_bit 40 data)]"

definition put_u64le :: "u64 \<Rightarrow> bytes \<Rightarrow> bytes" where
  "put_u64le data buf =
     buf[0 := ucast data,
         1 := ucast (drop_bit 8 data),
         2 := ucast (drop_bit 16 data),
         3 := ucast (drop_bit 24 data),
         4 := ucast (drop_bit 32 data),
         5 := ucast (drop_bit 40 data),
         6 := ucast (drop_bit 48 data),
         7 := ucast (drop_bit 56 data)]"

subsection \<open>Signed values\<close>

text \<open>
  The signed accessors return the value the C++ type holds, an integer. \<open>sext\<close> is
  \<^verbatim>\<open>util::sext\<close> of \<^verbatim>\<open>coretmpl.h\<close>: a left shift, then an arithmetic right shift.
\<close>

definition sext :: "'a::len word \<Rightarrow> nat \<Rightarrow> 'a word" where
  "sext v width = signed_drop_bit (LENGTH('a) - width) (push_bit (LENGTH('a) - width) v)"

definition get_s16be :: "bytes \<Rightarrow> int" where
  "get_s16be buf = sint (get_u16be buf)"

definition get_s24be :: "bytes \<Rightarrow> int" where
  "get_s24be buf = sint (sext (get_u24be buf) 24)"

definition get_s32be :: "bytes \<Rightarrow> int" where
  "get_s32be buf = sint (get_u32be buf)"

definition get_s48be :: "bytes \<Rightarrow> int" where
  "get_s48be buf = sint (sext (get_u48be buf) 48)"

definition get_s64be :: "bytes \<Rightarrow> int" where
  "get_s64be buf = sint (get_u64be buf)"

definition put_s16be :: "int \<Rightarrow> bytes \<Rightarrow> bytes" where
  "put_s16be data = put_u16be (word_of_int data)"

definition put_s24be :: "int \<Rightarrow> bytes \<Rightarrow> bytes" where
  "put_s24be data = put_u24be (word_of_int data)"

definition put_s32be :: "int \<Rightarrow> bytes \<Rightarrow> bytes" where
  "put_s32be data = put_u32be (word_of_int data)"

definition put_s48be :: "int \<Rightarrow> bytes \<Rightarrow> bytes" where
  "put_s48be data = put_u48be (word_of_int data)"

definition put_s64be :: "int \<Rightarrow> bytes \<Rightarrow> bytes" where
  "put_s64be data = put_u64be (word_of_int data)"

definition get_s16le :: "bytes \<Rightarrow> int" where
  "get_s16le buf = sint (get_u16le buf)"

definition get_s24le :: "bytes \<Rightarrow> int" where
  "get_s24le buf = sint (sext (get_u24le buf) 24)"

definition get_s32le :: "bytes \<Rightarrow> int" where
  "get_s32le buf = sint (get_u32le buf)"

definition get_s48le :: "bytes \<Rightarrow> int" where
  "get_s48le buf = sint (sext (get_u48le buf) 48)"

definition get_s64le :: "bytes \<Rightarrow> int" where
  "get_s64le buf = sint (get_u64le buf)"

definition put_s16le :: "int \<Rightarrow> bytes \<Rightarrow> bytes" where
  "put_s16le data = put_u16le (word_of_int data)"

definition put_s24le :: "int \<Rightarrow> bytes \<Rightarrow> bytes" where
  "put_s24le data = put_u24le (word_of_int data)"

definition put_s32le :: "int \<Rightarrow> bytes \<Rightarrow> bytes" where
  "put_s32le data = put_u32le (word_of_int data)"

definition put_s48le :: "int \<Rightarrow> bytes \<Rightarrow> bytes" where
  "put_s48le data = put_u48le (word_of_int data)"

definition put_s64le :: "int \<Rightarrow> bytes \<Rightarrow> bytes" where
  "put_s64le data = put_u64le (word_of_int data)"

subsection \<open>Laws\<close>

text \<open>
  The contract of an accessor pair of \<open>width\<close> bytes: loading what was stored gives the value cut to
  the width, a store changes its own bytes only and what it writes there depends on the value only,
  and a load looks at its own bytes only.
\<close>

locale int_field =
  fixes get :: "bytes \<Rightarrow> 'a::len word"
    and put :: "'a word \<Rightarrow> bytes \<Rightarrow> bytes"
    and width :: nat
  assumes length_put: "length (put d buf) = length buf"
    and get_put: "width \<le> length buf \<Longrightarrow> get (put d buf) = take_bit (8 * width) d"
    and put_tail: "width \<le> length buf \<Longrightarrow> drop width (put d buf) = drop width buf"
    and put_local: "width \<le> length a \<Longrightarrow> width \<le> length b \<Longrightarrow> take width (put d a) = take width (put d b)"
    and get_local: "width \<le> length a \<Longrightarrow> take width a = take width b \<Longrightarrow> get a = get b"
begin

lemma length_at: "length (at_off n (put d) buf) = length buf"
  by (simp add: length_put)

lemma get_at_same: "n + width \<le> length buf \<Longrightarrow> get (drop n (at_off n (put d) buf)) = take_bit (8 * width) d"
  by (simp add: get_put)

lemma get_slice: "n + width \<le> length buf \<Longrightarrow> get (drop n buf) = get (slice n width buf)"
  by (rule get_local) (simp_all add: slice_def)

lemma get_at_before:
  assumes "n + width \<le> m" "m \<le> length buf"
  shows "get (drop n (at_off m f buf)) = get (drop n buf)"
  using assms by (intro get_local) (auto simp: at_off_def take_drop)

lemma at_tail: "n + width \<le> m \<Longrightarrow> m \<le> length buf \<Longrightarrow> drop m (at_off n (put d) buf) = drop m buf"
proof -
  assume le: "n + width \<le> m" "m \<le> length buf"
  have "drop m (at_off n (put d) buf) = drop (m - n - width) (drop width (put d (drop n buf)))"
    using le by (simp add: at_off_def)
  also have "\<dots> = drop m buf" using le by (simp add: put_tail)
  finally show ?thesis .
qed

lemma at_head: "m \<le> n \<Longrightarrow> n \<le> length buf \<Longrightarrow> take m (at_off n f buf) = take m buf"
  by (simp add: at_off_def)

lemma at_overwrite:
  assumes "n + width \<le> length buf"
  shows "at_off n (put d) buf = overwrite n (take width (put d (replicate width 0))) buf"
proof -
  have "put d (drop n buf) = take width (put d (drop n buf)) @ drop width (put d (drop n buf))" by simp
  also have "\<dots> = take width (put d (replicate width 0)) @ drop width (drop n buf)"
    using assms put_local [of "drop n buf" "replicate width 0" d] by (simp add: put_tail)
  finally show ?thesis using assms by (simp add: at_off_def overwrite_def length_put add.commute)
qed

end

lemma length_put [simp, buf_simps]:
  "length (put_u16be v16 buf) = length buf"
  "length (put_u16le v16 buf) = length buf"
  "length (put_u24be v24 buf) = length buf"
  "length (put_u24le v24 buf) = length buf"
  "length (put_u32be v32 buf) = length buf"
  "length (put_u32le v32 buf) = length buf"
  "length (put_u48be v48 buf) = length buf"
  "length (put_u48le v48 buf) = length buf"
  "length (put_u64be v64 buf) = length buf"
  "length (put_u64le v64 buf) = length buf"
  by (simp_all add: put_u16be_def put_u24be_def put_u32be_def put_u48be_def put_u64be_def put_u16le_def put_u24le_def put_u32le_def put_u48le_def put_u64le_def)

lemmas byte_join = ucast_ucast_byte
  or_byte_step [of 16 8] or_byte_step [of 24 16] or_byte_step [of 32 24] or_byte_step [of 40 32]
  or_byte_step [of 48 40] or_byte_step [of 56 48] or_byte_step [of 64 56]

lemma or_byte_step_le:
  "m = k + 8 \<Longrightarrow> take_bit k d OR push_bit k (take_bit 8 (drop_bit k d)) = take_bit m (d :: 'a::len word)"
  using or_byte_step [of m k d] by (simp add: or.commute)

lemmas byte_join_le =
  or_byte_step_le [of 16 8] or_byte_step_le [of 24 16] or_byte_step_le [of 32 24] or_byte_step_le [of 40 32]
  or_byte_step_le [of 48 40] or_byte_step_le [of 56 48] or_byte_step_le [of 64 56]

lemma take_bit_word_all: "take_bit 16 (a :: u16) = a" "take_bit 32 (b :: u32) = b" "take_bit 64 (c :: u64) = c"
  using take_bit_length_eq [of a] take_bit_length_eq [of b] take_bit_length_eq [of c] by simp_all

lemma get_put_u16be: "2 \<le> length buf \<Longrightarrow> get_u16be (put_u16be d buf) = d"
  by (cases "buf = []") (simp_all add: get_u16be_def put_u16be_def nth_list_update byte_join take_bit_word_all)

lemma get_put_u24be: "3 \<le> length buf \<Longrightarrow> get_u24be (put_u24be d buf) = take_bit 24 d"
  by (cases "buf = []") (simp_all add: get_u24be_def put_u24be_def nth_list_update byte_join)

lemma get_put_u32be: "4 \<le> length buf \<Longrightarrow> get_u32be (put_u32be d buf) = d"
  by (cases "buf = []") (simp_all add: get_u32be_def put_u32be_def nth_list_update byte_join take_bit_word_all)

lemma get_put_u48be: "6 \<le> length buf \<Longrightarrow> get_u48be (put_u48be d buf) = take_bit 48 d"
  by (cases "buf = []") (simp_all add: get_u48be_def put_u48be_def nth_list_update byte_join)

lemma get_put_u64be: "8 \<le> length buf \<Longrightarrow> get_u64be (put_u64be d buf) = d"
  by (cases "buf = []") (simp_all add: get_u64be_def put_u64be_def nth_list_update byte_join take_bit_word_all)

lemma get_put_u16le: "2 \<le> length buf \<Longrightarrow> get_u16le (put_u16le d buf) = d"
  by (cases "buf = []") (simp_all add: get_u16le_def put_u16le_def nth_list_update ucast_ucast_byte byte_join_le take_bit_word_all flip: or.assoc)

lemma get_put_u24le: "3 \<le> length buf \<Longrightarrow> get_u24le (put_u24le d buf) = take_bit 24 d"
  by (cases "buf = []") (simp_all add: get_u24le_def put_u24le_def nth_list_update ucast_ucast_byte byte_join_le flip: or.assoc)

lemma get_put_u32le: "4 \<le> length buf \<Longrightarrow> get_u32le (put_u32le d buf) = d"
  by (cases "buf = []") (simp_all add: get_u32le_def put_u32le_def nth_list_update ucast_ucast_byte byte_join_le take_bit_word_all flip: or.assoc)

lemma get_put_u48le: "6 \<le> length buf \<Longrightarrow> get_u48le (put_u48le d buf) = take_bit 48 d"
  by (cases "buf = []") (simp_all add: get_u48le_def put_u48le_def nth_list_update ucast_ucast_byte byte_join_le flip: or.assoc)

lemma get_put_u64le: "8 \<le> length buf \<Longrightarrow> get_u64le (put_u64le d buf) = d"
  by (cases "buf = []") (simp_all add: get_u64le_def put_u64le_def nth_list_update ucast_ucast_byte byte_join_le take_bit_word_all flip: or.assoc)

text \<open>Every unsigned accessor pair satisfies the contract.\<close>

lemma bytes_unfold: "Suc n \<le> length xs \<longleftrightarrow> (\<exists>y ys. xs = y # ys \<and> n \<le> length ys)"
  by (cases xs) auto

lemma update_front_2: "2 \<le> length xs \<Longrightarrow> xs[0 := a, 1 := b] = [a, b] @ drop 2 xs"
  by (auto simp: numeral_eq_Suc bytes_unfold)

lemma update_front_3: "3 \<le> length xs \<Longrightarrow> xs[0 := a, 1 := b, 2 := c] = [a, b, c] @ drop 3 xs"
  by (auto simp: numeral_eq_Suc bytes_unfold)

lemma update_front_4: "4 \<le> length xs \<Longrightarrow> xs[0 := a, 1 := b, 2 := c, 3 := d] = [a, b, c, d] @ drop 4 xs"
  by (auto simp: numeral_eq_Suc bytes_unfold)

lemma update_front_6: "6 \<le> length xs \<Longrightarrow> xs[0 := a, 1 := b, 2 := c, 3 := d, 4 := e, 5 := f] = [a, b, c, d, e, f] @ drop 6 xs"
  by (auto simp: numeral_eq_Suc bytes_unfold)

lemma update_front_8: "8 \<le> length xs \<Longrightarrow> xs[0 := a, 1 := b, 2 := c, 3 := d, 4 := e, 5 := f, 6 := g, 7 := h] = [a, b, c, d, e, f, g, h] @ drop 8 xs"
  by (auto simp: numeral_eq_Suc bytes_unfold)

lemma take_eq_nth: "take n a = take n b \<Longrightarrow> i < n \<Longrightarrow> a ! i = b ! i"
  by (metis nth_take)

lemma put_u16be_front: "2 \<le> length buf \<Longrightarrow> put_u16be d buf =
    [ucast (drop_bit 8 d), ucast d] @ drop 2 buf"
  unfolding put_u16be_def by (rule update_front_2)

lemma get_u16be_local: "take 2 a = take 2 b \<Longrightarrow> get_u16be a = get_u16be b"
  unfolding get_u16be_def using take_eq_nth [of 2 a b] by simp

interpretation f16be: int_field get_u16be put_u16be 2
  by unfold_locales (rule length_put | simp add: get_put_u16be take_bit_word_all | simp add: put_u16be_front | erule get_u16be_local)+

lemma put_u24be_front: "3 \<le> length buf \<Longrightarrow> put_u24be d buf =
    [ucast (drop_bit 16 d), ucast (drop_bit 8 d), ucast d] @ drop 3 buf"
  unfolding put_u24be_def by (rule update_front_3)

lemma get_u24be_local: "take 3 a = take 3 b \<Longrightarrow> get_u24be a = get_u24be b"
  unfolding get_u24be_def using take_eq_nth [of 3 a b] by simp

interpretation f24be: int_field get_u24be put_u24be 3
  by unfold_locales (rule length_put | simp add: get_put_u24be take_bit_word_all | simp add: put_u24be_front | erule get_u24be_local)+

lemma put_u32be_front: "4 \<le> length buf \<Longrightarrow> put_u32be d buf =
    [ucast (drop_bit 24 d), ucast (drop_bit 16 d), ucast (drop_bit 8 d), ucast d] @ drop 4 buf"
  unfolding put_u32be_def by (rule update_front_4)

lemma get_u32be_local: "take 4 a = take 4 b \<Longrightarrow> get_u32be a = get_u32be b"
  unfolding get_u32be_def using take_eq_nth [of 4 a b] by simp

interpretation f32be: int_field get_u32be put_u32be 4
  by unfold_locales (rule length_put | simp add: get_put_u32be take_bit_word_all | simp add: put_u32be_front | erule get_u32be_local)+

lemma put_u48be_front: "6 \<le> length buf \<Longrightarrow> put_u48be d buf =
    [ucast (drop_bit 40 d), ucast (drop_bit 32 d), ucast (drop_bit 24 d), ucast (drop_bit 16 d), ucast (drop_bit 8 d), ucast d] @ drop 6 buf"
  unfolding put_u48be_def by (rule update_front_6)

lemma get_u48be_local: "take 6 a = take 6 b \<Longrightarrow> get_u48be a = get_u48be b"
  unfolding get_u48be_def using take_eq_nth [of 6 a b] by simp

interpretation f48be: int_field get_u48be put_u48be 6
  by unfold_locales (rule length_put | simp add: get_put_u48be take_bit_word_all | simp add: put_u48be_front | erule get_u48be_local)+

lemma put_u64be_front: "8 \<le> length buf \<Longrightarrow> put_u64be d buf =
    [ucast (drop_bit 56 d), ucast (drop_bit 48 d), ucast (drop_bit 40 d), ucast (drop_bit 32 d), ucast (drop_bit 24 d), ucast (drop_bit 16 d), ucast (drop_bit 8 d), ucast d] @ drop 8 buf"
  unfolding put_u64be_def by (rule update_front_8)

lemma get_u64be_local: "take 8 a = take 8 b \<Longrightarrow> get_u64be a = get_u64be b"
  unfolding get_u64be_def using take_eq_nth [of 8 a b] by simp

interpretation f64be: int_field get_u64be put_u64be 8
  by unfold_locales (rule length_put | simp add: get_put_u64be take_bit_word_all | simp add: put_u64be_front | erule get_u64be_local)+

lemma put_u16le_front: "2 \<le> length buf \<Longrightarrow> put_u16le d buf =
    [ucast d, ucast (drop_bit 8 d)] @ drop 2 buf"
  unfolding put_u16le_def by (rule update_front_2)

lemma get_u16le_local: "take 2 a = take 2 b \<Longrightarrow> get_u16le a = get_u16le b"
  unfolding get_u16le_def using take_eq_nth [of 2 a b] by simp

interpretation f16le: int_field get_u16le put_u16le 2
  by unfold_locales (rule length_put | simp add: get_put_u16le take_bit_word_all | simp add: put_u16le_front | erule get_u16le_local)+

lemma put_u24le_front: "3 \<le> length buf \<Longrightarrow> put_u24le d buf =
    [ucast d, ucast (drop_bit 8 d), ucast (drop_bit 16 d)] @ drop 3 buf"
  unfolding put_u24le_def by (rule update_front_3)

lemma get_u24le_local: "take 3 a = take 3 b \<Longrightarrow> get_u24le a = get_u24le b"
  unfolding get_u24le_def using take_eq_nth [of 3 a b] by simp

interpretation f24le: int_field get_u24le put_u24le 3
  by unfold_locales (rule length_put | simp add: get_put_u24le take_bit_word_all | simp add: put_u24le_front | erule get_u24le_local)+

lemma put_u32le_front: "4 \<le> length buf \<Longrightarrow> put_u32le d buf =
    [ucast d, ucast (drop_bit 8 d), ucast (drop_bit 16 d), ucast (drop_bit 24 d)] @ drop 4 buf"
  unfolding put_u32le_def by (rule update_front_4)

lemma get_u32le_local: "take 4 a = take 4 b \<Longrightarrow> get_u32le a = get_u32le b"
  unfolding get_u32le_def using take_eq_nth [of 4 a b] by simp

interpretation f32le: int_field get_u32le put_u32le 4
  by unfold_locales (rule length_put | simp add: get_put_u32le take_bit_word_all | simp add: put_u32le_front | erule get_u32le_local)+

lemma put_u48le_front: "6 \<le> length buf \<Longrightarrow> put_u48le d buf =
    [ucast d, ucast (drop_bit 8 d), ucast (drop_bit 16 d), ucast (drop_bit 24 d), ucast (drop_bit 32 d), ucast (drop_bit 40 d)] @ drop 6 buf"
  unfolding put_u48le_def by (rule update_front_6)

lemma get_u48le_local: "take 6 a = take 6 b \<Longrightarrow> get_u48le a = get_u48le b"
  unfolding get_u48le_def using take_eq_nth [of 6 a b] by simp

interpretation f48le: int_field get_u48le put_u48le 6
  by unfold_locales (rule length_put | simp add: get_put_u48le take_bit_word_all | simp add: put_u48le_front | erule get_u48le_local)+

lemma put_u64le_front: "8 \<le> length buf \<Longrightarrow> put_u64le d buf =
    [ucast d, ucast (drop_bit 8 d), ucast (drop_bit 16 d), ucast (drop_bit 24 d), ucast (drop_bit 32 d), ucast (drop_bit 40 d), ucast (drop_bit 48 d), ucast (drop_bit 56 d)] @ drop 8 buf"
  unfolding put_u64le_def by (rule update_front_8)

lemma get_u64le_local: "take 8 a = take 8 b \<Longrightarrow> get_u64le a = get_u64le b"
  unfolding get_u64le_def using take_eq_nth [of 8 a b] by simp

interpretation f64le: int_field get_u64le put_u64le 8
  by unfold_locales (rule length_put | simp add: get_put_u64le take_bit_word_all | simp add: put_u64le_front | erule get_u64le_local)+

lemma bit_sext:
  assumes "0 < w" "w \<le> LENGTH('a)" "n < LENGTH('a)"
  shows "bit (sext (v :: 'a::len word) w) n \<longleftrightarrow> bit v (min n (w - 1))"
  using assms by (auto simp: sext_def bit_signed_drop_bit_iff bit_push_bit_iff min_def)

lemma sext_signed_take_bit:
  assumes "0 < w" "w \<le> LENGTH('a)"
  shows "sext (v :: 'a::len word) w = signed_take_bit (w - 1) v"
  using assms by (intro bit_word_eqI) (simp add: bit_sext bit_signed_take_bit_iff min.commute)

lemma sint_sext_of_int:
  assumes "0 < w" "w \<le> LENGTH('a)" "- (2 ^ (w - 1)) \<le> v" "v < 2 ^ (w - 1)"
  shows "sint (sext (take_bit w (word_of_int v :: 'a::len word)) w) = v"
proof -
  have "sext (take_bit w (word_of_int v :: 'a word)) w = sext (word_of_int v) w"
    using assms by (intro bit_word_eqI) (auto simp: bit_sext bit_take_bit_iff)
  also have "\<dots> = word_of_int (signed_take_bit (w - 1) v)"
    using assms by (intro bit_word_eqI) (auto simp: bit_sext bit_word_of_int_iff bit_signed_take_bit_iff min_def)
  also have "signed_take_bit (w - 1) v = v"
    using assms(3,4) by (simp add: signed_take_bit_int_eq_self)
  finally have "sint (sext (take_bit w (word_of_int v :: 'a word)) w) = signed_take_bit (LENGTH('a) - 1) v"
    by (simp add: sint_sbintrunc')
  moreover have "(2 :: int) ^ (w - 1) \<le> 2 ^ (LENGTH('a) - 1)" using assms(1,2) by (intro power_increasing diff_le_mono) auto
  then have "signed_take_bit (LENGTH('a) - 1) v = v"
    using assms(3,4) by (intro signed_take_bit_int_eq_self) linarith+
  ultimately show ?thesis by simp
qed
subsection \<open>Properties\<close>

text \<open>
  The signed accessors of odd width round-trip: a value of the 24 or 48 bit two's complement range
  is read back with its sign.
\<close>

theorem signed_field_roundtrip:
  assumes "- (2 ^ 23) \<le> v" "v < 2 ^ 23" "- (2 ^ 47) \<le> u" "u < 2 ^ 47" "6 \<le> length buf"
  shows "get_s24be (put_s24be v buf) = v \<and> get_s24le (put_s24le v buf) = v \<and>
    get_s48be (put_s48be u buf) = u \<and> get_s48le (put_s48le u buf) = u"
  using assms sint_sext_of_int [of 24 v, where 'a = 32] sint_sext_of_int [of 48 u, where 'a = 64]
  by (simp add: get_s24be_def put_s24be_def get_s24le_def put_s24le_def get_s48be_def put_s48be_def
      get_s48le_def put_s48le_def get_put_u24be get_put_u24le get_put_u48be get_put_u48le)

theorem signed_field_roundtrip_witness:
  "get_s24be (put_s24be (- 5) (replicate 6 0)) = - 5 \<and> get_s24le (put_s24le (- 5) (replicate 6 0)) = - 5 \<and>
    get_s48be (put_s48be (- 70000) (replicate 6 0)) = - 70000 \<and> get_s48le (put_s48le (- 70000) (replicate 6 0)) = - 70000"
  using signed_field_roundtrip [of "- 5" "- 70000" "replicate 6 0"] by simp

end
