(* ===== verification/Bitstream.thy ===== *)
theory Bitstream
  imports Prelude "HOL-Library.While_Combinator"
begin

text \<open>
  Bit-level readers and writers, \<^verbatim>\<open>lib/util/bitstream.h\<close>. Both classes keep a 32-bit accumulator
  whose valid bits are its topmost ones. The loops are kept as loops (\<open>while\<close>). The specification
  is a plain list of bits: a writer has appended the bits \<open>bs\<close> (\<open>out_rep\<close>), a reader stands at
  bit position \<open>p\<close> of its bytes (\<open>in_rep\<close>), and every operation is proved to act on these
  abstractions as its name says.
\<close>

subsection \<open>The classes\<close>

record bitstream_in =
  i_buffer :: u32
  i_bits :: int
  i_read :: bytes
  i_doffset :: u32
  i_dlength :: u32
  i_dbitoffs :: int

record bitstream_out =
  o_buffer :: u32
  o_bits :: int
  o_write :: bytes
  o_doffset :: u32
  o_dlength :: u32

definition mk_bitstream_in :: "bytes \<Rightarrow> u32 \<Rightarrow> bitstream_in" where
  "mk_bitstream_in src srclength =
     \<lparr>i_buffer = 0, i_bits = 0, i_read = src, i_doffset = 0, i_dlength = srclength, i_dbitoffs = 0\<rparr>"

definition in_overflow :: "bitstream_in \<Rightarrow> bool" where
  "in_overflow s \<longleftrightarrow> i_dlength s < i_doffset s - word_of_int (i_bits s div 8)"

text \<open>The body of the refill loop of \<open>peek\<close>.\<close>

definition peek_step :: "bitstream_in \<Rightarrow> bitstream_in" where
  "peek_step s =
     (let newbits =
            (if i_doffset s < i_dlength s
             then push_bit (nat (i_dbitoffs s)) (ucast (i_read s ! unat (i_doffset s))) AND 0xff
             else 0)
      in if i_bits s + 8 > 32
         then let dbitoffs = 32 - i_bits s
              in s\<lparr>i_dbitoffs := dbitoffs,
                   i_buffer := i_buffer s OR drop_bit (nat (8 - dbitoffs)) newbits,
                   i_bits := i_bits s + dbitoffs\<rparr>
         else s\<lparr>i_buffer := i_buffer s OR push_bit (nat (24 - i_bits s)) newbits,
                i_bits := i_bits s + (8 - i_dbitoffs s),
                i_dbitoffs := 0,
                i_doffset := i_doffset s + 1\<rparr>)"

definition peek_fill :: "bitstream_in \<Rightarrow> bitstream_in" where
  "peek_fill = while (\<lambda>s. i_bits s < 32) peek_step"

definition peek :: "int \<Rightarrow> bitstream_in \<Rightarrow> u32 \<times> bitstream_in" where
  "peek numbits s =
     (if numbits = 0 then (0, s)
      else let s' = (if numbits > i_bits s then peek_fill s else s)
           in (drop_bit (nat (32 - numbits)) (i_buffer s'), s'))"

definition in_remove :: "int \<Rightarrow> bitstream_in \<Rightarrow> bitstream_in" where
  "in_remove numbits s =
     s\<lparr>i_buffer := push_bit (nat numbits) (i_buffer s), i_bits := i_bits s - numbits\<rparr>"

definition bs_read :: "int \<Rightarrow> bitstream_in \<Rightarrow> u32 \<times> bitstream_in" where
  "bs_read numbits s = (case peek numbits s of (result, s') \<Rightarrow> (result, in_remove numbits s'))"

definition read_offset :: "bitstream_in \<Rightarrow> u32" where
  "read_offset s =
     (let (result, bits) = while (\<lambda>(result, bits). bits \<ge> 8) (\<lambda>(result, bits). (result - 1, bits - 8))
                             (i_doffset s, i_bits s)
      in if i_dbitoffs s > bits then result + 1 else result)"

definition in_flush :: "bitstream_in \<Rightarrow> u32 \<times> bitstream_in" where
  "in_flush s =
     (let s1 = while (\<lambda>s. i_bits s \<ge> 8) (\<lambda>s. s\<lparr>i_doffset := i_doffset s - 1, i_bits := i_bits s - 8\<rparr>) s;
          s2 = (if i_dbitoffs s1 > i_bits s1 then s1\<lparr>i_doffset := i_doffset s1 + 1\<rparr> else s1);
          s3 = s2\<lparr>i_bits := 0, i_buffer := 0, i_dbitoffs := 0\<rparr>
      in (i_doffset s3, s3))"

definition mk_bitstream_out :: "bytes \<Rightarrow> u32 \<Rightarrow> bitstream_out" where
  "mk_bitstream_out dest destlength =
     \<lparr>o_buffer = 0, o_bits = 0, o_write = dest, o_doffset = 0, o_dlength = destlength\<rparr>"

definition out_overflow :: "bitstream_out \<Rightarrow> bool" where
  "out_overflow s \<longleftrightarrow> o_dlength s < o_doffset s"

text \<open>Storing the top byte of the accumulator: the body of the draining loops.\<close>

definition out_byte :: "bitstream_out \<Rightarrow> bitstream_out" where
  "out_byte s =
     s\<lparr>o_write := (if o_doffset s < o_dlength s
                   then (o_write s)[unat (o_doffset s) := ucast (drop_bit 24 (o_buffer s))]
                   else o_write s),
       o_doffset := o_doffset s + 1,
       o_buffer := push_bit 8 (o_buffer s),
       o_bits := o_bits s - 8\<rparr>"

definition out_drain :: "bitstream_out \<Rightarrow> bitstream_out" where
  "out_drain = while (\<lambda>s. o_bits s \<ge> 8) out_byte"

definition write_step :: "bitstream_out \<times> u32 \<times> int \<Rightarrow> bitstream_out \<times> u32 \<times> int" where
  "write_step = (\<lambda>(s, newbits, numbits).
     let s1 = out_drain s
     in if o_bits s1 + numbits \<ge> 32
        then let rem = min (32 - o_bits s1) numbits
             in (s1\<lparr>o_buffer := o_buffer s1 OR drop_bit (nat (o_bits s1)) newbits,
                    o_bits := o_bits s1 + rem\<rparr>,
                 push_bit (nat rem) newbits, numbits - rem)
        else (s1, newbits, numbits))"

definition bs_write :: "u32 \<Rightarrow> int \<Rightarrow> bitstream_out \<Rightarrow> bitstream_out" where
  "bs_write newbits numbits s =
     (let (s1, newbits1, numbits1) =
            while (\<lambda>(s, newbits, numbits). o_bits s + numbits \<ge> 32 \<and> numbits > 0) write_step
              (s, push_bit (nat (32 - numbits)) newbits, numbits)
      in if numbits1 \<le> 0 then s1
         else s1\<lparr>o_buffer := o_buffer s1 OR drop_bit (nat (o_bits s1)) newbits1,
                 o_bits := o_bits s1 + numbits1\<rparr>)"

definition out_flush :: "bitstream_out \<Rightarrow> u32 \<times> bitstream_out" where
  "out_flush s =
     (let s1 = (while (\<lambda>s. o_bits s > 0) out_byte s)\<lparr>o_bits := 0, o_buffer := 0\<rparr>
      in (o_doffset s1, s1))"

subsection \<open>Bits as lists\<close>

text \<open>
  \<open>wbits v n\<close> are the low \<open>n\<close> bits of \<open>v\<close>, most significant first; \<open>bits_val\<close> reads a
  list of bits back as a word. \<open>bitat bs p\<close> is bit \<open>p\<close> of a byte string, most significant bit of
  each byte first, and zero past its end.
\<close>

definition wbits :: "u32 \<Rightarrow> nat \<Rightarrow> bool list" where
  "wbits v n = map (\<lambda>i. bit v (n - 1 - i)) [0..<n]"

definition bits_val :: "bool list \<Rightarrow> u32" where
  "bits_val bs = horner_sum of_bool 2 (rev bs)"

definition bitat :: "bytes \<Rightarrow> nat \<Rightarrow> bool" where
  "bitat bs p \<longleftrightarrow> p div 8 < length bs \<and> bit (bs ! (p div 8)) (7 - p mod 8)"

definition bits_at :: "bytes \<Rightarrow> nat \<Rightarrow> nat \<Rightarrow> bool list" where
  "bits_at bs p n = map (\<lambda>i. bitat bs (p + i)) [0..<n]"

lemma length_wbits [simp]: "length (wbits v n) = n"
  by (simp add: wbits_def)

lemma nth_wbits [simp]: "i < n \<Longrightarrow> wbits v n ! i = bit v (n - 1 - i)"
  by (simp add: wbits_def)

lemma length_bits_at [simp]: "length (bits_at bs p n) = n"
  by (simp add: bits_at_def)

lemma nth_bits_at [simp]: "i < n \<Longrightarrow> bits_at bs p n ! i = bitat bs (p + i)"
  by (simp add: bits_at_def)

lemma bit_bits_val:
  "bit (bits_val bs) i \<longleftrightarrow> i < 32 \<and> i < length bs \<and> bs ! (length bs - 1 - i)"
  by (auto simp: bits_val_def bit_horner_sum_bit_word_iff rev_nth)

lemma bits_val_wbits: "n \<le> 32 \<Longrightarrow> bits_val (wbits v n) = take_bit n v"
  by (rule bit_word_eqI) (auto simp: bit_bits_val bit_take_bit_iff)

lemma take_bits_at: "take k (bits_at bs p n) = bits_at bs p (min k n)"
  by (rule nth_equalityI) simp_all

lemma drop_bits_at: "drop k (bits_at bs p n) = bits_at bs (p + k) (n - k)"
  by (rule nth_equalityI) (simp_all add: add.assoc)

lemma bits_at_append: "bits_at bs p m @ bits_at bs (p + m) n = bits_at bs p (m + n)"
  by (rule nth_equalityI) (auto simp: nth_append)

subsection \<open>The accumulator\<close>

text \<open>\<open>top_rep w ws\<close>: the topmost bits of \<open>w\<close> are \<open>ws\<close>, the others are zero.\<close>

definition top_rep :: "u32 \<Rightarrow> bool list \<Rightarrow> bool" where
  "top_rep w ws \<longleftrightarrow> length ws \<le> 32 \<and> (\<forall>j<32. bit w j \<longleftrightarrow> 31 - j < length ws \<and> ws ! (31 - j))"

lemma top_rep_zero [simp]: "top_rep 0 []"
  by (simp add: top_rep_def)

lemma top_rep_length: "top_rep w ws \<Longrightarrow> length ws \<le> 32"
  by (simp add: top_rep_def)

lemma top_rep_bit: "top_rep w ws \<Longrightarrow> bit w j \<longleftrightarrow> j < 32 \<and> 31 - j < length ws \<and> ws ! (31 - j)"
  by (cases "j < 32") (auto simp: top_rep_def bit_outside)

lemma top_rep_or:
  assumes "top_rep b xs" "top_rep w ws"
  shows "top_rep (b OR drop_bit (length xs) w) (take 32 (xs @ ws))"
  unfolding top_rep_def
proof (intro conjI allI impI)
  fix j :: nat assume j: "j < 32"
  show "bit (b OR drop_bit (length xs) w) j \<longleftrightarrow>
      31 - j < length (take 32 (xs @ ws)) \<and> take 32 (xs @ ws) ! (31 - j)"
    using j top_rep_length [OF assms(1)]
    by (auto simp: bit_or_iff bit_drop_bit_eq top_rep_bit [OF assms(1)] top_rep_bit [OF assms(2)]
        nth_append add.commute)
qed simp

lemma top_rep_push:
  assumes "top_rep w ws"
  shows "top_rep (push_bit k w) (drop k ws)"
  using top_rep_length [OF assms]
  by (auto simp: top_rep_def bit_push_bit_iff top_rep_bit [OF assms] algebra_simps)

lemma top_rep_wbits: "n \<le> 32 \<Longrightarrow> top_rep (push_bit (32 - n) v) (wbits v n)"
  by (auto simp: top_rep_def bit_push_bit_iff add.commute)

lemma top_rep_drop:
  assumes "top_rep w ws" "n \<le> length ws"
  shows "drop_bit (32 - n) w = bits_val (take n ws)"
  using assms(2) top_rep_length [OF assms(1)]
  by (intro bit_word_eqI) (auto simp: bit_drop_bit_eq top_rep_bit [OF assms(1)] bit_bits_val)

lemma top_rep_byte:
  assumes "top_rep w ws" "k < 8"
  shows "bit (ucast (drop_bit 24 w) :: u8) (7 - k) \<longleftrightarrow> k < length ws \<and> ws ! k"
  using assms(2) by (auto simp: bit_simps top_rep_bit [OF assms(1)])

subsection \<open>The reader\<close>

text \<open>
  \<open>in_rep s data p\<close>: the reader \<open>s\<close> over the bytes \<open>data\<close> has consumed \<open>p\<close> bits, and its
  accumulator holds the next ones.
\<close>

definition in_rep :: "bitstream_in \<Rightarrow> bytes \<Rightarrow> nat \<Rightarrow> bool" where
  "in_rep s data p \<longleftrightarrow>
     i_read s = data \<and> unat (i_dlength s) = length data \<and> 0 \<le> i_bits s \<and>
     0 \<le> i_dbitoffs s \<and> i_dbitoffs s < 8 \<and>
     p + nat (i_bits s) = 8 * unat (i_doffset s) + nat (i_dbitoffs s) \<and>
     top_rep (i_buffer s) (bits_at data p (nat (i_bits s)))"

definition fetched :: "bitstream_in \<Rightarrow> u32" where
  "fetched s =
     (if i_doffset s < i_dlength s
      then push_bit (nat (i_dbitoffs s)) (ucast (i_read s ! unat (i_doffset s))) AND 0xff
      else 0)"

lemma fetched_top:
  assumes "in_rep s data p"
  shows "top_rep (push_bit 24 (fetched s))
     (bits_at data (8 * unat (i_doffset s) + nat (i_dbitoffs s)) (8 - nat (i_dbitoffs s)))"
proof -
  define d where "d = nat (i_dbitoffs s)"
  define q where "q = unat (i_doffset s)"
  have d: "d < 8" and dl: "unat (i_dlength s) = length data" and rd: "i_read s = data"
    using assms by (auto simp: in_rep_def d_def)
  have lt: "i_doffset s < i_dlength s \<longleftrightarrow> q < length data"
    by (simp add: word_less_nat_alt dl q_def)
  have fb: "bit (fetched s) j \<longleftrightarrow> q < length data \<and> d \<le> j \<and> j < 8 \<and> bit (data ! q) (j - d)" for j
    using d by (auto simp: fetched_def lt rd bit_simps simp flip: d_def q_def)
  have ba: "bitat data (8 * q + d + (31 - j)) \<longleftrightarrow> q < length data \<and> bit (data ! q) (j - 24 - d)"
    if "24 + d \<le> j" "j < 32" for j
  proof -
    define k where "k = d + (31 - j)"
    have k: "k < 8" "7 - k = j - 24 - d" using that by (auto simp: k_def)
    then have "(8 * q + k) div 8 = q" "(8 * q + k) mod 8 = k" by simp_all
    with k show ?thesis by (simp add: bitat_def k_def add.assoc)
  qed
  have "bit (push_bit 24 (fetched s)) j \<longleftrightarrow>
      31 - j < length (bits_at data (8 * q + d) (8 - d)) \<and> bits_at data (8 * q + d) (8 - d) ! (31 - j)"
    if j: "j < 32" for j
  proof (cases "24 + d \<le> j")
    case True
    then have "31 - j < 8 - d" using j d by linarith
    with True j ba [OF True j] show ?thesis by (auto simp: bit_push_bit_iff fb)
  next
    case False
    with d j show ?thesis by (auto simp: bit_push_bit_iff fb)
  qed
  with d show ?thesis by (simp add: top_rep_def flip: d_def q_def)
qed

lemma bit_fetched: "bit (fetched s) j \<Longrightarrow> j < 8"
  by (auto simp: fetched_def bit_simps split: if_splits)

lemma fetched_shift:
  "b \<le> 24 \<Longrightarrow> push_bit (24 - b) (fetched s) = drop_bit b (push_bit 24 (fetched s))"
  "24 \<le> b \<Longrightarrow> b < 32 \<Longrightarrow> drop_bit (b - 24) (fetched s) = drop_bit b (push_bit 24 (fetched s))"
  by (rule bit_word_eqI, auto simp: bit_simps add.commute dest: bit_fetched)+

lemma in_rep_bits_le: "in_rep s data p \<Longrightarrow> i_bits s \<le> 32"
  by (auto simp: in_rep_def dest: top_rep_length)

definition fillable :: "bitstream_in \<Rightarrow> bool" where
  "fillable s \<longleftrightarrow> i_bits s \<le> 24 \<or> i_dbitoffs s = 0 \<or> i_bits s = 32"

lemma peek_step_rep:
  assumes rep: "in_rep s data p" and lt: "i_bits s < 32" and fil: "fillable s" and p: "p < 2 ^ 34"
  shows "in_rep (peek_step s) data p \<and> fillable (peek_step s) \<and> i_bits s < i_bits (peek_step s)"
proof -
  define b where "b = nat (i_bits s)"
  define d where "d = nat (i_dbitoffs s)"
  define q where "q = unat (i_doffset s)"
  have bd: "i_bits s = int b" "i_dbitoffs s = int d" "d < 8" "b < 32" "p + b = 8 * q + d"
    and top: "top_rep (i_buffer s) (bits_at data p b)"
    using rep lt by (auto simp: in_rep_def b_def d_def q_def)
  have join: "top_rep (i_buffer s OR drop_bit b (push_bit 24 (fetched s))) (bits_at data p (min 32 (b + (8 - d))))"
    using top_rep_or [OF top fetched_top [OF rep]]
    by (simp add: bd(5) [symmetric] bits_at_append take_bits_at flip: d_def q_def)
  show ?thesis
  proof (cases "b \<le> 24")
    case True
    have "q < 2 ^ 32 - 1" using bd p by simp
    then have q1: "unat (i_doffset s + 1) = q + 1"
      by (simp add: q_def unat_word_ariths)
    have "peek_step s = s\<lparr>i_buffer := i_buffer s OR push_bit (24 - b) (fetched s),
        i_bits := int b + (8 - int d), i_dbitoffs := 0, i_doffset := i_doffset s + 1\<rparr>"
      using True by (simp add: peek_step_def fetched_def Let_def bd nat_diff_distrib')
    moreover have "min 32 (b + (8 - d)) = nat (int b + (8 - int d))" using True bd by simp
    ultimately show ?thesis
      using True rep join bd q1 by (auto simp: in_rep_def fetched_shift fillable_def)
  next
    case False
    then have "d = 0" using fil bd by (auto simp: fillable_def)
    have "peek_step s = s\<lparr>i_dbitoffs := 32 - int b, 
        i_buffer := i_buffer s OR drop_bit (b - 24) (fetched s), i_bits := 32\<rparr>"
      using False bd by (simp add: peek_step_def fetched_def Let_def nat_diff_distrib')
    moreover have "min 32 (b + (8 - d)) = 32" using False \<open>d = 0\<close> by simp
    ultimately show ?thesis
      using False rep join bd \<open>d = 0\<close> by (auto simp: in_rep_def fetched_shift fillable_def q_def)
  qed
qed

lemma peek_fill_rep:
  assumes "in_rep s data p" "fillable s" "p < 2 ^ 34"
  shows "in_rep (peek_fill s) data p \<and> i_bits (peek_fill s) = 32"
  unfolding peek_fill_def
  by (rule while_rule [where P = "\<lambda>s. in_rep s data p \<and> fillable s"
        and r = "measure (\<lambda>s. nat (32 - i_bits s))"])
    (use assms in_rep_bits_le in \<open>fastforce dest: peek_step_rep [OF _ _ _ assms(3)]\<close>)+

text \<open>Reading at most 25 bits gives the next bits of the byte string, most significant first.\<close>

lemma peek_rep:
  assumes rep: "in_rep s data p" and n: "n \<le> 25" and p: "p < 2 ^ 34"
  shows "fst (peek (int n) s) = bits_val (bits_at data p n)
    \<and> in_rep (snd (peek (int n) s)) data p \<and> int n \<le> i_bits (snd (peek (int n) s))"
proof (cases "n = 0")
  case True
  with rep show ?thesis by (auto simp: peek_def bits_at_def bits_val_def in_rep_def)
next
  case False
  define s' where "s' = (if int n > i_bits s then peek_fill s else s)"
  have "int n > i_bits s \<Longrightarrow> fillable s" using n by (simp add: fillable_def)
  then have r: "in_rep s' data p" and b: "int n \<le> i_bits s'"
    using peek_fill_rep [OF rep _ p] rep n by (auto simp: s'_def)
  have "drop_bit (32 - n) (i_buffer s') = bits_val (take n (bits_at data p (nat (i_bits s'))))"
    using r b by (intro top_rep_drop) (auto simp: in_rep_def)
  moreover have "min n (nat (i_bits s')) = n" using b by simp
  ultimately show ?thesis
    using False r b by (simp add: peek_def Let_def take_bits_at nat_diff_distrib' flip: s'_def)
qed

lemma in_remove_rep:
  assumes "in_rep s data p" "int n \<le> i_bits s"
  shows "in_rep (in_remove (int n) s) data (p + n)"
  using assms top_rep_push [of "i_buffer s" "bits_at data p (nat (i_bits s))" n]
  by (auto simp: in_rep_def in_remove_def drop_bits_at nat_diff_distrib')

lemma bs_read_rep:
  assumes "in_rep s data p" "n \<le> 25" "p < 2 ^ 34"
  shows "fst (bs_read (int n) s) = bits_val (bits_at data p n)
    \<and> in_rep (snd (bs_read (int n) s)) data (p + n)"
  using peek_rep [OF assms] in_remove_rep [of "snd (peek (int n) s)" data p n]
  by (simp add: bs_read_def split_beta)

subsection \<open>The writer\<close>

text \<open>
  \<open>out_rep s cap bs\<close>: the writer \<open>s\<close> with room for \<open>cap\<close> bytes has been given the bits \<open>bs\<close>.
  The whole bytes among them that fit are in the destination, the rest is in the accumulator; the
  byte count keeps growing past the capacity, which is how an overflow is noticed.
\<close>

definition out_rep :: "bitstream_out \<Rightarrow> nat \<Rightarrow> bool list \<Rightarrow> bool" where
  "out_rep s cap bs \<longleftrightarrow>
     unat (o_dlength s) = cap \<and> length (o_write s) = cap \<and> 0 \<le> o_bits s \<and>
     length bs = 8 * unat (o_doffset s) + nat (o_bits s) \<and>
     top_rep (o_buffer s) (drop (8 * unat (o_doffset s)) bs) \<and>
     (\<forall>p < 8 * min (unat (o_doffset s)) cap. bitat (o_write s) p = bs ! p)"

lemma mk_bitstream_out_rep:
  "length dest < 2 ^ 32 \<Longrightarrow> out_rep (mk_bitstream_out dest (of_nat (length dest))) (length dest) []"
  by (simp add: out_rep_def mk_bitstream_out_def unat_of_nat_small)

lemma mk_bitstream_in_rep:
  "length src < 2 ^ 32 \<Longrightarrow> in_rep (mk_bitstream_in src (of_nat (length src))) src 0"
  by (simp add: in_rep_def mk_bitstream_in_def unat_of_nat_small bits_at_def)

lemma out_rep_bits_le: "out_rep s cap bs \<Longrightarrow> o_bits s \<le> 32"
  by (auto simp: out_rep_def dest: top_rep_length)

lemma bitat_update:
  assumes "q < length bs"
  shows "bitat (bs[q := b]) p \<longleftrightarrow> (if p div 8 = q then bit b (7 - p mod 8) else bitat bs p)"
  using assms by (auto simp: bitat_def)

lemma out_byte_rep:
  assumes rep: "out_rep s cap bs" and b: "8 \<le> o_bits s" and sm: "length bs < 2 ^ 35"
  shows "out_rep (out_byte s) cap bs"
proof -
  define q where "q = unat (o_doffset s)"
  have len: "length bs = 8 * q + nat (o_bits s)" and top: "top_rep (o_buffer s) (drop (8 * q) bs)"
    and cap: "unat (o_dlength s) = cap" "length (o_write s) = cap"
    and old: "\<forall>p < 8 * min q cap. bitat (o_write s) p = bs ! p"
    using rep by (auto simp: out_rep_def q_def)
  have "q < 2 ^ 32 - 1" using sm len b by simp
  then have q1: "unat (o_doffset s + 1) = q + 1" by (simp add: q_def unat_word_ariths)
  have byte: "bit (ucast (drop_bit 24 (o_buffer s)) :: u8) (7 - p mod 8) = bs ! p" if "p div 8 = q" for p
  proof -
    have "p = 8 * q + p mod 8" using that by auto
    moreover have "p mod 8 < nat (o_bits s)" using b by (simp add: nat_less_iff less_le_trans [of _ 8])
    ultimately show ?thesis
      using top_rep_byte [OF top, of "p mod 8"] len by (simp add: nth_drop)
  qed
  have lt: "o_doffset s < o_dlength s \<longleftrightarrow> q < cap" by (simp add: word_less_nat_alt cap q_def)
  have "bitat (o_write (out_byte s)) p = bs ! p" if p: "p < 8 * min (q + 1) cap" for p
  proof (cases "q < cap")
    case True
    then have "o_write (out_byte s) = (o_write s)[q := ucast (drop_bit 24 (o_buffer s))]"
      by (simp add: out_byte_def lt q_def)
    then show ?thesis using True old p byte [of p] cap
      by (cases "p div 8 = q") (auto simp: bitat_update min_def)
  next
    case False
    then have "o_write (out_byte s) = o_write s" by (simp add: out_byte_def lt)
    with False old p show ?thesis by simp
  qed
  moreover have "top_rep (push_bit 8 (o_buffer s)) (drop (8 * (q + 1)) bs)"
    using top_rep_push [OF top, of 8] by (simp add: add.commute)
  ultimately show ?thesis
    using b len cap by (auto simp: out_rep_def out_byte_def q1)
qed

lemma out_drain_rep:
  assumes "out_rep s cap bs" "length bs < 2 ^ 35"
  shows "out_rep (out_drain s) cap bs \<and> o_bits (out_drain s) < 8"
  unfolding out_drain_def
  by (rule while_rule [where P = "\<lambda>s. out_rep s cap bs" and r = "measure (\<lambda>s. nat (o_bits s))"])
    (use assms out_byte_rep in \<open>auto simp: out_byte_def\<close>)

text \<open>Moving the front of the pending bits into the accumulator.\<close>

lemma out_offload_rep:
  assumes rep: "out_rep s cap bs" and w: "top_rep w ws"
  shows "out_rep (s\<lparr>o_buffer := o_buffer s OR drop_bit (nat (o_bits s)) w,
      o_bits := o_bits s + int (min (32 - nat (o_bits s)) (length ws))\<rparr>) cap
    (bs @ take (min (32 - nat (o_bits s)) (length ws)) ws)"
proof -
  have len: "length (drop (8 * unat (o_doffset s)) bs) = nat (o_bits s)" and b: "0 \<le> o_bits s"
    using rep by (auto simp: out_rep_def)
  have "take 32 (drop (8 * unat (o_doffset s)) bs @ ws)
      = drop (8 * unat (o_doffset s)) bs @ take (min (32 - nat (o_bits s)) (length ws)) ws"
    using len out_rep_bits_le [OF rep] by (simp add: min_def)
  moreover have "top_rep (o_buffer s OR drop_bit (nat (o_bits s)) w)
      (take 32 (drop (8 * unat (o_doffset s)) bs @ ws))"
    using top_rep_or [OF _ w, of "o_buffer s" "drop (8 * unat (o_doffset s)) bs"] rep len
    by (simp add: out_rep_def)
  ultimately show ?thesis
    using rep b by (auto simp: out_rep_def nth_append nat_add_distrib)
qed

definition write_inv :: "nat \<Rightarrow> bool list \<Rightarrow> bool list \<Rightarrow> bitstream_out \<times> u32 \<times> int \<Rightarrow> bool" where
  "write_inv cap bs ws = (\<lambda>(s, w, n). \<exists>k. n = int (length ws) - int k \<and> k \<le> length ws \<and>
     out_rep s cap (bs @ take k ws) \<and> top_rep w (drop k ws))"

lemma write_step_inv:
  assumes inv: "write_inv cap bs ws (s, w, n)" and sm: "length bs < 2 ^ 34" "length ws \<le> 32"
    and g: "o_bits s + n \<ge> 32" "n > 0"
  shows "write_inv cap bs ws (write_step (s, w, n)) \<and>
    (write_step (s, w, n), (s, w, n)) \<in> measure (\<lambda>(s, w, n). 2 * nat n + (if o_bits s + n \<ge> 32 then 1 else 0))"
proof -
  obtain k where k: "n = int (length ws) - int k" "k \<le> length ws"
    and rep: "out_rep s cap (bs @ take k ws)" and top: "top_rep w (drop k ws)"
    using inv by (auto simp: write_inv_def)
  define s1 where "s1 = out_drain s"
  have s1: "out_rep s1 cap (bs @ take k ws)" "o_bits s1 < 8" "0 \<le> o_bits s1"
    using out_drain_rep [OF rep] sm by (auto simp: s1_def out_rep_def)
  show ?thesis
  proof (cases "o_bits s1 + n \<ge> 32")
    case True
    define r where "r = min (32 - nat (o_bits s1)) (length ws - k)"
    have r: "min (32 - o_bits s1) n = int r" "0 < r" "k + r \<le> length ws"
      using s1 k g by (auto simp: r_def min_def)
    have "out_rep (s1\<lparr>o_buffer := o_buffer s1 OR drop_bit (nat (o_bits s1)) w,
        o_bits := o_bits s1 + int r\<rparr>) cap ((bs @ take k ws) @ take r (drop k ws))"
      using out_offload_rep [OF s1(1) top] by (simp add: r_def)
    moreover have "(bs @ take k ws) @ take r (drop k ws) = bs @ take (k + r) ws"
      by (simp add: take_add)
    ultimately show ?thesis
      using True r k top_rep_push [OF top, of r]
      by (auto simp: write_step_def Let_def write_inv_def add.commute simp flip: s1_def intro!: exI [of _ "k + r"])
  next
    case False
    with k s1 top g show ?thesis
      by (auto simp: write_step_def Let_def write_inv_def simp flip: s1_def)
  qed
qed

text \<open>Writing \<open>n\<close> bits appends the low \<open>n\<close> bits of the value, most significant first.\<close>

lemma bs_write_rep:
  assumes rep: "out_rep s cap bs" and n: "n \<le> 32" and sm: "length bs < 2 ^ 34"
  shows "out_rep (bs_write v (int n) s) cap (bs @ wbits v n)"
proof -
  define W where "W = wbits v n"
  define G :: "bitstream_out \<times> u32 \<times> int \<Rightarrow> bool"
    where "G = (\<lambda>(s, newbits, numbits). o_bits s + numbits \<ge> 32 \<and> numbits > 0)"
  define r where "r = while G write_step (s, push_bit (nat (32 - int n)) v, int n)"
  have lW: "length W = n" by (simp add: W_def)
  have "write_inv cap bs W r \<and> \<not> G r"
    unfolding r_def
  proof (rule while_rule [where P = "write_inv cap bs W" and r =
        "measure (\<lambda>(s, w, n). 2 * nat n + (if o_bits s + n \<ge> 32 then 1 else 0))"])
    show "write_inv cap bs W (s, push_bit (nat (32 - int n)) v, int n)"
      using rep top_rep_wbits [OF n, of v] n
      by (auto simp: write_inv_def W_def nat_diff_distrib' intro!: exI [of _ 0])
    fix x assume "write_inv cap bs W x" "G x"
    then show "write_inv cap bs W (write_step x)"
      and "(write_step x, x) \<in> measure (\<lambda>(s, w, n). 2 * nat n + (if o_bits s + n \<ge> 32 then 1 else 0))"
      using write_step_inv [of cap bs W "fst x" "fst (snd x)" "snd (snd x)"] sm n lW
      by (auto simp only: G_def prod.collapse split_beta)
  qed auto
  then obtain s1 w1 n1 k where r1: "r = (s1, w1, n1)" and k: "n1 = int n - int k" "k \<le> n"
    and rep1: "out_rep s1 cap (bs @ take k W)" and top1: "top_rep w1 (drop k W)" and ng: "\<not> G r"
    by (cases r) (auto simp: write_inv_def lW)
  have wr: "bs_write v (int n) s =
      (if n1 \<le> 0 then s1 else s1\<lparr>o_buffer := o_buffer s1 OR drop_bit (nat (o_bits s1)) w1, o_bits := o_bits s1 + n1\<rparr>)"
    by (simp add: bs_write_def r1 [unfolded r_def G_def])
  show ?thesis
  proof (cases "n1 \<le> 0")
    case True
    with k rep1 lW wr show ?thesis by (simp add: W_def)
  next
    case False
    then have "o_bits s1 + n1 < 32" using ng by (auto simp: G_def r1)
    then have m: "min (32 - nat (o_bits s1)) (length (drop k W)) = n - k" "n1 = int (n - k)"
      using k rep1 by (auto simp: lW out_rep_def)
    have "(bs @ take k W) @ take (n - k) (drop k W) = bs @ W" using k lW by simp
    with out_offload_rep [OF rep1 top1, unfolded m(1)] show ?thesis
      using False by (simp only: wr m(2) if_False W_def)
  qed
qed

text \<open>Flushing pads with zero bits to the next byte boundary and returns the number of bytes.\<close>

lemma top_rep_pad:
  assumes "top_rep w ws" "length ws + k \<le> 32"
  shows "top_rep w (ws @ replicate k False)"
  using assms(2) by (auto simp: top_rep_def top_rep_bit [OF assms(1)] nth_append)

lemma out_rep_empty: "out_rep s cap bs \<Longrightarrow> o_bits s = 0 \<Longrightarrow> o_buffer s = 0"
  by (auto simp: out_rep_def top_rep_def intro!: bit_word_eqI)

definition flush_inv :: "nat \<Rightarrow> bool list \<Rightarrow> bitstream_out \<Rightarrow> bool" where
  "flush_inv cap bs s \<longleftrightarrow>
     (if 0 \<le> o_bits s then out_rep s cap bs
      else - 8 < o_bits s \<and> out_rep (s\<lparr>o_bits := 0, o_buffer := 0\<rparr>) cap (bs @ replicate (nat (- o_bits s)) False))"

lemma flush_step_inv:
  assumes inv: "flush_inv cap bs s" and pos: "0 < o_bits s" and sm: "length bs < 2 ^ 34"
  shows "flush_inv cap bs (out_byte s)"
proof (cases "8 \<le> o_bits s")
  case True
  have "o_bits (out_byte s) = o_bits s - 8" by (simp add: out_byte_def)
  with True inv out_byte_rep [of s cap bs] sm show ?thesis by (simp add: flush_inv_def)
next
  case False
  define k where "k = nat (8 - o_bits s)"
  define s8 where "s8 = s\<lparr>o_bits := 8\<rparr>"
  have rep: "out_rep s cap bs" using inv pos by (simp add: flush_inv_def)
  have len: "length (drop (8 * unat (o_doffset s)) bs) + k = 8" "length bs + k = 8 * unat (o_doffset s) + 8"
    using rep False by (auto simp: out_rep_def k_def)
  have "out_rep s8 cap (bs @ replicate k False)"
    using rep top_rep_pad [of "o_buffer s" "drop (8 * unat (o_doffset s)) bs" k] len
    by (auto simp: out_rep_def s8_def nth_append)
  then have "out_rep (out_byte s8) cap (bs @ replicate k False)"
    by (rule out_byte_rep) (use sm pos in \<open>simp_all add: s8_def k_def\<close>)
  moreover from this have "o_buffer (out_byte s8) = 0"
    by (rule out_rep_empty) (simp add: out_byte_def s8_def)
  moreover have "(out_byte s)\<lparr>o_bits := 0, o_buffer := 0\<rparr> = (out_byte s8)\<lparr>o_buffer := 0\<rparr>"
    by (cases s) (simp add: out_byte_def s8_def)
  ultimately have "out_rep ((out_byte s)\<lparr>o_bits := 0, o_buffer := 0\<rparr>) cap (bs @ replicate k False)"
    by (cases "out_byte s8") simp
  then show ?thesis
    using False pos by (simp add: flush_inv_def k_def out_byte_def)
qed

lemma out_flush_rep:
  assumes rep: "out_rep s cap bs" and sm: "length bs < 2 ^ 34"
  obtains k where "k < 8" "out_rep (snd (out_flush s)) cap (bs @ replicate k False)"
    "o_bits (snd (out_flush s)) = 0" "unat (fst (out_flush s)) = (length bs + 7) div 8"
proof -
  define t where "t = while (\<lambda>s. o_bits s > 0) out_byte s"
  have "flush_inv cap bs t \<and> \<not> 0 < o_bits t"
    unfolding t_def
  proof (rule while_rule [where P = "flush_inv cap bs" and r = "measure (\<lambda>s. nat (o_bits s))"])
    show "flush_inv cap bs s" using rep by (simp add: flush_inv_def out_rep_def)
    fix s assume "flush_inv cap bs s" "0 < o_bits s"
    then show "flush_inv cap bs (out_byte s)" using sm by (rule flush_step_inv)
    show "(out_byte s, s) \<in> measure (\<lambda>s. nat (o_bits s))"
      using \<open>0 < o_bits s\<close> by (simp add: out_byte_def)
  qed auto
  then obtain k where k: "k < 8" and rept: "out_rep (t\<lparr>o_bits := 0, o_buffer := 0\<rparr>) cap (bs @ replicate k False)"
  proof (cases "o_bits t = 0")
    case True
    then have "out_rep t cap bs" using \<open>flush_inv cap bs t \<and> _\<close> by (simp add: flush_inv_def)
    moreover have "t\<lparr>o_bits := 0, o_buffer := 0\<rparr> = t"
      using True out_rep_empty [OF calculation] by simp
    ultimately show ?thesis using that [of 0] by simp
  next
    case False
    with \<open>flush_inv cap bs t \<and> _\<close> have "nat (- o_bits t) < 8"
      and "out_rep (t\<lparr>o_bits := 0, o_buffer := 0\<rparr>) cap (bs @ replicate (nat (- o_bits t)) False)"
      by (auto simp: flush_inv_def)
    then show ?thesis by (rule that)
  qed
  moreover have "out_flush s = (o_doffset t, t\<lparr>o_bits := 0, o_buffer := 0\<rparr>)"
    by (simp add: out_flush_def t_def Let_def)
  moreover have "unat (o_doffset t) = (length bs + 7) div 8"
  proof -
    have "length bs + k = 8 * unat (o_doffset t)" using rept by (simp add: out_rep_def)
    then show ?thesis using k by linarith
  qed
  ultimately show ?thesis using that by simp
qed

lemma out_overflow_iff:
  "out_rep s cap bs \<Longrightarrow> out_overflow s \<longleftrightarrow> cap < length bs div 8 - nat (o_bits s) div 8"
  by (auto simp: out_rep_def out_overflow_def word_less_nat_alt)

lemma out_rep_bits_at:
  assumes "out_rep s cap bs" "o_bits s = 0" "\<not> out_overflow s"
  shows "p + n \<le> length bs \<Longrightarrow> bits_at (o_write s) p n = take n (drop p bs)"
  using assms by (intro nth_equalityI) (auto simp: out_rep_def out_overflow_def word_less_nat_alt min_def)

subsection \<open>Positions: offsets, flushing and overflow of the reader\<close>

lemma div8_step: "8 \<le> b \<Longrightarrow> b div 8 = Suc ((b - 8) div 8) \<and> (b - 8) mod 8 = b mod (8 :: nat)"
  by (auto simp: le_div_geq le_mod_geq)

lemma in_back_up:
  "while (\<lambda>(q, b). b \<ge> 8) (\<lambda>(q, b). (q - 1, b - 8)) (q :: u32, int b) = (q - of_nat (b div 8), int (b mod 8))"
proof (induction b arbitrary: q rule: less_induct)
  case (less b)
  show ?case
  proof (cases "b \<ge> 8")
    case True
    with less.IH [of "b - 8" "q - 1"] div8_step [OF True] show ?thesis
      by (subst while_unfold) (simp add: of_nat_diff)
  qed (subst while_unfold, simp)
qed

lemma in_back_up_rec:
  "i_bits s = int b \<Longrightarrow>
   while (\<lambda>s. i_bits s \<ge> 8) (\<lambda>s. s\<lparr>i_doffset := i_doffset s - 1, i_bits := i_bits s - 8\<rparr>) s
   = s\<lparr>i_doffset := i_doffset s - of_nat (b div 8), i_bits := int (b mod 8)\<rparr>"
proof (induction b arbitrary: s rule: less_induct)
  case (less b)
  show ?case
  proof (cases "b \<ge> 8")
    case True
    with less.IH [of "b - 8" "s\<lparr>i_doffset := i_doffset s - 1, i_bits := int b - 8\<rparr>"] less.prems
      div8_step [OF True] show ?thesis
      by (subst while_unfold) (simp add: of_nat_diff)
  qed (subst while_unfold, use less.prems in simp)
qed

text \<open>The offset of the first byte no bit of which has been consumed.\<close>

lemma in_rep_backed:
  assumes "in_rep s data p"
  defines "b \<equiv> nat (i_bits s)"
  shows "i_bits s = int b" "unat (i_doffset s - of_nat (b div 8)) = unat (i_doffset s) - b div 8"
    "b div 8 \<le> unat (i_doffset s)"
    "p + b mod 8 = 8 * (unat (i_doffset s) - b div 8) + nat (i_dbitoffs s)"
    "(p + 7) div 8 = unat (i_doffset s) - b div 8 + (if i_dbitoffs s > int (b mod 8) then 1 else 0)"
proof -
  define q where "q = unat (i_doffset s)"
  define d where "d = nat (i_dbitoffs s)"
  have facts: "p + b = 8 * q + d" "d < 8" "i_dbitoffs s = int d" "b \<le> 32"
    using assms in_rep_bits_le [OF assms(1)] by (auto simp: in_rep_def b_def q_def d_def)
  show "i_bits s = int b" using assms by (simp add: in_rep_def b_def)
  show le: "b div 8 \<le> unat (i_doffset s)" using facts by (simp add: q_def [symmetric])
  show "unat (i_doffset s - of_nat (b div 8)) = unat (i_doffset s) - b div 8"
    using le facts by (subst unat_sub) (auto simp: word_le_nat_alt unat_of_nat_small)
  have qb: "p + b mod 8 = 8 * (q - b div 8) + d"
    using facts le div_mult_mod_eq [of b 8] unfolding q_def [symmetric] by linarith
  then show "p + b mod 8 = 8 * (unat (i_doffset s) - b div 8) + nat (i_dbitoffs s)"
    by (simp add: q_def d_def)
  have "(p + 7) div 8 = q - b div 8 + (if d > b mod 8 then 1 else 0)"
    using qb facts(2) mod_less_divisor [of 8 b, simplified] by (simp split: if_splits) linarith
  then show "(p + 7) div 8 = unat (i_doffset s) - b div 8 + (if i_dbitoffs s > int (b mod 8) then 1 else 0)"
    by (simp add: q_def facts(3))
qed

lemma read_offset_rep:
  assumes "in_rep s data p" "p < 2 ^ 34"
  shows "unat (read_offset s) = (p + 7) div 8"
proof -
  define b where "b = nat (i_bits s)"
  note bk = in_rep_backed [OF assms(1), folded b_def]
  have lt: "unat (i_doffset s) - b div 8 < 2 ^ 32 - 1" using bk(5) assms(2) by (simp split: if_splits)
  show ?thesis
    using bk(2) lt
    by (simp add: read_offset_def bk(1) in_back_up bk(5) unat_word_ariths split: prod.splits)
qed

lemma in_flush_rep:
  assumes "in_rep s data p" "p < 2 ^ 34"
  shows "unat (fst (in_flush s)) = (p + 7) div 8 \<and> in_rep (snd (in_flush s)) data (8 * ((p + 7) div 8))"
proof -
  define b where "b = nat (i_bits s)"
  note bk = in_rep_backed [OF assms(1), folded b_def]
  have lt: "unat (i_doffset s) - b div 8 < 2 ^ 32 - 1" using bk(5) assms(2) by (simp split: if_splits)
  show ?thesis
    using bk(2) lt assms(1)
    by (simp add: in_flush_def in_back_up_rec [OF bk(1)] Let_def bk(5) unat_word_ariths in_rep_def bits_at_def)
qed

text \<open>
  A reader that has stayed inside its data never reports an overflow, and one that reports an
  overflow has really read past the end. The converse fails: up to seven bits past the end go
  unnoticed (\<open>in_overflow_misses\<close>).
\<close>

lemma in_overflow_rep:
  assumes "in_rep s data p"
  shows "in_overflow s \<longleftrightarrow> length data < unat (i_doffset s) - nat (i_bits s) div 8"
proof -
  note bk = in_rep_backed [OF assms]
  have "word_of_int (i_bits s div 8) = (of_nat (nat (i_bits s) div 8) :: u32)"
    using bk(1) by (metis of_int_of_nat_eq of_nat_numeral zdiv_int)
  then show ?thesis
    using assms bk(2) by (simp add: in_overflow_def word_less_nat_alt in_rep_def)
qed

lemma in_overflow_sound:
  assumes "in_rep s data p" "in_overflow s"
  shows "8 * length data < p"
  using in_rep_backed(4) [OF assms(1)] in_overflow_rep [OF assms(1)] assms(2)
    mod_less_divisor [of 8 "nat (i_bits s)"] by auto

lemma in_overflow_misses_bound:
  assumes "in_rep s data p" "\<not> in_overflow s"
  shows "p \<le> 8 * length data + 7"
proof -
  have "nat (i_dbitoffs s) < 8" using assms(1) by (auto simp: in_rep_def)
  then show ?thesis
    using in_rep_backed(4) [OF assms(1)] in_overflow_rep [OF assms(1)] assms(2) by linarith
qed

text \<open>
  \<open>in_at lim s bs\<close>: the bits the reader delivers up to the position \<open>lim\<close> are \<open>bs\<close>.
\<close>

definition in_at :: "nat \<Rightarrow> bitstream_in \<Rightarrow> bool list \<Rightarrow> bool" where
  "in_at lim s bs \<longleftrightarrow> (\<exists>data p. in_rep s data p \<and> p + length bs = lim \<and> lim < 2 ^ 34 \<and>
     lim \<le> 8 * length data \<and> bits_at data p (length bs) = bs)"

lemma in_at_split:
  assumes "in_at lim s (xs @ ys)"
  obtains data p where "in_rep s data p" "p < 2 ^ 34" "bits_at data p (length xs) = xs"
    "\<And>s'. in_rep s' data (p + length xs) \<Longrightarrow> in_at lim s' ys"
proof -
  obtain data p where rep: "in_rep s data p" "p + length (xs @ ys) = lim" "lim < 2 ^ 34" "lim \<le> 8 * length data"
    and bits: "bits_at data p (length (xs @ ys)) = xs @ ys"
    using assms by (auto simp: in_at_def)
  have "bits_at data p (length xs) @ bits_at data (p + length xs) (length ys) = xs @ ys"
    using bits by (simp add: bits_at_append)
  then have "bits_at data p (length xs) = xs" "bits_at data (p + length xs) (length ys) = ys" by auto
  with rep that show ?thesis by (fastforce simp: in_at_def)
qed

lemma in_at_no_overflow: "in_at lim s bs \<Longrightarrow> \<not> in_overflow s"
  using in_overflow_sound by (fastforce simp: in_at_def)

lemma bs_read_at:
  assumes "in_at lim s (wbits v n @ rest)" "n \<le> 25"
  shows "fst (bs_read (int n) s) = take_bit n v \<and> in_at lim (snd (bs_read (int n) s)) rest"
proof -
  obtain data p where rep: "in_rep s data p" "p < 2 ^ 34" and bits: "bits_at data p n = wbits v n"
    and next': "\<And>s'. in_rep s' data (p + n) \<Longrightarrow> in_at lim s' rest"
    using in_at_split [OF assms(1)] by (metis length_wbits)
  from bs_read_rep [OF rep(1) assms(2) rep(2)] next' show ?thesis
    using assms(2) by (simp add: bits bits_val_wbits)
qed

text \<open>A finished buffer, read again from its start, delivers what was written.\<close>

lemma flushed_in_at:
  assumes rep: "out_rep s cap bs" and sm: "length bs + 7 < 2 ^ 34" and fits: "length bs \<le> 8 * cap" and cap: "cap < 2 ^ 32"
  shows "in_at (length bs) (mk_bitstream_in (o_write (snd (out_flush s))) (of_nat cap)) bs"
    and "\<not> out_overflow (snd (out_flush s))"
    and "unat (fst (out_flush s)) = (length bs + 7) div 8"
    and "length (o_write (snd (out_flush s))) = cap"
proof -
  have "length bs < 2 ^ 34" using sm by simp
  then obtain k where k: "k < 8" and out: "out_rep (snd (out_flush s)) cap (bs @ replicate k False)"
    and bits0: "o_bits (snd (out_flush s)) = 0" and len: "unat (fst (out_flush s)) = (length bs + 7) div 8"
    using out_flush_rep [OF rep] by metis
  let ?s = "snd (out_flush s)"
  have d8: "length bs + k = 8 * unat (o_doffset ?s)" using out bits0 by (simp add: out_rep_def)
  then show nov: "\<not> out_overflow ?s"
    using out fits k by (simp add: out_rep_def out_overflow_def word_less_nat_alt)
  show cl: "length (o_write ?s) = cap" using out by (simp add: out_rep_def)
  have "in_rep (mk_bitstream_in (o_write ?s) (of_nat cap)) (o_write ?s) 0"
    using mk_bitstream_in_rep [of "o_write ?s"] cap cl by simp
  moreover have "bits_at (o_write ?s) 0 (length bs) = bs"
    using out_rep_bits_at [OF out bits0 nov, of 0 "length bs"] by simp
  ultimately show "in_at (length bs) (mk_bitstream_in (o_write ?s) (of_nat cap)) bs"
    unfolding in_at_def using sm fits cl by (intro exI [of _ "o_write ?s"] exI [of _ 0]) simp
  show "unat (fst (out_flush s)) = (length bs + 7) div 8" by (rule len)
qed

lemma flush_fits:
  assumes rep: "out_rep s cap bs" and sm: "length bs < 2 ^ 34" and nov: "\<not> out_overflow (snd (out_flush s))"
  shows "length bs \<le> 8 * cap"
proof -
  obtain k where "out_rep (snd (out_flush s)) cap (bs @ replicate k False)" "o_bits (snd (out_flush s)) = 0"
    using out_flush_rep [OF rep sm] by metis
  then show ?thesis using nov by (simp add: out_rep_def out_overflow_def word_less_nat_alt)
qed

subsection \<open>Symbol coders\<close>

text \<open>
  The contract between the bit streams and everything that is coded on them: \<open>wr\<close> appends the bits
  \<open>enc v\<close> of a good symbol \<open>v\<close>, and \<open>rd (key v)\<close>, positioned at these bits, returns \<open>dec v\<close> and
  stops behind them. A list of symbols then survives writing, flushing and reading.
\<close>

primrec read_all :: "('k \<Rightarrow> 's \<Rightarrow> 'r \<times> 's) \<Rightarrow> 'k list \<Rightarrow> 's \<Rightarrow> 'r list \<times> 's" where
  "read_all rd [] s = ([], s)"
| "read_all rd (k # ks) s = (let (r, s') = rd k s; (rs, s'') = read_all rd ks s' in (r # rs, s''))"

locale symbol_writer =
  fixes wr :: "'v \<Rightarrow> bitstream_out \<Rightarrow> bitstream_out"
    and enc :: "'v \<Rightarrow> bool list"
    and good :: "'v \<Rightarrow> bool"
  assumes wr_rep: "good v \<Longrightarrow> out_rep s cap bs \<Longrightarrow> length bs < 2 ^ 34 \<Longrightarrow> out_rep (wr v s) cap (bs @ enc v)"
begin

lemma write_all_rep:
  assumes "\<forall>v \<in> set vs. good v" "out_rep s cap bs" "length bs + length (concat (map enc vs)) < 2 ^ 34"
  shows "out_rep (fold wr vs s) cap (bs @ concat (map enc vs))"
  using assms
proof (induction vs arbitrary: s bs)
  case (Cons v vs)
  have "out_rep (wr v s) cap (bs @ enc v)" using Cons.prems by (intro wr_rep) auto
  with Cons.IH [of "wr v s" "bs @ enc v"] Cons.prems show ?case by simp
qed simp

end

locale symbol_coder = symbol_writer +
  fixes rd :: "'k \<Rightarrow> bitstream_in \<Rightarrow> 'r \<times> bitstream_in"
    and key :: "'a \<Rightarrow> 'k"
    and dec :: "'a \<Rightarrow> 'r"
  assumes rd_at: "good v \<Longrightarrow> in_at lim t (enc v @ rest) \<Longrightarrow> fst (rd (key v) t) = dec v \<and> in_at lim (snd (rd (key v) t)) rest"
begin

lemma read_all_at:
  assumes "\<forall>v \<in> set vs. good v" "in_at lim s (concat (map enc vs) @ rest)"
  shows "fst (read_all rd (map key vs) s) = map dec vs \<and> in_at lim (snd (read_all rd (map key vs) s)) rest"
  using assms
proof (induction vs arbitrary: s)
  case (Cons v vs)
  have "fst (rd (key v) s) = dec v \<and> in_at lim (snd (rd (key v) s)) (concat (map enc vs) @ rest)"
    using Cons.prems by (intro rd_at) auto
  with Cons.IH [of "snd (rd (key v) s)"] Cons.prems show ?case by (simp add: Let_def split_beta)
qed simp

theorem write_flush_read:
  assumes "\<forall>v \<in> set vs. good v" "length (concat (map enc vs)) \<le> 8 * length dest" "length dest < 2 ^ 30"
  defines "s \<equiv> snd (out_flush (fold wr vs (mk_bitstream_out dest (of_nat (length dest)))))"
  shows "fst (read_all rd (map key vs) (mk_bitstream_in (o_write s) (of_nat (length dest)))) = map dec vs"
proof -
  have "out_rep (fold wr vs (mk_bitstream_out dest (of_nat (length dest)))) (length dest) ([] @ concat (map enc vs))"
    using assms by (intro write_all_rep mk_bitstream_out_rep) auto
  then have "in_at (length (concat (map enc vs))) (mk_bitstream_in (o_write s) (of_nat (length dest))) (concat (map enc vs) @ [])"
    unfolding s_def append_Nil append_Nil2 using assms(2,3) by (intro flushed_in_at(1)) auto
  from read_all_at [OF assms(1) this] show ?thesis by simp
qed

end

text \<open>Plain bit fields: \<open>write(value, numbits)\<close> against \<open>read(numbits)\<close>.\<close>

interpretation field: symbol_coder "\<lambda>(v, n). bs_write v (int n)" "\<lambda>(v, n). wbits v n"
  "\<lambda>(v, n). n \<le> 25" "\<lambda>n. bs_read (int n)" snd "\<lambda>(v, n). take_bit n v"
  by unfold_locales (auto simp: bs_write_rep bs_read_at)

lemma read_fields_rep:
  assumes "in_rep s data p" "\<forall>n \<in> set ns. n \<le> 25" "p + sum_list ns < 2 ^ 34"
  shows "in_rep (snd (read_all (\<lambda>n. bs_read (int n)) ns s)) data (p + sum_list ns)"
  using assms
proof (induction ns arbitrary: s p)
  case (Cons n ns)
  have "in_rep (snd (bs_read (int n) s)) data (p + n)" using bs_read_rep [of s data p n] Cons.prems by simp
  with Cons.IH [of "snd (bs_read (int n) s)" "p + n"] Cons.prems show ?case
    by (simp add: Let_def split_beta add.assoc)
qed simp

subsection \<open>Properties\<close>

text \<open>
  C25: Writing any sequence of bit fields of at most 25 bits, flushing, and reading the buffer back
  with the same widths returns every field (its low bits), whatever the buffer held before.
\<close>

theorem bitstream_roundtrip:
  assumes "\<forall>(v, n) \<in> set fs. n \<le> 25" "(\<Sum>(v, n)\<leftarrow>fs. n) \<le> 8 * length dest" "length dest < 2 ^ 30"
  shows "fst (read_all (\<lambda>n. bs_read (int n)) (map snd fs)
      (mk_bitstream_in (o_write (snd (out_flush (fold (\<lambda>(v, n). bs_write v (int n)) fs
         (mk_bitstream_out dest (of_nat (length dest))))))) (of_nat (length dest))))
    = map (\<lambda>(v, n). take_bit n v) fs"
proof -
  have "length (concat (map (\<lambda>(v, n). wbits v n) fs)) = (\<Sum>(v, n)\<leftarrow>fs. n)" by (induction fs) auto
  with field.write_flush_read [of fs dest] assms show ?thesis by (simp add: split_def)
qed

theorem bitstream_roundtrip_witness:
  "fst (read_all (\<lambda>n. bs_read (int n)) [4, 12, 25]
      (mk_bitstream_in (o_write (snd (out_flush (fold (\<lambda>(v, n). bs_write v (int n)) [(5, 4), (0xabc, 12), (0x1234567, 25)]
         (mk_bitstream_out (replicate 6 0xff) (of_nat (length (replicate 6 (0xff :: u8)))))))))
        (of_nat (length (replicate 6 (0xff :: u8))))))
    = [take_bit 4 5, take_bit 12 0xabc, take_bit 25 0x1234567]"
  using bitstream_roundtrip [of "[(5, 4), (0xabc, 12), (0x1234567, 25)]" "replicate 6 0xff"] by simp

text \<open>
  C29: The reader's overflow test. It never fires while the reader is inside its data; when it does
  not fire, the reader is at most seven bits past the end.
\<close>

theorem in_overflow_spec:
  assumes "in_rep s data p"
  shows "(in_overflow s \<longrightarrow> 8 * length data < p) \<and> (\<not> in_overflow s \<longrightarrow> p \<le> 8 * length data + 7)"
  using in_overflow_sound [OF assms] in_overflow_misses_bound [OF assms] by blast

theorem in_overflow_spec_witness:
  "in_rep (mk_bitstream_in [1, 2] 2) [1, 2] 0 \<and> \<not> in_overflow (mk_bitstream_in [1, 2] 2)"
proof -
  have rep: "in_rep (mk_bitstream_in [1, 2] 2) [1, 2] 0" using mk_bitstream_in_rep [of "[1, 2]"] by simp
  with in_overflow_spec [OF rep] show ?thesis by simp
qed

text \<open>
  The test does miss an overrun: after reading 35 bits from four bytes it still reports none.
\<close>

theorem in_overflow_misses:
  "let s = snd (read_all (\<lambda>n. bs_read (int n)) [25, 2, 8] (mk_bitstream_in [1, 2, 3, 4] 4))
   in in_rep s [1, 2, 3, 4] 35 \<and> \<not> in_overflow s"
proof -
  have "in_rep (mk_bitstream_in [1, 2, 3, 4] 4) [1, 2, 3, 4] 0" using mk_bitstream_in_rep [of "[1, 2, 3, 4]"] by simp
  from read_fields_rep [OF this, of "[25, 2, 8]"]
  have "in_rep (snd (read_all (\<lambda>n. bs_read (int n)) [25, 2, 8] (mk_bitstream_in [1, 2, 3, 4] 4))) [1, 2, 3, 4] 35" by simp
  moreover have "\<not> in_overflow (snd (read_all (\<lambda>n. bs_read (int n)) [25, 2, 8] (mk_bitstream_in [1, 2, 3, 4] 4)))"
    by (simp add: in_overflow_def mk_bitstream_in_def bs_read_def peek_def peek_fill_def while_unfold peek_step_def in_remove_def)
  ultimately show ?thesis unfolding Let_def by blast
qed

end
