(* ===== verification/Huffman.thy ===== *)
theory Huffman
  imports Bitstream "HOL-Library.Sublist"
begin

text \<open>
  Static Huffman coding, \<^verbatim>\<open>lib/util/huffman.cpp\<close> and \<^verbatim>\<open>huffman.h\<close>: the node array, canonical code
  assignment, the decoder's lookup table, single-symbol coding, the run-length coded export and
  import of a tree. Unsigned fields are natural numbers with the wrap-around of their width written
  out. A store outside an array, which is undefined behaviour in the source, is the explicit
  outcome \<open>Out_Of_Bounds\<close> of the model.
\<close>

subsection \<open>Data\<close>

datatype huffman_error =
    HUFFERR_TOO_MANY_BITS
  | HUFFERR_INVALID_DATA
  | HUFFERR_INPUT_BUFFER_TOO_SMALL
  | HUFFERR_OUTPUT_BUFFER_TOO_SMALL
  | HUFFERR_INTERNAL_INCONSISTENCY
  | HUFFERR_TOO_MANY_CONTEXTS

datatype huff_fault = Huff_Error huffman_error | Out_Of_Bounds | Division_By_Zero

record node_t =
  n_parent :: "nat option"
  n_count :: nat
  n_weight :: nat
  n_bits :: nat
  n_numbits :: nat

record huffman_context =
  m_numcodes :: nat
  m_maxbits :: nat
  m_lookup :: "u16 list"
  m_datahisto :: "nat list"
  m_huffnode :: "node_t list"

definition node_null :: node_t where
  "node_null = \<lparr>n_parent = None, n_count = 0, n_weight = 0, n_bits = 0, n_numbits = 0\<rparr>"

text \<open>
  The constructors. \<open>maxbits > 24\<close> throws. The arrays of the encoder and decoder templates have
  their declared sizes; their uninitialised contents are left to the caller as \<open>nodes\<close>,
  \<open>lookup\<close> and \<open>histo\<close>.
\<close>

definition huffman_context_base ::
    "nat \<Rightarrow> nat \<Rightarrow> u16 list \<Rightarrow> nat list \<Rightarrow> node_t list \<Rightarrow> huff_fault + huffman_context" where
  "huffman_context_base numcodes maxbits lookup histo nodes =
     (if maxbits > 24 then Inl (Huff_Error HUFFERR_TOO_MANY_BITS)
      else Inr \<lparr>m_numcodes = numcodes, m_maxbits = maxbits, m_lookup = lookup, m_datahisto = histo,
                m_huffnode = nodes\<rparr>)"

definition huffman_encoder :: "nat \<Rightarrow> nat \<Rightarrow> huff_fault + huffman_context" where
  "huffman_encoder numcodes maxbits =
     huffman_context_base numcodes maxbits [] (replicate numcodes 0) (replicate (2 * numcodes) node_null)"

definition huffman_decoder :: "nat \<Rightarrow> nat \<Rightarrow> huff_fault + huffman_context" where
  "huffman_decoder numcodes maxbits =
     huffman_context_base numcodes maxbits (replicate (2 ^ maxbits) 0) [] (replicate numcodes node_null)"

subsection \<open>Canonical codes\<close>

text \<open>The three loops of \<open>assign_canonical_codes\<close>.\<close>

primrec count_numbits :: "nat \<Rightarrow> node_t list \<Rightarrow> nat list \<Rightarrow> nat list option" where
  "count_numbits maxbits [] bithisto = Some bithisto"
| "count_numbits maxbits (node # nodes) bithisto =
     (if n_numbits node > maxbits then None
      else count_numbits maxbits nodes
             (if n_numbits node \<le> 32
              then bithisto[n_numbits node := w32 (bithisto ! n_numbits node + 1)]
              else bithisto))"

primrec code_starts :: "nat \<Rightarrow> nat \<Rightarrow> nat list \<Rightarrow> nat list option" where
  "code_starts 0 curstart bithisto = Some bithisto"
| "code_starts (Suc l) curstart bithisto =
     (let codelen = Suc l;
          total = w32 (curstart + bithisto ! codelen);
          nextstart = total div 2
      in if codelen \<noteq> 1 \<and> w32 (nextstart * 2) \<noteq> total then None
         else code_starts l nextstart (bithisto[codelen := curstart]))"

primrec assign_codes :: "node_t list \<Rightarrow> nat list \<Rightarrow> node_t list" where
  "assign_codes [] bithisto = []"
| "assign_codes (node # nodes) bithisto =
     (if n_numbits node > 0
      then node\<lparr>n_bits := bithisto ! n_numbits node\<rparr>
           # assign_codes nodes (bithisto[n_numbits node := w32 (bithisto ! n_numbits node + 1)])
      else node # assign_codes nodes bithisto)"

definition assign_canonical_codes :: "huffman_context \<Rightarrow> huff_fault + huffman_context" where
  "assign_canonical_codes ctx =
     (let nodes = take (m_numcodes ctx) (m_huffnode ctx) in
      case count_numbits (m_maxbits ctx) nodes (replicate 33 0) of
        None \<Rightarrow> Inl (Huff_Error HUFFERR_INTERNAL_INCONSISTENCY)
      | Some counted \<Rightarrow>
          (case code_starts 32 0 counted of
             None \<Rightarrow> Inl (Huff_Error HUFFERR_INTERNAL_INCONSISTENCY)
           | Some bithisto \<Rightarrow>
               Inr (ctx\<lparr>m_huffnode := assign_codes nodes bithisto @ drop (m_numcodes ctx) (m_huffnode ctx)\<rparr>)))"

subsection \<open>The lookup table\<close>

definition MAKE_LOOKUP :: "nat \<Rightarrow> nat \<Rightarrow> u16" where
  "MAKE_LOOKUP code bits = push_bit 5 (of_nat code) OR (of_nat bits AND 0x1f)"

text \<open>Filling the entries from \<open>dest\<close> up to \<open>destend\<close>; \<open>None\<close> is a store past the table.\<close>

definition fill_lookup :: "u16 list \<Rightarrow> nat \<Rightarrow> nat \<Rightarrow> u16 \<Rightarrow> u16 list option" where
  "fill_lookup lookup dest destend v =
     (if destend < dest then Some lookup
      else if length lookup \<le> destend then None
      else Some (take dest lookup @ replicate (destend + 1 - dest) v @ drop (destend + 1) lookup))"

primrec build_lookup_loop :: "nat \<Rightarrow> nat \<Rightarrow> node_t list \<Rightarrow> u16 list \<Rightarrow> u16 list option" where
  "build_lookup_loop maxbits curcode [] lookup = Some lookup"
| "build_lookup_loop maxbits curcode (node # nodes) lookup =
     (if n_numbits node > 0
      then let shift = maxbits - n_numbits node;
               dest = w32 (n_bits node * 2 ^ shift);
               destend = w32 (w32 (w32 (n_bits node + 1) * 2 ^ shift) + (2 ^ 32 - 1)) in
           case fill_lookup lookup dest destend (MAKE_LOOKUP curcode (n_numbits node)) of
             None \<Rightarrow> None
           | Some lookup' \<Rightarrow> build_lookup_loop maxbits (Suc curcode) nodes lookup'
      else build_lookup_loop maxbits (Suc curcode) nodes lookup)"

definition build_lookup_table :: "huffman_context \<Rightarrow> huff_fault + huffman_context" where
  "build_lookup_table ctx =
     (case build_lookup_loop (m_maxbits ctx) 0 (take (m_numcodes ctx) (m_huffnode ctx)) (m_lookup ctx) of
        None \<Rightarrow> Inl Out_Of_Bounds
      | Some lookup \<Rightarrow> Inr (ctx\<lparr>m_lookup := lookup\<rparr>))"

subsection \<open>Single symbols\<close>

definition histo_one :: "nat \<Rightarrow> huffman_context \<Rightarrow> huffman_context" where
  "histo_one data ctx = ctx\<lparr>m_datahisto := (m_datahisto ctx)[data := w32 (m_datahisto ctx ! data + 1)]\<rparr>"

definition histo_reset :: "huffman_context \<Rightarrow> huffman_context" where
  "histo_reset ctx = ctx\<lparr>m_datahisto := replicate (m_numcodes ctx) 0\<rparr>"

definition encode_one :: "huffman_context \<Rightarrow> nat \<Rightarrow> bitstream_out \<Rightarrow> bitstream_out" where
  "encode_one ctx data bitbuf =
     (let node = m_huffnode ctx ! data in bs_write (of_nat (n_bits node)) (int (n_numbits node)) bitbuf)"

definition decode_one :: "huffman_context \<Rightarrow> bitstream_in \<Rightarrow> nat \<times> bitstream_in" where
  "decode_one ctx bitbuf =
     (let (bits, bitbuf') = peek (int (m_maxbits ctx)) bitbuf;
          lookup = m_lookup ctx ! unat bits
      in (unat (drop_bit 5 lookup), in_remove (int (unat (lookup AND 0x1f))) bitbuf'))"

subsection \<open>Canonical codes: the assigned intervals\<close>

text \<open>
  \<open>cnt nodes L\<close> counts the codes of length \<open>L\<close>. \<open>canonical S nodes\<close> is what the three loops
  establish: the codes of length \<open>L\<close> are numbered consecutively from \<open>S L\<close>, and the codes of
  length \<open>L\<close> end where, one bit shorter, those of length \<open>L - 1\<close> start.
\<close>

definition cnt :: "node_t list \<Rightarrow> nat \<Rightarrow> nat" where
  "cnt nodes L = length (filter (\<lambda>nd. n_numbits nd = L) nodes)"

definition canonical :: "(nat \<Rightarrow> nat) \<Rightarrow> node_t list \<Rightarrow> bool" where
  "canonical S nodes \<longleftrightarrow>
     S 32 = 0 \<and>
     (\<forall>L. 2 \<le> L \<and> L \<le> 32 \<longrightarrow> 2 * S (L - 1) = S L + cnt nodes L) \<and>
     (\<forall>i < length nodes. let L = n_numbits (nodes ! i) in
        L \<le> 32 \<and> (0 < L \<longrightarrow> n_bits (nodes ! i) = S L + cnt (take i nodes) L))"

lemma cnt_simps [simp]:
  "cnt [] L = 0" "cnt (nd # nds) L = (if n_numbits nd = L then 1 else 0) + cnt nds L"
  by (simp_all add: cnt_def)

lemma cnt_append: "cnt (xs @ ys) L = cnt xs L + cnt ys L"
  by (simp add: cnt_def)

lemma cnt_le_length: "cnt nodes L \<le> length nodes"
  by (simp add: cnt_def)

lemma cnt_take_less:
  assumes "i < length nodes"
  shows "cnt (take i nodes) (n_numbits (nodes ! i)) < cnt nodes (n_numbits (nodes ! i))"
proof -
  have "nodes = take i nodes @ nodes ! i # drop (Suc i) nodes"
    using assms by (simp add: id_take_nth_drop)
  then have "cnt nodes (n_numbits (nodes ! i)) =
      cnt (take i nodes) (n_numbits (nodes ! i)) + cnt (nodes ! i # drop (Suc i) nodes) (n_numbits (nodes ! i))"
    by (metis cnt_append)
  then show ?thesis by simp
qed

lemma cnt_take_mono: "i \<le> j \<Longrightarrow> cnt (take i nodes) L \<le> cnt (take j nodes) L"
  by (metis cnt_append le_add1 le_add_diff_inverse take_add)

lemma count_numbits_result:
  assumes "count_numbits M nodes h = Some h'" "length h = 33" "\<forall>L. h ! L + cnt nodes L < 2 ^ 32 \<or> 32 < L"
  shows "length h' = 33 \<and> (\<forall>L\<le>32. h' ! L = h ! L + cnt nodes L) \<and> (\<forall>nd \<in> set nodes. n_numbits nd \<le> M)"
  using assms
proof (induction nodes arbitrary: h)
  case (Cons nd nds)
  let ?h = "if n_numbits nd \<le> 32 then h[n_numbits nd := w32 (h ! n_numbits nd + 1)] else h"
  have ok: "n_numbits nd \<le> M" "count_numbits M nds ?h = Some h'"
    using Cons.prems(1) by (auto split: if_splits)
  have val: "?h ! L = h ! L + (if n_numbits nd = L then 1 else 0)" if "L \<le> 32" for L
    using that Cons.prems(2) Cons.prems(3) [rule_format, of L] by (auto simp: w32_def nth_list_update)
  have "\<forall>L. ?h ! L + cnt nds L < 2 ^ 32 \<or> 32 < L"
  proof
    fix L
    show "?h ! L + cnt nds L < 2 ^ 32 \<or> 32 < L"
      using val [of L] Cons.prems(3) [rule_format, of L] by (cases "L \<le> 32") (auto split: if_splits)
  qed
  with Cons.IH [OF ok(2)] ok val Cons.prems(2) show ?case by auto
qed simp

lemma count_numbits_total:
  "(\<forall>nd \<in> set nodes. n_numbits nd \<le> M) \<Longrightarrow> \<exists>h'. count_numbits M nodes h = Some h'"
  by (induction nodes arbitrary: h) auto

lemma code_starts_result:
  assumes "code_starts l cur h = Some h'" "length h = 33" "l \<le> 32"
    "cur + (\<Sum>k = 1..l. h ! k) < 2 ^ 32"
  shows "length h' = 33 \<and> (\<forall>k. l < k \<longrightarrow> h' ! k = h ! k) \<and> (0 < l \<longrightarrow> h' ! l = cur) \<and>
    (\<forall>k. 2 \<le> k \<and> k \<le> l \<longrightarrow> 2 * h' ! (k - 1) = h' ! k + h ! k)"
  using assms
proof (induction l arbitrary: cur h)
  case (Suc l)
  define total where "total = cur + h ! Suc l"
  have "total < 2 ^ 32" using Suc.prems(4) by (simp add: total_def)
  then have w: "w32 (cur + h ! Suc l) = total" "w32 (total div 2 * 2) = total div 2 * 2"
    by (simp_all add: w32_def total_def [symmetric])
  have even: "Suc l \<noteq> 1 \<Longrightarrow> total div 2 * 2 = total"
    and rec: "code_starts l (total div 2) (h[Suc l := cur]) = Some h'"
    using Suc.prems(1) by (auto simp: w Let_def split: if_splits)
  have "(\<Sum>k = 1..l. h[Suc l := cur] ! k) = (\<Sum>k = 1..l. h ! k)"
    by (rule sum.cong) (auto simp: nth_list_update)
  then have "total div 2 + (\<Sum>k = 1..l. h[Suc l := cur] ! k) < 2 ^ 32"
    using Suc.prems(4) by (simp add: total_def)
  from Suc.IH [OF rec _ _ this] Suc.prems(2,3)
  have IH: "length h' = 33" "\<forall>k. l < k \<longrightarrow> h' ! k = h[Suc l := cur] ! k" "0 < l \<longrightarrow> h' ! l = total div 2"
    "\<forall>k. 2 \<le> k \<and> k \<le> l \<longrightarrow> 2 * h' ! (k - 1) = h' ! k + h[Suc l := cur] ! k"
    by auto
  show ?case
  proof (intro conjI allI impI)
    fix k assume k: "2 \<le> k \<and> k \<le> Suc l"
    show "2 * h' ! (k - 1) = h' ! k + h ! k"
    proof (cases "k = Suc l")
      case True
      with k even IH(2,3) Suc.prems(2,3) show ?thesis by (auto simp: total_def)
    next
      case False
      with k IH(4) show ?thesis by simp
    qed
  qed (use IH Suc.prems in \<open>auto simp: nth_list_update\<close>)
qed simp

lemma assign_codes_length [simp]: "length (assign_codes nodes h) = length nodes"
  by (induction nodes arbitrary: h) auto

lemma assign_codes_numbits [simp]:
  "i < length nodes \<Longrightarrow> n_numbits (assign_codes nodes h ! i) = n_numbits (nodes ! i)"
  by (induction nodes arbitrary: h i) (auto simp: nth_Cons split: nat.splits)

lemma map_numbits_assign_codes: "map n_numbits (assign_codes nodes h) = map n_numbits nodes"
  by (induction nodes arbitrary: h) auto

lemma cnt_eq_count_list: "cnt nodes L = count_list (map n_numbits nodes) L"
  by (induction nodes) auto

lemma cnt_map: "map n_numbits xs = map n_numbits ys \<Longrightarrow> cnt xs L = cnt ys L"
  by (simp add: cnt_eq_count_list)

lemma assign_codes_bits:
  assumes "i < length nodes" "0 < n_numbits (nodes ! i)" "n_numbits (nodes ! i) < length h"
    "\<forall>nd \<in> set nodes. n_numbits nd < length h" "\<forall>L. 0 < L \<and> L < length h \<longrightarrow> h ! L + cnt nodes L < 2 ^ 32"
  shows "n_bits (assign_codes nodes h ! i) = h ! n_numbits (nodes ! i) + cnt (take i nodes) (n_numbits (nodes ! i))"
  using assms
proof (induction nodes arbitrary: h i)
  case (Cons nd nds)
  let ?L = "n_numbits nd"
  let ?h = "if 0 < ?L then h[?L := w32 (h ! ?L + 1)] else h"
  have val: "?h ! L = h ! L + (if 0 < ?L \<and> ?L = L then 1 else 0)" if "L < length h" for L
    using that Cons.prems(5) by (auto simp: w32_def nth_list_update)
  have bnd: "\<forall>L. 0 < L \<and> L < length ?h \<longrightarrow> ?h ! L + cnt nds L < 2 ^ 32"
  proof (intro allI impI)
    fix L assume "0 < L \<and> L < length ?h"
    then have L: "0 < L \<and> L < length h" by (simp split: if_splits)
    with Cons.prems(5) have "h ! L + cnt (nd # nds) L < 2 ^ 32" by blast
    with val [OF L [THEN conjunct2]] show "?h ! L + cnt nds L < 2 ^ 32" by (auto split: if_splits)
  qed
  show ?case
  proof (cases i)
    case 0
    with Cons.prems show ?thesis by simp
  next
    case (Suc k)
    have "n_bits (assign_codes nds ?h ! k) = ?h ! n_numbits (nds ! k) + cnt (take k nds) (n_numbits (nds ! k))"
      using Cons.prems Suc bnd by (intro Cons.IH) auto
    with Suc Cons.prems val [of "n_numbits (nds ! k)"] show ?thesis by auto
  qed
qed simp

lemma sum_cnt_le: "finite A \<Longrightarrow> (\<Sum>k\<in>A. cnt nodes k) \<le> length nodes"
proof (induction nodes)
  case (Cons nd nds)
  have "(\<Sum>k\<in>A. if n_numbits nd = k then 1 else 0 :: nat) \<le> 1"
    using Cons.prems by simp
  with Cons show ?case by (simp add: sum.distrib)
qed simp

definition codes :: "huffman_context \<Rightarrow> node_t list" where
  "codes ctx = take (m_numcodes ctx) (m_huffnode ctx)"

lemma starts_le_sum:
  assumes "S 32 = 0" "\<forall>L. 2 \<le> L \<and> L \<le> 32 \<longrightarrow> 2 * S (L - 1) = S L + cnt nodes L" "1 \<le> k" "k \<le> 32"
  shows "S k + cnt nodes k \<le> length nodes"
proof -
  have "S k \<le> (\<Sum>j = Suc k..32. cnt nodes j)"
    using assms(4)
  proof (induction rule: inc_induct)
    case (step n)
    have "2 * S n = S (Suc n) + cnt nodes (Suc n)"
      using assms(2) [rule_format, of "Suc n"] assms(3) step by simp
    moreover have "(\<Sum>j = Suc n..32. cnt nodes j) = cnt nodes (Suc n) + (\<Sum>j = Suc (Suc n)..32. cnt nodes j)"
      using step.hyps by (simp add: sum.atLeast_Suc_atMost)
    ultimately show ?case using step.IH by linarith
  qed (simp add: assms(1))
  moreover have "(\<Sum>j = k..32. cnt nodes j) = cnt nodes k + (\<Sum>j = Suc k..32. cnt nodes j)"
    using assms(4) by (simp add: sum.atLeast_Suc_atMost)
  ultimately show ?thesis using sum_cnt_le [of "{k..32}" nodes] by simp
qed

lemma assign_canonical_codes_canonical:
  assumes ok: "assign_canonical_codes ctx = Inr ctx'"
    and lens: "m_numcodes ctx \<le> length (m_huffnode ctx)" "m_numcodes ctx < 2 ^ 32" "m_maxbits ctx \<le> 32"
  obtains S where "canonical S (codes ctx')" "map n_numbits (codes ctx') = map n_numbits (codes ctx)"
    "\<forall>nd \<in> set (codes ctx'). n_numbits nd \<le> m_maxbits ctx"
    "ctx' = ctx\<lparr>m_huffnode := codes ctx' @ drop (m_numcodes ctx) (m_huffnode ctx)\<rparr>"
proof -
  define nodes where "nodes = codes ctx"
  have ln: "length nodes < 2 ^ 32" using lens by (simp add: nodes_def codes_def)
  obtain h h' where h: "count_numbits (m_maxbits ctx) nodes (replicate 33 0) = Some h"
    and h': "code_starts 32 0 h = Some h'"
    and ctx': "ctx' = ctx\<lparr>m_huffnode := assign_codes nodes h' @ drop (m_numcodes ctx) (m_huffnode ctx)\<rparr>"
    using ok by (auto simp: assign_canonical_codes_def nodes_def codes_def Let_def split: option.splits)
  have cod: "codes ctx' = assign_codes nodes h'"
    using lens(1) by (simp add: ctx' codes_def nodes_def min_def)
  have cl: "replicate 33 0 ! L + cnt nodes L < 2 ^ 32 \<or> 32 < L" for L
    using cnt_le_length [of nodes L] ln by (cases "L \<le> 32") (auto simp: nth_replicate)
  have hr: "length h = 33" "\<forall>L\<le>32. h ! L = cnt nodes L" "\<forall>nd \<in> set nodes. n_numbits nd \<le> m_maxbits ctx"
    using count_numbits_result [OF h _ allI [OF cl]] by auto
  have "(\<Sum>k = 1..32. h ! k) = (\<Sum>k = 1..32. cnt nodes k)" using hr(2) by (intro sum.cong) auto
  then have "0 + (\<Sum>k = 1..32. h ! k) < 2 ^ 32" using sum_cnt_le [of "{1..32}" nodes] ln by simp
  from code_starts_result [OF h' hr(1) _ this]
  have sr: "length h' = 33" "h' ! 32 = 0" "\<forall>k. 2 \<le> k \<and> k \<le> 32 \<longrightarrow> 2 * h' ! (k - 1) = h' ! k + cnt nodes k"
    using hr(2) by auto
  have bnd: "\<forall>L. 0 < L \<and> L < length h' \<longrightarrow> h' ! L + cnt nodes L < 2 ^ 32"
    using starts_le_sum [of "\<lambda>k. h' ! k" nodes] sr ln by (fastforce simp: less_eq_Suc_le)
  have nb: "n_numbits (nodes ! i) \<le> 32" if "i < length nodes" for i
    using that hr(3) lens(3) nth_mem order_trans by blast
  have "canonical (\<lambda>k. h' ! k) (codes ctx')"
    unfolding canonical_def cod Let_def
  proof (intro conjI allI impI)
    fix i assume i: "i < length (assign_codes nodes h')"
    then show "n_numbits (assign_codes nodes h' ! i) \<le> 32" by (simp add: nb)
    assume "0 < n_numbits (assign_codes nodes h' ! i)"
    then show "n_bits (assign_codes nodes h' ! i) = h' ! n_numbits (assign_codes nodes h' ! i)
        + cnt (take i (assign_codes nodes h')) (n_numbits (assign_codes nodes h' ! i))"
      using i nb hr(3) lens(3) bnd sr(1) assign_codes_bits [of i nodes h']
        cnt_map [of "take i (assign_codes nodes h')" "take i nodes"]
      by (simp add: map_numbits_assign_codes flip: take_map) force
  qed (use sr in \<open>simp_all add: cnt_map [OF map_numbits_assign_codes]\<close>)
  moreover have "\<forall>nd \<in> set (codes ctx'). n_numbits nd \<le> m_maxbits ctx"
    using hr(3) by (simp add: cod all_set_conv_all_nth)
  ultimately show ?thesis
    using that [of "\<lambda>k. h' ! k"] ctx' cod by (simp add: map_numbits_assign_codes nodes_def)
qed

text \<open>
  Codes of different length: shifted to the shorter length, the longer code lies strictly below.
  Hence no code is a prefix of another one.
\<close>

lemma canonical_ends:
  assumes can: "canonical S nodes" and b: "1 \<le> b" "b + Suc k \<le> 32"
  shows "S (b + Suc k) + cnt nodes (b + Suc k) \<le> 2 ^ Suc k * S b"
  using b(2)
proof (induction k)
  case 0
  then show ?case using can b unfolding canonical_def by (auto dest: spec [of _ "Suc b"])
next
  case (Suc k)
  have "2 * S (b + Suc k) = S (b + Suc (Suc k)) + cnt nodes (b + Suc (Suc k))"
    using can b(1) Suc.prems unfolding canonical_def by (auto dest: spec [of _ "b + Suc (Suc k)"])
  moreover have "S (b + Suc k) \<le> 2 ^ Suc k * S b" using Suc by simp
  ultimately show ?case by simp
qed

lemma canonical_code:
  assumes "canonical S nodes" "i < length nodes" "0 < n_numbits (nodes ! i)"
  shows "S (n_numbits (nodes ! i)) \<le> n_bits (nodes ! i)"
    "n_bits (nodes ! i) < S (n_numbits (nodes ! i)) + cnt nodes (n_numbits (nodes ! i))"
    "n_numbits (nodes ! i) \<le> 32"
  using assms cnt_take_less [OF assms(2)] by (auto simp: canonical_def Let_def)

lemma canonical_longer_below:
  assumes can: "canonical S nodes" and ij: "i < length nodes" "j < length nodes"
    and L: "0 < n_numbits (nodes ! j)" "n_numbits (nodes ! j) < n_numbits (nodes ! i)"
  shows "n_bits (nodes ! i) < 2 ^ (n_numbits (nodes ! i) - n_numbits (nodes ! j)) * n_bits (nodes ! j)"
proof -
  obtain k where k: "n_numbits (nodes ! i) = n_numbits (nodes ! j) + Suc k"
    using L(2) less_imp_Suc_add by fastforce
  have "n_bits (nodes ! i) < 2 ^ Suc k * S (n_numbits (nodes ! j))"
    using canonical_ends [OF can, of "n_numbits (nodes ! j)" k] canonical_code(2,3) [OF can ij(1)] L
    by (simp add: k)
  also have "\<dots> \<le> 2 ^ Suc k * n_bits (nodes ! j)"
    using canonical_code(1) [OF can ij(2) L(1)] by simp
  finally show ?thesis by (simp add: k)
qed

lemma canonical_same_length:
  assumes can: "canonical S nodes" and ij: "i < j" "j < length nodes"
    and L: "0 < n_numbits (nodes ! j)" "n_numbits (nodes ! i) = n_numbits (nodes ! j)"
  shows "n_bits (nodes ! i) < n_bits (nodes ! j)"
proof -
  let ?L = "n_numbits (nodes ! j)"
  have "cnt (take i nodes) ?L < cnt (take (Suc i) nodes) ?L"
    using ij L by (simp add: take_Suc_conv_app_nth cnt_append)
  also have "\<dots> \<le> cnt (take j nodes) ?L" using ij by (intro cnt_take_mono) simp
  finally show ?thesis using can ij L by (auto simp: canonical_def Let_def)
qed

text \<open>
  Each code covers an interval of \<open>M\<close>-bit strings: those that begin with it.
\<close>

definition covers :: "nat \<Rightarrow> node_t \<Rightarrow> nat \<Rightarrow> bool" where
  "covers M nd x \<longleftrightarrow> 0 < n_numbits nd \<and> x div 2 ^ (M - n_numbits nd) = n_bits nd"

lemma div_pow_split: "a \<le> M \<Longrightarrow> b \<le> a \<Longrightarrow> x div 2 ^ (M - b) = x div 2 ^ (M - a) div 2 ^ (a - b)" for x :: nat
  by (simp add: div_mult2_eq [symmetric] power_add [symmetric])

lemma covers_unique:
  assumes can: "canonical S nodes" and ij: "i < length nodes" "j < length nodes"
    and M: "n_numbits (nodes ! i) \<le> M" "n_numbits (nodes ! j) \<le> M"
    and cov: "covers M (nodes ! i) x" "covers M (nodes ! j) x"
  shows "i = j"
proof (rule ccontr)
  assume "i \<noteq> j"
  have *: False if "i < length nodes" "j < length nodes" "n_numbits (nodes ! i) \<le> M"
      "covers M (nodes ! i) x" "covers M (nodes ! j) x" "n_numbits (nodes ! j) < n_numbits (nodes ! i)" for i j
  proof -
    have "n_bits (nodes ! j) = n_bits (nodes ! i) div 2 ^ (n_numbits (nodes ! i) - n_numbits (nodes ! j))"
      using that div_pow_split [of "n_numbits (nodes ! i)" M "n_numbits (nodes ! j)" x]
      by (simp add: covers_def)
    moreover have "n_bits (nodes ! i) div 2 ^ (n_numbits (nodes ! i) - n_numbits (nodes ! j)) < n_bits (nodes ! j)"
      using canonical_longer_below [OF can that(1,2)] that
      by (simp add: covers_def less_mult_imp_div_less mult.commute)
    ultimately show False by simp
  qed
  consider "n_numbits (nodes ! j) < n_numbits (nodes ! i)" | "n_numbits (nodes ! i) < n_numbits (nodes ! j)"
    | "n_numbits (nodes ! i) = n_numbits (nodes ! j)" by linarith
  then show False
  proof cases
    case 3
    have eq: "n_bits (nodes ! i) = n_bits (nodes ! j)" and pos: "0 < n_numbits (nodes ! i)" "0 < n_numbits (nodes ! j)"
      using cov 3 by (auto simp: covers_def)
    show False
    proof (cases "i < j")
      case True
      from canonical_same_length [OF can True ij(2) pos(2) 3] eq show False by linarith
    next
      case False
      then have "j < i" using \<open>i \<noteq> j\<close> by linarith
      from canonical_same_length [OF can this ij(1) pos(1) 3 [symmetric]] eq show False by linarith
    qed
  qed (use * [of i j] * [of j i] ij M cov in auto)
qed

subsection \<open>The lookup table\<close>

text \<open>
  The Kraft sum of the code lengths, scaled by \<open>2 ^ M\<close>, and its relation to the canonical numbering:
  the code numbers of length \<open>L\<close> end at the scaled sum over all codes of at least that length.
\<close>

definition kraft :: "nat \<Rightarrow> node_t list \<Rightarrow> nat" where
  "kraft M nodes = (\<Sum>nd\<leftarrow>nodes. if 0 < n_numbits nd then 2 ^ (M - n_numbits nd) else 0)"

lemma kraft_cnt:
  assumes "\<forall>nd \<in> set nodes. n_numbits nd \<le> M"
  shows "kraft M nodes = (\<Sum>L = 1..M. cnt nodes L * 2 ^ (M - L))"
  using assms
proof (induction nodes)
  case (Cons nd nds)
  have "(\<Sum>L = 1..M. (if n_numbits nd = L then 1 else 0) * 2 ^ (M - L)) =
      (if 0 < n_numbits nd then 2 ^ (M - n_numbits nd) else (0 :: nat))"
    using Cons.prems by (auto simp: if_distrib [of "\<lambda>x. x * _"] sum.delta cong: if_cong)
  with Cons show ?case by (simp add: kraft_def sum.distrib distrib_right)
qed (simp add: kraft_def)

lemma canonical_starts_zero:
  assumes can: "canonical S nodes" and M: "\<forall>nd \<in> set nodes. n_numbits nd \<le> M" "1 \<le> M" "M \<le> k" "k \<le> 32"
  shows "S k = 0"
  using M(4)
proof (induction rule: inc_induct)
  case base
  then show ?case using can by (simp add: canonical_def)
next
  case (step n)
  have "cnt nodes (Suc n) = 0"
    using M(1,3) step.hyps by (auto simp: cnt_def filter_empty_conv)
  moreover have "2 * S n = S (Suc n) + cnt nodes (Suc n)"
    using can M(2,3) step.hyps unfolding canonical_def by (auto dest: spec [of _ "Suc n"])
  ultimately show ?case using step by simp
qed

lemma canonical_kraft:
  assumes can: "canonical S nodes" and M: "\<forall>nd \<in> set nodes. n_numbits nd \<le> M" "1 \<le> M" "M \<le> 32"
  shows "kraft M nodes = 2 ^ (M - 1) * (S 1 + cnt nodes 1)"
proof -
  have "(\<Sum>L = k..M. cnt nodes L * 2 ^ (M - L)) = 2 ^ (M - k) * (S k + cnt nodes k)" if "1 \<le> k" "k \<le> M" for k
    using that(2)
  proof (induction rule: inc_induct)
    case base
    then show ?case using canonical_starts_zero [OF can M(1,2)] M by simp
  next
    case (step n)
    have "2 * S n = S (Suc n) + cnt nodes (Suc n)"
      using can that(1) M step.hyps unfolding canonical_def by (auto dest: spec [of _ "Suc n"])
    moreover have "M - n = Suc (M - Suc n)" using step.hyps by simp
    moreover have "(\<Sum>L = n..M. cnt nodes L * 2 ^ (M - L)) =
        cnt nodes n * 2 ^ (M - n) + (\<Sum>L = Suc n..M. cnt nodes L * 2 ^ (M - L))"
      using step.hyps by (simp add: sum.atLeast_Suc_atMost [of n])
    ultimately show ?case by (simp add: step.IH distrib_left flip: \<open>2 * S n = _\<close>)
  qed
  from this [of 1] M show ?thesis by (simp add: kraft_cnt)
qed

lemma canonical_bits_bound:
  assumes can: "canonical S nodes" and M: "\<forall>nd \<in> set nodes. n_numbits nd \<le> M" "1 \<le> M" "M \<le> 32"
    and kr: "kraft M nodes \<le> 2 ^ M" and i: "i < length nodes" "0 < n_numbits (nodes ! i)"
  shows "n_bits (nodes ! i) < 2 ^ n_numbits (nodes ! i)"
proof -
  have "2 ^ (M - 1) * (S 1 + cnt nodes 1) \<le> 2 ^ (M - 1) * 2"
    using kr canonical_kraft [OF can M] M(2) by (cases M) simp_all
  then have top: "S 1 + cnt nodes 1 \<le> 2" by simp
  show ?thesis
  proof (cases "n_numbits (nodes ! i) = 1")
    case True
    with canonical_code(2) [OF can i] top show ?thesis by simp
  next
    case False
    then obtain k where k: "n_numbits (nodes ! i) = 1 + Suc k"
      using i(2) less_imp_Suc_add by (metis One_nat_def Suc_lessI plus_1_eq_Suc)
    have "n_bits (nodes ! i) < 2 ^ Suc k * S 1"
      using canonical_ends [OF can, of 1 k] canonical_code(2,3) [OF can i] by (simp add: k)
    also have "\<dots> \<le> 2 ^ Suc k * 2" using top by (intro mult_left_mono) auto
    finally show ?thesis by (simp add: k)
  qed
qed

lemma div_interval: "0 < d \<Longrightarrow> x div d = b \<longleftrightarrow> b * d \<le> x \<and> x < (b + 1) * d" for x d b :: nat
  using less_eq_div_iff_mult_less_eq [of d b x] div_less_iff_less_mult [of d x "b + 1"] by linarith

lemma cnt_last:
  "0 < cnt nodes L \<Longrightarrow> \<exists>i < length nodes. n_numbits (nodes ! i) = L \<and> Suc (cnt (take i nodes) L) = cnt nodes L"
proof (induction nodes rule: rev_induct)
  case (snoc nd nds)
  show ?case
  proof (cases "n_numbits nd = L")
    case True
    then show ?thesis by (intro exI [of _ "length nds"]) (simp add: cnt_append)
  next
    case False
    with snoc obtain i where "i < length nds" "n_numbits (nds ! i) = L" "Suc (cnt (take i nds) L) = cnt nds L"
      by (auto simp: cnt_append)
    with False show ?thesis by (intro exI [of _ i]) (simp add: nth_append cnt_append)
  qed
qed simp

text \<open>\<open>in_table M nd\<close>: the interval of the code lies inside the table of \<open>2 ^ M\<close> entries.\<close>

definition in_table :: "nat \<Rightarrow> node_t \<Rightarrow> bool" where
  "in_table M nd \<longleftrightarrow> (0 < n_numbits nd \<longrightarrow> (n_bits nd + 1) * 2 ^ (M - n_numbits nd) \<le> 2 ^ M)"

lemma canonical_in_table_iff:
  assumes can: "canonical S nodes" and M: "\<forall>nd \<in> set nodes. n_numbits nd \<le> M" "1 \<le> M" "M \<le> 32"
  shows "(\<forall>nd \<in> set nodes. in_table M nd) \<longleftrightarrow> kraft M nodes \<le> 2 ^ M"
proof
  assume kr: "kraft M nodes \<le> 2 ^ M"
  show "\<forall>nd \<in> set nodes. in_table M nd"
  proof
    fix nd assume "nd \<in> set nodes"
    then obtain i where i: "i < length nodes" "nd = nodes ! i" by (auto simp: in_set_conv_nth)
    show "in_table M nd"
      unfolding in_table_def
    proof
      assume pos: "0 < n_numbits nd"
      have "n_bits nd + 1 \<le> 2 ^ n_numbits nd"
        using canonical_bits_bound [OF can M kr i(1)] pos by (simp add: i(2))
      then have "(n_bits nd + 1) * 2 ^ (M - n_numbits nd) \<le> 2 ^ n_numbits nd * 2 ^ (M - n_numbits nd)"
        by (rule mult_right_mono) simp
      also have "\<dots> = 2 ^ M" using M(1) \<open>nd \<in> set nodes\<close> by (simp add: power_add [symmetric])
      finally show "(n_bits nd + 1) * 2 ^ (M - n_numbits nd) \<le> 2 ^ M" .
    qed
  qed
next
  assume all: "\<forall>nd \<in> set nodes. in_table M nd"
  show "kraft M nodes \<le> 2 ^ M"
  proof (rule ccontr)
    assume "\<not> kraft M nodes \<le> 2 ^ M"
    then have "2 ^ (M - 1) * 2 < 2 ^ (M - 1) * (S 1 + cnt nodes 1)"
      using canonical_kraft [OF can M] M(2) by (cases M) simp_all
    then have E1: "2 < S 1 + cnt nodes 1" by simp
    have grow: "2 ^ k < S k + cnt nodes k" if "1 \<le> k" "k \<le> 32" "\<forall>j. 1 \<le> j \<and> j < k \<longrightarrow> cnt nodes j = 0" for k
      using that
    proof (induction k rule: nat_induct_at_least)
      case base
      then show ?case using E1 by simp
    next
      case (Suc k)
      then have "2 ^ k < S k" by simp
      moreover have "2 * S k = S (Suc k) + cnt nodes (Suc k)"
        using can Suc.hyps Suc.prems unfolding canonical_def by (auto dest: spec [of _ "Suc k"])
      ultimately show ?case by simp
    qed
    have "\<exists>k. 1 \<le> k \<and> k \<le> 32 \<and> 0 < cnt nodes k"
    proof (rule ccontr)
      assume "\<nexists>k. 1 \<le> k \<and> k \<le> 32 \<and> 0 < cnt nodes k"
      then have "cnt nodes 32 = 0" "\<forall>j. 1 \<le> j \<and> j < 32 \<longrightarrow> cnt nodes j = 0" by auto
      with grow [of 32] can show False by (simp add: canonical_def)
    qed
    then obtain k where k: "1 \<le> k" "k \<le> 32" "0 < cnt nodes k" "\<forall>j. 1 \<le> j \<and> j < k \<longrightarrow> cnt nodes j = 0"
      using exists_least_iff [of "\<lambda>k. 1 \<le> k \<and> k \<le> 32 \<and> 0 < cnt nodes k"] by auto
    obtain i where i: "i < length nodes" "n_numbits (nodes ! i) = k" "Suc (cnt (take i nodes) k) = cnt nodes k"
      using cnt_last [OF k(3)] by blast
    have "2 ^ k < n_bits (nodes ! i) + 1"
      using grow [OF k(1,2,4)] can i k(1) by (auto simp: canonical_def Let_def)
    then have "2 ^ k * 2 ^ (M - k) < (n_bits (nodes ! i) + 1) * 2 ^ (M - k)"
      by (intro mult_less_mono1) simp_all
    moreover have "k \<le> M" using M(1) i by (metis nth_mem)
    moreover have "in_table M (nodes ! i)" using all i(1) by simp
    ultimately show False using i(2) k(1) by (simp add: in_table_def power_add [symmetric])
  qed
qed

text \<open>One fill writes exactly the entries the code covers.\<close>

lemma w32_pred: "0 < n \<Longrightarrow> n < 2 ^ 32 \<Longrightarrow> w32 (n + (2 ^ 32 - 1)) = n - 1"
  by (simp add: w32_def mod_if)

definition small_code :: "nat \<Rightarrow> node_t \<Rightarrow> bool" where
  "small_code M nd \<longleftrightarrow> (0 < n_numbits nd \<longrightarrow> (n_bits nd + 1) * 2 ^ (M - n_numbits nd) < 2 ^ 32)"

lemma build_lookup_loop_step:
  assumes "0 < n_numbits nd" "small_code M nd"
  shows "build_lookup_loop M c (nd # nds) lookup =
    (let lo = n_bits nd * 2 ^ (M - n_numbits nd); hi = (n_bits nd + 1) * 2 ^ (M - n_numbits nd) in
     if length lookup < hi then None
     else build_lookup_loop M (Suc c) nds
       (take lo lookup @ replicate (hi - lo) (MAKE_LOOKUP c (n_numbits nd)) @ drop hi lookup))"
proof -
  define sh where "sh = (2 :: nat) ^ (M - n_numbits nd)"
  have sm: "(n_bits nd + 1) * sh < 2 ^ 32" and pos: "0 < sh"
    using assms by (simp_all add: small_code_def sh_def)
  have lo: "n_bits nd * sh < 2 ^ 32" using sm by (simp add: distrib_right)
  have "n_bits nd + 1 \<le> (n_bits nd + 1) * sh" using pos by (metis Nat.add_0_right less_eq_div_iff_mult_less_eq mult_le_mono2 mult.right_neutral Suc_leI One_nat_def)
  then have b: "n_bits nd + 1 < 2 ^ 32" using sm by linarith
  have "w32 (w32 (w32 (n_bits nd + 1) * sh) + (2 ^ 32 - 1)) = (n_bits nd + 1) * sh - 1"
    by (simp only: w32_small [OF b] w32_small [OF sm]) (rule w32_pred [OF _ sm], use pos in simp)
  then show ?thesis
    using assms(1) pos w32_small [OF lo]
    by (simp add: Let_def fill_lookup_def flip: sh_def) auto
qed

lemma covers_interval:
  "covers M nd x \<longleftrightarrow> 0 < n_numbits nd \<and> n_bits nd * 2 ^ (M - n_numbits nd) \<le> x
     \<and> x < (n_bits nd + 1) * 2 ^ (M - n_numbits nd)"
  by (simp only: covers_def div_interval zero_less_power zero_less_numeral)

lemma nth_filled:
  assumes "lo \<le> hi" "hi \<le> length xs" "x < length xs"
  shows "(take lo xs @ replicate (hi - lo) v @ drop hi xs) ! x = (if lo \<le> x \<and> x < hi then v else xs ! x)"
  using assms by (auto simp: nth_append)

lemma build_lookup_loop_None_iff:
  assumes "\<forall>nd \<in> set nodes. small_code M nd" "length lookup = 2 ^ M"
  shows "build_lookup_loop M c nodes lookup = None \<longleftrightarrow> (\<exists>nd \<in> set nodes. \<not> in_table M nd)"
  using assms
proof (induction nodes arbitrary: c lookup)
  case (Cons nd nds)
  show ?case
  proof (cases "0 < n_numbits nd")
    case True
    let ?lo = "n_bits nd * 2 ^ (M - n_numbits nd)" and ?hi = "(n_bits nd + 1) * 2 ^ (M - n_numbits nd)"
    have "?lo \<le> ?hi" by simp
    then have "\<not> 2 ^ M < ?hi \<Longrightarrow>
        length (take ?lo lookup @ replicate (?hi - ?lo) (MAKE_LOOKUP c (n_numbits nd)) @ drop ?hi lookup) = 2 ^ M"
      using Cons.prems(2) by (auto simp: min_def)
    with Cons True show ?thesis
      by (simp add: build_lookup_loop_step in_table_def Let_def not_less del: build_lookup_loop.simps)
  qed (use Cons in \<open>simp add: in_table_def\<close>)
qed simp

lemma build_lookup_loop_values:
  assumes "\<forall>nd \<in> set nodes. small_code M nd" "length lookup = 2 ^ M"
    "build_lookup_loop M c nodes lookup = Some lk"
  shows "length lk = 2 ^ M"
    and "\<And>x. x < 2 ^ M \<Longrightarrow> \<forall>nd \<in> set nodes. \<not> covers M nd x \<Longrightarrow> lk ! x = lookup ! x"
    and "\<And>x i. x < 2 ^ M \<Longrightarrow> i < length nodes \<Longrightarrow> covers M (nodes ! i) x \<Longrightarrow>
      \<forall>j < length nodes. covers M (nodes ! j) x \<longrightarrow> j = i \<Longrightarrow>
      lk ! x = MAKE_LOOKUP (c + i) (n_numbits (nodes ! i))"
proof -
  have "length lk = 2 ^ M \<and> (\<forall>x < 2 ^ M. (\<forall>nd \<in> set nodes. \<not> covers M nd x) \<longrightarrow> lk ! x = lookup ! x) \<and>
    (\<forall>x < 2 ^ M. \<forall>i < length nodes. covers M (nodes ! i) x \<longrightarrow> (\<forall>j < length nodes. covers M (nodes ! j) x \<longrightarrow> j = i) \<longrightarrow>
      lk ! x = MAKE_LOOKUP (c + i) (n_numbits (nodes ! i)))"
    using assms
  proof (induction nodes arbitrary: c lookup)
    case (Cons nd nds)
    define lookup' where "lookup' = (if 0 < n_numbits nd then
      (let lo = n_bits nd * 2 ^ (M - n_numbits nd); hi = (n_bits nd + 1) * 2 ^ (M - n_numbits nd) in
       take lo lookup @ replicate (hi - lo) (MAKE_LOOKUP c (n_numbits nd)) @ drop hi lookup) else lookup)"
    have rec: "build_lookup_loop M (Suc c) nds lookup' = Some lk"
      and inside: "in_table M nd"
      using Cons.prems build_lookup_loop_step [of nd M c nds lookup]
      by (auto simp: lookup'_def Let_def in_table_def split: if_splits)
    define lo hi where "lo = n_bits nd * 2 ^ (M - n_numbits nd)" and "hi = (n_bits nd + 1) * 2 ^ (M - n_numbits nd)"
    have lookup': "lookup' = (if 0 < n_numbits nd
        then take lo lookup @ replicate (hi - lo) (MAKE_LOOKUP c (n_numbits nd)) @ drop hi lookup else lookup)"
      by (simp only: lookup'_def lo_def hi_def Let_def)
    have cov: "covers M nd x \<longleftrightarrow> 0 < n_numbits nd \<and> lo \<le> x \<and> x < hi" for x
      by (simp only: covers_interval lo_def hi_def)
    have le: "lo \<le> hi" "0 < n_numbits nd \<Longrightarrow> hi \<le> 2 ^ M"
      using inside unfolding in_table_def lo_def hi_def by simp_all
    have len: "length lookup' = 2 ^ M" using le Cons.prems(2) by (auto simp: lookup' min_def)
    have val: "x < 2 ^ M \<Longrightarrow> lookup' ! x = (if covers M nd x then MAKE_LOOKUP c (n_numbits nd) else lookup ! x)" for x
      using le Cons.prems(2) nth_filled [of lo hi lookup x "MAKE_LOOKUP c (n_numbits nd)"]
      by (simp add: lookup' cov)
    have small: "\<forall>nd \<in> set nds. small_code M nd" using Cons.prems(1) by simp
    note IH = Cons.IH [OF small len rec]
    note IH_len = IH [THEN conjunct1] and IH_none = IH [THEN conjunct2, THEN conjunct1, rule_format]
      and IH_some = IH [THEN conjunct2, THEN conjunct2, rule_format]
    show ?case
    proof (intro conjI allI impI)
      fix x i
      assume x: "x < 2 ^ M" and i: "i < length (nd # nds)" "covers M ((nd # nds) ! i) x"
        and uniq: "\<forall>j < length (nd # nds). covers M ((nd # nds) ! j) x \<longrightarrow> j = i"
      show "lk ! x = MAKE_LOOKUP (c + i) (n_numbits ((nd # nds) ! i))"
      proof (cases i)
        case 0
        have "\<not> covers M (nds ! j) x" if "j < length nds" for j
          using uniq [rule_format, of "Suc j"] that 0 by auto
        then have "\<forall>nd \<in> set nds. \<not> covers M nd x" by (auto simp: in_set_conv_nth)
        then have "lk ! x = lookup' ! x" using x by (intro IH_none) auto
        then show ?thesis using val [OF x] i(2) 0 by simp
      next
        case (Suc k)
        have "\<forall>j < length nds. covers M (nds ! j) x \<longrightarrow> j = k"
        proof (intro allI impI)
          fix j assume "j < length nds" "covers M (nds ! j) x"
          then show "j = k" using uniq [rule_format, of "Suc j"] Suc by simp
        qed
        moreover have "k < length nds" "covers M (nds ! k) x" using i Suc by simp_all
        ultimately have "lk ! x = MAKE_LOOKUP (Suc c + k) (n_numbits (nds ! k))"
          using x by (intro IH_some) blast+
        then show ?thesis using Suc by simp
      qed
    next
      fix x assume "x < 2 ^ M" "\<forall>nd \<in> set (nd # nds). \<not> covers M nd x"
      then show "lk ! x = lookup ! x" using IH_none [of x] val [of x] by simp
    qed (rule IH_len)
  qed simp
  then show "length lk = 2 ^ M"
    "\<And>x. x < 2 ^ M \<Longrightarrow> \<forall>nd \<in> set nodes. \<not> covers M nd x \<Longrightarrow> lk ! x = lookup ! x"
    "\<And>x i. x < 2 ^ M \<Longrightarrow> i < length nodes \<Longrightarrow> covers M (nodes ! i) x \<Longrightarrow>
      \<forall>j < length nodes. covers M (nodes ! j) x \<longrightarrow> j = i \<Longrightarrow>
      lk ! x = MAKE_LOOKUP (c + i) (n_numbits (nodes ! i))"
    by blast+
qed

text \<open>What a decoder needs of its table, and that the two preparation steps establish it.\<close>

definition lookup_ok :: "huffman_context \<Rightarrow> bool" where
  "lookup_ok ctx \<longleftrightarrow>
     length (m_lookup ctx) = 2 ^ m_maxbits ctx \<and> m_maxbits ctx \<le> 24 \<and> m_numcodes ctx \<le> 2 ^ 11 \<and>
     (\<forall>i < m_numcodes ctx. let nd = m_huffnode ctx ! i in 0 < n_numbits nd \<longrightarrow>
        n_numbits nd \<le> m_maxbits ctx \<and> n_bits nd < 2 ^ n_numbits nd \<and>
        (\<forall>x < 2 ^ m_maxbits ctx. covers (m_maxbits ctx) nd x \<longrightarrow>
            m_lookup ctx ! x = MAKE_LOOKUP i (n_numbits nd)))"

definition sized :: "huffman_context \<Rightarrow> bool" where
  "sized ctx \<longleftrightarrow> m_numcodes ctx \<le> length (m_huffnode ctx) \<and> 1 \<le> m_maxbits ctx \<and> m_maxbits ctx \<le> 24 \<and>
     m_numcodes ctx * 2 ^ m_maxbits ctx < 2 ^ 32"

lemma sized_numcodes: "sized ctx \<Longrightarrow> m_numcodes ctx < 2 ^ 32"
  unfolding sized_def by (metis le_less_trans mult.right_neutral mult_le_mono2 one_le_numeral one_le_power)

lemma kraft_map: "map n_numbits xs = map n_numbits ys \<Longrightarrow> kraft M xs = kraft M ys"
proof -
  have "kraft M zs = (\<Sum>L\<leftarrow>map n_numbits zs. if 0 < L then 2 ^ (M - L) else 0)" for zs
    by (simp add: kraft_def comp_def)
  then show "map n_numbits xs = map n_numbits ys \<Longrightarrow> kraft M xs = kraft M ys" by (simp only:)
qed

lemma canonical_small_code:
  assumes can: "canonical S nodes" and sz: "length nodes * 2 ^ M < 2 ^ 32" and nd: "nd \<in> set nodes"
  shows "small_code M nd"
  unfolding small_code_def
proof
  assume pos: "0 < n_numbits nd"
  obtain i where i: "i < length nodes" "nd = nodes ! i" using nd by (auto simp: in_set_conv_nth)
  have "n_bits nd + 1 \<le> length nodes"
    using canonical_code [OF can i(1)] starts_le_sum [of S nodes "n_numbits nd"] can pos i(2)
    unfolding canonical_def by auto
  then have "(n_bits nd + 1) * 2 ^ (M - n_numbits nd) \<le> length nodes * 2 ^ M"
    by (intro mult_le_mono) (simp_all add: power_increasing)
  then show "(n_bits nd + 1) * 2 ^ (M - n_numbits nd) < 2 ^ 32" using sz by linarith
qed

lemma assigned_table:
  assumes ok: "assign_canonical_codes ctx = Inr ctx'" and sz: "sized ctx" and lk: "length (m_lookup ctx) = 2 ^ m_maxbits ctx"
  shows "build_lookup_table ctx' = Inl Out_Of_Bounds \<longleftrightarrow> 2 ^ m_maxbits ctx < kraft (m_maxbits ctx) (codes ctx)"
    and "m_numcodes ctx \<le> 2 ^ 11 \<Longrightarrow> build_lookup_table ctx' = Inr ctx'' \<Longrightarrow> lookup_ok ctx''"
proof -
  let ?M = "m_maxbits ctx" and ?nodes = "codes ctx'"
  obtain S where can: "canonical S ?nodes" and nb: "map n_numbits ?nodes = map n_numbits (codes ctx)"
    and le: "\<forall>nd \<in> set ?nodes. n_numbits nd \<le> ?M"
    and ctx': "ctx' = ctx\<lparr>m_huffnode := ?nodes @ drop (m_numcodes ctx) (m_huffnode ctx)\<rparr>"
    using assign_canonical_codes_canonical [OF ok] sz sized_numcodes [OF sz] unfolding sized_def by force
  have same: "m_maxbits ctx' = ?M" "m_numcodes ctx' = m_numcodes ctx" "m_lookup ctx' = m_lookup ctx"
    by (subst ctx', simp)+
  have tk: "take (m_numcodes ctx) (m_huffnode ctx') = ?nodes" by (simp add: codes_def same)
  have ln: "length ?nodes = m_numcodes ctx"
    using arg_cong [OF nb, of length] sz by (simp add: codes_def sized_def)
  have small: "\<forall>nd \<in> set ?nodes. small_code ?M nd"
    using canonical_small_code [OF can] sz ln by (simp add: sized_def)
  have M: "1 \<le> ?M" "?M \<le> 32" using sz by (auto simp: sized_def)
  note none = build_lookup_loop_None_iff [OF small lk, of 0]
  have tab: "(\<forall>nd \<in> set ?nodes. in_table ?M nd) \<longleftrightarrow> kraft ?M ?nodes \<le> 2 ^ ?M"
    by (rule canonical_in_table_iff [OF can le M])
  show "build_lookup_table ctx' = Inl Out_Of_Bounds \<longleftrightarrow> 2 ^ ?M < kraft ?M (codes ctx)"
    using none tab kraft_map [OF nb]
    by (auto simp: build_lookup_table_def same tk split: option.splits)
  assume nc: "m_numcodes ctx \<le> 2 ^ 11" and "build_lookup_table ctx' = Inr ctx''"
  then obtain lk' where run: "build_lookup_loop ?M 0 ?nodes (m_lookup ctx) = Some lk'"
    and ctx'': "ctx'' = ctx'\<lparr>m_lookup := lk'\<rparr>"
    by (auto simp: build_lookup_table_def same tk split: option.splits)
  have kr: "kraft ?M ?nodes \<le> 2 ^ ?M" using run none tab by auto
  note vals = build_lookup_loop_values [OF small lk run]
  have "m_numcodes ctx' \<le> length (m_huffnode ctx')" using ln by (simp add: codes_def same)
  then have nth: "m_huffnode ctx' ! i = ?nodes ! i" if "i < m_numcodes ctx" for i
    using that by (simp add: codes_def same)
  have cov: "\<forall>j < length ?nodes. covers ?M (?nodes ! j) x \<longrightarrow> j = i"
    if "i < m_numcodes ctx" "covers ?M (?nodes ! i) x" for i x
    using covers_unique [OF can] le that ln by (metis nth_mem)
  have "m_lookup ctx'' ! x = MAKE_LOOKUP i (n_numbits (?nodes ! i))"
    if "i < m_numcodes ctx" "x < 2 ^ ?M" "covers ?M (?nodes ! i) x" for i x
    using vals(3) [OF that(2) _ that(3) cov [OF that(1,3)]] that(1) ln by (simp add: ctx'')
  moreover have "n_numbits (?nodes ! i) \<le> ?M" if "i < m_numcodes ctx" for i
    using le that ln nth_mem [of i ?nodes] by simp
  moreover have "n_bits (?nodes ! i) < 2 ^ n_numbits (?nodes ! i)"
    if "i < m_numcodes ctx" "0 < n_numbits (?nodes ! i)" for i
    using canonical_bits_bound [OF can le M kr] that ln by simp
  moreover have "m_maxbits ctx'' = ?M" "m_numcodes ctx'' = m_numcodes ctx" "m_huffnode ctx'' = m_huffnode ctx'"
    "m_lookup ctx'' = lk'"
    by (simp_all add: ctx'' same)
  ultimately show "lookup_ok ctx''"
    unfolding lookup_ok_def Let_def using vals(1) nc sz nth by (auto simp: sized_def)
qed

subsection \<open>Coding a symbol and decoding it\<close>

lemma take_bit_of_nat_word: "n < 2 ^ k \<Longrightarrow> take_bit k (of_nat n :: 'a::len word) = of_nat n"
  by (metis of_nat_take_bit take_bit_nat_eq_self)

lemma MAKE_LOOKUP_fields:
  assumes "code < 2 ^ 11" "bits < 32"
  shows "unat (drop_bit 5 (MAKE_LOOKUP code bits)) = code" "uint (MAKE_LOOKUP code bits AND 0x1f) = int bits"
proof -
  have m: "(0x1f :: u16) = mask 5" by (simp add: mask_eq_exp_minus_1)
  have bits5: "take_bit 5 (of_nat bits :: u16) = of_nat bits"
    using assms(2) by (simp add: take_bit_of_nat_word)
  have code11: "take_bit 11 (of_nat code :: u16) = of_nat code"
    using assms(1) by (simp add: take_bit_of_nat_word)
  have "drop_bit 5 (MAKE_LOOKUP code bits) = take_bit 11 (of_nat code :: u16)"
    by (rule bit_word_eqI) (auto simp: MAKE_LOOKUP_def m bit_simps)
  then show "unat (drop_bit 5 (MAKE_LOOKUP code bits)) = code"
    using assms(1) by (simp only: code11) (simp add: unat_of_nat_small)
  have "MAKE_LOOKUP code bits AND 0x1f = take_bit 5 (of_nat bits :: u16)"
    by (rule bit_word_eqI) (auto simp: MAKE_LOOKUP_def m bit_simps)
  then have "unat (MAKE_LOOKUP code bits AND 0x1f) = bits"
    using assms(2) by (simp only: bits5) (simp add: unat_of_nat_small)
  then show "uint (MAKE_LOOKUP code bits AND 0x1f) = int bits"
    using arg_cong [of "unat _" bits int] by simp
qed

lemma drop_bits_val:
  "length bs \<le> 32 \<Longrightarrow> drop_bit k (bits_val bs) = bits_val (take (length bs - k) bs)"
  by (rule bit_word_eqI) (auto simp: bit_drop_bit_eq bit_bits_val add.commute)

lemma bits_val_less: "length bs < 32 \<Longrightarrow> unat (bits_val bs) < 2 ^ length bs"
proof -
  assume len: "length bs < 32"
  have "bits_val bs = take_bit (length bs) (bits_val bs)"
    by (rule bit_word_eqI) (auto simp: bit_take_bit_iff bit_bits_val)
  then have "unat (bits_val bs) = take_bit (length bs) (unat (bits_val bs))"
    by (metis unsigned_take_bit_eq)
  then show ?thesis by (metis take_bit_nat_less_exp)
qed

lemma decode_one_at:
  assumes ok: "lookup_ok ctx" and i: "i < m_numcodes ctx" and nd: "nd = m_huffnode ctx ! i" "0 < n_numbits nd"
    and at: "in_at lim s (wbits (of_nat (n_bits nd)) (n_numbits nd) @ rest)"
  shows "fst (decode_one ctx s) = i \<and> in_at lim (snd (decode_one ctx s)) rest"
proof -
  let ?M = "m_maxbits ctx" and ?L = "n_numbits nd"
  have facts: "?L \<le> ?M" "?M \<le> 24" "n_bits nd < 2 ^ ?L" "m_numcodes ctx \<le> 2 ^ 11"
    and look: "\<And>x. x < 2 ^ ?M \<Longrightarrow> covers ?M nd x \<Longrightarrow> m_lookup ctx ! x = MAKE_LOOKUP i ?L"
    using ok i nd by (auto simp: lookup_ok_def Let_def)
  obtain data p where rep: "in_rep s data p" "p < 2 ^ 34" and bits: "bits_at data p ?L = wbits (of_nat (n_bits nd)) ?L"
    and cont: "\<And>s'. in_rep s' data (p + ?L) \<Longrightarrow> in_at lim s' rest"
    using in_at_split [OF at] by (metis length_wbits)
  define x where "x = bits_val (bits_at data p ?M)"
  have pk: "fst (peek (int ?M) s) = x" "in_rep (snd (peek (int ?M) s)) data p" "int ?M \<le> i_bits (snd (peek (int ?M) s))"
    using peek_rep [OF rep(1) _ rep(2), of ?M] facts(2) by (auto simp: x_def)
  have "drop_bit (?M - ?L) x = bits_val (bits_at data p ?L)"
    using facts(1,2) by (simp add: x_def drop_bits_val take_bits_at min_def)
  also have "\<dots> = take_bit ?L (of_nat (n_bits nd))"
    using facts(1,2) by (simp add: bits bits_val_wbits)
  finally have dx: "drop_bit (?M - ?L) x = take_bit ?L (of_nat (n_bits nd))" .
  have "(2 :: nat) ^ ?L \<le> 2 ^ 24" using facts(1,2) by (intro power_increasing) auto
  then have "n_bits nd < 2 ^ LENGTH(32)" using facts(3) by simp
  then have "unat (take_bit ?L (of_nat (n_bits nd) :: u32)) = n_bits nd"
    using facts(3) by (simp add: unsigned_take_bit_eq unat_of_nat_small take_bit_nat_eq_self_iff)
  then have "covers ?M nd (unat x)"
    using arg_cong [OF dx, of unat] nd(2) by (simp add: covers_def unat_drop_bit_eq flip: drop_bit_eq_div)
  moreover have "unat x < 2 ^ ?M" using bits_val_less [of "bits_at data p ?M"] facts(2) by (simp add: x_def)
  ultimately have "m_lookup ctx ! unat x = MAKE_LOOKUP i ?L" by (intro look)
  then have "decode_one ctx s = (i, in_remove (int ?L) (snd (peek (int ?M) s)))"
    using MAKE_LOOKUP_fields [of i ?L] facts i pk(1) by (simp add: decode_one_def Let_def split_beta)
  then show ?thesis
    using cont in_remove_rep [OF pk(2), of ?L] pk(3) facts(1) by simp
qed

text \<open>
  The code numbers are determined by the code lengths, so an encoder and a decoder that agree on
  the lengths agree on the codes. \<open>coders_match\<close> is what makes them understand each other.
\<close>

lemma canonical_starts_unique:
  assumes can: "canonical S xs" "canonical T ys" and len: "map n_numbits xs = map n_numbits ys" and k: "1 \<le> k" "k \<le> 32"
  shows "S k = T k"
  using k(2)
proof (induction rule: inc_induct)
  case base
  then show ?case using can by (simp add: canonical_def)
next
  case (step n)
  have "2 * S n = S (Suc n) + cnt xs (Suc n)" "2 * T n = T (Suc n) + cnt ys (Suc n)"
    using can k(1) step.hyps unfolding canonical_def by (auto dest: spec [of _ "Suc n"])
  then show ?case using step.IH cnt_map [OF len, of "Suc n"] by simp
qed

lemma canonical_unique:
  assumes can: "canonical S xs" "canonical T ys" and len: "map n_numbits xs = map n_numbits ys"
    and i: "i < length xs" "0 < n_numbits (xs ! i)"
  shows "n_bits (xs ! i) = n_bits (ys ! i)"
proof -
  have leq: "length xs = length ys" using map_eq_imp_length_eq [OF len] .
  have nb: "n_numbits (ys ! i) = n_numbits (xs ! i)" using i(1) leq len by (metis nth_map)
  have "S (n_numbits (xs ! i)) = T (n_numbits (xs ! i))"
    using canonical_starts_unique [OF can len] canonical_code(3) [OF can(1) i] i(2) by simp
  moreover have "cnt (take i xs) L = cnt (take i ys) L" for L
    using len by (intro cnt_map) (metis take_map)
  ultimately show ?thesis using can i leq nb by (auto simp: canonical_def Let_def)
qed

definition coders_match :: "huffman_context \<Rightarrow> huffman_context \<Rightarrow> bool" where
  "coders_match enc dec \<longleftrightarrow>
     lookup_ok dec \<and> (\<forall>i < m_numcodes dec. 0 < n_numbits (m_huffnode enc ! i) \<longrightarrow>
       n_numbits (m_huffnode enc ! i) = n_numbits (m_huffnode dec ! i) \<and>
       n_bits (m_huffnode enc ! i) = n_bits (m_huffnode dec ! i))"

definition symbol_ok :: "huffman_context \<Rightarrow> huffman_context \<Rightarrow> nat \<Rightarrow> bool" where
  "symbol_ok enc dec i \<longleftrightarrow> coders_match enc dec \<and> i < m_numcodes dec \<and> 0 < n_numbits (m_huffnode enc ! i)"

definition code_bits :: "huffman_context \<Rightarrow> nat \<Rightarrow> bool list" where
  "code_bits enc i = wbits (of_nat (n_bits (m_huffnode enc ! i))) (n_numbits (m_huffnode enc ! i))"

lemma symbol_ok_len: "symbol_ok enc dec i \<Longrightarrow> n_numbits (m_huffnode enc ! i) \<le> 24"
  by (auto simp: symbol_ok_def coders_match_def lookup_ok_def Let_def)

interpretation huff_out: symbol_writer "encode_one enc" "code_bits enc" "\<lambda>i. n_numbits (m_huffnode enc ! i) \<le> 32" for enc
  by unfold_locales (simp add: encode_one_def code_bits_def Let_def bs_write_rep)

interpretation huff: symbol_coder "encode_one enc" "code_bits enc" "symbol_ok enc dec"
  "\<lambda>_ :: unit. decode_one dec" "\<lambda>_. ()" "\<lambda>i. i" for enc dec
proof
  fix v s cap bs
  assume "symbol_ok enc dec v" "out_rep s cap bs" "length bs < 2 ^ 34"
  with symbol_ok_len [of enc dec v] show "out_rep (encode_one enc v s) cap (bs @ code_bits enc v)"
    by (intro huff_out.wr_rep) auto
next
  fix v lim t rest
  assume ok: "symbol_ok enc dec v" and at: "in_at lim t (code_bits enc v @ rest)"
  then show "fst (decode_one dec t) = v \<and> in_at lim (snd (decode_one dec t)) rest"
    by (intro decode_one_at [of dec v "m_huffnode dec ! v"])
      (auto simp: symbol_ok_def coders_match_def code_bits_def)
qed

lemma assigned_coders_match:
  assumes e: "assign_canonical_codes enc = Inr enc'" "sized enc"
    and d: "assign_canonical_codes dec = Inr dec'" "build_lookup_table dec' = Inr dec''" "sized dec"
    and same: "map n_numbits (codes enc) = map n_numbits (codes dec)"
    and sz: "length (m_lookup dec) = 2 ^ m_maxbits dec" "m_numcodes dec \<le> 2 ^ 11"
  shows "coders_match enc' dec''"
proof -
  obtain S where S: "canonical S (codes enc')" "map n_numbits (codes enc') = map n_numbits (codes enc)"
    "enc' = enc\<lparr>m_huffnode := codes enc' @ drop (m_numcodes enc) (m_huffnode enc)\<rparr>"
    using assign_canonical_codes_canonical [OF e(1)] e(2) sized_numcodes [OF e(2)] unfolding sized_def by force
  obtain T where T: "canonical T (codes dec')" "map n_numbits (codes dec') = map n_numbits (codes dec)"
    "dec' = dec\<lparr>m_huffnode := codes dec' @ drop (m_numcodes dec) (m_huffnode dec)\<rparr>"
    using assign_canonical_codes_canonical [OF d(1)] d(3) sized_numcodes [OF d(3)] unfolding sized_def by force
  have d'': "m_huffnode dec'' = m_huffnode dec'" "m_numcodes dec'' = m_numcodes dec"
    using d(2) arg_cong [OF T(3), of m_numcodes] by (auto simp: build_lookup_table_def split: option.splits)
  have lens: "map n_numbits (codes enc') = map n_numbits (codes dec')" using S(2) T(2) same by simp
  have ld: "length (codes dec') = m_numcodes dec" "length (codes enc') = m_numcodes dec"
    using map_eq_imp_length_eq [OF T(2)] map_eq_imp_length_eq [OF lens] d(3)
    by (auto simp: sized_def codes_def)
  have nth: "m_huffnode enc' ! i = codes enc' ! i" "m_huffnode dec' ! i = codes dec' ! i" if "i < m_numcodes dec" for i
    using that ld by (subst S(3), simp add: nth_append, subst T(3), simp add: nth_append)
  show ?thesis
    unfolding coders_match_def d''
  proof (intro conjI allI impI)
    show "lookup_ok dec''" by (rule assigned_table(2) [OF d(1,3) sz(1,2) d(2)])
    fix i assume i: "i < m_numcodes dec" and pos: "0 < n_numbits (m_huffnode enc' ! i)"
    show "n_numbits (m_huffnode enc' ! i) = n_numbits (m_huffnode dec' ! i)"
      using lens i ld by (simp add: nth) (metis nth_map)
    show "n_bits (m_huffnode enc' ! i) = n_bits (m_huffnode dec' ! i)"
      using canonical_unique [OF S(1) T(1) lens] i pos ld by (simp add: nth)
  qed
qed

subsection \<open>Prefix free codes\<close>

text \<open>
  Kraft's inequality: the words of a prefix free family of lengths at most \<open>M\<close> have disjoint sets of
  continuations among the words of length \<open>M\<close>.
\<close>

definition continuations :: "nat \<Rightarrow> bool list \<Rightarrow> bool list set" where
  "continuations M w = {xs. length xs = M \<and> prefix w xs}"

lemma card_continuations:
  assumes "length w \<le> M"
  shows "finite (continuations M w)" "card (continuations M w) = 2 ^ (M - length w)"
proof -
  let ?ys = "{ys :: bool list. set ys \<subseteq> UNIV \<and> length ys = M - length w}"
  have c: "continuations M w = (@) w ` ?ys" using assms by (auto simp: continuations_def prefix_def)
  have "finite ?ys" by (rule finite_lists_length_eq) simp
  then show "finite (continuations M w)" unfolding c by simp
  have "card (continuations M w) = card ?ys" unfolding c by (rule card_image) (simp add: inj_on_def)
  also have "\<dots> = 2 ^ (M - length w)" by (subst card_lists_length_eq) simp_all
  finally show "card (continuations M w) = 2 ^ (M - length w)" .
qed

lemma kraft_inequality:
  fixes w :: "'a \<Rightarrow> bool list"
  assumes "finite I" "\<forall>i \<in> I. length (w i) \<le> M"
    and free: "\<forall>i \<in> I. \<forall>j \<in> I. i \<noteq> j \<longrightarrow> \<not> prefix (w i) (w j)"
  shows "(\<Sum>i \<in> I. 2 ^ (M - length (w i))) \<le> (2 :: nat) ^ M"
proof -
  have "continuations M (w i) \<inter> continuations M (w j) = {}" if "i \<in> I" "j \<in> I" "i \<noteq> j" for i j
    using free that prefix_same_cases [of "w i" _ "w j"] by (auto simp: continuations_def)
  then have "(\<Sum>i \<in> I. 2 ^ (M - length (w i))) = card (\<Union>i \<in> I. continuations M (w i))"
    using assms(1,2) by (subst card_UN_disjoint) (auto simp: card_continuations)
  also have "\<dots> \<le> card (continuations M [])"
    using card_continuations [of "[]" M] by (intro card_mono) (auto simp: continuations_def)
  finally show ?thesis using card_continuations [of "[]" M] by simp
qed

lemma kraft_indices:
  "kraft M nodes = (\<Sum>i \<in> {i. i < length nodes \<and> 0 < n_numbits (nodes ! i)}. 2 ^ (M - n_numbits (nodes ! i)))"
  by (simp add: kraft_def sum.list_conv_set_nth sum.inter_filter lessThan_atLeast0 [symmetric] flip: lessThan_iff)

text \<open>A code number that fits its length is read back from a word that its code word begins.\<close>

lemma prefix_code_covers:
  assumes "prefix (wbits (of_nat (n_bits a)) (n_numbits a)) (wbits (of_nat (n_bits b)) (n_numbits b))"
    and "0 < n_numbits a" "n_numbits b \<le> 31" "n_bits a < 2 ^ n_numbits a" "n_bits b < 2 ^ n_numbits b"
  shows "covers (n_numbits b) a (n_bits b)"
proof -
  let ?v = "\<lambda>nd. of_nat (n_bits nd) :: u32"
  have le: "n_numbits a \<le> n_numbits b" using prefix_length_le [OF assms(1)] by simp
  have small: "unat (take_bit (n_numbits nd) (?v nd)) = n_bits nd" if "n_bits nd < 2 ^ n_numbits nd" "n_numbits nd \<le> 31" for nd
  proof -
    have "(2 :: nat) ^ n_numbits nd \<le> 2 ^ 31" using that(2) by (intro power_increasing) auto
    then have "n_bits nd < 2 ^ LENGTH(32)" using that(1) by simp
    then show ?thesis using that(1) by (simp add: unsigned_take_bit_eq unat_of_nat_small take_bit_nat_eq_self_iff)
  qed
  have "bits_val (take (n_numbits a) (wbits (?v b) (n_numbits b))) = drop_bit (n_numbits b - n_numbits a) (bits_val (wbits (?v b) (n_numbits b)))"
    using le assms(3) by (simp add: drop_bits_val)
  moreover have "take (n_numbits a) (wbits (?v b) (n_numbits b)) = wbits (?v a) (n_numbits a)"
    using assms(1) by (auto simp: prefix_def)
  ultimately have "take_bit (n_numbits a) (?v a) = drop_bit (n_numbits b - n_numbits a) (take_bit (n_numbits b) (?v b))"
    using assms(3) le by (simp add: bits_val_wbits)
  from arg_cong [OF this, of unat] have "n_bits a = drop_bit (n_numbits b - n_numbits a) (n_bits b)"
    using assms(3-5) le small [of a] small [of b] by (simp add: unat_drop_bit_eq)
  then show ?thesis using assms(2) by (simp add: covers_def drop_bit_eq_div)
qed

lemma assigned_codes:
  assumes "assign_canonical_codes ctx = Inr ctx'" "sized ctx"
  obtains S where "canonical S (codes ctx')" "map n_numbits (codes ctx') = map n_numbits (codes ctx)"
    "length (codes ctx') = m_numcodes ctx" "\<forall>nd \<in> set (codes ctx'). n_numbits nd \<le> m_maxbits ctx"
    "\<forall>i < m_numcodes ctx. m_huffnode ctx' ! i = codes ctx' ! i"
proof -
  obtain S where S: "canonical S (codes ctx')" "map n_numbits (codes ctx') = map n_numbits (codes ctx)"
    "\<forall>nd \<in> set (codes ctx'). n_numbits nd \<le> m_maxbits ctx"
    "ctx' = ctx\<lparr>m_huffnode := codes ctx' @ drop (m_numcodes ctx) (m_huffnode ctx)\<rparr>"
    using assign_canonical_codes_canonical [OF assms(1)] assms(2) sized_numcodes [OF assms(2)] unfolding sized_def by force
  have len: "length (codes ctx') = m_numcodes ctx"
    using map_eq_imp_length_eq [OF S(2)] assms(2) by (simp add: codes_def sized_def)
  have "\<forall>i < m_numcodes ctx. m_huffnode ctx' ! i = codes ctx' ! i"
    using len by (subst S(4)) (simp add: nth_append)
  with that S len show ?thesis by blast
qed

text \<open>No code word of a symbol that has one begins the code word of another symbol.\<close>

definition prefix_free :: "huffman_context \<Rightarrow> bool" where
  "prefix_free ctx \<longleftrightarrow>
     (\<forall>i < m_numcodes ctx. \<forall>j < m_numcodes ctx.
        i \<noteq> j \<and> 0 < n_numbits (m_huffnode ctx ! i) \<and> 0 < n_numbits (m_huffnode ctx ! j) \<longrightarrow>
        \<not> prefix (code_bits ctx i) (code_bits ctx j))"

subsection \<open>Properties\<close>

text \<open>
  C20: The code words that an encoder emits after \<open>assign_canonical_codes\<close> accepted the code lengths
  (\<open>code_bits\<close>, the low \<open>n_numbits\<close> bits of the code number, as \<open>encode_one\<close> writes them) are prefix free
  exactly when the lengths do not oversubscribe the code space: their Kraft sum is at most one. The
  acceptance test alone does not exclude longer sums; then two symbols share a code word or one begins
  the other.
\<close>

theorem assigned_prefix_free:
  assumes "assign_canonical_codes ctx = Inr ctx'" "sized ctx"
  shows "prefix_free ctx' \<longleftrightarrow> kraft (m_maxbits ctx) (codes ctx) \<le> 2 ^ m_maxbits ctx" (is "_ \<longleftrightarrow> ?fits")
proof -
  let ?M = "m_maxbits ctx" and ?nodes = "codes ctx'"
  obtain S where S: "canonical S ?nodes" "map n_numbits ?nodes = map n_numbits (codes ctx)" "length ?nodes = m_numcodes ctx"
      "\<forall>nd \<in> set ?nodes. n_numbits nd \<le> ?M" "\<forall>i < m_numcodes ctx. m_huffnode ctx' ! i = ?nodes ! i"
    using assigned_codes [OF assms(1,2)] by blast
  have M: "1 \<le> ?M" "?M \<le> 24" using assms(2) by (simp_all add: sized_def)
  have nc: "m_numcodes ctx' = m_numcodes ctx"
    using assms(1) by (auto simp: assign_canonical_codes_def Let_def split: option.splits)
  define coded where "coded = {i. i < m_numcodes ctx \<and> 0 < n_numbits (m_huffnode ctx' ! i)}"
  have free: "prefix_free ctx' \<longleftrightarrow> (\<forall>i \<in> coded. \<forall>j \<in> coded. i \<noteq> j \<longrightarrow> \<not> prefix (code_bits ctx' i) (code_bits ctx' j))"
    by (auto simp: prefix_free_def coded_def nc)
  have coded: "coded = {i. i < length ?nodes \<and> 0 < n_numbits (?nodes ! i)}" using S(3,5) by (auto simp: coded_def)
  have le: "n_numbits (?nodes ! i) \<le> ?M" if "i \<in> coded" for i using that S(4) by (simp add: coded)
  have word: "code_bits ctx' i = wbits (of_nat (n_bits (?nodes ! i))) (n_numbits (?nodes ! i))" if "i \<in> coded" for i
    using that S(3,5) by (simp add: code_bits_def coded)
  have kr: "kraft ?M (codes ctx) = (\<Sum>i \<in> coded. 2 ^ (?M - length (code_bits ctx' i)))"
    using kraft_indices [of ?M ?nodes] word by (simp add: coded [symmetric] kraft_map [OF S(2)])
  have "finite coded" by (simp add: coded)
  show ?thesis
  proof
    assume "prefix_free ctx'"
    with kraft_inequality [of coded "code_bits ctx'" ?M] \<open>finite coded\<close> le show ?fits by (simp add: kr word free)
  next
    assume ?fits
    then have fit: "n_bits (?nodes ! i) < 2 ^ n_numbits (?nodes ! i)" if "i \<in> coded" for i
      using canonical_bits_bound [OF S(1,4) M(1)] M(2) that by (simp add: coded kraft_map [OF S(2)])
    show "prefix_free ctx'"
      unfolding free
    proof (intro ballI impI notI)
      fix i j assume ij: "i \<in> coded" "j \<in> coded" "i \<noteq> j" and p: "prefix (code_bits ctx' i) (code_bits ctx' j)"
      then have L: "n_numbits (?nodes ! i) \<le> n_numbits (?nodes ! j)" using prefix_length_le [OF p] by (simp add: word)
      have "covers (n_numbits (?nodes ! j)) (?nodes ! i) (n_bits (?nodes ! j))"
        using p fit ij le [of j] M(2) by (intro prefix_code_covers) (simp_all add: word, simp add: coded)
      moreover have "covers (n_numbits (?nodes ! j)) (?nodes ! j) (n_bits (?nodes ! j))" using ij(2) by (simp add: covers_def coded)
      ultimately show False using covers_unique [OF S(1) _ _ L] ij by (simp add: coded)
    qed
  qed
qed

definition sample_lens :: "nat list" where
  "sample_lens = [1, 0, 2, 3, 3]"

definition sample_enc :: huffman_context where
  "sample_enc = \<lparr>m_numcodes = 5, m_maxbits = 3, m_lookup = [], m_datahisto = [],
     m_huffnode = map (\<lambda>L. node_null\<lparr>n_numbits := L\<rparr>) sample_lens\<rparr>"

definition sample_dec :: huffman_context where
  "sample_dec = sample_enc\<lparr>m_lookup := replicate 8 0\<rparr>"

definition sample_enc' :: huffman_context where
  "sample_enc' = sample_enc\<lparr>m_huffnode :=
     map2 (\<lambda>L b. node_null\<lparr>n_numbits := L, n_bits := b\<rparr>) sample_lens [1, 0, 1, 0, 1]\<rparr>"

lemma sample_enc_assign: "assign_canonical_codes sample_enc = Inr sample_enc'"
  by code_simp

lemmas sample_defs = sample_enc'_def sample_dec_def sample_enc_def sample_lens_def node_null_def

lemma sample_sized: "sized sample_enc" "sized sample_dec"
  by (simp_all add: sized_def sample_dec_def sample_enc_def sample_lens_def)

definition sample_bad :: huffman_context where
  "sample_bad = sample_dec\<lparr>m_huffnode := map (\<lambda>L. node_null\<lparr>n_numbits := L\<rparr>) [1, 1, 1, 0, 0]\<rparr>"

definition sample_bad' :: huffman_context where
  "sample_bad' = sample_dec\<lparr>m_huffnode :=
     map2 (\<lambda>L b. node_null\<lparr>n_numbits := L, n_bits := b\<rparr>) [1, 1, 1, 0, 0] [0, 1, 2, 0, 0]\<rparr>"

lemma sample_bad_assign: "assign_canonical_codes sample_bad = Inr sample_bad'"
  by code_simp

lemma sample_bad_sized: "sized sample_bad"
  by (simp add: sample_bad_def sample_defs sized_def)

theorem assigned_prefix_free_witness:
  "prefix_free sample_enc' \<and> \<not> prefix_free sample_bad'"
proof
  show "prefix_free sample_enc'"
    unfolding assigned_prefix_free [OF sample_enc_assign sample_sized(1)] by (simp add: sample_defs kraft_def codes_def)
  show "\<not> prefix_free sample_bad'"
    unfolding assigned_prefix_free [OF sample_bad_assign sample_bad_sized] by (simp add: sample_bad_def sample_defs kraft_def codes_def)
qed

text \<open>
  C30: The lookup table after \<open>assign_canonical_codes\<close> accepted the code lengths. The table is written
  out of bounds exactly when the lengths oversubscribe the code space (their Kraft sum exceeds one),
  which the acceptance test does not exclude.
\<close>

theorem build_lookup_table_bounds:
  assumes "assign_canonical_codes ctx = Inr ctx'" "sized ctx" "length (m_lookup ctx) = 2 ^ m_maxbits ctx"
  shows "build_lookup_table ctx' = Inl Out_Of_Bounds \<longleftrightarrow> 2 ^ m_maxbits ctx < kraft (m_maxbits ctx) (codes ctx)"
  by (rule assigned_table(1) [OF assms])

theorem build_lookup_table_bounds_witness:
  "assign_canonical_codes sample_bad = Inr sample_bad' \<and> build_lookup_table sample_bad' = Inl Out_Of_Bounds"
proof -
  have "sized sample_bad" "length (m_lookup sample_bad) = 2 ^ m_maxbits sample_bad"
    "2 ^ m_maxbits sample_bad < kraft (m_maxbits sample_bad) (codes sample_bad)"
    by (simp_all add: sample_bad_def sample_defs sized_def kraft_def codes_def)
  with build_lookup_table_bounds [OF sample_bad_assign this(1,2)] sample_bad_assign show ?thesis by blast
qed

text \<open>
  C19: A decoder whose table was built from the same code lengths as the encoder's codes decodes every
  sequence of symbols that have a code, from a buffer that was large enough for them.
\<close>

theorem huffman_roundtrip:
  assumes "assign_canonical_codes enc = Inr enc'" "sized enc"
    and "assign_canonical_codes dec = Inr dec1" "build_lookup_table dec1 = Inr dec'" "sized dec"
    and "map n_numbits (codes enc) = map n_numbits (codes dec)"
    and "length (m_lookup dec) = 2 ^ m_maxbits dec" "m_numcodes dec \<le> 2 ^ 11"
    and "\<forall>i \<in> set syms. i < m_numcodes dec \<and> 0 < n_numbits (m_huffnode enc' ! i)"
    and "(\<Sum>i\<leftarrow>syms. n_numbits (m_huffnode enc' ! i)) \<le> 8 * length dest" "length dest < 2 ^ 30"
  shows "fst (read_all (\<lambda>_. decode_one dec') (map (\<lambda>_. ()) syms)
      (mk_bitstream_in (o_write (snd (out_flush (fold (encode_one enc') syms
         (mk_bitstream_out dest (of_nat (length dest))))))) (of_nat (length dest)))) = syms"
proof -
  have match: "coders_match enc' dec'" by (rule assigned_coders_match [OF assms(1-8)])
  have "m_numcodes dec' = m_numcodes dec"
    using assms(3,4) by (auto simp: assign_canonical_codes_def build_lookup_table_def Let_def split: option.splits)
  then have "\<forall>i \<in> set syms. symbol_ok enc' dec' i" using match assms(9) by (simp add: symbol_ok_def)
  moreover have "length (concat (map (code_bits enc') syms)) = (\<Sum>i\<leftarrow>syms. n_numbits (m_huffnode enc' ! i))"
    by (simp add: length_concat comp_def code_bits_def)
  ultimately show ?thesis using huff.write_flush_read [of syms enc' dec' dest] assms(10,11) by simp
qed

definition sample_dec1 :: huffman_context where
  "sample_dec1 = sample_enc'\<lparr>m_lookup := replicate 8 0\<rparr>"

definition sample_dec' :: huffman_context where
  "sample_dec' = sample_enc'\<lparr>m_lookup := MAKE_LOOKUP 3 3 # MAKE_LOOKUP 4 3
     # replicate 2 (MAKE_LOOKUP 2 2) @ replicate 4 (MAKE_LOOKUP 0 1)\<rparr>"

lemma sample_dec_built: "assign_canonical_codes sample_dec = Inr sample_dec1" "build_lookup_table sample_dec1 = Inr sample_dec'"
  by code_simp+

theorem huffman_roundtrip_witness:
  "fst (read_all (\<lambda>_. decode_one sample_dec') (map (\<lambda>_. ()) [3, 0, 2, 4, 0 :: nat])
      (mk_bitstream_in (o_write (snd (out_flush (fold (encode_one sample_enc') [3, 0, 2, 4, 0]
         (mk_bitstream_out [0, 0] (of_nat (length [0, 0 :: u8]))))))) (of_nat (length [0, 0 :: u8])))) = [3, 0, 2, 4, 0]"
  by (rule huffman_roundtrip [OF sample_enc_assign sample_sized(1) sample_dec_built sample_sized(2)])
    (simp_all add: sample_defs codes_def)

end
