(* ===== verification/Huffman_Tree.thy ===== *)
theory Huffman_Tree
  imports Huffman
begin

text \<open>
  Storing a Huffman tree as its list of code lengths, \<^verbatim>\<open>lib/util/huffman.cpp\<close>: the run-length coded
  form (\<open>export_tree_rle\<close>, \<open>import_tree_rle\<close>) that the compressed hunk map of a CHD uses. The main
  result is that the importer rebuilds the exporter's code lengths, and with them its codes.
\<close>

subsection \<open>The operations\<close>

definition tree_width :: "nat \<Rightarrow> nat" where
  "tree_width maxbits = (if maxbits \<ge> 16 then 5 else if maxbits \<ge> 8 then 4 else 3)"

function write_rle_tree_bits :: "int \<Rightarrow> int \<Rightarrow> nat \<Rightarrow> bitstream_out \<Rightarrow> bitstream_out" where
  "write_rle_tree_bits value' repcount numbits bitbuf =
     (if repcount > 0 then
        if value' = 1 then
          write_rle_tree_bits value' (repcount - 1) numbits
            (bs_write 1 (int numbits) (bs_write 1 (int numbits) bitbuf))
        else if repcount \<le> 2 then
          write_rle_tree_bits value' (repcount - 1) numbits (bs_write (word_of_int value') (int numbits) bitbuf)
        else
          (let cur_reps = min (repcount - 3) (2 ^ numbits - 1)
           in write_rle_tree_bits value' (repcount - (cur_reps + 3)) numbits
                (bs_write (word_of_int cur_reps) (int numbits)
                  (bs_write (word_of_int value') (int numbits) (bs_write 1 (int numbits) bitbuf))))
      else bitbuf)"
  by pat_completeness auto
termination
proof (relation "measure (\<lambda>(value', repcount, numbits, bitbuf). nat repcount)")
  fix value' repcount :: int and numbits :: nat and cur_reps :: int and bitbuf :: bitstream_out
  assume "0 < repcount" "\<not> repcount \<le> 2" "cur_reps = min (repcount - 3) (2 ^ numbits - 1)"
  moreover have "(1 :: int) \<le> 2 ^ numbits" by simp
  ultimately have "0 \<le> cur_reps" by simp
  then show "((value', repcount - (cur_reps + 3), numbits, bs_write (word_of_int cur_reps) (int numbits)
        (bs_write (word_of_int value') (int numbits) (bs_write 1 (int numbits) bitbuf))),
      value', repcount, numbits, bitbuf) \<in> measure (\<lambda>(value', repcount, numbits, bitbuf). nat repcount)"
    using \<open>0 < repcount\<close> by simp
qed auto

declare write_rle_tree_bits.simps [simp del]

primrec export_rle_loop :: "nat \<Rightarrow> int \<Rightarrow> int \<Rightarrow> node_t list \<Rightarrow> bitstream_out \<Rightarrow> int \<times> int \<times> bitstream_out" where
  "export_rle_loop numbits lastval repcount [] bitbuf = (lastval, repcount, bitbuf)"
| "export_rle_loop numbits lastval repcount (node # nodes) bitbuf =
     (let newval = int (n_numbits node) in
      if newval = lastval then export_rle_loop numbits lastval (repcount + 1) nodes bitbuf
      else export_rle_loop numbits newval 1 nodes
             (if repcount \<noteq> 0 then write_rle_tree_bits lastval repcount numbits bitbuf else bitbuf))"

definition export_tree_rle :: "huffman_context \<Rightarrow> bitstream_out \<Rightarrow> huffman_error option \<times> bitstream_out" where
  "export_tree_rle ctx bitbuf =
     (let numbits = tree_width (m_maxbits ctx);
          (lastval, repcount, bitbuf1) = export_rle_loop numbits (- 1) 0 (codes ctx) bitbuf;
          bitbuf2 = write_rle_tree_bits lastval repcount numbits bitbuf1
      in (if out_overflow bitbuf2 then Some HUFFERR_OUTPUT_BUFFER_TOO_SMALL else None, bitbuf2))"

text \<open>
  \<open>store_run\<close> stores a code length into \<open>count\<close> successive nodes from \<open>curnode\<close>; \<open>None\<close> is a store
  past the node array.
\<close>

definition store_run :: "nat \<Rightarrow> nat \<Rightarrow> nat \<Rightarrow> node_t list \<Rightarrow> node_t list option" where
  "store_run curnode count nodebits nodes =
     (if length nodes < curnode + count then None
      else Some (take curnode nodes
                 @ map (\<lambda>nd. nd\<lparr>n_numbits := nodebits mod 256\<rparr>) (slice curnode count nodes)
                 @ drop (curnode + count) nodes))"

function import_rle_loop ::
    "nat \<Rightarrow> nat \<Rightarrow> nat \<Rightarrow> node_t list \<Rightarrow> bitstream_in \<Rightarrow> (nat \<times> node_t list \<times> bitstream_in) option" where
  "import_rle_loop numbits numcodes curnode nodes bitbuf =
     (if curnode < numcodes then
        let (nodebits, bitbuf1) = bs_read (int numbits) bitbuf in
        if nodebits \<noteq> 1 then
          case store_run curnode 1 (unat nodebits) nodes of
            None \<Rightarrow> None
          | Some nodes' \<Rightarrow> import_rle_loop numbits numcodes (curnode + 1) nodes' bitbuf1
        else
          let (nodebits', bitbuf2) = bs_read (int numbits) bitbuf1 in
          if nodebits' = 1 then
            case store_run curnode 1 (unat nodebits') nodes of
              None \<Rightarrow> None
            | Some nodes' \<Rightarrow> import_rle_loop numbits numcodes (curnode + 1) nodes' bitbuf2
          else
            let (reps, bitbuf3) = bs_read (int numbits) bitbuf2;
                repcount = unat reps + 3 in
            case store_run curnode repcount (unat nodebits') nodes of
              None \<Rightarrow> None
            | Some nodes' \<Rightarrow> import_rle_loop numbits numcodes (curnode + repcount) nodes' bitbuf3
      else Some (curnode, nodes, bitbuf))"
  by pat_completeness auto
termination
  by (relation "measure (\<lambda>(numbits, numcodes, curnode, nodes, bitbuf). numcodes - curnode)") auto

declare import_rle_loop.simps [simp del]

text \<open>The common tail of the importers: codes, lookup table, and the overflow check of the reader.\<close>

definition finish_import :: "huffman_context \<Rightarrow> bitstream_in \<Rightarrow> huff_fault + huffman_context" where
  "finish_import ctx bitbuf =
     (case assign_canonical_codes ctx of
        Inl e \<Rightarrow> Inl e
      | Inr ctx1 \<Rightarrow>
          (case build_lookup_table ctx1 of
             Inl e \<Rightarrow> Inl e
           | Inr ctx2 \<Rightarrow>
               if in_overflow bitbuf then Inl (Huff_Error HUFFERR_INPUT_BUFFER_TOO_SMALL) else Inr ctx2))"

definition import_tree_rle :: "huffman_context \<Rightarrow> bitstream_in \<Rightarrow> (huff_fault + huffman_context) \<times> bitstream_in" where
  "import_tree_rle ctx bitbuf =
     (case import_rle_loop (tree_width (m_maxbits ctx)) (m_numcodes ctx) 0 (m_huffnode ctx) bitbuf of
        None \<Rightarrow> (Inl Out_Of_Bounds, bitbuf)
      | Some (curnode, nodes, bitbuf') \<Rightarrow>
          if curnode \<noteq> m_numcodes ctx then (Inl (Huff_Error HUFFERR_INVALID_DATA), bitbuf')
          else (finish_import (ctx\<lparr>m_huffnode := nodes\<rparr>) bitbuf', bitbuf'))"

subsection \<open>The fields of a run\<close>

text \<open>
  \<open>run_fields w v r\<close> are the \<open>w\<close>-bit fields written for \<open>r\<close> codes of length \<open>v\<close>; \<open>runs\<close> are the
  runs the export loop finds.
\<close>

fun run_fields :: "nat \<Rightarrow> nat \<Rightarrow> nat \<Rightarrow> nat list" where
  "run_fields w v r =
     (if r = 0 then []
      else if v = 1 then 1 # 1 # run_fields w v (r - 1)
      else if r \<le> 2 then v # run_fields w v (r - 1)
      else let c = min (r - 3) (2 ^ w - 1) in 1 # v # c # run_fields w v (r - (c + 3)))"

declare run_fields.simps [simp del]

lemma run_fields_cases:
  "run_fields w v 0 = []"
  "0 < r \<Longrightarrow> run_fields w 1 r = 1 # 1 # run_fields w 1 (r - 1)"
  "0 < r \<Longrightarrow> r \<le> 2 \<Longrightarrow> v \<noteq> 1 \<Longrightarrow> run_fields w v r = v # run_fields w v (r - 1)"
  "2 < r \<Longrightarrow> v \<noteq> 1 \<Longrightarrow> c = min (r - 3) (2 ^ w - 1) \<Longrightarrow> run_fields w v r = 1 # v # c # run_fields w v (r - (c + 3))"
  by (subst run_fields.simps, simp add: Let_def)+

primrec runs :: "nat \<Rightarrow> nat \<Rightarrow> nat list \<Rightarrow> (nat \<times> nat) list" where
  "runs v r [] = [(v, r)]"
| "runs v r (x # xs) = (if x = v then runs v (r + 1) xs else (v, r) # runs x 1 xs)"

definition field_bits :: "nat \<Rightarrow> nat list \<Rightarrow> bool list" where
  "field_bits w fs = concat (map (\<lambda>v. wbits (of_nat v) w) fs)"

definition tree_bits :: "nat \<Rightarrow> nat list \<Rightarrow> bool list" where
  "tree_bits w lens =
     (case lens of [] \<Rightarrow> [] | x # xs \<Rightarrow> field_bits w (concat (map (\<lambda>(v, r). run_fields w v r) (runs x 1 xs))))"

lemma field_bits_simps [simp]:
  "field_bits w [] = []" "field_bits w (f # fs) = wbits (of_nat f) w @ field_bits w fs"
  "field_bits w (fs @ gs) = field_bits w fs @ field_bits w gs"
  by (simp_all add: field_bits_def)

lemma length_field_bits [simp]: "length (field_bits w fs) = w * length fs"
  by (induction fs) auto

lemma length_run_fields: "length (run_fields w v r) \<le> 2 * r"
proof (induction w v r rule: run_fields.induct)
  case (1 w v r)
  show ?case
  proof (cases "r = 0 \<or> v = 1 \<or> r \<le> 2")
    case True
    with 1 show ?thesis by (subst run_fields.simps) (auto split: if_splits)
  next
    case False
    define c where "c = min (r - 3) (2 ^ w - 1 :: nat)"
    have "c \<le> r - 3" by (simp add: c_def)
    moreover have "length (run_fields w v (r - (c + 3))) \<le> 2 * (r - (c + 3))" using 1 False c_def by auto
    moreover have "run_fields w v r = 1 # v # c # run_fields w v (r - (c + 3))"
      using False c_def by (intro run_fields_cases(4)) auto
    ultimately have "length (run_fields w v r) \<le> 3 + 2 * (r - (c + 3))" "c + 3 \<le> r" using False by auto
    then show ?thesis by linarith
  qed
qed

lemma runs_total: "(\<Sum>(v, r)\<leftarrow>runs v r xs. r) = r + length xs"
  by (induction xs arbitrary: v r) auto

lemma length_runs_fields: "length (concat (map (\<lambda>(v, r). run_fields w v r) rs)) \<le> 2 * (\<Sum>(v, r)\<leftarrow>rs. r)"
proof (induction rs)
  case (Cons p rs)
  obtain v r where "p = (v, r)" by fastforce
  with Cons length_run_fields [of w v r] show ?case by simp
qed simp

lemma length_tree_bits: "length (tree_bits w lens) \<le> 2 * w * length lens"
proof (cases lens)
  case (Cons x xs)
  have "length (concat (map (\<lambda>(v, r). run_fields w v r) (runs x 1 xs))) \<le> 2 * (1 + length xs)"
    using length_runs_fields [of w "runs x 1 xs"] by (simp add: runs_total)
  then have "w * length (concat (map (\<lambda>(v, r). run_fields w v r) (runs x 1 xs))) \<le> w * (2 * (1 + length xs))"
    by (rule mult_le_mono2)
  with Cons show ?thesis by (simp add: tree_bits_def mult_ac distrib_left)
qed (simp add: tree_bits_def)

subsection \<open>The writer produces the fields\<close>

lemma write_rle_tree_bits_rep:
  assumes "out_rep s cap bs" "w \<le> 5" "length bs + 10 * r < 2 ^ 34"
  shows "out_rep (write_rle_tree_bits (int v) (int r) w s) cap (bs @ field_bits w (run_fields w v r))"
  using assms
proof (induction w v r arbitrary: s bs rule: run_fields.induct)
  case (1 w v r)
  have wr: "out_rep (bs_write x (int w) t) cap (cs @ wbits x w)"
    if "out_rep t cap cs" "length cs < 2 ^ 34" for x t cs
    using bs_write_rep [OF that(1) _ that(2)] 1(4-) "1.prems"(2) by simp
  have one: "wbits 1 w = wbits (of_nat 1) w" by simp
  consider "r = 0" | "0 < r" "v = 1" | "0 < r" "v \<noteq> 1" "r \<le> 2" | "v \<noteq> 1" "2 < r" by linarith
  then show ?case
  proof cases
    case 1
    with \<open>out_rep s cap bs\<close> show ?thesis by (simp add: write_rle_tree_bits.simps run_fields.simps)
  next
    case 2
    let ?t = "bs_write 1 (int w) (bs_write 1 (int w) s)"
    have "out_rep ?t cap ((bs @ wbits 1 w) @ wbits 1 w)"
      using "1.prems" 2 by (intro wr) auto
    then have "out_rep (write_rle_tree_bits (int v) (int (r - 1)) w ?t) cap
        ((bs @ wbits 1 w @ wbits 1 w) @ field_bits w (run_fields w v (r - 1)))"
      using "1.prems" 2 by (intro "1.IH"(1)) auto
    with 2 show ?thesis
      by (simp add: write_rle_tree_bits.simps [of 1 "int r"] run_fields.simps [of w 1 r, simplified] of_nat_diff)
  next
    case 3
    have "out_rep (bs_write (of_nat v) (int w) s) cap (bs @ wbits (of_nat v) w)"
      using "1.prems" 3 by (intro wr) auto
    then have "out_rep (write_rle_tree_bits (int v) (int (r - 1)) w (bs_write (of_nat v) (int w) s)) cap
        ((bs @ wbits (of_nat v) w) @ field_bits w (run_fields w v (r - 1)))"
      using "1.prems" 3 by (intro "1.IH"(2)) auto
    with 3 show ?thesis
      by (simp add: write_rle_tree_bits.simps [of "int v" "int r"] run_fields.simps [of w v r] of_nat_diff)
  next
    case 4
    define c where "c = min (r - 3) (2 ^ w - 1)"
    have c: "min (int r - 3) (2 ^ w - 1) = int c"
      using 4 by (simp add: c_def of_nat_diff of_nat_min)
    have "c + 3 \<le> r" using 4 by (simp add: c_def)
    then have d: "int r - (int c + 3) = int (r - (c + 3))" by simp
    let ?t = "bs_write (of_nat c) (int w) (bs_write (of_nat v) (int w) (bs_write 1 (int w) s))"
    have "out_rep ?t cap (((bs @ wbits 1 w) @ wbits (of_nat v) w) @ wbits (of_nat c) w)"
      using "1.prems" 4 by (intro wr) auto
    then have "out_rep (write_rle_tree_bits (int v) (int (r - (c + 3))) w ?t) cap
        ((bs @ wbits 1 w @ wbits (of_nat v) w @ wbits (of_nat c) w) @ field_bits w (run_fields w v (r - (c + 3))))"
      using "1.prems" 4 c_def by (intro "1.IH"(3)) auto
    with 4 show ?thesis
      by (simp add: write_rle_tree_bits.simps [of "int v" "int r"] run_fields_cases(4) [OF _ _ c_def] Let_def c d)
  qed
qed

lemma export_rle_loop_rep:
  assumes "out_rep s cap bs" "w \<le> 5" "length bs + 10 * (r + length nodes) < 2 ^ 34" "0 < r"
    "export_rle_loop w (int v) (int r) nodes s = (lv, rc, s')"
  shows "out_rep (write_rle_tree_bits lv rc w s') cap
    (bs @ field_bits w (concat (map (\<lambda>(v, r). run_fields w v r) (runs v r (map n_numbits nodes)))))"
  using assms
proof (induction nodes arbitrary: s bs v r)
  case Nil
  then show ?case using write_rle_tree_bits_rep [of s cap bs w r v] by simp
next
  case (Cons nd nodes)
  show ?case
  proof (cases "n_numbits nd = v")
    case True
    with Cons.prems Cons.IH [of s bs "r + 1" v] show ?thesis by (simp add: add.commute)
  next
    case False
    let ?s = "write_rle_tree_bits (int v) (int r) w s" and ?bs = "bs @ field_bits w (run_fields w v r)"
    have rep: "out_rep ?s cap ?bs" using Cons.prems by (intro write_rle_tree_bits_rep) auto
    have "w * length (run_fields w v r) \<le> 5 * (2 * r)"
      using length_run_fields Cons.prems(2) by (rule mult_le_mono[rotated])
    then have "length ?bs + 10 * (1 + length nodes) < 2 ^ 34" using Cons.prems(3) by simp
    from Cons.IH [OF rep Cons.prems(2) this] False Cons.prems show ?thesis by simp
  qed
qed

lemma export_tree_rle_rep:
  assumes rep: "out_rep s cap bs" and sm: "length bs + 10 * length (codes ctx) < 2 ^ 34"
  shows "out_rep (snd (export_tree_rle ctx s)) cap (bs @ tree_bits (tree_width (m_maxbits ctx)) (map n_numbits (codes ctx)))"
proof (cases "codes ctx")
  case Nil
  with rep show ?thesis
    by (simp add: export_tree_rle_def tree_bits_def write_rle_tree_bits.simps)
next
  case (Cons nd nodes)
  let ?w = "tree_width (m_maxbits ctx)"
  obtain lv rc s' where run: "export_rle_loop ?w (int (n_numbits nd)) (int 1) nodes s = (lv, rc, s')"
    by (metis prod_cases3)
  have "?w \<le> 5" by (simp add: tree_width_def)
  from export_rle_loop_rep [OF rep this _ _ run] sm Cons run show ?thesis
    by (simp add: export_tree_rle_def tree_bits_def Let_def)
qed

subsection \<open>The reader recovers the lengths\<close>

definition set_lens :: "nat \<Rightarrow> nat list \<Rightarrow> node_t list \<Rightarrow> node_t list" where
  "set_lens cur lens nodes =
     take cur nodes @ map2 (\<lambda>nd L. nd\<lparr>n_numbits := L\<rparr>) (slice cur (length lens) nodes) lens
     @ drop (cur + length lens) nodes"

lemma length_set_lens [simp]: "cur + length lens \<le> length nodes \<Longrightarrow> length (set_lens cur lens nodes) = length nodes"
  by (simp add: set_lens_def)

lemma map2_replicate: "length xs = n \<Longrightarrow> map2 f xs (replicate n y) = map (\<lambda>x. f x y) xs"
  by (induction xs arbitrary: n) auto

lemma store_run_eq:
  assumes "cur + count \<le> length nodes" "v < 256"
  shows "store_run cur count v nodes = Some (set_lens cur (replicate count v) nodes)"
  using assms by (simp add: store_run_def set_lens_def map2_replicate)

lemma nth_set_lens:
  assumes "cur + length lens \<le> length nodes" "i < length nodes"
  shows "set_lens cur lens nodes ! i =
    (if cur \<le> i \<and> i < cur + length lens then (nodes ! i)\<lparr>n_numbits := lens ! (i - cur)\<rparr> else nodes ! i)"
  using assms by (auto simp: set_lens_def nth_append nth_slice)

lemma set_lens_append:
  assumes "cur + length xs + length ys \<le> length nodes"
  shows "set_lens (cur + length xs) ys (set_lens cur xs nodes) = set_lens cur (xs @ ys) nodes"
  using assms by (intro nth_equalityI) (auto simp: nth_set_lens nth_append)

lemma set_lens_Nil [simp]: "set_lens cur [] nodes = nodes"
  by (simp add: set_lens_def)

lemma unat_field: "w \<le> 5 \<Longrightarrow> f < 2 ^ w \<Longrightarrow> take_bit w (of_nat f :: u32) = of_nat f \<and> unat (of_nat f :: u32) = f \<and> f < 32"
proof -
  assume "w \<le> 5" "f < 2 ^ w"
  moreover have "(2 :: nat) ^ w \<le> 2 ^ 5" using \<open>w \<le> 5\<close> by (intro power_increasing) auto
  ultimately show ?thesis by (simp add: take_bit_of_nat_word unat_of_nat_small)
qed

lemma read_field:
  assumes "in_at lim s (wbits (of_nat f) w @ rest)" "w \<le> 5" "f < 2 ^ w"
  obtains s' where "bs_read (int w) s = (of_nat f, s')" "in_at lim s' rest"
proof -
  have "fst (bs_read (int w) s) = of_nat f" "in_at lim (snd (bs_read (int w) s)) rest"
    using bs_read_at [OF assms(1)] assms(2) unat_field [OF assms(2,3)] by auto
  then show ?thesis using that by (metis prod.collapse)
qed

lemma of_nat_eq_one: "f < 32 \<Longrightarrow> (of_nat f :: u32) = 1 \<longleftrightarrow> f = 1"
  using unat_of_nat_small [of f, where 'a = 32] by auto

lemma import_run:
  assumes "in_at lim s (field_bits w (run_fields w v r) @ rest)" "3 \<le> w" "w \<le> 5" "v < 2 ^ w"
    "cur + r \<le> numcodes" "numcodes \<le> length nodes"
  obtains s' where "in_at lim s' rest"
    "import_rle_loop w numcodes cur nodes s = import_rle_loop w numcodes (cur + r) (set_lens cur (replicate r v) nodes) s'"
  using assms
proof (induction w v r arbitrary: s cur nodes thesis rule: run_fields.induct)
  case (1 w v r)
  note w = "1.prems"(3,4) and v = "1.prems"(5) and bnd = "1.prems"(6,7)
  have v32: "v < 32" "v < 256" "unat (of_nat v :: u32) = v" using unat_field [OF w(2) v] by auto
  have one: "(1 :: nat) < 2 ^ w" using w(1) by (intro one_less_power) auto
  consider "r = 0" | "0 < r" "v = 1" | "0 < r" "v \<noteq> 1" "r \<le> 2" | "v \<noteq> 1" "2 < r" by linarith
  then show ?case
  proof cases
    case 1
    with "1.prems" show ?thesis by (simp add: run_fields.simps)
  next
    case 2
    have "in_at lim s (wbits (of_nat 1) w @ wbits (of_nat 1) w @ field_bits w (run_fields w v (r - 1)) @ rest)"
      using "1.prems"(2) 2 by (simp add: run_fields.simps [of w 1 r, simplified])
    then obtain s1 s2 where rd: "bs_read (int w) s = (of_nat 1, s1)" "bs_read (int w) s1 = (of_nat 1, s2)"
      and at: "in_at lim s2 (field_bits w (run_fields w v (r - 1)) @ rest)"
      using read_field [OF _ w(2) one] by metis
    have st: "store_run cur 1 1 nodes = Some (set_lens cur [v] nodes)"
      using store_run_eq [of cur 1 nodes 1] bnd 2 by simp
    obtain s' where s': "in_at lim s' rest"
      "import_rle_loop w numcodes (cur + 1) (set_lens cur [v] nodes) s2 =
       import_rle_loop w numcodes (cur + 1 + (r - 1)) (set_lens (cur + 1) (replicate (r - 1) v) (set_lens cur [v] nodes)) s'"
      using "1.IH"(1) [OF _ _ _ at w v, of "cur + 1" "set_lens cur [v] nodes"] 2 bnd by auto
    have "set_lens (cur + 1) (replicate (r - 1) v) (set_lens cur [v] nodes) = set_lens cur (replicate r v) nodes"
      using set_lens_append [of cur "[v]" "replicate (r - 1) v" nodes] 2 bnd by (cases r) auto
    with s' 2 bnd st rd show ?thesis
      by (intro "1.prems"(1) [OF s'(1)]) (simp add: import_rle_loop.simps [of w numcodes cur nodes s] Let_def)
  next
    case 3
    have "in_at lim s (wbits (of_nat v) w @ field_bits w (run_fields w v (r - 1)) @ rest)"
      using "1.prems"(2) 3 by (simp add: run_fields.simps [of w v r])
    then obtain s1 where rd: "bs_read (int w) s = (of_nat v, s1)"
      and at: "in_at lim s1 (field_bits w (run_fields w v (r - 1)) @ rest)"
      using read_field [OF _ w(2) v] by metis
    have st: "store_run cur 1 v nodes = Some (set_lens cur [v] nodes)"
      using store_run_eq [of cur 1 nodes v] bnd 3 v32 by simp
    obtain s' where s': "in_at lim s' rest"
      "import_rle_loop w numcodes (cur + 1) (set_lens cur [v] nodes) s1 =
       import_rle_loop w numcodes (cur + 1 + (r - 1)) (set_lens (cur + 1) (replicate (r - 1) v) (set_lens cur [v] nodes)) s'"
      using "1.IH"(2) [OF _ _ _ _ at w v, of "cur + 1" "set_lens cur [v] nodes"] 3 bnd by auto
    have "set_lens (cur + 1) (replicate (r - 1) v) (set_lens cur [v] nodes) = set_lens cur (replicate r v) nodes"
      using set_lens_append [of cur "[v]" "replicate (r - 1) v" nodes] 3 bnd by (cases r) auto
    with s' 3 bnd st rd v32 show ?thesis
      by (intro "1.prems"(1) [OF s'(1)])
        (simp add: import_rle_loop.simps [of w numcodes cur nodes s] Let_def of_nat_eq_one)
  next
    case 4
    define c where "c = min (r - 3) (2 ^ w - 1 :: nat)"
    have c: "c < 2 ^ w" "c + 3 \<le> r" using 4 one by (auto simp: c_def)
    have "in_at lim s (wbits (of_nat 1) w @ wbits (of_nat v) w @ wbits (of_nat c) w
        @ field_bits w (run_fields w v (r - (c + 3))) @ rest)"
      using "1.prems"(2) 4 by (simp add: run_fields_cases(4) [OF _ _ c_def])
    then obtain s1 s2 s3 where rd: "bs_read (int w) s = (of_nat 1, s1)" "bs_read (int w) s1 = (of_nat v, s2)"
      "bs_read (int w) s2 = (of_nat c, s3)" and at: "in_at lim s3 (field_bits w (run_fields w v (r - (c + 3))) @ rest)"
      using read_field [OF _ w(2) one] read_field [OF _ w(2) v] read_field [OF _ w(2) c(1)] by metis
    have st: "store_run cur (c + 3) v nodes = Some (set_lens cur (replicate (c + 3) v) nodes)"
      using store_run_eq [of cur "c + 3" nodes v] bnd c v32 by simp
    obtain s' where s': "in_at lim s' rest"
      "import_rle_loop w numcodes (cur + (c + 3)) (set_lens cur (replicate (c + 3) v) nodes) s3 =
       import_rle_loop w numcodes (cur + (c + 3) + (r - (c + 3)))
         (set_lens (cur + (c + 3)) (replicate (r - (c + 3)) v) (set_lens cur (replicate (c + 3) v) nodes)) s'"
      using "1.IH"(3) [OF _ _ _ c_def _ at w v, of "cur + (c + 3)" "set_lens cur (replicate (c + 3) v) nodes"] 4 bnd c by auto
    have "set_lens (cur + (c + 3)) (replicate (r - (c + 3)) v) (set_lens cur (replicate (c + 3) v) nodes)
        = set_lens cur (replicate r v) nodes"
      using set_lens_append [of cur "replicate (c + 3) v" "replicate (r - (c + 3)) v" nodes] c bnd
      by (simp flip: replicate_add)
    with s' 4 bnd st rd v32 c unat_field [OF w(2) c(1)] show ?thesis
      by (intro "1.prems"(1) [OF s'(1)])
        (simp add: import_rle_loop.simps [of w numcodes cur nodes s] Let_def of_nat_eq_one)
  qed
qed

definition run_lens :: "(nat \<times> nat) list \<Rightarrow> nat list" where
  "run_lens rs = concat (map (\<lambda>(v, r). replicate r v) rs)"

lemma run_lens_runs: "run_lens (runs v r xs) = replicate r v @ xs"
proof (induction xs arbitrary: v r)
  case (Cons x xs)
  have "replicate (Suc r) v @ xs = replicate r v @ v # xs" by (simp add: replicate_app_Cons_same)
  with Cons [of v "Suc r"] Cons [of x 1] show ?case by (simp add: run_lens_def)
qed (simp add: run_lens_def)

lemma import_runs:
  assumes "in_at lim s (field_bits w (concat (map (\<lambda>(v, r). run_fields w v r) rs)) @ rest)" "3 \<le> w" "w \<le> 5"
    "\<forall>v \<in> set (run_lens rs). v < 2 ^ w" "\<forall>p \<in> set rs. 0 < snd p"
    "cur + length (run_lens rs) \<le> numcodes" "numcodes \<le> length nodes"
  shows "\<exists>s'. in_at lim s' rest \<and> import_rle_loop w numcodes cur nodes s =
    import_rle_loop w numcodes (cur + length (run_lens rs)) (set_lens cur (run_lens rs) nodes) s'"
  using assms
proof (induction rs arbitrary: s cur nodes)
  case Nil
  then show ?case by (auto simp: run_lens_def)
next
  case (Cons p rs)
  obtain v r where p: "p = (v, r)" by fastforce
  have lens: "run_lens (p # rs) = replicate r v @ run_lens rs" by (simp add: run_lens_def p)
  have v: "v < 2 ^ w" using Cons.prems(4,5) unfolding lens by (simp add: p)
  have bnd: "cur + r + length (run_lens rs) \<le> numcodes" using Cons.prems(6) by (simp add: lens)
  obtain s1 where s1: "in_at lim s1 (field_bits w (concat (map (\<lambda>(v, r). run_fields w v r) rs)) @ rest)"
    "import_rle_loop w numcodes cur nodes s = import_rle_loop w numcodes (cur + r) (set_lens cur (replicate r v) nodes) s1"
    using import_run [of lim s w v r "field_bits w (concat (map (\<lambda>(v, r). run_fields w v r) rs)) @ rest" cur numcodes nodes]
      Cons.prems v bnd by (auto simp: p)
  obtain s2 where s2: "in_at lim s2 rest"
    "import_rle_loop w numcodes (cur + r) (set_lens cur (replicate r v) nodes) s1 =
     import_rle_loop w numcodes (cur + r + length (run_lens rs)) (set_lens (cur + r) (run_lens rs) (set_lens cur (replicate r v) nodes)) s2"
    using Cons.IH [OF s1(1), of "cur + r" "set_lens cur (replicate r v) nodes"] Cons.prems bnd by (auto simp: lens)
  moreover have "set_lens (cur + r) (run_lens rs) (set_lens cur (replicate r v) nodes) = set_lens cur (run_lens (p # rs)) nodes"
    using set_lens_append [of cur "replicate r v" "run_lens rs" nodes] bnd Cons.prems(7) by (simp add: lens)
  ultimately show ?case using s1(2) by (auto simp: lens add.assoc)
qed

lemma runs_pos: "0 < r \<Longrightarrow> \<forall>p \<in> set (runs v r xs). 0 < snd p"
proof (induction xs arbitrary: v r)
  case (Cons x xs)
  then show ?case using Cons.IH [of "Suc r" v] Cons.IH [of "Suc 0" x] by simp
qed simp

lemma tree_width_bounds: "3 \<le> tree_width M" "tree_width M \<le> 5" "M \<le> 24 \<Longrightarrow> L \<le> M \<Longrightarrow> L < 2 ^ tree_width M"
  by (auto simp: tree_width_def)

lemma import_tree_rle_at:
  assumes "in_at lim s (tree_bits (tree_width (m_maxbits ctx)) lens @ rest)" "m_maxbits ctx \<le> 24"
    "\<forall>L \<in> set lens. L \<le> m_maxbits ctx" "length lens = m_numcodes ctx" "m_numcodes ctx \<le> length (m_huffnode ctx)"
  obtains s' where "in_at lim s' rest"
    "import_tree_rle ctx s = (finish_import (ctx\<lparr>m_huffnode := set_lens 0 lens (m_huffnode ctx)\<rparr>) s', s')"
proof -
  let ?w = "tree_width (m_maxbits ctx)"
  have "\<exists>s'. in_at lim s' rest \<and> import_rle_loop ?w (m_numcodes ctx) 0 (m_huffnode ctx) s =
    import_rle_loop ?w (m_numcodes ctx) (m_numcodes ctx) (set_lens 0 lens (m_huffnode ctx)) s'"
  proof (cases lens)
    case Nil
    with assms show ?thesis by (auto simp: tree_bits_def)
  next
    case (Cons x xs)
    have rl: "run_lens (runs x (Suc 0) xs) = x # xs" by (simp add: run_lens_runs)
    show ?thesis
      using import_runs [of lim s ?w "runs x 1 xs" rest 0 "m_numcodes ctx" "m_huffnode ctx"] assms runs_pos [of 1 x xs]
        tree_width_bounds [of "m_maxbits ctx"]
      by (simp add: rl tree_bits_def Cons)
  qed
  then show ?thesis
    using that by (auto simp: import_tree_rle_def import_rle_loop.simps [of _ _ "m_numcodes ctx"])
qed

subsection \<open>From an encoder to a decoder\<close>

lemma count_numbits_cong: "map n_numbits xs = map n_numbits ys \<Longrightarrow> count_numbits M xs h = count_numbits M ys h"
proof (induction xs arbitrary: ys h)
  case (Cons x xs)
  then show ?case by (cases ys) auto
qed simp

lemma assign_canonical_codes_transfer:
  assumes "assign_canonical_codes enc = Inr enc'" "map n_numbits (codes enc) = map n_numbits (codes dec)"
    "m_maxbits enc = m_maxbits dec"
  obtains dec' where "assign_canonical_codes dec = Inr dec'"
  using assms count_numbits_cong [OF assms(2)]
  by (auto simp: assign_canonical_codes_def codes_def Let_def split: option.splits)

lemma finish_import_ok:
  assumes e: "assign_canonical_codes enc = Inr enc'" "sized enc"
    and d: "sized dec" "length (m_lookup dec) = 2 ^ m_maxbits dec" "m_numcodes dec \<le> 2 ^ 11"
    and same: "map n_numbits (codes enc) = map n_numbits (codes dec)" "m_maxbits enc = m_maxbits dec"
    and kr: "kraft (m_maxbits enc) (codes enc) \<le> 2 ^ m_maxbits enc" and no: "\<not> in_overflow s"
  obtains dec' where "finish_import dec s = Inr dec'" "coders_match enc' dec'" "m_numcodes dec' = m_numcodes dec"
proof -
  obtain dec1 where d1: "assign_canonical_codes dec = Inr dec1"
    using assign_canonical_codes_transfer [OF e(1) same] by blast
  have "build_lookup_table dec1 \<noteq> Inl Out_Of_Bounds"
    using assigned_table(1) [OF d1 d(1,2)] kr same kraft_map [OF same(1)] by simp
  then obtain dec2 where d2: "build_lookup_table dec1 = Inr dec2"
    by (auto simp: build_lookup_table_def split: option.splits)
  have "m_numcodes dec2 = m_numcodes dec"
    using d1 d2 by (auto simp: assign_canonical_codes_def build_lookup_table_def Let_def split: option.splits)
  then show ?thesis
    using that assigned_coders_match [OF e d1 d2 d(1) same(1) d(2,3)] d1 d2 no
    by (simp add: finish_import_def)
qed

lemma map_numbits_set_lens:
  "length lens \<le> length nodes \<Longrightarrow> map n_numbits (take (length lens) (set_lens 0 lens nodes)) = lens"
  by (rule nth_equalityI) (auto simp: nth_set_lens)

lemma export_encode_import:
  assumes e: "assign_canonical_codes enc = Inr enc'" "sized enc"
    and d: "m_maxbits dec = m_maxbits enc" "m_numcodes dec = m_numcodes enc"
      "m_numcodes enc \<le> length (m_huffnode dec)" "length (m_lookup dec) = 2 ^ m_maxbits enc" "m_numcodes enc \<le> 2 ^ 11"
    and kr: "kraft (m_maxbits enc) (codes enc) \<le> 2 ^ m_maxbits enc"
    and at: "in_at lim s (tree_bits (tree_width (m_maxbits enc)) (map n_numbits (codes enc')) @ rest)"
  obtains dec' s' where "import_tree_rle dec s = (Inr dec', s')" "in_at lim s' rest" "coders_match enc' dec'"
    "m_numcodes dec' = m_numcodes enc"
proof -
  define lens where "lens = map n_numbits (codes enc')"
  define dec1 where "dec1 = dec\<lparr>m_huffnode := set_lens 0 lens (m_huffnode dec)\<rparr>"
  have M: "m_maxbits enc \<le> 32" using e(2) by (simp add: sized_def)
  have lens: "lens = map n_numbits (codes enc)" "\<forall>nd \<in> set (codes enc'). n_numbits nd \<le> m_maxbits enc"
    using assign_canonical_codes_canonical [OF e(1) _ sized_numcodes [OF e(2)] M] e(2)
    unfolding lens_def by (auto simp: sized_def)
  have ll: "length lens = m_numcodes enc" using e(2) by (simp add: lens(1) codes_def sized_def)
  obtain s' where s': "in_at lim s' rest" "import_tree_rle dec s = (finish_import dec1 s', s')"
    using import_tree_rle_at [of lim s dec lens rest] at d lens(2) e(2) ll
    by (auto simp: lens_def sized_def dec1_def)
  have ld: "length (m_huffnode dec1) = length (m_huffnode dec)" using ll d(3) by (simp add: dec1_def)
  have same: "map n_numbits (codes enc) = map n_numbits (codes dec1)"
    using map_numbits_set_lens [of lens "m_huffnode dec"] ll d(2,3) lens(1) by (simp add: codes_def dec1_def)
  have sz: "sized dec1" using e(2) d ld by (simp add: sized_def dec1_def)
  have d1: "length (m_lookup dec1) = 2 ^ m_maxbits dec1" "m_numcodes dec1 \<le> 2 ^ 11" "m_maxbits enc = m_maxbits dec1"
    using d by (simp_all add: dec1_def)
  obtain dec' where "finish_import dec1 s' = Inr dec'" "coders_match enc' dec'" "m_numcodes dec' = m_numcodes dec1"
    by (rule finish_import_ok [OF e sz d1(1,2) same d1(3) kr in_at_no_overflow [OF s'(1)]])
  with s' that d(2) show ?thesis by (simp add: dec1_def)
qed

subsection \<open>Properties\<close>

text \<open>
  C18: The whole path of a Huffman coded block. The encoder exports its tree in run-length coded form
  and encodes symbols behind it; the decoder imports the tree from the finished buffer and decodes.
  It accepts the tree and gets the symbols back.
\<close>

theorem huffman_tree_roundtrip:
  assumes e: "assign_canonical_codes enc = Inr enc'" "sized enc"
    and d: "m_maxbits dec = m_maxbits enc" "m_numcodes dec = m_numcodes enc"
      "m_numcodes enc \<le> length (m_huffnode dec)" "length (m_lookup dec) = 2 ^ m_maxbits enc" "m_numcodes enc \<le> 2 ^ 11"
    and kr: "kraft (m_maxbits enc) (codes enc) \<le> 2 ^ m_maxbits enc"
    and syms: "\<forall>i \<in> set syms. i < m_numcodes enc \<and> 0 < n_numbits (m_huffnode enc' ! i)"
    and cap: "10 * m_numcodes enc + (\<Sum>i\<leftarrow>syms. n_numbits (m_huffnode enc' ! i)) \<le> 8 * length dest"
      "length dest < 2 ^ 30"
  shows "\<exists>dec' s'.
    import_tree_rle dec (mk_bitstream_in (o_write (snd (out_flush (fold (encode_one enc') syms
       (snd (export_tree_rle enc' (mk_bitstream_out dest (of_nat (length dest))))))))) (of_nat (length dest)))
      = (Inr dec', s') \<and>
    fst (read_all (\<lambda>_. decode_one dec') (map (\<lambda>_. ()) syms) s') = syms"
proof -
  let ?out = "fold (encode_one enc') syms (snd (export_tree_rle enc' (mk_bitstream_out dest (of_nat (length dest)))))"
  have M: "m_maxbits enc \<le> 24" using e(2) by (simp add: sized_def)
  obtain same: "m_maxbits enc' = m_maxbits enc" "length (codes enc') = m_numcodes enc"
      "m_huffnode enc' = codes enc' @ drop (m_numcodes enc) (m_huffnode enc)"
    and le: "\<forall>nd \<in> set (codes enc'). n_numbits nd \<le> m_maxbits enc"
  proof (rule assign_canonical_codes_canonical [OF e(1) _ sized_numcodes [OF e(2)]])
    fix S assume S: "map n_numbits (codes enc') = map n_numbits (codes enc)"
      "\<forall>nd \<in> set (codes enc'). n_numbits nd \<le> m_maxbits enc"
      "enc' = enc\<lparr>m_huffnode := codes enc' @ drop (m_numcodes enc) (m_huffnode enc)\<rparr>"
    have len: "length (codes enc') = m_numcodes enc"
      using map_eq_imp_length_eq [OF S(1)] e(2) by (simp add: codes_def sized_def)
    have mb: "m_maxbits enc' = m_maxbits enc" using arg_cong [OF S(3), of m_maxbits] by simp
    have hn: "m_huffnode enc' = codes enc' @ drop (m_numcodes enc) (m_huffnode enc)"
      using arg_cong [OF S(3), of m_huffnode] by simp
    show ?thesis by (rule that [OF mb len hn S(2)])
  qed (use e(2) M in \<open>auto simp: sized_def\<close>)
  have n32: "\<forall>i \<in> set syms. n_numbits (m_huffnode enc' ! i) \<le> 32"
  proof
    fix i assume "i \<in> set syms"
    then have "codes enc' ! i \<in> set (codes enc')" "m_huffnode enc' ! i = codes enc' ! i"
      using syms same(2) by (auto simp: same(3) nth_append)
    then show "n_numbits (m_huffnode enc' ! i) \<le> 32" using le M by fastforce
  qed
  define tb where "tb = tree_bits (tree_width (m_maxbits enc)) (map n_numbits (codes enc'))"
  have "2 * tree_width (m_maxbits enc) * m_numcodes enc \<le> 2 * 5 * m_numcodes enc"
    using tree_width_bounds(2) [of "m_maxbits enc"] by (intro mult_le_mono1) auto
  moreover have "length tb \<le> 2 * tree_width (m_maxbits enc) * m_numcodes enc"
    using length_tree_bits [of "tree_width (m_maxbits enc)" "map n_numbits (codes enc')"] same(2)
    by (simp add: tb_def)
  ultimately have tbl: "length tb \<le> 10 * m_numcodes enc" by linarith
  have syl: "length (concat (map (code_bits enc') syms)) = (\<Sum>i\<leftarrow>syms. n_numbits (m_huffnode enc' ! i))"
    by (simp add: length_concat comp_def code_bits_def)
  have "out_rep (snd (export_tree_rle enc' (mk_bitstream_out dest (of_nat (length dest))))) (length dest) tb"
    using export_tree_rle_rep [OF mk_bitstream_out_rep [of dest], of enc'] cap same by (simp add: tb_def)
  from huff_out.write_all_rep [OF n32 this] have "out_rep ?out (length dest) (tb @ concat (map (code_bits enc') syms))"
    using tbl syl cap by simp
  from flushed_in_at(1) [OF this]
  obtain lim where "in_at lim (mk_bitstream_in (o_write (snd (out_flush ?out))) (of_nat (length dest))) (tb @ concat (map (code_bits enc') syms) @ [])"
    using tbl syl cap by simp
  from export_encode_import [OF e d kr this [unfolded tb_def]]
  obtain dec' s' where d': "import_tree_rle dec (mk_bitstream_in (o_write (snd (out_flush ?out))) (of_nat (length dest))) = (Inr dec', s')"
    and at: "in_at lim s' (concat (map (code_bits enc') syms) @ [])" and m: "coders_match enc' dec'" "m_numcodes dec' = m_numcodes enc"
    by blast
  have "\<forall>i \<in> set syms. symbol_ok enc' dec' i" using syms m by (simp add: symbol_ok_def)
  from huff.read_all_at [OF this at] d' show ?thesis by auto
qed

theorem huffman_tree_roundtrip_witness:
  "\<exists>dec' s'.
    import_tree_rle sample_dec (mk_bitstream_in (o_write (snd (out_flush (fold (encode_one sample_enc') [3, 0, 2, 4, 0]
       (snd (export_tree_rle sample_enc' (mk_bitstream_out (replicate 9 0) (of_nat (length (replicate 9 (0 :: u8)))))))))))
         (of_nat (length (replicate 9 (0 :: u8)))))
      = (Inr dec', s') \<and>
    fst (read_all (\<lambda>_. decode_one dec') (map (\<lambda>_. ()) [3, 0, 2, 4, 0 :: nat]) s') = [3, 0, 2, 4, 0]"
  by (rule huffman_tree_roundtrip [OF sample_enc_assign sample_sized(1)])
    (simp_all add: sample_defs codes_def kraft_def)

text \<open>
  C31: The importer trusts the repeat counts of its input. When the runs \<open>rs\<close> it has read leave fewer
  nodes of the array than the next run repeats its code length (the fields \<open>1, v, r\<close> repeat the length
  \<open>v\<close> for \<open>r + 3\<close> codes), it stores past the end of the node array, before the number of codes is
  checked. This holds for every decoder, every stream position and whatever follows.
\<close>

theorem import_tree_rle_overrun:
  assumes "in_at lim bitbuf (field_bits w (concat (map (\<lambda>(v, r). run_fields w v r) rs) @ [1, v, r]) @ rest)"
    and "w = tree_width (m_maxbits dec)" "\<forall>(v, r) \<in> set rs. v < 2 ^ w \<and> 0 < r" "v < 2 ^ w" "v \<noteq> 1" "r < 2 ^ w"
    and "length (run_lens rs) < m_numcodes dec" "m_numcodes dec \<le> length (m_huffnode dec)"
    and "length (m_huffnode dec) < length (run_lens rs) + (r + 3)"
  shows "fst (import_tree_rle dec bitbuf) = Inl Out_Of_Bounds"
proof -
  have w: "3 \<le> w" "w \<le> 5" using tree_width_bounds(1,2) by (simp_all add: assms(2))
  have one: "(1 :: nat) < 2 ^ w" using w(1) by (intro one_less_power) auto
  have vs: "\<forall>x \<in> set (run_lens rs). x < 2 ^ w" "\<forall>p \<in> set rs. 0 < snd p" using assms(3) by (auto simp: run_lens_def)
  have "in_at lim bitbuf (field_bits w (concat (map (\<lambda>(v, r). run_fields w v r) rs)) @ field_bits w [1, v, r] @ rest)"
    using assms(1) by simp
  from import_runs [OF this w vs, of 0 "m_numcodes dec" "m_huffnode dec"] assms(7,8)
  obtain s where s: "in_at lim s (field_bits w [1, v, r] @ rest)" "import_rle_loop w (m_numcodes dec) 0 (m_huffnode dec) bitbuf =
      import_rle_loop w (m_numcodes dec) (length (run_lens rs)) (set_lens 0 (run_lens rs) (m_huffnode dec)) s" by auto
  have "in_at lim s (wbits (of_nat 1) w @ wbits (of_nat v) w @ wbits (of_nat r) w @ rest)" using s(1) by simp
  then obtain s1 s2 s3 where rd: "bs_read (int w) s = (of_nat 1, s1)" "bs_read (int w) s1 = (of_nat v, s2)" "bs_read (int w) s2 = (of_nat r, s3)"
    using read_field [OF _ w(2) one] read_field [OF _ w(2) assms(4)] read_field [OF _ w(2) assms(6)] by metis
  have "v < 32" "unat (of_nat r :: u32) = r" using unat_field [OF w(2) assms(4)] unat_field [OF w(2) assms(6)] by auto
  moreover have "length (set_lens 0 (run_lens rs) (m_huffnode dec)) = length (m_huffnode dec)"
    using assms(7,8) by (simp add: set_lens_def)
  ultimately have "import_rle_loop w (m_numcodes dec) (length (run_lens rs)) (set_lens 0 (run_lens rs) (m_huffnode dec)) s = None"
    using rd assms(5,7,9) by (subst import_rle_loop.simps) (simp add: of_nat_eq_one store_run_def)
  with s(2) show ?thesis by (simp add: import_tree_rle_def assms(2))
qed

theorem import_tree_rle_overrun_witness:
  "fst (import_tree_rle sample_dec (mk_bitstream_in [0x65, 0x70] 2)) = Inl Out_Of_Bounds"
proof -
  have "bits_at [0x65, 0x70 :: u8] 0 16 = field_bits 3 (concat (map (\<lambda>(v, r). run_fields 3 v r) [(3, 1)]) @ [1, 2, 7]) @ replicate 4 False"
    by (code_simp)
  then have "in_at 16 (mk_bitstream_in [0x65, 0x70] 2) (field_bits 3 (concat (map (\<lambda>(v, r). run_fields 3 v r) [(3, 1)]) @ [1, 2, 7]) @ replicate 4 False)"
    using mk_bitstream_in_rep [of "[0x65, 0x70]"] unfolding in_at_def by (intro exI [of _ "[0x65, 0x70]"] exI [of _ 0]) (simp add: run_fields.simps)
  from import_tree_rle_overrun [OF this, of sample_dec] show ?thesis
    by (simp add: sample_defs tree_width_def run_lens_def)
qed
end
