(* ===== verification/Huffman_Build.thy ===== *)
theory Huffman_Build
  imports Huffman_Tree "HOL-Library.Multiset"
begin

text \<open>
  Tree construction, \<^verbatim>\<open>huffman_context_base::build_tree\<close> and
  \<^verbatim>\<open>compute_tree_from_histo\<close> of \<^verbatim>\<open>lib/util/huffman.cpp\<close>: the weights of the codes, the
  merge of the two lightest nodes, the code lengths read off the parent links, and the search
  for the weight scale under which no code is longer than \<open>m_maxbits\<close>. The proofs abstract the
  parent links to a forest of binary trees.
\<close>

subsection \<open>The merge\<close>

definition tree_node_compare :: "node_t \<Rightarrow> node_t \<Rightarrow> int" where
  "tree_node_compare node1 node2 =
     (if n_weight node2 \<noteq> n_weight node1 then s32 (n_weight node2 + (2 ^ 32 - n_weight node1))
      else s32 (n_bits node1) - s32 (n_bits node2))"

text \<open>
  \<^verbatim>\<open>qsort\<close> of the C library over the pointer list. The result is determined when the
  comparison is a total order on the items, which it is as long as no two weights are \<open>2 ^ 31\<close>
  apart.
\<close>

primrec qsort_insert :: "('a \<Rightarrow> 'a \<Rightarrow> int) \<Rightarrow> 'a \<Rightarrow> 'a list \<Rightarrow> 'a list" where
  "qsort_insert compar x [] = [x]"
| "qsort_insert compar x (y # ys) = (if compar x y \<le> 0 then x # y # ys else y # qsort_insert compar x ys)"

definition qsort :: "('a \<Rightarrow> 'a \<Rightarrow> int) \<Rightarrow> 'a list \<Rightarrow> 'a list" where
  "qsort compar xs = foldr (qsort_insert compar) xs []"

definition init_node :: "nat \<Rightarrow> nat \<Rightarrow> nat \<Rightarrow> nat \<Rightarrow> node_t" where
  "init_node totaldata totalweight curcode h =
     (if h \<noteq> 0 then
        let weight = w32 (w64 (h * totalweight) div totaldata) in
        node_null\<lparr>n_count := h, n_bits := curcode, n_weight := (if weight = 0 then 1 else weight)\<rparr>
      else node_null)"

text \<open>Insertion of the new node before the first item of smaller weight.\<close>

primrec insert_node :: "node_t list \<Rightarrow> nat \<Rightarrow> nat list \<Rightarrow> nat list" where
  "insert_node nodes new [] = [new]"
| "insert_node nodes new (cur # items) =
     (if n_weight (nodes ! new) > n_weight (nodes ! cur) then new # cur # items
      else cur # insert_node nodes new items)"

definition set_parent :: "nat option \<Rightarrow> nat \<Rightarrow> node_t list \<Rightarrow> node_t list" where
  "set_parent p i nodes = nodes[i := (nodes ! i)\<lparr>n_parent := p\<rparr>]"

definition merge_two :: "nat \<Rightarrow> nat \<Rightarrow> nat \<Rightarrow> node_t list \<Rightarrow> node_t list" where
  "merge_two node0 node1 new nodes =
     (let nodes1 = set_parent (Some new) node0 (set_parent (Some new) node1 (set_parent None new nodes))
      in nodes1[new := (nodes1 ! new)\<lparr>n_weight := w32 (n_weight (nodes1 ! node0) + n_weight (nodes1 ! node1))\<rparr>])"

lemma length_insert_node [simp]: "length (insert_node nodes new items) = Suc (length items)"
  by (induction items) auto

function merge_loop :: "nat \<Rightarrow> nat list \<Rightarrow> node_t list \<Rightarrow> huff_fault + node_t list" where
  "merge_loop nextalloc items nodes =
     (if length items \<le> 1 then Inr nodes
      else if length nodes \<le> nextalloc then Inl Out_Of_Bounds
      else let node1 = items ! (length items - 1);
               node0 = items ! (length items - 2);
               nodes' = merge_two node0 node1 nextalloc nodes
           in merge_loop (Suc nextalloc) (insert_node nodes' nextalloc (take (length items - 2) items)) nodes')"
  by pat_completeness auto
termination
  by (relation "measure (\<lambda>(nextalloc, items, nodes). length items)") auto

declare merge_loop.simps [simp del]

text \<open>
  The code length of a node: the number of parent links above it, counted in a byte. \<open>None\<close> is a
  cycle of links.
\<close>

partial_function (option) count_parents :: "node_t list \<Rightarrow> nat \<Rightarrow> nat \<Rightarrow> nat option" where
  "count_parents nodes curnode numbits =
     (case n_parent (nodes ! curnode) of
        None \<Rightarrow> Some numbits
      | Some parent \<Rightarrow> count_parents nodes parent ((numbits + 1) mod 256))"

declare count_parents.simps [code]

primrec numbits_loop :: "nat list \<Rightarrow> nat \<Rightarrow> node_t list \<Rightarrow> (nat \<times> node_t list) option" where
  "numbits_loop [] maxbits nodes = Some (maxbits, nodes)"
| "numbits_loop (curcode # rest) maxbits nodes =
     (let node = (nodes ! curcode)\<lparr>n_numbits := 0, n_bits := 0\<rparr> in
      if n_weight node > 0 then
        (case count_parents nodes curcode 0 of
           None \<Rightarrow> None
         | Some n \<Rightarrow>
             let numbits = (if n = 0 then 1 else n) in
             numbits_loop rest (max maxbits numbits) (nodes[curcode := node\<lparr>n_numbits := numbits\<rparr>]))
      else numbits_loop rest maxbits (nodes[curcode := node]))"

text \<open>
  \<open>build_tree\<close>, with a division by zero when the histogram is not empty but its total is zero
  modulo \<open>2 ^ 32\<close>.
\<close>

definition build_tree :: "nat \<Rightarrow> nat \<Rightarrow> huffman_context \<Rightarrow> (huff_fault + nat \<times> huffman_context) option" where
  "build_tree totaldata totalweight ctx =
     (let n = m_numcodes ctx;
          nodes = map (\<lambda>c. init_node totaldata totalweight c (m_datahisto ctx ! c)) [0..<n] @ drop n (m_huffnode ctx);
          items = filter (\<lambda>c. m_datahisto ctx ! c \<noteq> 0) [0..<n]
      in if items \<noteq> [] \<and> totaldata = 0 then Some (Inl Division_By_Zero)
         else case merge_loop n (qsort (\<lambda>a b. tree_node_compare (nodes ! a) (nodes ! b)) items) nodes of
                Inl e \<Rightarrow> Some (Inl e)
              | Inr nodes' \<Rightarrow>
                  (case numbits_loop [0..<n] 0 nodes' of
                     None \<Rightarrow> None
                   | Some (maxbits, nodes'') \<Rightarrow> Some (Inr (maxbits, ctx\<lparr>m_huffnode := nodes''\<rparr>))))"

text \<open>
  The binary search of \<open>compute_tree_from_histo\<close>. The weights are 32-bit; \<open>None\<close> is a search that
  does not end.
\<close>

partial_function (option) weight_search ::
    "nat \<Rightarrow> nat \<Rightarrow> nat \<Rightarrow> huffman_context \<Rightarrow> (huff_fault + huffman_context) option" where
  "weight_search sdatacount lowerweight upperweight ctx =
     (let curweight = w32 (upperweight + lowerweight) div 2 in
      case build_tree sdatacount curweight ctx of
        None \<Rightarrow> None
      | Some (Inl e) \<Rightarrow> Some (Inl e)
      | Some (Inr (curmaxbits, ctx')) \<Rightarrow>
          if curmaxbits \<le> m_maxbits ctx then
            (if curweight = sdatacount \<or> w32 (upperweight + (2 ^ 32 - curweight)) \<le> 1 then Some (Inr ctx')
             else weight_search sdatacount curweight upperweight ctx')
          else weight_search sdatacount lowerweight curweight ctx')"

declare weight_search.simps [code]

definition search_tree :: "huffman_context \<Rightarrow> (huff_fault + huffman_context) option" where
  "search_tree ctx =
     (let sdatacount = foldl (\<lambda>acc h. w32 (acc + h)) 0 (take (m_numcodes ctx) (m_datahisto ctx))
      in weight_search sdatacount 0 (w32 (sdatacount * 2)) ctx)"

definition compute_tree_from_histo :: "huffman_context \<Rightarrow> (huff_fault + huffman_context) option" where
  "compute_tree_from_histo ctx =
     (case search_tree ctx of
        None \<Rightarrow> None
      | Some (Inl e) \<Rightarrow> Some (Inl e)
      | Some (Inr ctx') \<Rightarrow> Some (assign_canonical_codes ctx'))"

subsection \<open>The forest behind the parent links\<close>

text \<open>
  A tree carries the array index of each node. \<open>linked nodes t\<close>: the parent links below the root
  of \<open>t\<close> are those of the tree. \<open>leaves\<close> are the codes with their depths.
\<close>

datatype htree = Leaf nat | Node nat htree htree

primrec root_of :: "htree \<Rightarrow> nat" where
  "root_of (Leaf c) = c"
| "root_of (Node i l r) = i"

primrec indices :: "htree \<Rightarrow> nat list" where
  "indices (Leaf c) = [c]"
| "indices (Node i l r) = i # indices l @ indices r"

primrec leaves :: "nat \<Rightarrow> htree \<Rightarrow> (nat \<times> nat) list" where
  "leaves d (Leaf c) = [(c, d)]"
| "leaves d (Node i l r) = leaves (Suc d) l @ leaves (Suc d) r"

primrec height :: "htree \<Rightarrow> nat" where
  "height (Leaf c) = 0"
| "height (Node i l r) = Suc (max (height l) (height r))"

primrec linked :: "node_t list \<Rightarrow> htree \<Rightarrow> bool" where
  "linked nodes (Leaf c) = True"
| "linked nodes (Node i l r) =
     (n_parent (nodes ! root_of l) = Some i \<and> n_parent (nodes ! root_of r) = Some i \<and> linked nodes l \<and> linked nodes r)"

lemma root_in_indices [simp]: "root_of t \<in> set (indices t)"
  by (cases t) auto

lemma leaf_depths: "(c, e) \<in> set (leaves d t) \<Longrightarrow> d \<le> e \<and> e \<le> d + height t"
  by (induction t arbitrary: d) fastforce+

lemma kraft_leaves: "d + height t \<le> M \<Longrightarrow> (\<Sum>(c, e)\<leftarrow>leaves d t. 2 ^ (M - e)) = (2 :: nat) ^ (M - d)"
proof (induction t arbitrary: d)
  case (Node i l r)
  then have "(\<Sum>(c, e)\<leftarrow>leaves (Suc d) l. 2 ^ (M - e)) = (2 :: nat) ^ (M - Suc d)"
    "(\<Sum>(c, e)\<leftarrow>leaves (Suc d) r. 2 ^ (M - e)) = (2 :: nat) ^ (M - Suc d)"
    by auto
  moreover have "M - d = Suc (M - Suc d)" using Node.prems by simp
  ultimately show ?case by simp
qed simp

lemma linked_cong:
  assumes "\<And>i. i \<in> set (indices t) \<Longrightarrow> i \<noteq> root_of t \<Longrightarrow> n_parent (nodes' ! i) = n_parent (nodes ! i)"
    "distinct (indices t)" "linked nodes t"
  shows "linked nodes' t"
  using assms
proof (induction t)
  case (Node i l r)
  have "linked nodes' l" using Node.prems by (intro Node.IH) auto
  moreover have "linked nodes' r" using Node.prems by (intro Node.IH) auto
  moreover have "root_of l \<noteq> i" "root_of r \<noteq> i"
    using Node.prems(2) root_in_indices [of l] root_in_indices [of r] by auto
  ultimately show ?case
    using Node.prems(1) [of "root_of l"] Node.prems(1) [of "root_of r"] Node.prems(3) by auto
qed simp

lemma count_parents_leaf:
  assumes "linked nodes t" "(c, e) \<in> set (leaves d t)" "n < 256"
  shows "count_parents nodes c n = count_parents nodes (root_of t) ((n + (e - d)) mod 256)"
  using assms
proof (induction t arbitrary: d)
  case (Node i l r)
  obtain s where s: "s \<in> {l, r}" "(c, e) \<in> set (leaves (Suc d) s)"
    using Node.prems(2) by auto
  have IH: "count_parents nodes c n = count_parents nodes (root_of s) ((n + (e - Suc d)) mod 256)"
    using Node s by auto
  have up: "count_parents nodes (root_of s) k = count_parents nodes i ((k + 1) mod 256)" for k
    using Node.prems(1) s(1) by (subst count_parents.simps) auto
  have "e - d = Suc (e - Suc d)" using leaf_depths [OF s(2)] by linarith
  then have "((n + (e - Suc d)) mod 256 + 1) mod 256 = (n + (e - d)) mod 256" by (simp add: mod_simps)
  then show ?case by (simp only: IH up root_of.simps)
qed simp

text \<open>The forest under the items of the work list.\<close>

definition forest_ok :: "node_t list \<Rightarrow> nat \<Rightarrow> htree list \<Rightarrow> bool" where
  "forest_ok nodes nextalloc ts \<longleftrightarrow>
     distinct (concat (map indices ts)) \<and> (\<forall>t \<in> set ts. linked nodes t \<and> n_parent (nodes ! root_of t) = None) \<and>
     (\<forall>i \<in> set (concat (map indices ts)). i < nextalloc) \<and> nextalloc \<le> length nodes"

lemma n_parent_set_parent:
  "j < length nodes \<Longrightarrow> n_parent (set_parent p i nodes ! j) = (if i = j then p else n_parent (nodes ! j))"
  by (auto simp: set_parent_def nth_list_update)

lemma length_set_parent [simp]: "length (set_parent p i nodes) = length nodes"
  by (simp add: set_parent_def)

lemma length_merge_two [simp]: "length (merge_two a b new nodes) = length nodes"
  by (simp add: merge_two_def Let_def)

lemma n_parent_merge_two:
  "j < length nodes \<Longrightarrow> n_parent (merge_two a b new nodes ! j) =
     (if a = j \<or> b = j then Some new else if new = j then None else n_parent (nodes ! j))"
  by (auto simp: merge_two_def Let_def nth_list_update n_parent_set_parent)

lemma forest_merge:
  assumes "forest_ok nodes na (ts @ [t0, t1])" "na < length nodes"
  shows "forest_ok (merge_two (root_of t0) (root_of t1) na nodes) (Suc na) (Node na t0 t1 # ts)"
proof -
  let ?nodes = "merge_two (root_of t0) (root_of t1) na nodes"
  have lt: "i < na" if "t \<in> set ts \<union> {t0, t1}" "i \<in> set (indices t)" for t i
    using assms(1) that by (auto simp: forest_ok_def)
  have par: "n_parent (?nodes ! i) = n_parent (nodes ! i)"
    if "t \<in> set ts \<union> {t0, t1}" "i \<in> set (indices t)" "i \<noteq> root_of t0" "i \<noteq> root_of t1" for t i
    using lt [OF that(1,2)] assms(2) that by (simp add: n_parent_merge_two)
  have disj: "root_of t0 \<notin> set (indices t)" "root_of t1 \<notin> set (indices t)" if "t \<in> set ts" for t
  proof -
    have d: "distinct (concat (map indices (ts @ [t0, t1])))" using assms(1) by (simp only: forest_ok_def)
    have "set (indices t) \<subseteq> set (concat (map indices ts))" using that by auto
    moreover have "set (concat (map indices ts)) \<inter> (set (indices t0) \<union> set (indices t1)) = {}" using d by auto
    ultimately show "root_of t0 \<notin> set (indices t)" "root_of t1 \<notin> set (indices t)"
      using root_in_indices [of t0] root_in_indices [of t1] by blast+
  qed
  have link: "linked ?nodes t" if "t \<in> set ts \<union> {t0, t1}" for t
  proof (rule linked_cong)
    show "distinct (indices t)" "linked nodes t"
      using assms(1) that by (auto simp: forest_ok_def distinct_concat_iff)
    fix i assume i: "i \<in> set (indices t)" "i \<noteq> root_of t"
    have "i \<noteq> root_of t0 \<and> i \<noteq> root_of t1"
      using assms(1) that i root_in_indices [of t0] root_in_indices [of t1] disj
      by (auto simp: forest_ok_def dest!: disjoint_iff [THEN iffD1])
    then show "n_parent (?nodes ! i) = n_parent (nodes ! i)" using par that i(1) by blast
  qed
  have "root_of t0 < length nodes" "root_of t1 < length nodes"
    using lt [of t0 "root_of t0"] lt [of t1 "root_of t1"] assms(2) by auto
  moreover have "root_of t0 \<noteq> na" "root_of t1 \<noteq> na"
    using lt [of t0 "root_of t0"] lt [of t1 "root_of t1"] by auto
  moreover have "n_parent (?nodes ! root_of t) = None" if "t \<in> set ts" for t
  proof -
    have "root_of t \<noteq> root_of t0" "root_of t \<noteq> root_of t1"
      using disj [OF that] root_in_indices [of t] by metis+
    then show ?thesis using par [of t "root_of t"] assms(1) that by (auto simp: forest_ok_def)
  qed
  ultimately have roots: "linked ?nodes t \<and> n_parent (?nodes ! root_of t) = None" if "t \<in> set (Node na t0 t1 # ts)" for t
    using that link assms(2) by (auto simp: n_parent_merge_two)
  have fresh: "na \<notin> set (indices t)" if "t \<in> set ts \<union> {t0, t1}" for t using lt [OF that] by blast
  have "distinct (concat (map indices (Node na t0 t1 # ts)))"
    using assms(1) fresh by (auto simp: forest_ok_def)
  moreover have "i < Suc na" if "i \<in> set (concat (map indices (Node na t0 t1 # ts)))" for i
    using that lt less_SucI by fastforce
  ultimately show ?thesis unfolding forest_ok_def using roots assms(2) by simp
qed

primrec insert_tree :: "node_t list \<Rightarrow> htree \<Rightarrow> htree list \<Rightarrow> htree list" where
  "insert_tree nodes t [] = [t]"
| "insert_tree nodes t (u # us) =
     (if n_weight (nodes ! root_of t) > n_weight (nodes ! root_of u) then t # u # us else u # insert_tree nodes t us)"

lemma insert_node_map: "insert_node nodes (root_of t) (map root_of ts) = map root_of (insert_tree nodes t ts)"
  by (induction ts) auto

lemma mset_insert_tree: "mset (insert_tree nodes t ts) = add_mset t (mset ts)"
  by (induction ts) auto

lemma length_insert_tree [simp]: "length (insert_tree nodes t ts) = Suc (length ts)"
  by (induction ts) auto

lemma set_insert_tree [simp]: "set (insert_tree nodes t ts) = insert t (set ts)"
  by (metis mset_insert_tree set_mset_add_mset_insert set_mset_mset)

lemma forest_ok_perm: "mset us = mset ts \<Longrightarrow> forest_ok nodes na ts \<Longrightarrow> forest_ok nodes na us"
proof -
  assume "mset us = mset ts" "forest_ok nodes na ts"
  moreover from this(1) have "set us = set ts" "mset (concat (map indices us)) = mset (concat (map indices ts))"
    using mset_eq_setD by (blast, simp add: mset_concat sum_mset_sum_list [symmetric])
  moreover from this(2) have "set (concat (map indices us)) = set (concat (map indices ts))"
      "distinct (concat (map indices us)) = distinct (concat (map indices ts))"
    using mset_eq_setD mset_eq_imp_distinct_iff by blast+
  ultimately show ?thesis by (simp only: forest_ok_def) blast
qed

text \<open>What the merge loop keeps, it establishes: a rule for its invariants.\<close>

lemma merge_loop_rule:
  assumes "forest_ok nodes na ts" "na + length ts \<le> Suc (length nodes)" "P nodes na ts" "n \<le> na"
    and step: "\<And>nodes na ts t0 t1. P nodes na (ts @ [t0, t1]) \<Longrightarrow> forest_ok nodes na (ts @ [t0, t1]) \<Longrightarrow> n \<le> na \<Longrightarrow> na < length nodes \<Longrightarrow>
        P (merge_two (root_of t0) (root_of t1) na nodes) (Suc na)
          (insert_tree (merge_two (root_of t0) (root_of t1) na nodes) (Node na t0 t1) ts)"
  shows "\<exists>nodes' na' ts'. merge_loop na (map root_of ts) nodes = Inr nodes' \<and> forest_ok nodes' na' ts' \<and>
    length ts' \<le> 1 \<and> P nodes' na' ts'"
  using assms(1-4)
proof (induction "length ts" arbitrary: ts nodes na rule: less_induct)
  case less
  show ?case
  proof (cases "length ts \<le> 1")
    case True
    then show ?thesis using less.prems by (auto simp: merge_loop.simps)
  next
    case False
    define us t0 t1 where "us = take (length ts - 2) ts" and "t0 = ts ! (length ts - 2)" and "t1 = ts ! (length ts - 1)"
    have "drop (length ts - 2) ts = [t0, t1]"
      using False by (intro nth_equalityI) (auto simp: t0_def t1_def less_Suc_eq numeral_2_eq_2 Suc_diff_Suc)
    then have ts: "ts = us @ [t0, t1]" by (metis append_take_drop_id us_def)
    let ?nodes = "merge_two (root_of t0) (root_of t1) na nodes"
    let ?ts = "insert_tree ?nodes (Node na t0 t1) us"
    have na: "na < length nodes" using less.prems(2) ts by simp
    have "forest_ok ?nodes (Suc na) ?ts"
      using forest_merge [OF less.prems(1) [unfolded ts] na] by (rule forest_ok_perm [rotated]) (simp add: mset_insert_tree)
    moreover have "P ?nodes (Suc na) ?ts" using step [OF less.prems(3,1) [unfolded ts] less.prems(4) na] .
    moreover have "Suc na + length ?ts \<le> Suc (length ?nodes)" using less.prems(2) ts by simp
    ultimately have "\<exists>nodes' na' ts'. merge_loop (Suc na) (map root_of ?ts) ?nodes = Inr nodes' \<and> forest_ok nodes' na' ts' \<and>
        length ts' \<le> 1 \<and> P nodes' na' ts'"
      using less.prems(4) by (intro less.hyps) (simp_all add: ts)
    moreover have "merge_loop na (map root_of ts) nodes = merge_loop (Suc na) (map root_of ?ts) ?nodes"
      using False na insert_node_map [of ?nodes "Node na t0 t1" us]
      by (subst merge_loop.simps) (simp add: ts Let_def nth_append)
    ultimately show ?thesis by simp
  qed
qed

subsection \<open>Code lengths\<close>

lemma leaf_codes_depth: "map fst (leaves d t) = map fst (leaves d' t)"
  by (induction t arbitrary: d d') (simp, metis leaves.simps(2) map_append)

lemma leaf_codes_indices: "set (map fst (leaves d t)) \<subseteq> set (indices t)"
  by (induction t arbitrary: d) (simp, fastforce simp: image_subset_iff)

lemma distinct_leaf_codes: "distinct (indices t) \<Longrightarrow> distinct (map fst (leaves d t))"
proof (induction t arbitrary: d)
  case (Node i l r)
  then have "set (indices l) \<inter> set (indices r) = {}" by auto
  with leaf_codes_indices [of "Suc d" l] leaf_codes_indices [of "Suc d" r]
  have "set (map fst (leaves (Suc d) l)) \<inter> set (map fst (leaves (Suc d) r)) = {}" by blast
  with Node show ?case by simp
qed simp

definition all_leaves :: "htree list \<Rightarrow> nat set" where
  "all_leaves ts = (\<Union>t\<in>set ts. set (map fst (leaves 0 t)))"

lemma all_leaves_merge: "all_leaves (insert_tree nodes (Node i l r) ts) = all_leaves (ts @ [l, r])"
proof -
  have "fst ` set (leaves (Suc 0) t) = fst ` set (leaves 0 t)" for t
    using arg_cong [OF leaf_codes_depth [of "Suc 0" t 0], of set] by simp
  then show ?thesis by (auto simp: all_leaves_def image_Un)
qed

lemma n_weight_set_parent: "n_weight (set_parent p i nodes ! j) = n_weight (nodes ! j)"
  by (cases "i = j"; cases "j < length nodes") (auto simp: set_parent_def list_update_beyond)

lemma n_weight_merge_two:
  "j < length nodes \<Longrightarrow> j \<noteq> new \<Longrightarrow> n_weight (merge_two a b new nodes ! j) = n_weight (nodes ! j)"
  by (simp add: merge_two_def Let_def n_weight_set_parent)

text \<open>The numbers of the loop over the codes, once the parent links are a tree.\<close>

definition code_length :: "htree list \<Rightarrow> nat \<Rightarrow> nat" where
  "code_length ts c = (case ts of [] \<Rightarrow> 0 | t # _ \<Rightarrow> (case map_of (leaves 0 t) c of None \<Rightarrow> 0 | Some d \<Rightarrow> max 1 d))"

lemma forest_count_parents:
  assumes "forest_ok nodes na [t]" "height t < 256" "(c, e) \<in> set (leaves 0 t)"
  shows "count_parents nodes c 0 = Some e"
proof -
  have "e < 256" using leaf_depths [OF assms(3)] assms(2) by simp
  moreover have "count_parents nodes (root_of t) e = Some e"
    using assms(1) by (subst count_parents.simps) (simp add: forest_ok_def)
  ultimately show ?thesis
    using count_parents_leaf [of nodes t c e 0 0] assms(1,3) by (simp add: forest_ok_def)
qed

lemma forest_ok_cong:
  assumes "\<And>j. j < length nodes \<Longrightarrow> n_parent (nodes' ! j) = n_parent (nodes ! j)" "length nodes' = length nodes" "forest_ok nodes na ts"
  shows "forest_ok nodes' na ts"
proof -
  have lt: "i < length nodes" if "t \<in> set ts" "i \<in> set (indices t)" for t i
  proof -
    have "i < na" "na \<le> length nodes" using assms(3) that by (auto simp: forest_ok_def)
    then show ?thesis by linarith
  qed
  have "linked nodes' t \<and> n_parent (nodes' ! root_of t) = None" if t: "t \<in> set ts" for t
  proof
    show "linked nodes' t"
      using assms(3) t lt [OF t] by (intro linked_cong [of t nodes' nodes] assms(1)) (auto simp: forest_ok_def distinct_concat_iff)
    show "n_parent (nodes' ! root_of t) = None"
      using assms(1) [OF lt [OF t root_in_indices]] assms(3) t by (simp add: forest_ok_def)
  qed
  with assms(2,3) show ?thesis by (simp add: forest_ok_def)
qed

lemma code_length_pos:
  assumes "length ts \<le> 1"
  shows "0 < code_length ts c \<longleftrightarrow> c \<in> all_leaves ts"
proof -
  have none: "map_of (leaves 0 t) c = None \<longleftrightarrow> c \<notin> all_leaves [t]" for t
    by (simp add: all_leaves_def map_of_eq_None_iff)
  have "0 < code_length [t] c \<longleftrightarrow> c \<in> all_leaves [t]" for t
    using none [of t] by (cases "map_of (leaves 0 t) c") (auto simp: code_length_def)
  moreover have "code_length [] c = 0" "all_leaves [] = {}" by (simp_all add: code_length_def all_leaves_def)
  moreover have "ts = [] \<or> (\<exists>t. ts = [t])" using assms by (cases ts) auto
  ultimately show ?thesis by auto
qed

lemma code_length_leaf:
  assumes "forest_ok nodes na ts" "length ts \<le> 1" "\<forall>t \<in> set ts. height t < 256"
  shows "c \<in> all_leaves ts \<Longrightarrow> \<exists>n. count_parents nodes c 0 = Some n \<and> (if n = 0 then 1 else n) = code_length ts c"
    and "c \<notin> all_leaves ts \<Longrightarrow> code_length ts c = 0"
    and "0 < code_length ts c \<longleftrightarrow> c \<in> all_leaves ts"
proof -
  have *: "ts = [] \<or> (\<exists>t. ts = [t])" using assms(2) by (cases ts) auto
  show "\<exists>n. count_parents nodes c 0 = Some n \<and> (if n = 0 then 1 else n) = code_length ts c" if c: "c \<in> all_leaves ts"
  proof -
    obtain t e where t: "ts = [t]" "(c, e) \<in> set (leaves 0 t)" using * c by (auto simp: all_leaves_def)
    have "distinct (map fst (leaves 0 t))" using assms(1) t by (intro distinct_leaf_codes) (simp add: forest_ok_def)
    then have "map_of (leaves 0 t) c = Some e" using t(2) by simp
    moreover have "count_parents nodes c 0 = Some e" using forest_count_parents [of nodes na t c e] assms t by simp
    ultimately show ?thesis using t(1) by (simp add: code_length_def)
  qed
  show "0 < code_length ts c \<longleftrightarrow> c \<in> all_leaves ts" using code_length_pos [OF assms(2)] .
  then show "c \<notin> all_leaves ts \<Longrightarrow> code_length ts c = 0" by simp
qed

lemma node_fields_commute: "nd\<lparr>n_bits := b, n_numbits := k\<rparr> = nd\<lparr>n_numbits := k, n_bits := b\<rparr>" for nd :: node_t
  by (cases nd) simp

lemma numbits_loop_result:
  assumes "forest_ok nodes na ts" "length ts \<le> 1" "\<forall>t \<in> set ts. height t < 256"
    and "\<forall>c \<in> set cs. c < length nodes \<and> (0 < n_weight (nodes ! c) \<longleftrightarrow> c \<in> all_leaves ts)" "distinct cs"
  shows "\<exists>nodes'. numbits_loop cs m nodes = Some (fold max (map (code_length ts) cs) m, nodes') \<and> length nodes' = length nodes \<and>
    (\<forall>j < length nodes. nodes' ! j = (if j \<in> set cs then (nodes ! j)\<lparr>n_numbits := code_length ts j, n_bits := 0\<rparr> else nodes ! j))"
  using assms
proof (induction cs arbitrary: m nodes)
  case (Cons c cs)
  let ?node = "(nodes ! c)\<lparr>n_numbits := code_length ts c, n_bits := 0\<rparr>"
  let ?nodes = "nodes[c := ?node]"
  note cl = code_length_leaf [OF Cons.prems(1-3), of c]
  have ok: "forest_ok ?nodes na ts"
  proof (rule forest_ok_cong [OF _ _ Cons.prems(1)])
    show "n_parent (?nodes ! j) = n_parent (nodes ! j)" if "j < length nodes" for j
      using that by (cases "c = j") auto
  qed simp
  have "numbits_loop (c # cs) m nodes = numbits_loop cs (max (code_length ts c) m) ?nodes"
    using Cons.prems(4) cl by (cases "c \<in> all_leaves ts") (auto simp: Let_def max.commute node_fields_commute)
  moreover have "\<exists>nodes'. numbits_loop cs (max (code_length ts c) m) ?nodes = Some (fold max (map (code_length ts) cs) (max (code_length ts c) m), nodes')
    \<and> length nodes' = length ?nodes \<and>
    (\<forall>j < length ?nodes. nodes' ! j = (if j \<in> set cs then (?nodes ! j)\<lparr>n_numbits := code_length ts j, n_bits := 0\<rparr> else ?nodes ! j))"
    using Cons.prems by (intro Cons.IH [OF ok]) (auto simp: nth_list_update)
  moreover have "c < length nodes" "c \<notin> set cs" using Cons.prems(4,5) by auto
  moreover from this have "\<And>j. j \<in> set cs \<Longrightarrow> ?nodes ! j = nodes ! j" by (metis nth_list_update_neq)
  ultimately show ?case
    by (simp only: list.map fold_simps) (auto simp del: numbits_loop.simps simp: nth_list_update)
qed auto

subsection \<open>The lengths of a built tree\<close>

text \<open>
  \<open>build_tree\<close> under the shape of the encoder template. The code lengths are the depths of a
  binary tree over the codes that occur, so the Kraft sum is exact, and a tree of one code has
  length one.
\<close>

definition encoder_shape :: "huffman_context \<Rightarrow> bool" where
  "encoder_shape ctx \<longleftrightarrow>
     length (m_huffnode ctx) = 2 * m_numcodes ctx \<and> length (m_datahisto ctx) = m_numcodes ctx \<and> m_numcodes ctx < 2 ^ 31 \<and>
     sum_list (m_datahisto ctx) < 2 ^ 31"

lemma mset_qsort: "mset (qsort compar xs) = mset xs"
proof -
  have "mset (qsort_insert compar x ys) = add_mset x (mset ys)" for x ys by (induction ys) auto
  then show ?thesis unfolding qsort_def by (induction xs) auto
qed

lemma init_node_fields:
  "n_parent (init_node td tw c h) = None" "0 < n_weight (init_node td tw c h) \<longleftrightarrow> h \<noteq> 0"
  by (simp_all add: init_node_def node_null_def Let_def)

definition leaf_forest :: "huffman_context \<Rightarrow> nat list" where
  "leaf_forest ctx = filter (\<lambda>c. m_datahisto ctx ! c \<noteq> 0) [0..<m_numcodes ctx]"

definition start_nodes :: "nat \<Rightarrow> nat \<Rightarrow> huffman_context \<Rightarrow> node_t list" where
  "start_nodes td tw ctx = map (\<lambda>c. init_node td tw c (m_datahisto ctx ! c)) [0..<m_numcodes ctx] @ drop (m_numcodes ctx) (m_huffnode ctx)"

lemma start_forest:
  assumes "encoder_shape ctx" "mset cs = mset (leaf_forest ctx)"
  shows "forest_ok (start_nodes td tw ctx) (m_numcodes ctx) (map Leaf cs)"
proof -
  have cs: "set cs = set (leaf_forest ctx)" "distinct cs"
    using mset_eq_setD [OF assms(2)] mset_eq_imp_distinct_iff [OF assms(2)] by (auto simp: leaf_forest_def)
  have "indices \<circ> Leaf = (\<lambda>c. [c])" by auto
  moreover have "m_numcodes ctx \<le> length (start_nodes td tw ctx)" by (simp add: start_nodes_def)
  moreover have "n_parent (start_nodes td tw ctx ! c) = None" if "c < m_numcodes ctx" for c
    using that by (simp add: start_nodes_def nth_append init_node_fields)
  ultimately show ?thesis
    using cs by (auto simp: forest_ok_def leaf_forest_def comp_def)
qed

text \<open>What the merge keeps besides the forest: array length, the codes, the weights of the codes.\<close>

definition merge_keeps :: "nat \<Rightarrow> node_t list \<Rightarrow> nat set \<Rightarrow> node_t list \<Rightarrow> htree list \<Rightarrow> bool" where
  "merge_keeps n nodes0 A nodes ts \<longleftrightarrow>
     length nodes = length nodes0 \<and> all_leaves ts = A \<and> (\<forall>t \<in> set ts. \<forall>c \<in> set (map fst (leaves 0 t)). c < n) \<and>
     (\<forall>c < n. n_weight (nodes ! c) = n_weight (nodes0 ! c))"

lemma merge_keeps_step:
  assumes "merge_keeps n nodes0 A nodes (ts @ [t0, t1])" "n \<le> na" "na < length nodes"
  shows "merge_keeps n nodes0 A (merge_two (root_of t0) (root_of t1) na nodes)
          (insert_tree (merge_two (root_of t0) (root_of t1) na nodes) (Node na t0 t1) ts)"
proof -
  let ?nodes = "merge_two (root_of t0) (root_of t1) na nodes"
  have *: "merge_keeps n nodes0 A nodes us \<longleftrightarrow>
      length nodes = length nodes0 \<and> all_leaves us = A \<and> A \<subseteq> {..<n} \<and> (\<forall>c < n. n_weight (nodes ! c) = n_weight (nodes0 ! c))" for nodes us
    by (auto simp: merge_keeps_def all_leaves_def)
  have "n_weight (?nodes ! c) = n_weight (nodes ! c)" if "c < n" for c
    using that assms(2,3) by (intro n_weight_merge_two) auto
  with assms show ?thesis by (simp add: * all_leaves_merge)
qed

text \<open>
  The tree that results is a function of the histogram: the merge on trees with their weights,
  without the node array.
\<close>

primrec insert_weighted :: "nat \<times> htree \<Rightarrow> (nat \<times> htree) list \<Rightarrow> (nat \<times> htree) list" where
  "insert_weighted p [] = [p]"
| "insert_weighted p (q # qs) = (if fst p > fst q then p # q # qs else q # insert_weighted p qs)"

lemma length_insert_weighted [simp]: "length (insert_weighted p qs) = Suc (length qs)"
  by (induction qs) auto

function merge_trees :: "nat \<Rightarrow> (nat \<times> htree) list \<Rightarrow> (nat \<times> htree) list" where
  "merge_trees na ps =
     (if length ps \<le> 1 then ps
      else let p1 = ps ! (length ps - 1); p0 = ps ! (length ps - 2)
           in merge_trees (Suc na) (insert_weighted (w32 (fst p0 + fst p1), Node na (snd p0) (snd p1)) (take (length ps - 2) ps)))"
  by pat_completeness auto
termination
  by (relation "measure (\<lambda>(na, ps). length ps)") auto

declare merge_trees.simps [simp del]

definition weighted :: "node_t list \<Rightarrow> htree list \<Rightarrow> (nat \<times> htree) list" where
  "weighted nodes ts = map (\<lambda>t. (n_weight (nodes ! root_of t), t)) ts"

definition tree_spec :: "nat \<Rightarrow> nat \<Rightarrow> huffman_context \<Rightarrow> htree list" where
  "tree_spec td tw ctx =
     (let node = \<lambda>c. init_node td tw c (m_datahisto ctx ! c);
          cs = qsort (\<lambda>a b. tree_node_compare (node a) (node b)) (leaf_forest ctx)
      in map snd (merge_trees (m_numcodes ctx) (map (\<lambda>c. (n_weight (node c), Leaf c)) cs)))"

lemma tree_spec_nodes [simp]: "tree_spec td tw (ctx\<lparr>m_huffnode := nodes\<rparr>) = tree_spec td tw ctx"
  by (simp add: tree_spec_def leaf_forest_def)

lemma insert_weighted_tree: "insert_weighted (n_weight (nodes ! root_of t), t) (weighted nodes ts) = weighted nodes (insert_tree nodes t ts)"
  by (induction ts) (auto simp: weighted_def)

lemma qsort_cong:
  assumes "\<And>a b. a \<in> set xs \<Longrightarrow> b \<in> set xs \<Longrightarrow> f a b = g a b"
  shows "qsort f xs = qsort g xs"
proof -
  have ins: "(\<And>b. b \<in> set ys \<Longrightarrow> f x b = g x b) \<Longrightarrow> qsort_insert f x ys = qsort_insert g x ys" for x ys by (induction ys) auto
  have "set (foldr (qsort_insert g) ys []) = set ys" for ys
    using mset_eq_setD [OF mset_qsort [of g ys]] by (simp add: qsort_def)
  then show ?thesis
    using assms unfolding qsort_def by (induction xs) (auto intro!: ins)
qed

lemma n_weight_merged:
  assumes "a \<noteq> new" "b \<noteq> new" "new < length nodes"
  shows "n_weight (merge_two a b new nodes ! new) = w32 (n_weight (nodes ! a) + n_weight (nodes ! b))"
  using assms by (simp add: merge_two_def Let_def n_weight_set_parent)

lemma forest_root_less: "forest_ok nodes na ts \<Longrightarrow> t \<in> set ts \<Longrightarrow> root_of t < na"
proof -
  assume "forest_ok nodes na ts" "t \<in> set ts"
  moreover from this(2) have "root_of t \<in> set (concat (map indices ts))" by (auto intro!: bexI [of _ t])
  ultimately show ?thesis unfolding forest_ok_def by blast
qed

lemma weighted_merge:
  assumes "forest_ok nodes na (ts @ [t0, t1])" "na < length nodes"
  shows "merge_trees na (weighted nodes (ts @ [t0, t1])) =
    merge_trees (Suc na) (weighted (merge_two (root_of t0) (root_of t1) na nodes)
      (insert_tree (merge_two (root_of t0) (root_of t1) na nodes) (Node na t0 t1) ts))"
proof -
  let ?nodes = "merge_two (root_of t0) (root_of t1) na nodes"
  note lt = forest_root_less [OF assms(1)]
  then have "n_weight (?nodes ! root_of t) = n_weight (nodes ! root_of t)" if "t \<in> set ts" for t
    using that assms(2) by (intro n_weight_merge_two) (auto dest: order.strict_trans)
  then have w: "weighted ?nodes ts = weighted nodes ts" by (simp add: weighted_def)
  have new: "n_weight (?nodes ! na) = w32 (n_weight (nodes ! root_of t0) + n_weight (nodes ! root_of t1))"
    using lt [of t0] lt [of t1] assms(2) by (intro n_weight_merged) auto
  have "weighted nodes (ts @ [t0, t1]) = weighted nodes ts @ [(n_weight (nodes ! root_of t0), t0), (n_weight (nodes ! root_of t1), t1)]"
    by (simp add: weighted_def)
  then have "merge_trees na (weighted nodes (ts @ [t0, t1])) =
      merge_trees (Suc na) (insert_weighted (w32 (n_weight (nodes ! root_of t0) + n_weight (nodes ! root_of t1)), Node na t0 t1) (weighted nodes ts))"
    by (subst merge_trees.simps) (simp add: Let_def nth_append)
  then show ?thesis
    using insert_weighted_tree [of ?nodes "Node na t0 t1" ts] new w by simp
qed

text \<open>
  Two trees of least weight are merged in each step, so a tree weighs at least twice as much as the
  trees two levels below its root: its height is bounded by its weight, and a code length never
  wraps around in its byte.
\<close>

primrec subtrees :: "htree \<Rightarrow> htree list" where
  "subtrees (Leaf c) = []"
| "subtrees (Node i l r) = [l, r]"

definition heavy :: "node_t list \<Rightarrow> htree \<Rightarrow> bool" where
  "heavy nodes t \<longleftrightarrow> 2 ^ (height t div 2) \<le> n_weight (nodes ! root_of t)"

definition huffman_forest :: "nat \<Rightarrow> node_t list \<Rightarrow> htree list \<Rightarrow> bool" where
  "huffman_forest W nodes ts \<longleftrightarrow>
     (\<Sum>t\<leftarrow>ts. n_weight (nodes ! root_of t)) = W \<and>
     sorted_wrt (\<lambda>t u. n_weight (nodes ! root_of u) \<le> n_weight (nodes ! root_of t)) ts \<and>
     (\<forall>t \<in> set ts. heavy nodes t \<and> (\<forall>s \<in> set (subtrees t). heavy nodes s \<and>
        (\<forall>u \<in> set ts. n_weight (nodes ! root_of s) \<le> n_weight (nodes ! root_of u))))"

lemma huffman_forest_height:
  assumes "huffman_forest W nodes ts" "W < 2 ^ 32" "t \<in> set ts"
  shows "height t < 256"
proof -
  have "2 ^ (height t div 2) \<le> n_weight (nodes ! root_of t)" using assms(1,3) by (simp add: huffman_forest_def heavy_def)
  also have "\<dots> \<le> W" using assms(1,3) member_le_sum_list [of "n_weight (nodes ! root_of t)" "map (\<lambda>t. n_weight (nodes ! root_of t)) ts"]
    by (auto simp: huffman_forest_def)
  also have "\<dots> < 2 ^ 32" by (rule assms(2))
  finally have "height t div 2 < 32" by (rule power_less_imp_less_exp [rotated]) simp
  then show ?thesis by simp
qed

lemma heavy_merge:
  assumes t: "heavy nodes t0" "heavy nodes t1" "0 < n_weight (nodes ! root_of t0)"
    and sub: "\<forall>s \<in> set (subtrees t0 @ subtrees t1). heavy nodes s \<and>
        n_weight (nodes ! root_of s) \<le> n_weight (nodes ! root_of t0) \<and> n_weight (nodes ! root_of s) \<le> n_weight (nodes ! root_of t1)"
    and w: "n_weight (nodes ! na) = n_weight (nodes ! root_of t0) + n_weight (nodes ! root_of t1)"
  shows "heavy nodes (Node na t0 t1)"
proof -
  obtain t where "t \<in> {t0, t1}" "height (Node na t0 t1) = Suc (height t)"
    by (cases "height t0 \<le> height t1") (auto simp: max_def)
  note ht = this
  show ?thesis
  proof (cases t)
    case (Leaf c)
    then show ?thesis using ht t(3) w by (simp add: heavy_def)
  next
    case (Node i l r)
    then obtain s where s: "s \<in> set (subtrees t)" "height t = Suc (height s)"
      by (cases "height l \<le> height r") (auto simp: max_def)
    then have h: "height (Node na t0 t1) = height s + 2" using ht(2) by simp
    have "s \<in> set (subtrees t0 @ subtrees t1)" using s(1) ht(1) by auto
    then have "2 ^ (height s div 2) \<le> n_weight (nodes ! root_of s)" "n_weight (nodes ! root_of s) \<le> n_weight (nodes ! root_of t0)"
        "n_weight (nodes ! root_of s) \<le> n_weight (nodes ! root_of t1)"
      using sub by (simp_all add: heavy_def)
    then show ?thesis unfolding heavy_def h using w by simp
  qed
qed

lemma sorted_insert_tree:
  assumes "sorted_wrt (\<lambda>t u. n_weight (nodes ! root_of u) \<le> n_weight (nodes ! root_of t)) ts"
  shows "sorted_wrt (\<lambda>t u. n_weight (nodes ! root_of u) \<le> n_weight (nodes ! root_of t)) (insert_tree nodes t ts)"
  proof (cases "ts = []")
  case True then show ?thesis by simp
next case False
  show ?thesis using assms by (induction ts) (auto intro: order.trans[OF _ less_imp_le])
qed

lemma sum_list_insert_tree: "(\<Sum>u\<leftarrow>insert_tree nodes t ts. f u) = f t + (\<Sum>u\<leftarrow>ts. f u :: nat)"
  by (induction ts) auto

lemma subtree_root: "s \<in> set (subtrees t) \<Longrightarrow> root_of s \<in> set (indices t)"
  by (cases t) auto

lemma huffman_forest_step:
  assumes h: "huffman_forest W nodes (ts @ [t0, t1])" "W < 2 ^ 32"
    and ok: "forest_ok nodes na (ts @ [t0, t1])" "na < length nodes"
  shows "huffman_forest W (merge_two (root_of t0) (root_of t1) na nodes)
    (insert_tree (merge_two (root_of t0) (root_of t1) na nodes) (Node na t0 t1) ts)"
proof -
  let ?nodes = "merge_two (root_of t0) (root_of t1) na nodes" and ?t = "Node na t0 t1"
  let ?w = "\<lambda>t. n_weight (nodes ! root_of t)" and ?w' = "\<lambda>t. n_weight (?nodes ! root_of t)"
  let ?all = "set (ts @ [t0, t1])"
  have idx: "i < na" if "t \<in> ?all" "i \<in> set (indices t)" for t i
    using ok(1) that by (auto simp: forest_ok_def)
  have same: "n_weight (?nodes ! i) = n_weight (nodes ! i)" if "i < na" for i
    using that ok(2) by (intro n_weight_merge_two) auto
  have rt: "?w' t = ?w t" "heavy ?nodes t \<longleftrightarrow> heavy nodes t" if "t \<in> ?all" for t
    using same [OF idx [OF that root_in_indices]] by (simp_all add: heavy_def)
  have st: "?w' s = ?w s" "heavy ?nodes s \<longleftrightarrow> heavy nodes s" if "t \<in> ?all" "s \<in> set (subtrees t)" for s t
    using same [OF idx [OF that(1) subtree_root [OF that(2)]]] by (simp_all add: heavy_def)
  have sum: "(\<Sum>t\<leftarrow>ts. ?w t) + (?w t0 + ?w t1) = W" using h(1) by (simp add: huffman_forest_def)
  have "?w' ?t = w32 (?w t0 + ?w t1)"
    using idx [of t0 "root_of t0"] idx [of t1 "root_of t1"] ok(2) n_weight_merged [of "root_of t0" na "root_of t1" nodes] by simp
  also have "\<dots> = ?w t0 + ?w t1" using sum h(2) by (simp add: w32_small)
  finally have new: "?w' ?t = ?w t0 + ?w t1" .
  have old: "heavy nodes t" "s \<in> set (subtrees t) \<Longrightarrow> heavy nodes s" "s \<in> set (subtrees t) \<Longrightarrow> u \<in> ?all \<Longrightarrow> ?w s \<le> ?w u"
    if "t \<in> ?all" for t s u
  proof -
    note H = h(1) [unfolded huffman_forest_def, THEN conjunct2, THEN conjunct2, rule_format, OF that]
    show "heavy nodes t" by (rule H [THEN conjunct1])
    note H2 = H [THEN conjunct2, rule_format]
    show "s \<in> set (subtrees t) \<Longrightarrow> heavy nodes s" by (rule H2 [THEN conjunct1])
    show "s \<in> set (subtrees t) \<Longrightarrow> u \<in> ?all \<Longrightarrow> ?w s \<le> ?w u" by (rule H2 [THEN conjunct2, rule_format])
  qed
  have least: "?w t1 \<le> ?w t0" "u \<in> set ts \<Longrightarrow> ?w t0 \<le> ?w u \<and> ?w t1 \<le> ?w u" for u
    using h(1) by (auto simp: huffman_forest_def sorted_wrt_append)
  have pos: "0 < ?w t0" using old(1) [of t0] less_le_trans [of 0 "2 ^ (height t0 div 2)" "?w t0"] by (simp add: heavy_def)
  have "\<forall>s \<in> set (subtrees t0 @ subtrees t1). heavy ?nodes s \<and> ?w' s \<le> ?w' t0 \<and> ?w' s \<le> ?w' t1"
  proof
    fix s assume "s \<in> set (subtrees t0 @ subtrees t1)"
    then obtain t where t: "t \<in> ?all" "s \<in> set (subtrees t)" by auto
    from old(2,3) [OF t(1,2)] st [OF t] rt(1) [of t0] rt(1) [of t1]
    show "heavy ?nodes s \<and> ?w' s \<le> ?w' t0 \<and> ?w' s \<le> ?w' t1" by simp
  qed
  then have heavy_new: "heavy ?nodes ?t"
    using old(1) [of t0] old(1) [of t1] rt [of t0] rt [of t1] new pos by (intro heavy_merge) simp_all
  have "(\<Sum>t\<leftarrow>insert_tree ?nodes ?t ts. ?w' t) = ?w' ?t + (\<Sum>t\<leftarrow>ts. ?w' t)"
    by (rule sum_list_insert_tree)
  also have "map ?w' ts = map ?w ts" using rt(1) by simp
  finally have "(\<Sum>t\<leftarrow>insert_tree ?nodes ?t ts. ?w' t) = W" using new sum by simp
  moreover have "sorted_wrt (\<lambda>t u. ?w' u \<le> ?w' t) (insert_tree ?nodes ?t ts)"
  proof (rule sorted_insert_tree)
    have "sorted_wrt (\<lambda>t u. ?w u \<le> ?w t) ts" using h(1) by (simp add: huffman_forest_def sorted_wrt_append)
    then show "sorted_wrt (\<lambda>t u. ?w' u \<le> ?w' t) ts"
      by (rule sorted_wrt_mono_rel [rotated]) (simp add: rt(1))
  qed
  moreover have "\<forall>t \<in> set (insert_tree ?nodes ?t ts). heavy ?nodes t \<and> (\<forall>s \<in> set (subtrees t). heavy ?nodes s \<and> (\<forall>u \<in> set (insert_tree ?nodes ?t ts). ?w' s \<le> ?w' u))"
  proof
    fix t assume t: "t \<in> set (insert_tree ?nodes ?t ts)"
    show "heavy ?nodes t \<and> (\<forall>s \<in> set (subtrees t). heavy ?nodes s \<and> (\<forall>u \<in> set (insert_tree ?nodes ?t ts). ?w' s \<le> ?w' u))"
  proof (cases "t = ?t")
    case True
    have "?w' s \<le> ?w' u" if "s \<in> {t0, t1}" "u \<in> insert ?t (set ts)" for s u
      using that least rt(1) [of s] rt(1) [of u] new by auto
    then show ?thesis using True heavy_new old rt(2) by simp
  next
    case False
    then have t: "t \<in> set ts" using t by simp
    have "?w' s \<le> ?w' u" if s: "s \<in> set (subtrees t)" and u: "u \<in> insert ?t (set ts)" for s u
    proof (cases "u = ?t")
      case True
      then show ?thesis using old(3) [of t s t0] st(1) [of t s] t s new by simp
    next
      case False
      then show ?thesis using old(3) [of t s u] st(1) [of t s] rt(1) [of u] t s u by simp
    qed
    moreover have "heavy ?nodes s" if "s \<in> set (subtrees t)" for s
      using old(2) [of t s] st(2) [of t s] t that by simp
    ultimately show ?thesis using t old(1) [of t] rt(2) [of t] by simp
  qed
  qed
  ultimately show ?thesis unfolding huffman_forest_def by (intro conjI)
qed

lemma tree_node_compare_le:
  assumes "n_weight a < 2 ^ 31" "n_weight b < 2 ^ 31"
  shows "tree_node_compare a b \<le> 0 \<Longrightarrow> n_weight b \<le> n_weight a" "\<not> tree_node_compare a b \<le> 0 \<Longrightarrow> n_weight a \<le> n_weight b"
  using assms by (auto simp: tree_node_compare_def s32_def w32_def mod_if split: if_splits)

lemma sorted_qsort:
  assumes "\<And>x. x \<in> set xs \<Longrightarrow> n_weight (f x) < 2 ^ 31"
  shows "sorted_wrt (\<lambda>a b. n_weight (f b) \<le> n_weight (f a)) (qsort (\<lambda>a b. tree_node_compare (f a) (f b)) xs)"
proof -
  let ?less = "\<lambda>a b. tree_node_compare (f a) (f b)" and ?le = "\<lambda>a b. n_weight (f b) \<le> n_weight (f a)"
  have set_ins: "set (qsort_insert ?less x ys) = insert x (set ys)" for x ys by (induction ys) auto
  have ins: "sorted_wrt ?le (qsort_insert ?less x ys)"
    if "sorted_wrt ?le ys" "\<forall>y \<in> insert x (set ys). n_weight (f y) < 2 ^ 31" for x ys
    using that
  proof (induction ys)
    case (Cons y ys)
    show ?case
    proof (cases "?less x y \<le> 0")
      case True
      then have "?le x y" using Cons.prems(2) by (intro tree_node_compare_le(1)) auto
      then show ?thesis using True Cons.prems(1) by auto
    next
      case False
      then have "?le y x" using Cons.prems(2) by (intro tree_node_compare_le(2)) auto
      then show ?thesis using False Cons by (auto simp: set_ins)
    qed
  qed simp
  have "sorted_wrt ?le (foldr (qsort_insert ?less) xs []) \<and> set (foldr (qsort_insert ?less) xs []) = set xs"
    using assms by (induction xs) (auto simp: set_ins intro!: ins)
  then show ?thesis by (simp add: qsort_def)
qed

lemma init_weight_le:
  assumes "h \<le> td" "tw \<le> td" "td < 2 ^ 31"
  shows "n_weight (init_node td tw c h) \<le> h"
proof -
  have "h * tw div td \<le> h * td div td" using assms(2) by (intro div_le_mono mult_le_mono2)
  then have "h * tw div td \<le> h" by (cases "td = 0") simp_all
  moreover have "h * tw < 2 ^ 64"
  proof -
    have "h * tw \<le> td * td" using assms by (intro mult_le_mono) auto
    also have "\<dots> < 2 ^ 31 * 2 ^ 31" using assms(3) by (intro mult_strict_mono) auto
    finally show ?thesis by simp
  qed
  ultimately show ?thesis using assms by (auto simp: init_node_def Let_def w64_small w32_small node_null_def)
qed

lemma leaf_forest_nonempty:
  assumes "length (m_datahisto ctx) = m_numcodes ctx" "leaf_forest ctx \<noteq> []"
  shows "sum_list (m_datahisto ctx) \<noteq> 0"
  using assms by (auto simp: leaf_forest_def filter_empty_conv dest: nth_mem)

lemma start_huffman:
  assumes ctx: "encoder_shape ctx" and td: "td = sum_list (m_datahisto ctx)" "tw \<le> td"
  defines "cs \<equiv> qsort (\<lambda>a b. tree_node_compare (start_nodes td tw ctx ! a) (start_nodes td tw ctx ! b)) (leaf_forest ctx)"
  shows "huffman_forest (\<Sum>c\<leftarrow>cs. n_weight (start_nodes td tw ctx ! c)) (start_nodes td tw ctx) (map Leaf cs)"
    "(\<Sum>c\<leftarrow>cs. n_weight (start_nodes td tw ctx ! c)) < 2 ^ 31"
proof -
  let ?w = "\<lambda>c. n_weight (start_nodes td tw ctx ! c)" and ?h = "m_datahisto ctx"
  have td31: "td < 2 ^ 31" and lh: "length ?h = m_numcodes ctx" using ctx td(1) by (simp_all add: encoder_shape_def)
  have cs: "mset cs = mset (leaf_forest ctx)" by (simp add: cs_def mset_qsort)
  have at: "start_nodes td tw ctx ! c = init_node td tw c (?h ! c)" "?h ! c \<le> td" "?h ! c \<noteq> 0" if "c \<in> set (leaf_forest ctx)" for c
    using that lh member_le_sum_list [of "?h ! c" ?h] by (auto simp: leaf_forest_def start_nodes_def nth_append td(1))
  have w: "?w c \<le> ?h ! c" "0 < ?w c" if "c \<in> set (leaf_forest ctx)" for c
    using init_weight_le [OF at(2) [OF that] td(2) td31, of c] at [OF that] by (simp_all add: init_node_fields(2))
  have "(\<Sum>c\<leftarrow>cs. ?w c) = (\<Sum>c\<leftarrow>leaf_forest ctx. ?w c)"
    using cs by (metis mset_map sum_mset_sum_list)
  also have "\<dots> \<le> (\<Sum>c\<leftarrow>leaf_forest ctx. ?h ! c)" using w(1) by (intro sum_list_mono)
  also have "\<dots> = (\<Sum>c\<leftarrow>[0..<m_numcodes ctx]. ?h ! c)"
    unfolding leaf_forest_def by (rule sum_list_map_filter) simp
  also have "\<dots> = td" using lh td(1) map_nth [of ?h] by simp
  finally show "(\<Sum>c\<leftarrow>cs. ?w c) < 2 ^ 31" using td31 by simp
  have "?w c < 2 ^ 31" if "c \<in> set (leaf_forest ctx)" for c
    using w(1) [OF that] at(2) [OF that] td31 by simp
  then have "sorted_wrt (\<lambda>a b. ?w b \<le> ?w a) cs" unfolding cs_def by (rule sorted_qsort)
  moreover have "0 < ?w c" if "c \<in> set cs" for c using w(2) [of c] that mset_eq_setD [OF cs] by simp
  ultimately show "huffman_forest (\<Sum>c\<leftarrow>cs. ?w c) (start_nodes td tw ctx) (map Leaf cs)"
    by (auto simp: huffman_forest_def sorted_wrt_map comp_def heavy_def Suc_le_eq)
qed

text \<open>
  The rule for a whole \<open>build_tree\<close>: the result is read off a single tree over the codes that
  occur, and any further invariant \<open>P\<close> of the merge holds of that tree.
\<close>

lemma build_tree_rule:
  assumes ctx: "encoder_shape ctx" and td: "td = sum_list (m_datahisto ctx)" "tw \<le> td"
    and init: "\<And>cs. mset cs = mset (leaf_forest ctx) \<Longrightarrow> P (start_nodes td tw ctx) (map Leaf cs)"
    and step: "\<And>nodes na ts t0 t1. P nodes (ts @ [t0, t1]) \<Longrightarrow> forest_ok nodes na (ts @ [t0, t1]) \<Longrightarrow> na < length nodes \<Longrightarrow>
        P (merge_two (root_of t0) (root_of t1) na nodes)
          (insert_tree (merge_two (root_of t0) (root_of t1) na nodes) (Node na t0 t1) ts)"
  obtains ts nodes1 nodes2 where "ts = tree_spec td tw ctx"
    "build_tree td tw ctx = Some (Inr (fold max (map (code_length ts) [0..<m_numcodes ctx]) 0, ctx\<lparr>m_huffnode := nodes2\<rparr>))"
    "map n_numbits (take (m_numcodes ctx) nodes2) = map (code_length ts) [0..<m_numcodes ctx]"
    "length nodes2 = 2 * m_numcodes ctx" "length ts \<le> 1" "all_leaves ts = set (leaf_forest ctx)"
    "\<forall>t \<in> set ts. distinct (indices t)" "P nodes1 ts"
proof -
  let ?n = "m_numcodes ctx" and ?nodes = "start_nodes td tw ctx" and ?A = "set (leaf_forest ctx)"
  let ?less = "\<lambda>a b. tree_node_compare (?nodes ! a) (?nodes ! b)"
  define cs where "cs = qsort ?less (leaf_forest ctx)"
  have cs: "mset cs = mset (leaf_forest ctx)" by (simp add: cs_def mset_qsort)
  have len: "length ?nodes = 2 * ?n" "length cs \<le> ?n"
    using ctx size_mset [of cs] by (simp_all add: start_nodes_def encoder_shape_def cs size_mset leaf_forest_def del: size_mset)
      (metis cs length_filter_le length_upt minus_nat.diff_0 size_mset leaf_forest_def)
  define W where "W = (\<Sum>c\<leftarrow>cs. n_weight (?nodes ! c))"
  have hf: "huffman_forest W ?nodes (map Leaf cs)" "W < 2 ^ 31" unfolding W_def cs_def by (rule start_huffman [OF ctx td])+
  define Q where "Q nodes na ts \<longleftrightarrow> merge_keeps ?n ?nodes ?A nodes ts \<and> P nodes ts \<and> huffman_forest W nodes ts \<and>
      merge_trees na (weighted nodes ts) = merge_trees ?n (weighted ?nodes (map Leaf cs))" for nodes na ts
  have "all_leaves (map Leaf cs) = ?A" using mset_eq_setD [OF cs] by (auto simp: all_leaves_def)
  then have Q0: "Q ?nodes ?n (map Leaf cs)"
    using init [OF cs] hf by (auto simp: Q_def merge_keeps_def all_leaves_def leaf_forest_def)
  have roots: "map root_of (map Leaf cs) = cs" by (simp add: comp_def)
  have "\<exists>nodes' na' ts. merge_loop ?n (map root_of (map Leaf cs)) ?nodes = Inr nodes' \<and> forest_ok nodes' na' ts \<and> length ts \<le> 1 \<and> Q nodes' na' ts"
    using len step merge_keeps_step weighted_merge huffman_forest_step hf(2)
    by (intro merge_loop_rule [where P = Q and n = ?n, OF start_forest [OF ctx cs] _ Q0 order.refl]) (auto simp: Q_def)
  then obtain nodes' na' ts where m: "merge_loop ?n cs ?nodes = Inr nodes'" "forest_ok nodes' na' ts" "length ts \<le> 1" "Q nodes' na' ts"
    unfolding roots by blast
  have at: "?nodes ! c = init_node td tw c (m_datahisto ctx ! c)" if "c \<in> set (leaf_forest ctx)" for c
    using that by (simp add: leaf_forest_def start_nodes_def nth_append)
  have "cs = qsort (\<lambda>a b. tree_node_compare (init_node td tw a (m_datahisto ctx ! a)) (init_node td tw b (m_datahisto ctx ! b))) (leaf_forest ctx)"
    unfolding cs_def by (rule qsort_cong) (simp add: at)
  moreover have "weighted ?nodes (map Leaf cs) = map (\<lambda>c. (n_weight (init_node td tw c (m_datahisto ctx ! c)), Leaf c)) cs"
    using at mset_eq_setD [OF cs] by (simp add: weighted_def)
  moreover have "merge_trees na' (weighted nodes' ts) = weighted nodes' ts"
    using m(3) by (subst merge_trees.simps) (simp add: weighted_def)
  ultimately have spec: "ts = tree_spec td tw ctx"
    using m(4) by (simp add: Q_def tree_spec_def Let_def weighted_def comp_def cong: map_cong) (metis (no_types, lifting) map_map map_idI comp_def snd_conv)
  have nz: "leaf_forest ctx \<noteq> [] \<longrightarrow> td \<noteq> 0" using leaf_forest_nonempty ctx td(1) by (simp add: encoder_shape_def)
  have di: "\<forall>t \<in> set ts. distinct (indices t)" using m(2) by (auto simp: forest_ok_def distinct_concat_iff)
  have n: "length nodes' = 2 * ?n" "all_leaves ts = ?A"
    using ctx m(4) len by (auto simp: encoder_shape_def Q_def merge_keeps_def)
  have ht: "\<forall>t \<in> set ts. height t < 256"
    using m(4) hf(2) huffman_forest_height [of W nodes' ts] by (simp add: Q_def)
  have "\<forall>c \<in> set [0..<?n]. c < length nodes' \<and> (0 < n_weight (nodes' ! c) \<longleftrightarrow> c \<in> all_leaves ts)"
    using m(4) n by (auto simp: Q_def merge_keeps_def start_nodes_def nth_append init_node_fields leaf_forest_def)
  from numbits_loop_result [OF m(2,3) ht this] obtain nodes'' where
    nb: "numbits_loop [0..<?n] 0 nodes' = Some (fold max (map (code_length ts) [0..<?n]) 0, nodes'')" "length nodes'' = length nodes'"
      "\<forall>j < length nodes'. nodes'' ! j = (if j \<in> set [0..<?n] then (nodes' ! j)\<lparr>n_numbits := code_length ts j, n_bits := 0\<rparr> else nodes' ! j)"
    by auto
  have "build_tree td tw ctx = Some (Inr (fold max (map (code_length ts) [0..<?n]) 0, ctx\<lparr>m_huffnode := nodes''\<rparr>))"
    using nz m(1) nb(1)
    unfolding build_tree_def Let_def start_nodes_def [symmetric] leaf_forest_def [symmetric] cs_def [symmetric] by auto
  moreover have "map n_numbits (take ?n nodes'') = map (code_length ts) [0..<?n]"
    using nb(2,3) n(1) by (intro nth_equalityI) auto
  ultimately show ?thesis using that [OF spec] nb(2) n m(3,4) di by (auto simp: Q_def)
qed

lemma fold_max_le: "fold max xs m \<le> k \<longleftrightarrow> m \<le> k \<and> (\<forall>x \<in> set xs. x \<le> k)" for k :: nat
  by (induction xs arbitrary: m) auto

lemma sum_map_of:
  fixes n :: nat
  assumes "distinct (map fst L)" "set (map fst L) \<subseteq> {..<n}"
  shows "(\<Sum>c<n. case map_of L c of None \<Rightarrow> 0 | Some d \<Rightarrow> f d) = (\<Sum>(c, d)\<leftarrow>L. f d :: nat)"
  using assms
proof (induction L)
  case (Cons p L)
  obtain a b where p: "p = (a, b)" by fastforce
  let ?g = "\<lambda>c. case map_of L c of None \<Rightarrow> 0 | Some d \<Rightarrow> f d"
  have "map_of L a = None" using Cons.prems(1) p by (simp add: map_of_eq_None_iff)
  then have "(case map_of (p # L) c of None \<Rightarrow> 0 | Some d \<Rightarrow> f d) = (if c = a then f b else 0) + ?g c" for c
    using p by simp
  then have "(\<Sum>c<n. case map_of (p # L) c of None \<Rightarrow> 0 | Some d \<Rightarrow> f d) = (\<Sum>c<n. if c = a then f b else 0) + (\<Sum>c<n. ?g c)"
    by (simp only: sum.distrib)
  also have "\<dots> = f b + (\<Sum>(c, d)\<leftarrow>L. f d)"
    using Cons p sum.delta [of "{..<n}" a "\<lambda>_. f b"] by auto
  finally show ?case using p by simp
qed simp

lemma deepest_leaf: "\<exists>c. (c, d + height t) \<in> set (leaves d t)"
proof (induction t arbitrary: d)
  case (Node i l r)
  from Node [of "Suc d"] show ?case by (cases "height l \<le> height r") (auto simp: max_def)
qed simp

lemma kraft_code_length:
  assumes "length ts \<le> 1" "\<forall>t \<in> set ts. distinct (indices t)" "all_leaves ts \<subseteq> {..<n}"
    and M: "1 \<le> M" "\<forall>c < n. code_length ts c \<le> M"
    and lens: "map n_numbits nodes = map (code_length ts) [0..<n]"
  shows "kraft M nodes \<in> {0, 2 ^ (M - 1), 2 ^ M}"
proof -
  have "kraft M nodes = (\<Sum>L\<leftarrow>map (code_length ts) [0..<n]. if 0 < L then 2 ^ (M - L) else 0)"
    unfolding lens [symmetric] by (simp add: kraft_def comp_def)
  then have k: "kraft M nodes = (\<Sum>c<n. if 0 < code_length ts c then 2 ^ (M - code_length ts c) else 0)"
    by (simp add: interv_sum_list_conv_sum_set_nat comp_def lessThan_atLeast0)
  consider "ts = []" | c where "ts = [Leaf c]" | i l r where "ts = [Node i l r]"
    using assms(1) by (cases ts; cases "hd ts") auto
  then show ?thesis
  proof cases
    case 1
    then show ?thesis by (simp add: k code_length_def)
  next
    case (2 c)
    then have "(if 0 < code_length ts i then 2 ^ (M - code_length ts i) else 0) = (if i = c then 2 ^ (M - 1) else (0 :: nat))" for i
      by (simp add: code_length_def)
    moreover have "c < n" using assms(3) 2 by (auto simp: all_leaves_def)
    ultimately show ?thesis by (simp add: k)
  next
    case (3 i l r)
    define t where t: "t = Node i l r"
    with 3 have 3: "ts = [t]" by simp
    have sub: "set (map fst (leaves 0 t)) \<subseteq> {..<n}" using assms(3) 3 by (simp add: all_leaves_def)
    have dl: "distinct (map fst (leaves 0 t))" using assms(2) 3 by (simp add: distinct_leaf_codes)
    have pos: "0 < e" if "(c, e) \<in> set (leaves 0 t)" for c e
      using that leaf_depths [of c e "Suc 0" l] leaf_depths [of c e "Suc 0" r] by (auto simp: t)
    have cl: "code_length ts c = e" if "map_of (leaves 0 t) c = Some e" for c e
      using that pos [OF map_of_SomeD [OF that]] 3 by (simp add: code_length_def)
    have "(if 0 < code_length ts c then 2 ^ (M - code_length ts c) else 0) =
        (case map_of (leaves 0 t) c of None \<Rightarrow> 0 | Some d \<Rightarrow> (2 :: nat) ^ (M - d))" for c
      using pos map_of_SomeD [of "leaves 0 t" c] cl [of c] 3 by (auto simp: code_length_def split: option.splits)
    then have sum: "kraft M nodes = (\<Sum>(c, e)\<leftarrow>leaves 0 t. 2 ^ (M - e))"
      unfolding k using sum_map_of [OF dl sub, of "\<lambda>d. 2 ^ (M - d)"] by simp
    obtain c where c: "(c, height t) \<in> set (leaves 0 t)" using deepest_leaf [of 0 t] by auto
    then have "code_length ts c = height t" "c < n" using cl [of c] dl sub by force+
    then have "height t \<le> M" using M(2) by auto
    then show ?thesis using kraft_leaves [of 0 t M] sum by simp
  qed
qed

subsection \<open>Canonical codes of exact lengths\<close>

lemma code_starts_total:
  assumes "length h = 33" "l \<le> 32" "cur + (\<Sum>k = 1..l. h ! k) < 2 ^ 32"
    and "2 ^ (l - 1) dvd cur + (\<Sum>k = 1..l. h ! k * 2 ^ (l - k))"
  shows "\<exists>h'. code_starts l cur h = Some h'"
  using assms
proof (induction l arbitrary: cur h)
  case (Suc l)
  define total where "total = cur + h ! Suc l"
  let ?h = "h[Suc l := cur]"
  have "total < 2 ^ 32" using Suc.prems(3) by (simp add: total_def)
  then have w: "w32 (cur + h ! Suc l) = total" "w32 (total div 2 * 2) = total div 2 * 2"
    by (simp_all add: w32_def total_def [symmetric])
  have low: "(\<Sum>k = 1..l. h ! k * 2 ^ (Suc l - k)) = 2 * (\<Sum>k = 1..l. h ! k * 2 ^ (l - k))"
    unfolding sum_distrib_left by (rule sum.cong) (auto simp: Suc_diff_le)
  have same: "(\<Sum>k = 1..l. ?h ! k) = (\<Sum>k = 1..l. h ! k)" "(\<Sum>k = 1..l. ?h ! k * 2 ^ (l - k)) = (\<Sum>k = 1..l. h ! k * 2 ^ (l - k))"
    by (rule sum.cong; simp)+
  have dv: "2 ^ l dvd total + 2 * (\<Sum>k = 1..l. h ! k * 2 ^ (l - k))"
    using Suc.prems(4) low by (simp add: total_def add_ac)
  show ?case
  proof (cases l)
    case 0
    then show ?thesis by simp
  next
    case (Suc m)
    have "2 dvd total + 2 * (\<Sum>k = 1..l. h ! k * 2 ^ (l - k))"
      using dv Suc by (metis dvd_mult_left power_Suc)
    then have even: "total div 2 * 2 = total" by simp
    have "2 * 2 ^ (l - 1) dvd 2 * (total div 2 + (\<Sum>k = 1..l. ?h ! k * 2 ^ (l - k)))"
      using dv even Suc same(2) by (simp add: algebra_simps)
    then have "2 ^ (l - 1) dvd total div 2 + (\<Sum>k = 1..l. ?h ! k * 2 ^ (l - k))"
      by (simp only: dvd_times_left_cancel_iff [OF zero_neq_numeral [symmetric]])
    moreover have "total div 2 + (\<Sum>k = 1..l. ?h ! k) < 2 ^ 32"
      using Suc.prems(3) same(1) by (simp add: total_def)
    ultimately have "\<exists>h'. code_starts l (total div 2) ?h = Some h'"
      using Suc.prems by (intro Suc.IH) auto
    then show ?thesis using w [unfolded even] even by (simp add: Let_def)
  qed
qed simp

lemma assign_canonical_codes_total:
  assumes "m_numcodes ctx \<le> length (m_huffnode ctx)" "m_numcodes ctx < 2 ^ 32" "m_maxbits ctx \<le> 32"
    and le: "\<forall>nd \<in> set (codes ctx). n_numbits nd \<le> m_maxbits ctx" and kr: "2 ^ 31 dvd kraft 32 (codes ctx)"
  shows "\<exists>ctx'. assign_canonical_codes ctx = Inr ctx'"
proof -
  let ?z = "replicate 33 (0 :: nat)"
  obtain h where h: "count_numbits (m_maxbits ctx) (codes ctx) ?z = Some h"
    using count_numbits_total [OF le] by blast
  have cnt: "?z ! L + cnt (codes ctx) L < 2 ^ 32 \<or> 32 < L" for L
    using cnt_le_length [of "codes ctx" L] assms(1,2) by (cases "L < 33") (auto simp: codes_def)
  from count_numbits_result [OF h] cnt
  have hv: "length h = 33" "\<And>L. L \<le> 32 \<Longrightarrow> h ! L = cnt (codes ctx) L"
    by (simp_all add: nth_replicate del: replicate.simps)
  have "(\<Sum>k = 1..32. h ! k) = (\<Sum>k = 1..32. cnt (codes ctx) k)" by (rule sum.cong) (auto simp: hv)
  also have "\<dots> < 2 ^ 32" using sum_cnt_le [of "{1..32}" "codes ctx"] assms(1,2) by (simp add: codes_def)
  finally have small: "0 + (\<Sum>k = 1..32. h ! k) < 2 ^ 32" by simp
  have "kraft 32 (codes ctx) = (\<Sum>L = 1..32. cnt (codes ctx) L * 2 ^ (32 - L))"
    using le assms(3) by (intro kraft_cnt) fastforce
  also have "\<dots> = (\<Sum>L = 1..32. h ! L * 2 ^ (32 - L))" by (rule sum.cong) (auto simp: hv)
  finally have "2 ^ (32 - 1) dvd 0 + (\<Sum>L = 1..32. h ! L * 2 ^ (32 - L))" using kr by simp
  from code_starts_total [OF hv(1) order.refl small this]
  show ?thesis using h by (auto simp: assign_canonical_codes_def codes_def Let_def)
qed

subsection \<open>Equal weights\<close>

text \<open>
  With the weight scale zero every code has weight one, and the merge builds a tree of minimal
  height. The work list has, up to one exception, complete trees of two neighbouring sizes.
\<close>

definition nleaves :: "htree \<Rightarrow> nat" where
  "nleaves t = length (leaves 0 t)"

lemma nleaves_simps [simp]: "nleaves (Leaf c) = 1" "nleaves (Node i l r) = nleaves l + nleaves r"
proof -
  have "length (leaves (Suc 0) t) = length (leaves 0 t)" for t
    using arg_cong [OF leaf_codes_depth [of "Suc 0" t 0], of length] by simp
  then show "nleaves (Leaf c) = 1" "nleaves (Node i l r) = nleaves l + nleaves r"
    by (simp_all add: nleaves_def)
qed

definition full :: "nat \<Rightarrow> htree \<Rightarrow> bool" where
  "full k t \<longleftrightarrow> nleaves t = 2 ^ k \<and> height t \<le> k"

definition partly_full :: "nat \<Rightarrow> htree \<Rightarrow> bool" where
  "partly_full k t \<longleftrightarrow> 2 ^ k < nleaves t \<and> nleaves t < 2 ^ Suc k \<and> height t \<le> Suc k"

definition flat :: "nat \<Rightarrow> htree list \<Rightarrow> bool" where
  "flat k ts \<longleftrightarrow> (\<exists>as sp bs. ts = as @ sp @ bs \<and> (\<forall>t \<in> set as. full (Suc k) t) \<and> length sp \<le> 1 \<and>
     (\<forall>t \<in> set sp. partly_full k t) \<and> (\<forall>t \<in> set bs. full k t))"

primrec insert_leaves :: "htree \<Rightarrow> htree list \<Rightarrow> htree list" where
  "insert_leaves t [] = [t]"
| "insert_leaves t (u # us) = (if nleaves t > nleaves u then t # u # us else u # insert_leaves t us)"

lemma insert_leaves_at:
  "(\<And>u. u \<in> set xs \<Longrightarrow> nleaves t \<le> nleaves u) \<Longrightarrow> (\<And>u. u \<in> set ys \<Longrightarrow> nleaves u < nleaves t) \<Longrightarrow>
   insert_leaves t (xs @ ys) = xs @ t # ys"
proof (induction xs)
  case Nil
  then show ?case by (cases ys) auto
next
  case (Cons x xs)
  from Cons.prems(1) [of x] Cons show ?case by fastforce
qed

lemma flat_shift: "flat k as" if "\<forall>t \<in> set as. full k t"
  unfolding flat_def using that by (intro exI [of _ "[]"] exI [of _ as]) auto

lemma flat_pair:
  assumes "\<forall>t \<in> set as. full (Suc k) t" "length sp \<le> 1" "\<forall>t \<in> set sp. partly_full k t" "\<forall>t \<in> set (bs @ [t0, t1]). full k t"
  shows "flat k (insert_leaves (Node i t0 t1) (as @ sp @ bs))"
proof -
  have new: "full (Suc k) (Node i t0 t1)" using assms(4) by (auto simp: full_def)
  have "insert_leaves (Node i t0 t1) (as @ (sp @ bs)) = as @ Node i t0 t1 # (sp @ bs)"
    using new assms by (intro insert_leaves_at) (auto simp: full_def partly_full_def)
  then show ?thesis unfolding flat_def using assms new
    by (intro exI [of _ "as @ [Node i t0 t1]"] exI [of _ sp] exI [of _ bs]) auto
qed

lemma flat_odd:
  assumes "\<forall>t \<in> set us. full (Suc k) t" "partly_full (Suc k) t"
  shows "flat (Suc k) (insert_leaves t us)"
proof -
  have "insert_leaves t ([] @ us) = [] @ t # us"
    using assms by (intro insert_leaves_at) (auto simp: full_def partly_full_def)
  then show ?thesis unfolding flat_def using assms
    by (intro exI [of _ "[]"] exI [of _ "[t]"] exI [of _ us]) auto
qed

lemma flat_split:
  assumes "ts @ [t0, t1] = as @ sp @ bs" "length sp \<le> 1"
  obtains bs' where "bs = bs' @ [t0, t1]" | "bs = [t1]" "sp = [t0]" "ts = as" | "bs = [t1]" "sp = []" "as = ts @ [t0]"
    | "bs = []" "sp = [t1]" "as = ts @ [t0]" | "bs = []" "sp = []" "as = ts @ [t0, t1]"
proof -
  have "sp = [] \<or> (\<exists>y. sp = [y])" using assms(2) by (cases sp) auto
  moreover have "bs = [] \<or> (\<exists>x. bs = [x]) \<or> (\<exists>b y x. bs = b @ [y, x])"
    by (metis append.assoc append_Cons append_Nil rev_exhaust)
  moreover have thesis if h: "bs = b @ [y, x]" for b y x
  proof -
    have "(ts @ [t0]) @ [t1] = ((as @ sp @ b) @ [y]) @ [x]" using assms(1) h by simp
    then have "x = t1" "ts @ [t0] = (as @ sp @ b) @ [y]" by (simp_all only: append1_eq_conv)
    with \<open>\<And>bs'. bs = bs' @ [t0, t1] \<Longrightarrow> thesis\<close> [of b] h show thesis by simp
  qed
  ultimately show thesis
  proof (elim disjE exE)
    fix y x assume h: "sp = [y]" "bs = [x]"
    with assms(1) have "(ts @ [t0]) @ [t1] = (as @ [y]) @ [x]" by simp
    with that(2) h show thesis by (simp only: append1_eq_conv)
  next
    fix x assume h: "sp = []" "bs = [x]"
    with assms(1) have "(ts @ [t0]) @ [t1] = as @ [x]" by simp
    with that(3) h show thesis by (simp only: append1_eq_conv)
  next
    fix y assume h: "sp = [y]" "bs = []"
    with assms(1) have "(ts @ [t0]) @ [t1] = as @ [y]" by simp
    with that(4) h show thesis by (simp only: append1_eq_conv)
  qed (use assms(1) that(5) in simp_all)
qed

lemma flat_step:
  assumes "flat k (ts @ [t0, t1])"
  shows "\<exists>k'. flat k' (insert_leaves (Node i t0 t1) ts)"
proof -
  obtain as sp bs where s: "ts @ [t0, t1] = as @ sp @ bs" "\<forall>t \<in> set as. full (Suc k) t" "length sp \<le> 1"
      "\<forall>t \<in> set sp. partly_full k t" "\<forall>t \<in> set bs. full k t"
    using assms unfolding flat_def by blast
  have odd: "\<exists>k'. flat k' (insert_leaves (Node i t0 t1) ts)"
    if "\<forall>t \<in> set ts. full (Suc k) t" "partly_full (Suc k) (Node i t0 t1)"
    using flat_odd [OF that] by blast
  show ?thesis
  proof (rule flat_split [OF s(1,3)])
    fix bs' assume b: "bs = bs' @ [t0, t1]"
    then have "ts = as @ sp @ bs'" using s(1) by simp
    with flat_pair [of as k sp bs' t0 t1 i] s(2-5) b show ?thesis by metis
  next
    assume "bs = [t1]" "sp = [t0]" "ts = as"
    with s(2-5) show ?thesis by (intro odd) (auto simp: full_def partly_full_def)
  next
    assume "bs = [t1]" "sp = []" "as = ts @ [t0]"
    with s(2-5) show ?thesis by (intro odd) (auto simp: full_def partly_full_def)
  next
    assume "bs = []" "sp = [t1]" "as = ts @ [t0]"
    with s(2-5) show ?thesis by (intro odd) (auto simp: full_def partly_full_def)
  next
    assume "bs = []" "sp = []" "as = ts @ [t0, t1]"
    with flat_pair [of "[]" "Suc k" "[]" ts t0 t1 i] s(2) show ?thesis by (metis append_Nil bot_nat_0.extremum empty_iff list.set(1) list.size(3))
  qed
qed

lemma flat_height:
  assumes "flat k [t]" "nleaves t \<le> 2 ^ M"
  shows "height t \<le> M"
proof -
  have "full (Suc k) t \<or> partly_full k t \<or> full k t"
    using assms(1) by (auto simp: flat_def Cons_eq_append_conv)
  moreover have "full j t \<Longrightarrow> j \<le> M" for j
    using assms(2) power_increasing_iff [of "2 :: nat" j M] by (auto simp: full_def)
  moreover have "partly_full k t \<Longrightarrow> k < M"
  proof -
    assume "partly_full k t"
    then have "(2 :: nat) ^ k < 2 ^ M" using assms(2) unfolding partly_full_def by linarith
    then show "k < M" by (rule power_less_imp_less_exp [rotated]) simp
  qed
  ultimately show ?thesis by (fastforce simp: full_def partly_full_def)
qed


lemma insert_tree_leaves:
  assumes "\<forall>u \<in> set (t # ts). n_weight (nodes ! root_of u) = nleaves u"
  shows "insert_tree nodes t ts = insert_leaves t ts"
  using assms by (induction ts) auto

definition flat_forest :: "nat \<Rightarrow> node_t list \<Rightarrow> htree list \<Rightarrow> bool" where
  "flat_forest N nodes ts \<longleftrightarrow> (\<forall>t \<in> set ts. n_weight (nodes ! root_of t) = nleaves t) \<and> (\<Sum>t\<leftarrow>ts. nleaves t) = N \<and> (\<exists>k. flat k ts)"

lemma flat_forest_step:
  assumes "flat_forest N nodes (ts @ [t0, t1])" "forest_ok nodes na (ts @ [t0, t1])" "na < length nodes" "N < 2 ^ 32"
  shows "flat_forest N (merge_two (root_of t0) (root_of t1) na nodes)
    (insert_tree (merge_two (root_of t0) (root_of t1) na nodes) (Node na t0 t1) ts)"
proof -
  let ?nodes = "merge_two (root_of t0) (root_of t1) na nodes" and ?t = "Node na t0 t1"
  note lt = forest_root_less [OF assms(2)]
  have sum: "(\<Sum>t\<leftarrow>ts. nleaves t) + (nleaves t0 + nleaves t1) = N" using assms(1) by (simp add: flat_forest_def)
  have "n_weight (?nodes ! na) = w32 (nleaves t0 + nleaves t1)"
    using lt [of t0] lt [of t1] assms(1,3) n_weight_merged [of "root_of t0" na "root_of t1" nodes] by (simp add: flat_forest_def)
  also have "\<dots> = nleaves ?t" using sum assms(4) by (simp add: w32_small)
  finally have new: "n_weight (?nodes ! root_of ?t) = nleaves ?t" by simp
  have "n_weight (?nodes ! root_of t) = nleaves t" if "t \<in> set ts" for t
    using that lt [of t] assms(1,3) n_weight_merge_two [of "root_of t" nodes na] by (simp add: flat_forest_def)
  with new have w: "\<forall>u \<in> set (?t # ts). n_weight (?nodes ! root_of u) = nleaves u" by simp
  have ms: "mset (map nleaves (insert_tree ?nodes ?t ts)) = mset (map nleaves (?t # ts))"
    by (simp add: mset_insert_tree)
  have "(\<Sum>t\<leftarrow>insert_tree ?nodes ?t ts. nleaves t) = N"
    using sum by (metis (no_types, lifting) ms sum_mset_sum_list list.simps(9) sum_list.Cons nleaves_simps(2) add.commute)
  moreover obtain k where "flat k (ts @ [t0, t1])" using assms(1) by (auto simp: flat_forest_def)
  ultimately show ?thesis
    using w flat_step [of k ts t0 t1 na] insert_tree_leaves [OF w] set_insert_tree [of ?nodes ?t ts] by (simp add: flat_forest_def)
qed

text \<open>
  What every \<open>build_tree\<close> of an encoder establishes: the search needs the maximum to be a function
  of the histogram, the canonical codes need the lengths to be exact.
\<close>

definition spec_maxbits :: "nat \<Rightarrow> nat \<Rightarrow> huffman_context \<Rightarrow> nat" where
  "spec_maxbits td tw ctx = fold max (map (code_length (tree_spec td tw ctx)) [0..<m_numcodes ctx]) 0"

definition built :: "huffman_context \<Rightarrow> nat \<Rightarrow> huffman_context \<Rightarrow> bool" where
  "built ctx mb ctx' \<longleftrightarrow>
     (\<exists>nodes. ctx' = ctx\<lparr>m_huffnode := nodes\<rparr> \<and> length nodes = 2 * m_numcodes ctx) \<and>
     (\<forall>c < m_numcodes ctx. n_numbits (m_huffnode ctx' ! c) \<le> mb \<and> (0 < n_numbits (m_huffnode ctx' ! c) \<longleftrightarrow> m_datahisto ctx ! c \<noteq> 0)) \<and>
     (\<forall>M \<ge> 1. mb \<le> M \<longrightarrow> kraft M (codes ctx') \<in> {0, 2 ^ (M - 1), 2 ^ M})"

lemma build_tree_built:
  assumes "encoder_shape ctx" "td = sum_list (m_datahisto ctx)" "tw \<le> td"
  shows "\<exists>ctx'. build_tree td tw ctx = Some (Inr (spec_maxbits td tw ctx, ctx')) \<and> built ctx (spec_maxbits td tw ctx) ctx'"
proof -
  obtain ts nodes1 nodes2 where b: "ts = tree_spec td tw ctx"
    "build_tree td tw ctx = Some (Inr (fold max (map (code_length ts) [0..<m_numcodes ctx]) 0, ctx\<lparr>m_huffnode := nodes2\<rparr>))"
    "map n_numbits (take (m_numcodes ctx) nodes2) = map (code_length ts) [0..<m_numcodes ctx]"
    "length nodes2 = 2 * m_numcodes ctx" "length ts \<le> 1" "all_leaves ts = set (leaf_forest ctx)"
    "\<forall>t \<in> set ts. distinct (indices t)"
    by (rule build_tree_rule [OF assms, of "\<lambda>_ _. True"]) auto
  let ?n = "m_numcodes ctx" and ?ctx = "ctx\<lparr>m_huffnode := nodes2\<rparr>" and ?mb = "spec_maxbits td tw ctx"
  have len: "n_numbits (nodes2 ! c) = code_length ts c" if "c < ?n" for c
    using arg_cong [OF b(3), of "\<lambda>xs. xs ! c"] that b(4) by simp
  have mb: "code_length ts c \<le> ?mb" if "c < ?n" for c
    using that fold_max_le [of "map (code_length ts) [0..<?n]" 0 ?mb] by (simp add: spec_maxbits_def b(1))
  have pos: "0 < code_length ts c \<longleftrightarrow> m_datahisto ctx ! c \<noteq> 0" if "c < ?n" for c
    using that b(5,6) code_length_pos [of ts c] by (simp add: leaf_forest_def)
  have "kraft M (codes ?ctx) \<in> {0, 2 ^ (M - 1), 2 ^ M}" if "1 \<le> M" "?mb \<le> M" for M
    using b(3,6) mb that by (intro kraft_code_length [OF b(5,7)]) (auto simp: codes_def leaf_forest_def intro: order.trans)
  with b(4) len mb pos have "built ctx ?mb ?ctx" by (auto simp: built_def)
  with b(2) show ?thesis by (auto simp: spec_maxbits_def b(1))
qed

lemma flat_spec_maxbits:
  assumes ctx: "encoder_shape ctx" and td: "td = sum_list (m_datahisto ctx)" and M: "m_numcodes ctx \<le> 2 ^ M" "1 \<le> M"
  shows "spec_maxbits td 0 ctx \<le> M"
proof -
  define N where "N = length (leaf_forest ctx)"
  have N: "N \<le> m_numcodes ctx" using length_filter_le [of _ "[0..<m_numcodes ctx]"] by (simp add: N_def leaf_forest_def)
  have init: "flat_forest N (start_nodes td 0 ctx) (map Leaf cs)" if cs: "mset cs = mset (leaf_forest ctx)" for cs
  proof -
    have "n_weight (start_nodes td 0 ctx ! c) = 1" if "c \<in> set cs" for c
      using that mset_eq_setD [OF cs]
      by (simp add: start_nodes_def leaf_forest_def nth_append init_node_def Let_def w64_def w32_def)
    moreover have "(\<Sum>t\<leftarrow>map Leaf cs. nleaves t) = N"
      using mset_eq_length [OF cs] by (simp add: comp_def N_def sum_list_triv)
    moreover have "flat 0 (map Leaf cs)" by (rule flat_shift) (auto simp: full_def)
    ultimately show ?thesis by (auto simp: flat_forest_def)
  qed
  obtain ts nodes1 nodes2 where b: "ts = tree_spec td 0 ctx" "length ts \<le> 1" "flat_forest N nodes1 ts"
  proof (rule build_tree_rule [OF ctx td, of 0 "flat_forest N"])
    show "flat_forest N (merge_two (root_of t0) (root_of t1) na nodes)
       (insert_tree (merge_two (root_of t0) (root_of t1) na nodes) (Node na t0 t1) ts)"
      if "flat_forest N nodes (ts @ [t0, t1])" "forest_ok nodes na (ts @ [t0, t1])" "na < length nodes" for nodes na ts t0 t1
      using that N ctx by (intro flat_forest_step) (auto simp: encoder_shape_def)
  qed (use init in auto)
  have "code_length ts c \<le> M" for c
  proof (cases ts)
    case (Cons t us)
    then have t: "ts = [t]" using b(2) by simp
    with b(3) obtain k where "flat k [t]" "nleaves t = N" by (auto simp: flat_forest_def)
    then have "height t \<le> M" using flat_height N M by fastforce
    then show ?thesis using leaf_depths [of c _ 0 t] M(2) t
      by (fastforce simp: code_length_def split: option.splits dest: map_of_SomeD)
  qed (simp add: code_length_def)
  then show ?thesis by (simp add: spec_maxbits_def fold_max_le b(1) [symmetric])
qed

subsection \<open>The search\<close>

text \<open>
  The search keeps \<open>lower\<close> at a scale that fits, or at zero, which always does; every round but
  the last halves the interval.
\<close>

lemma builtD:
  assumes "built ctx mb ctx'"
  shows "m_maxbits ctx' = m_maxbits ctx" "m_numcodes ctx' = m_numcodes ctx" "m_datahisto ctx' = m_datahisto ctx"
    "length (m_huffnode ctx') = 2 * m_numcodes ctx" "\<exists>nodes. ctx' = ctx\<lparr>m_huffnode := nodes\<rparr>"
    and "c < m_numcodes ctx \<Longrightarrow> n_numbits (m_huffnode ctx' ! c) \<le> mb \<and> (0 < n_numbits (m_huffnode ctx' ! c) \<longleftrightarrow> m_datahisto ctx ! c \<noteq> 0)"
    and "1 \<le> M \<Longrightarrow> mb \<le> M \<Longrightarrow> kraft M (codes ctx') \<in> {0, 2 ^ (M - 1), 2 ^ M}"
proof -
  obtain nodes where n: "ctx' = ctx\<lparr>m_huffnode := nodes\<rparr>" "length nodes = 2 * m_numcodes ctx"
    using assms unfolding built_def by blast
  then show "m_maxbits ctx' = m_maxbits ctx" "m_numcodes ctx' = m_numcodes ctx" "m_datahisto ctx' = m_datahisto ctx"
    "length (m_huffnode ctx') = 2 * m_numcodes ctx" "\<exists>nodes. ctx' = ctx\<lparr>m_huffnode := nodes\<rparr>" by auto
  show "n_numbits (m_huffnode ctx' ! c) \<le> mb \<and> (0 < n_numbits (m_huffnode ctx' ! c) \<longleftrightarrow> m_datahisto ctx ! c \<noteq> 0)" if "c < m_numcodes ctx"
    using assms [unfolded built_def, THEN conjunct2, THEN conjunct1] that by blast
  show "kraft M (codes ctx') \<in> {0, 2 ^ (M - 1), 2 ^ M}" if "1 \<le> M" "mb \<le> M"
    using assms [unfolded built_def, THEN conjunct2, THEN conjunct2] that by blast
qed

lemma built_shape: "built ctx mb ctx' \<Longrightarrow> encoder_shape ctx \<Longrightarrow> encoder_shape ctx'"
  by (simp add: encoder_shape_def builtD)

lemma built_same:
  assumes "built ctx mb ctx'"
  shows "spec_maxbits td tw ctx' = spec_maxbits td tw ctx" "leaf_forest ctx' = leaf_forest ctx" "m_maxbits ctx' = m_maxbits ctx"
    "m_numcodes ctx' = m_numcodes ctx" "built ctx' mb2 ctx2 \<Longrightarrow> built ctx mb2 ctx2"
proof -
  obtain nodes where n: "ctx' = ctx\<lparr>m_huffnode := nodes\<rparr>" using builtD(5) [OF assms] by blast
  show "spec_maxbits td tw ctx' = spec_maxbits td tw ctx" "leaf_forest ctx' = leaf_forest ctx" "m_maxbits ctx' = m_maxbits ctx"
    "m_numcodes ctx' = m_numcodes ctx"
    by (simp_all add: n spec_maxbits_def leaf_forest_def)
  show "built ctx' mb2 ctx2 \<Longrightarrow> built ctx mb2 ctx2" by (simp add: built_def n)
qed

lemma weight_search_ends:
  assumes "encoder_shape ctx" "sd = sum_list (m_datahisto ctx)" "lower \<le> upper"
      "upper \<le> sd \<or> lower = 0 \<and> upper = 2 * sd"
    and "spec_maxbits sd lower ctx \<le> m_maxbits ctx" "lower = upper \<longrightarrow> lower = sd"
  shows "\<exists>ctx' mb. weight_search sd lower upper ctx = Some (Inr ctx') \<and> mb \<le> m_maxbits ctx \<and> built ctx mb ctx'"
  using assms
proof (induction "upper - lower" arbitrary: lower upper ctx rule: less_induct)
  case less
  define cur where "cur = w32 (upper + lower) div 2"
  have sd: "sd < 2 ^ 31" using less.prems(1,2) by (simp add: encoder_shape_def)
  then have sum: "upper + lower < 2 ^ 32" using less.prems(3,4) by auto
  then have cur: "cur = (upper + lower) div 2" by (simp add: cur_def w32_small)
  then have between: "lower \<le> cur" "cur \<le> upper" "lower < upper \<Longrightarrow> cur < upper" using less.prems(3) by auto
  have fits: "cur \<le> sd" using cur less.prems(3,4) by auto
  have diff: "w32 (upper + (2 ^ 32 - cur)) = upper - cur"
    using sum between by (simp add: w32_def mod_if)
  obtain ctx' where b: "build_tree sd cur ctx = Some (Inr (spec_maxbits sd cur ctx, ctx'))" "built ctx (spec_maxbits sd cur ctx) ctx'"
    using build_tree_built [OF less.prems(1,2) fits] by blast
  note ctx' = built_shape [OF b(2) less.prems(1)] built_same [OF b(2)] builtD(3) [OF b(2)]
  have unfold: "weight_search sd lower upper ctx =
      (if spec_maxbits sd cur ctx \<le> m_maxbits ctx then
         if cur = sd \<or> upper - cur \<le> 1 then Some (Inr ctx') else weight_search sd cur upper ctx'
       else weight_search sd lower cur ctx')"
    by (subst weight_search.simps) (simp add: b(1) diff [simplified] cur_def [symmetric])
  consider "spec_maxbits sd cur ctx \<le> m_maxbits ctx" "cur = sd \<or> upper - cur \<le> 1"
    | "spec_maxbits sd cur ctx \<le> m_maxbits ctx" "cur \<noteq> sd" "upper - cur > 1"
    | "spec_maxbits sd cur ctx > m_maxbits ctx" by linarith
  then show ?case
  proof cases
    case 1
    then show ?thesis using unfold b(2) by auto
  next
    case 2
    then have "upper - cur < upper - lower" "upper \<le> sd" using cur less.prems(3,4) by auto
    then have "\<exists>ctx2 mb. weight_search sd cur upper ctx' = Some (Inr ctx2) \<and> mb \<le> m_maxbits ctx' \<and> built ctx' mb ctx2"
      using 2 less.prems ctx' between by (intro less.hyps) auto
    then show ?thesis using unfold 2 ctx'(4,6) by simp blast
  next
    case 3
    then have "lower < cur" using less.prems(5) between by (metis leD nat_less_le)
    moreover have "cur \<le> sd" by (rule fits)
    ultimately have "\<exists>ctx2 mb. weight_search sd lower cur ctx' = Some (Inr ctx2) \<and> mb \<le> m_maxbits ctx' \<and> built ctx' mb ctx2"
      using 3 less.prems ctx' between by (intro less.hyps) auto
    then show ?thesis using unfold 3 ctx'(4,6) by simp blast
  qed
qed

lemma sum_list_foldl: "acc + sum_list xs < 2 ^ 32 \<Longrightarrow> foldl (\<lambda>acc h. w32 (acc + h)) acc xs = acc + sum_list xs"
  by (induction xs arbitrary: acc) (auto simp: w32_small add.assoc)

lemma compute_tree_built:
  assumes ctx: "encoder_shape ctx" and M: "m_numcodes ctx \<le> 2 ^ m_maxbits ctx" "1 \<le> m_maxbits ctx" "m_maxbits ctx \<le> 24"
  obtains ctx1 ctx' mb where "search_tree ctx = Some (Inr ctx1)" "compute_tree_from_histo ctx = Some (Inr ctx')" "mb \<le> m_maxbits ctx" "built ctx mb ctx1"
    "assign_canonical_codes ctx1 = Inr ctx'"
proof -
  define sd where "sd = sum_list (m_datahisto ctx)"
  have sd: "foldl (\<lambda>acc h. w32 (acc + h)) 0 (take (m_numcodes ctx) (m_datahisto ctx)) = sd" "sd < 2 ^ 31"
    using ctx sum_list_foldl [of 0 "m_datahisto ctx"] by (simp_all add: encoder_shape_def sd_def)
  have "\<exists>ctx1 mb. weight_search sd 0 (2 * sd) ctx = Some (Inr ctx1) \<and> mb \<le> m_maxbits ctx \<and> built ctx mb ctx1"
    by (rule weight_search_ends [OF ctx sd_def]) (use flat_spec_maxbits [OF ctx sd_def M(1,2)] in auto)
  then obtain ctx1 mb where s: "weight_search sd 0 (2 * sd) ctx = Some (Inr ctx1)" "mb \<le> m_maxbits ctx" "built ctx mb ctx1"
    by blast
  note same = builtD [OF s(3)]
  have nb: "n_numbits (m_huffnode ctx1 ! c) \<le> m_maxbits ctx" if "c < m_numcodes ctx" for c using same(6) [OF that] s(2) by linarith
  then have le: "\<forall>nd \<in> set (codes ctx1). n_numbits nd \<le> m_maxbits ctx1"
    unfolding codes_def same(1,2) by (auto simp: in_set_conv_nth)
  have "kraft 32 (codes ctx1) \<in> {0, 2 ^ (32 - 1), 2 ^ 32}" using s(2) M(3) by (intro same(7)) auto
  then have "2 ^ 31 dvd kraft 32 (codes ctx1)" by auto
  moreover have "m_numcodes ctx1 \<le> length (m_huffnode ctx1)" "m_numcodes ctx1 < 2 ^ 32" "m_maxbits ctx1 \<le> 32"
    using same(1,2,4) ctx M(3) by (simp_all add: encoder_shape_def)
  ultimately obtain ctx' where "assign_canonical_codes ctx1 = Inr ctx'"
    using assign_canonical_codes_total le by blast
  moreover have "w32 (sd * 2) = 2 * sd" using sd(2) by (simp add: w32_small)
  ultimately show ?thesis
    using that s by (simp add: compute_tree_from_histo_def search_tree_def Let_def sd(1))
qed

lemma assign_canonical_codes_fields:
  assumes "assign_canonical_codes ctx = Inr ctx'" "m_numcodes ctx \<le> length (m_huffnode ctx)" "m_numcodes ctx < 2 ^ 32" "m_maxbits ctx \<le> 32"
  shows "map n_numbits (codes ctx') = map n_numbits (codes ctx)"
    and "m_maxbits ctx' = m_maxbits ctx \<and> m_numcodes ctx' = m_numcodes ctx \<and> length (m_huffnode ctx') = length (m_huffnode ctx)"
    and "i < m_numcodes ctx \<Longrightarrow> n_numbits (m_huffnode ctx' ! i) = n_numbits (m_huffnode ctx ! i)"
    and "\<forall>nd \<in> set (codes ctx'). n_numbits nd \<le> m_maxbits ctx"
proof -
  have "map n_numbits (codes ctx') = map n_numbits (codes ctx) \<and>
     (m_maxbits ctx' = m_maxbits ctx \<and> m_numcodes ctx' = m_numcodes ctx \<and> length (m_huffnode ctx') = length (m_huffnode ctx)) \<and>
     (i < m_numcodes ctx \<longrightarrow> n_numbits (m_huffnode ctx' ! i) = n_numbits (m_huffnode ctx ! i)) \<and>
     (\<forall>nd \<in> set (codes ctx'). n_numbits nd \<le> m_maxbits ctx)"
proof (rule assign_canonical_codes_canonical [OF assms])
  fix S assume S: "map n_numbits (codes ctx') = map n_numbits (codes ctx)"
      "\<forall>nd \<in> set (codes ctx'). n_numbits nd \<le> m_maxbits ctx"
      "ctx' = ctx\<lparr>m_huffnode := codes ctx' @ drop (m_numcodes ctx) (m_huffnode ctx)\<rparr>"
  have len: "length (codes ctx') = m_numcodes ctx" using map_eq_imp_length_eq [OF S(1)] assms(2) by (simp add: codes_def)
  have mb: "m_maxbits ctx' = m_maxbits ctx" "m_numcodes ctx' = m_numcodes ctx"
    using arg_cong [OF S(3), of m_maxbits] arg_cong [OF S(3), of m_numcodes] by simp_all
  have hn: "m_huffnode ctx' = codes ctx' @ drop (m_numcodes ctx) (m_huffnode ctx)"
    using arg_cong [OF S(3), of m_huffnode] by simp
  then have hl: "length (m_huffnode ctx') = length (m_huffnode ctx)" using len assms(2) by (metis add_diff_inverse_nat leD length_append length_drop)
  have "i < m_numcodes ctx \<longrightarrow> n_numbits (m_huffnode ctx' ! i) = n_numbits (m_huffnode ctx ! i)"
    using arg_cong [OF S(1), of "\<lambda>xs. xs ! i"] mb(2) hl assms(2)
    by (cases "i < m_numcodes ctx") (simp_all add: codes_def)
  with S(1,2) mb hl show ?thesis by blast
qed
  then show "map n_numbits (codes ctx') = map n_numbits (codes ctx)"
    and "m_maxbits ctx' = m_maxbits ctx \<and> m_numcodes ctx' = m_numcodes ctx \<and> length (m_huffnode ctx') = length (m_huffnode ctx)"
    and "i < m_numcodes ctx \<Longrightarrow> n_numbits (m_huffnode ctx' ! i) = n_numbits (m_huffnode ctx ! i)"
    and "\<forall>nd \<in> set (codes ctx'). n_numbits nd \<le> m_maxbits ctx" by blast+
qed

lemma compute_tree_lengths:
  assumes ctx: "encoder_shape ctx" and M: "m_numcodes ctx \<le> 2 ^ m_maxbits ctx" "1 \<le> m_maxbits ctx" "m_maxbits ctx \<le> 24"
    and c: "compute_tree_from_histo ctx = Some (Inr ctx')" "mb \<le> m_maxbits ctx" "built ctx mb ctx1"
      "assign_canonical_codes ctx1 = Inr ctx'"
  shows "(\<forall>c < m_numcodes ctx. n_numbits (m_huffnode ctx' ! c) \<le> m_maxbits ctx \<and>
       (0 < n_numbits (m_huffnode ctx' ! c) \<longleftrightarrow> 0 < m_datahisto ctx ! c)) \<and>
    kraft (m_maxbits ctx) (codes ctx') \<le> 2 ^ m_maxbits ctx"
proof -
  note same = builtD [OF c(3)]
  have n: "m_numcodes ctx1 \<le> length (m_huffnode ctx1)" "m_numcodes ctx1 < 2 ^ 32" "m_maxbits ctx1 \<le> 32"
    using same(1,2,4) ctx M(3) by (simp_all add: encoder_shape_def)
  note S = assign_canonical_codes_fields [OF c(4) n]
  from same(7) [OF M(2) c(2)] have "kraft (m_maxbits ctx) (codes ctx1) \<le> 2 ^ m_maxbits ctx" by auto
  moreover have "n_numbits (m_huffnode ctx' ! i) \<le> m_maxbits ctx \<and>
       (0 < n_numbits (m_huffnode ctx' ! i) \<longleftrightarrow> 0 < m_datahisto ctx ! i)" if "i < m_numcodes ctx" for i
  proof -
    show ?thesis using S(3) [of i] that c(2) same(2) same(6) [OF that] by simp
  qed
  ultimately show ?thesis using kraft_map [OF S(1)] by simp
qed

subsection \<open>Properties\<close>

text \<open>
  C12: Tree construction ends and succeeds. For the shapes the encoder templates give, every
  histogram of fewer than \<open>2 ^ 31\<close> items has a tree within \<open>m_maxbits\<close>: the search stops, canonical
  codes exist, exactly the symbols that occur get a code, no code is too long, and the lengths
  satisfy the Kraft inequality, so the decoder's table holds them.
\<close>

theorem compute_tree_total:
  assumes "length (m_huffnode ctx) = 2 * m_numcodes ctx" "length (m_datahisto ctx) = m_numcodes ctx"
    "m_numcodes ctx \<le> 2 ^ m_maxbits ctx" "1 \<le> m_maxbits ctx" "m_maxbits ctx \<le> 24"
    "sum_list (m_datahisto ctx) < 2 ^ 31"
  shows "\<exists>ctx'. compute_tree_from_histo ctx = Some (Inr ctx') \<and>
    (\<forall>c < m_numcodes ctx. n_numbits (m_huffnode ctx' ! c) \<le> m_maxbits ctx \<and>
       (0 < n_numbits (m_huffnode ctx' ! c) \<longleftrightarrow> 0 < m_datahisto ctx ! c)) \<and>
    kraft (m_maxbits ctx) (codes ctx') \<le> 2 ^ m_maxbits ctx"
proof -
  have "(2 :: nat) ^ m_maxbits ctx \<le> 2 ^ 24" using assms(5) by (intro power_increasing) auto
  then have shape: "encoder_shape ctx" using assms by (simp add: encoder_shape_def)
  then obtain ctx1 ctx' mb where c: "compute_tree_from_histo ctx = Some (Inr ctx')" "mb \<le> m_maxbits ctx" "built ctx mb ctx1"
      "assign_canonical_codes ctx1 = Inr ctx'"
    using compute_tree_built assms(3-5) by blast
  from compute_tree_lengths [OF shape assms(3-5) this] c(1) show ?thesis by blast
qed

definition sample_histo :: huffman_context where
  "sample_histo = fold histo_one [0, 1, 1, 2, 2, 2, 2, 3, 5, 2, 2, 2, 2, 3] (projr (huffman_encoder 6 3))"

theorem compute_tree_total_witness:
  "sum_list (m_datahisto sample_histo) = 14 \<and>
   (\<exists>ctx'. compute_tree_from_histo sample_histo = Some (Inr ctx') \<and> kraft 3 (codes ctx') \<le> 8 \<and>
     0 < n_numbits (m_huffnode ctx' ! 5) \<and> n_numbits (m_huffnode ctx' ! 4) = 0)"
proof -
  have s: "m_numcodes sample_histo = 6" "m_maxbits sample_histo = 3" "m_datahisto sample_histo = [1, 2, 8, 2, 0, 1]"
      "length (m_huffnode sample_histo) = 12"
    by code_simp+
  from compute_tree_total [of sample_histo, unfolded s]
  obtain ctx' where c: "compute_tree_from_histo sample_histo = Some (Inr ctx')" "kraft 3 (codes ctx') \<le> 2 ^ 3"
      "\<forall>c < 6. n_numbits (m_huffnode ctx' ! c) \<le> 3 \<and> (0 < n_numbits (m_huffnode ctx' ! c) \<longleftrightarrow> 0 < [1, 2, 8, 2, 0, 1 :: nat] ! c)"
    by auto
  from c(3) [rule_format, of 4] c(3) [rule_format, of 5] c(1,2) show ?thesis by (auto simp: s)
qed

end
