(* ===== verification/Huffman_8bit.thy ===== *)
theory Huffman_8bit
  imports Huffman_Build
begin

text \<open>
  The Huffman coded export and import of a tree, \<^verbatim>\<open>export_tree_huffman\<close> and
  \<^verbatim>\<open>import_tree_huffman\<close> of \<^verbatim>\<open>lib/util/huffman.cpp\<close>, and the 8-bit encoder and decoder that
  use them. The code lengths are run-length coded, the result is coded with a small tree of 24
  codes, whose lengths are written in 3 bits each.
\<close>

subsection \<open>Run-length coding of the lengths\<close>

text \<open>
  The data bytes and the run lengths the export loop stores, from the previous length \<open>last\<close>
  and its pending repeats.
\<close>

definition flush_repeats :: "int \<Rightarrow> nat \<Rightarrow> (nat \<times> nat option) list" where
  "flush_repeats lastval repcount =
     (if repcount > 0 then
        if repcount = 1 then [(nat (lastval + 1), None)] else [(0, Some (repcount - 2))]
      else [])"

primrec rle_lengths_loop :: "int \<Rightarrow> nat \<Rightarrow> nat list \<Rightarrow> (nat \<times> nat option) list" where
  "rle_lengths_loop lastval repcount [] = flush_repeats lastval repcount"
| "rle_lengths_loop lastval repcount (newval # lens) =
     (if int newval = lastval then rle_lengths_loop lastval (Suc repcount) lens
      else flush_repeats lastval repcount @ (newval + 1, None) # rle_lengths_loop (int newval) 0 lens)"

text \<open>The width of a long run length: the bits of \<open>m_numcodes - 9\<close>.\<close>

fun bit_length :: "nat \<Rightarrow> nat" where
  "bit_length n = (if n = 0 then 0 else Suc (bit_length (n div 2)))"

declare bit_length.simps [simp del]

definition rlefullbits :: "huffman_context \<Rightarrow> nat" where
  "rlefullbits ctx = bit_length (w32 (m_numcodes ctx + (2 ^ 32 - 9)))"

subsection \<open>Export\<close>

definition first_non_zero :: "nat list \<Rightarrow> nat" where
  "first_non_zero lens =
     (case filter (\<lambda>i. lens ! i \<noteq> 0) [1..<length lens] of [] \<Rightarrow> 31 | i # _ \<Rightarrow> i)"

definition last_non_zero :: "nat list \<Rightarrow> nat" where
  "last_non_zero lens =
     (case rev (filter (\<lambda>i. lens ! i \<noteq> 0) [1..<length lens]) of [] \<Rightarrow> 0 | i # _ \<Rightarrow> i)"

definition write_small_tree :: "nat list \<Rightarrow> bitstream_out \<Rightarrow> bitstream_out" where
  "write_small_tree lens bitbuf =
     (let first = min (first_non_zero lens) 8 in
      fold (\<lambda>v. bs_write (of_nat v) 3)
        (lens ! 0 # (first - 1) # map (\<lambda>i. lens ! i) [first..<Suc (last_non_zero lens)] @ [7]) bitbuf)"

primrec write_rle_data :: "huffman_context \<Rightarrow> nat \<Rightarrow> (nat \<times> nat option) list \<Rightarrow> bitstream_out \<Rightarrow> bitstream_out" where
  "write_rle_data small fullbits [] bitbuf = bitbuf"
| "write_rle_data small fullbits (item # items) bitbuf =
     (let bitbuf1 = encode_one small (fst item) bitbuf in
      write_rle_data small fullbits items
        (case snd item of
           None \<Rightarrow> bitbuf1
         | Some k \<Rightarrow>
             if k < 7 then bs_write (of_nat k) 3 bitbuf1
             else bs_write (of_nat (k - 7)) (int fullbits) (bs_write 7 3 bitbuf1)))"

text \<open>
  The error of \<open>compute_tree_from_histo\<close> is not looked at: lengths without canonical codes would
  be used as they are. \<open>None\<close> is a search that does not end; a data byte past the small histogram
  is a store outside of it.
\<close>

definition small_tree :: "(nat \<times> nat option) list \<Rightarrow> (huff_fault + huffman_context) option" where
  "small_tree items =
     (case search_tree (fold (\<lambda>item. histo_one (fst item)) items (projr (huffman_encoder 24 6))) of
        None \<Rightarrow> None
      | Some (Inl e) \<Rightarrow> Some (Inl e)
      | Some (Inr small) \<Rightarrow>
          (case assign_canonical_codes small of Inl _ \<Rightarrow> Some (Inr small) | Inr small' \<Rightarrow> Some (Inr small')))"

definition export_tree_huffman ::
    "huffman_context \<Rightarrow> bitstream_out \<Rightarrow> (huff_fault + unit) option \<times> bitstream_out" where
  "export_tree_huffman ctx bitbuf =
     (let items = rle_lengths_loop (- 1) 0 (map n_numbits (codes ctx)) in
      if \<exists>item \<in> set items. 24 \<le> fst item then (Some (Inl Out_Of_Bounds), bitbuf)
      else
        case small_tree items of
          None \<Rightarrow> (None, bitbuf)
        | Some (Inl e) \<Rightarrow> (Some (Inl e), bitbuf)
        | Some (Inr small) \<Rightarrow>
            let bitbuf' = write_rle_data small (rlefullbits ctx) items
                            (write_small_tree (map n_numbits (codes small)) bitbuf)
            in (Some (if out_overflow bitbuf' then Inl (Huff_Error HUFFERR_OUTPUT_BUFFER_TOO_SMALL) else Inr ()), bitbuf'))"

subsection \<open>Import\<close>

text \<open>
  The lengths of the small tree from index 1 on. \<open>count\<close> remembers that the terminator 7 was read.
\<close>

primrec small_lens_loop :: "nat list \<Rightarrow> nat \<Rightarrow> nat \<Rightarrow> bitstream_in \<Rightarrow> nat list \<times> bitstream_in" where
  "small_lens_loop [] start k bitbuf = ([], bitbuf)"
| "small_lens_loop (i # is) start k bitbuf =
     (if i < start \<or> k = 7 then
        let (lens, bitbuf') = small_lens_loop is start k bitbuf in (0 # lens, bitbuf')
      else
        let (v, bitbuf1) = bs_read 3 bitbuf;
            k' = unat v;
            (lens, bitbuf') = small_lens_loop is start k' bitbuf1
        in ((if k' = 7 then 0 else k') # lens, bitbuf'))"

text \<open>
  The loop over the codes. \<open>lastval\<close> is the last length; a count that wraps to zero stores
  nothing, so the loop need not end, which is \<open>None\<close>.
\<close>

partial_function (option) import_huffman_loop ::
    "huffman_context \<Rightarrow> nat \<Rightarrow> nat \<Rightarrow> nat \<Rightarrow> nat \<Rightarrow> node_t list \<Rightarrow> bitstream_in \<Rightarrow> (node_t list \<times> bitstream_in) option" where
  "import_huffman_loop small fullbits numcodes lastval curcode nodes bitbuf =
     (if numcodes \<le> curcode then Some (nodes, bitbuf)
      else
        let (v, bitbuf1) = decode_one small bitbuf in
        if v \<noteq> 0 then
          import_huffman_loop small fullbits numcodes (v - 1) (Suc curcode)
            (set_lens curcode [(v - 1) mod 256] nodes) bitbuf1
        else
          let (c3, bitbuf2) = bs_read 3 bitbuf1;
              (more, bitbuf3) = (if unat c3 + 2 = 7 + 2 then bs_read (int fullbits) bitbuf2 else (0, bitbuf2));
              run = min (w32 (unat c3 + 2 + unat more)) (numcodes - curcode)
          in import_huffman_loop small fullbits numcodes lastval (curcode + run)
               (set_lens curcode (replicate run (lastval mod 256)) nodes) bitbuf3)"

declare import_huffman_loop.simps [code]

text \<open>
  The small decoder and the context start with whatever their memory holds: \<open>small0\<close> is a
  decoder of 24 codes and 6 bits with any table.
\<close>

definition import_tree_huffman ::
    "huffman_context \<Rightarrow> huffman_context \<Rightarrow> bitstream_in \<Rightarrow> (huff_fault + huffman_context) option \<times> bitstream_in" where
  "import_tree_huffman small0 ctx bitbuf =
     (let (l0, bitbuf1) = bs_read 3 bitbuf;
          (st, bitbuf2) = bs_read 3 bitbuf1;
          (lens, bitbuf3) = small_lens_loop [1..<24] (unat st + 1) 0 bitbuf2;
          small1 = small0\<lparr>m_huffnode := set_lens 0 (unat l0 # lens) (m_huffnode small0)\<rparr>
      in case assign_canonical_codes small1 of
           Inl e \<Rightarrow> (Some (Inl e), bitbuf3)
         | Inr small2 \<Rightarrow>
             (case build_lookup_table small2 of
                Inl e \<Rightarrow> (Some (Inl e), bitbuf3)
              | Inr small \<Rightarrow>
                  (case import_huffman_loop small (rlefullbits ctx) (m_numcodes ctx) 0 0 (m_huffnode ctx) bitbuf3 of
                     None \<Rightarrow> (None, bitbuf3)
                   | Some (nodes, bitbuf4) \<Rightarrow> (Some (finish_import (ctx\<lparr>m_huffnode := nodes\<rparr>) bitbuf4), bitbuf4))))"

subsection \<open>The 8-bit coder\<close>

definition encode_8bit :: "huffman_context \<Rightarrow> bytes \<Rightarrow> bytes \<Rightarrow> (huff_fault + nat) option \<times> bytes" where
  "encode_8bit ctx source dest =
     (case compute_tree_from_histo (fold (\<lambda>b. histo_one (unat b)) source (histo_reset ctx)) of
        None \<Rightarrow> (None, dest)
      | Some (Inl e) \<Rightarrow> (Some (Inl e), dest)
      | Some (Inr ctx') \<Rightarrow>
          (let (err, bitbuf) = export_tree_huffman ctx' (mk_bitstream_out dest (of_nat (length dest))) in
           case err of
             None \<Rightarrow> (None, o_write bitbuf)
           | Some (Inl e) \<Rightarrow> (Some (Inl e), o_write bitbuf)
           | Some (Inr _) \<Rightarrow>
               let (complength, bitbuf') = out_flush (fold (\<lambda>b. encode_one ctx' (unat b)) source bitbuf)
               in (Some (if out_overflow bitbuf' then Inl (Huff_Error HUFFERR_OUTPUT_BUFFER_TOO_SMALL)
                         else Inr (unat complength)), o_write bitbuf')))"

primrec decode_loop :: "huffman_context \<Rightarrow> nat \<Rightarrow> bitstream_in \<Rightarrow> bytes \<times> bitstream_in" where
  "decode_loop ctx 0 bitbuf = ([], bitbuf)"
| "decode_loop ctx (Suc n) bitbuf =
     (let (v, bitbuf1) = decode_one ctx bitbuf;
          (dest, bitbuf') = decode_loop ctx n bitbuf1
      in (of_nat v # dest, bitbuf'))"

definition decode_8bit :: "huffman_context \<Rightarrow> huffman_context \<Rightarrow> bytes \<Rightarrow> nat \<Rightarrow> (huff_fault + bytes) option" where
  "decode_8bit small0 ctx source dlength =
     (case import_tree_huffman small0 ctx (mk_bitstream_in source (of_nat (length source))) of
        (None, _) \<Rightarrow> None
      | (Some (Inl e), _) \<Rightarrow> Some (Inl e)
      | (Some (Inr ctx'), bitbuf) \<Rightarrow>
          (let (dest, bitbuf') = decode_loop ctx' dlength bitbuf;
               (_, bitbuf'') = in_flush bitbuf'
           in Some (if in_overflow bitbuf'' then Inl (Huff_Error HUFFERR_INPUT_BUFFER_TOO_SMALL) else Inr dest)))"

subsection \<open>The run-length code is inverted\<close>

primrec expand :: "nat \<Rightarrow> (nat \<times> nat option) list \<Rightarrow> nat list" where
  "expand lastval [] = []"
| "expand lastval (item # items) =
     (if fst item \<noteq> 0 then (fst item - 1) # expand (fst item - 1) items
      else replicate (the (snd item) + 2) lastval @ expand lastval items)"

definition item_ok :: "nat \<Rightarrow> nat \<times> nat option \<Rightarrow> bool" where
  "item_ok n item \<longleftrightarrow> fst item \<noteq> 0 \<and> snd item = None \<or> fst item = 0 \<and> (\<exists>k. snd item = Some k \<and> k + 2 < n)"

lemma flush_repeats_item:
  "0 \<le> v \<Longrightarrow> r < n \<Longrightarrow> \<forall>item \<in> set (flush_repeats v r). item_ok n item"
  by (auto simp: flush_repeats_def item_ok_def)

lemma rle_lengths_items:
  "r + length lens < n \<Longrightarrow> 0 \<le> v \<Longrightarrow> \<forall>item \<in> set (rle_lengths_loop v r lens). item_ok n item"
proof (induction lens arbitrary: v r)
  case (Cons x xs)
  have "\<forall>item \<in> set (flush_repeats v r). item_ok n item" using Cons.prems by (intro flush_repeats_item) auto
  with Cons.IH [of "Suc r" v] Cons.IH [of 0 "int x"] Cons.prems show ?case by (auto simp: item_ok_def)
qed (simp add: flush_repeats_item)

lemma expand_append_flush:
  "0 \<le> v \<Longrightarrow> expand (nat v) (flush_repeats v r @ items) = replicate r (nat v) @ expand (nat v) items"
proof -
  assume v: "0 \<le> v"
  consider "r = 0" | "r = 1" | k where "r = Suc (Suc k)" by (metis One_nat_def not0_implies_Suc)
  then show ?thesis using v by cases (simp_all add: flush_repeats_def nat_add_distrib)
qed

lemma expand_rle: "0 \<le> v \<Longrightarrow> expand (nat v) (rle_lengths_loop v r lens) = replicate r (nat v) @ lens"
proof (induction lens arbitrary: v r)
  case Nil
  then show ?case using expand_append_flush [of v r "[]"] by simp
next
  case (Cons x xs)
  have "replicate (Suc r) (nat v) @ xs = replicate r (nat v) @ nat v # xs" by (simp add: replicate_app_Cons_same)
  with Cons.IH [of v "Suc r"] Cons.IH [of "int x" 0] Cons.prems expand_append_flush [of v r] show ?case by auto
qed

lemma length_rle: "length (rle_lengths_loop v r lens) \<le> min r 1 + length lens"
proof (induction lens arbitrary: v r)
  case (Cons x xs)
  from Cons.IH [of "int x" 0] Cons.IH [of v "Suc r"] show ?case by (auto simp: flush_repeats_def)
qed (simp add: flush_repeats_def)

text \<open>A whole length table: nothing is pending at its start.\<close>

lemma rle_lengths_start:
  "rle_lengths_loop (- 1) 0 (x # xs) = (x + 1, None) # rle_lengths_loop (int x) 0 xs"
  by (simp add: flush_repeats_def)

lemma rle_lengths_table:
  assumes "lens \<noteq> []"
  shows "expand 0 (rle_lengths_loop (- 1) 0 lens) = lens"
    and "\<forall>item \<in> set (rle_lengths_loop (- 1) 0 lens). item_ok (length lens) item"
    and "length (rle_lengths_loop (- 1) 0 lens) \<le> length lens"
    and "\<exists>item \<in> set (rle_lengths_loop (- 1) 0 lens). fst item \<noteq> 0"
proof -
  obtain x xs where l: "lens = x # xs" using assms by (cases lens) auto
  show "expand 0 (rle_lengths_loop (- 1) 0 lens) = lens"
    using expand_rle [of "int x" 0 xs] unfolding l rle_lengths_start by simp
  show "\<forall>item \<in> set (rle_lengths_loop (- 1) 0 lens). item_ok (length lens) item"
    using rle_lengths_items [of 0 xs "length lens" "int x"] unfolding l rle_lengths_start by (simp add: item_ok_def)
  show "length (rle_lengths_loop (- 1) 0 lens) \<le> length lens"
    using length_rle [of "int x" 0 xs] unfolding l rle_lengths_start by simp
  show "\<exists>item \<in> set (rle_lengths_loop (- 1) 0 lens). fst item \<noteq> 0" unfolding l rle_lengths_start by simp
qed

lemma rle_item_bound: "(\<forall>x \<in> set lens. x \<le> M) \<Longrightarrow> v \<le> int M \<Longrightarrow> \<forall>item \<in> set (rle_lengths_loop v r lens). fst item \<le> Suc M"
proof (induction lens arbitrary: v r)
  case (Cons x xs)
  have "\<forall>item \<in> set (flush_repeats v r). fst item \<le> Suc M" using Cons.prems(2) by (auto simp: flush_repeats_def)
  moreover have "\<forall>item \<in> set (rle_lengths_loop (int x) 0 xs). fst item \<le> Suc M" "\<forall>item \<in> set (rle_lengths_loop v (Suc r) xs). fst item \<le> Suc M"
    using Cons.prems by (intro Cons.IH; simp)+
  ultimately show ?case using Cons.prems by auto
qed (auto simp: flush_repeats_def)

lemma bit_length_less: "n < 2 ^ bit_length n"
proof (induction n rule: bit_length.induct)
  case (1 n)
  then show ?case by (subst bit_length.simps) (cases "n = 0"; simp; linarith)
qed

lemma bit_length_le: "n < 2 ^ k \<Longrightarrow> bit_length n \<le> k"
proof (induction n arbitrary: k rule: bit_length.induct)
  case (1 n)
  show ?case
  proof (cases "n = 0")
    case False
    with 1(2) obtain j where "k = Suc j" by (cases k) auto
    with 1 False show ?thesis by (subst bit_length.simps) auto
  qed (simp add: bit_length.simps)
qed

subsection \<open>Histograms\<close>

lemma histo_fold:
  assumes "\<forall>d \<in> set ds. d < length (m_datahisto ctx)" "sum_list (m_datahisto ctx) + length ds < 2 ^ 32"
  shows "sum_list (m_datahisto (fold histo_one ds ctx)) = sum_list (m_datahisto ctx) + length ds"
    and "c < length (m_datahisto ctx) \<Longrightarrow> m_datahisto (fold histo_one ds ctx) ! c = m_datahisto ctx ! c + count_list ds c"
    and "length (m_datahisto (fold histo_one ds ctx)) = length (m_datahisto ctx)"
    and "m_huffnode (fold histo_one ds ctx) = m_huffnode ctx" "m_numcodes (fold histo_one ds ctx) = m_numcodes ctx"
      "m_maxbits (fold histo_one ds ctx) = m_maxbits ctx"
  using assms
proof (atomize (full), induction ds arbitrary: ctx)
  case (Cons d ds)
  let ?h = "m_datahisto ctx" and ?ctx = "histo_one d ctx"
  have d: "d < length ?h" using Cons.prems(1) by simp
  have "?h ! d \<le> sum_list ?h" using member_le_sum_list [of "?h ! d" ?h] d by simp
  then have h: "m_datahisto ?ctx = ?h[d := ?h ! d + 1]" using Cons.prems(2) by (simp add: histo_one_def w32_small)
  have s: "sum_list (m_datahisto ?ctx) = sum_list ?h + 1" using d h by (simp add: sum_list_update)
  have same: "m_huffnode ?ctx = m_huffnode ctx" "m_numcodes ?ctx = m_numcodes ctx" "m_maxbits ?ctx = m_maxbits ctx"
    by (simp_all add: histo_one_def)
  show ?case using Cons.IH [of ?ctx] Cons.prems s h d same by (auto simp: nth_list_update)
qed simp

subsection \<open>The small tree\<close>

lemma small_lens_done: "small_lens_loop is start 7 s = (replicate (length is) 0, s)"
  by (induction "is") auto

lemma small_lens_skip:
  "i + n \<le> start \<Longrightarrow> i + n \<le> 24 \<Longrightarrow>
   small_lens_loop [i..<24] start k s =
     (replicate n 0 @ fst (small_lens_loop [i + n..<24] start k s), snd (small_lens_loop [i + n..<24] start k s))"
proof (induction n arbitrary: i)
  case (Suc n)
  then have "[i..<24] = i # [Suc i..<24]" by (simp add: upt_conv_Cons)
  with Suc.IH [of "Suc i"] Suc.prems show ?case by (simp add: split_beta Let_def)
qed simp

lemma small_lens_read:
  assumes "in_at lim s (field_bits 3 (vs @ [7]) @ rest)" "\<forall>v \<in> set vs. v < 7" "start \<le> i" "i + length vs < 24" "k \<noteq> 7"
  shows "fst (small_lens_loop [i..<24] start k s) = vs @ replicate (24 - (i + length vs)) 0 \<and>
    in_at lim (snd (small_lens_loop [i..<24] start k s)) rest"
  using assms
proof (induction vs arbitrary: i k s)
  case Nil
  then have up: "[i..<24] = i # [Suc i..<24]" by (simp add: upt_conv_Cons)
  obtain s' where s': "bs_read (int 3) s = (of_nat 7, s')" "in_at lim s' rest"
    using read_field [of lim s 7 3 rest] Nil.prems(1) by (auto simp del: of_nat_numeral)
  then have r: "bs_read 3 s = (7, s')" by simp
  have "24 - i = Suc (24 - Suc i)" using Nil.prems(4) by simp
  with Nil.prems r s'(2) show ?case unfolding up by (simp add: small_lens_done)
next
  case (Cons v vs)
  then have up: "[i..<24] = i # [Suc i..<24]" by (simp add: upt_conv_Cons)
  have v: "v < 2 ^ 3" "v \<noteq> 7" "v < 7" using Cons.prems(2) by auto
  obtain s' where s': "bs_read (int 3) s = (of_nat v, s')" "in_at lim s' (field_bits 3 (vs @ [7]) @ rest)"
    using read_field [of lim s v 3 "field_bits 3 (vs @ [7]) @ rest"] Cons.prems(1) v(1) by auto
  have u: "unat (of_nat v :: u32) = v" using unat_field [of 3 v] v(1) by simp
  have "fst (small_lens_loop [Suc i..<24] start v s') = vs @ replicate (24 - (Suc i + length vs)) 0 \<and>
    in_at lim (snd (small_lens_loop [Suc i..<24] start v s')) rest"
    using Cons.prems v s'(2) by (intro Cons.IH) auto
  with Cons.prems(3,5) v s'(1) u show ?case unfolding up by (simp add: split_beta Let_def)
qed

definition small_fields :: "nat list \<Rightarrow> nat list" where
  "small_fields lens =
     (let first = min (first_non_zero lens) 8
      in lens ! 0 # (first - 1) # map (\<lambda>i. lens ! i) [first..<Suc (last_non_zero lens)] @ [7])"

lemma non_zero_bounds:
  assumes "length lens = 24" "0 < i" "i < 24" "lens ! i \<noteq> 0"
  shows "1 \<le> first_non_zero lens" "first_non_zero lens \<le> i" "i \<le> last_non_zero lens" "last_non_zero lens < 24"
    and "lens ! last_non_zero lens \<noteq> 0" "\<And>j. 1 \<le> j \<Longrightarrow> j < first_non_zero lens \<Longrightarrow> lens ! j = 0"
    and "\<And>j. last_non_zero lens < j \<Longrightarrow> j < 24 \<Longrightarrow> lens ! j = 0"
proof -
  define xs where "xs = filter (\<lambda>i. lens ! i \<noteq> 0) [1..<24]"
  have i: "i \<in> set xs" using assms by (simp add: xs_def)
  then have ne: "xs \<noteq> []" by auto
  have f: "first_non_zero lens = hd xs" using ne assms(1) by (cases xs) (auto simp: first_non_zero_def xs_def)
  have "rev xs \<noteq> []" using ne by simp
  then have l: "last_non_zero lens = List.last xs"
    using assms(1) by (cases "rev xs") (auto simp: last_non_zero_def xs_def simp flip: hd_rev)
  have so: "sorted xs" by (simp add: xs_def sorted_wrt_filter)
  have lo: "hd xs \<le> x" if "x \<in> set xs" for x using so that by (cases xs) auto
  have eq: "xs = butlast xs @ [List.last xs]" using ne by simp
  have "sorted (butlast xs @ [List.last xs])" "set xs = set (butlast xs @ [List.last xs])"
    using so by (simp_all only: eq [symmetric])
  then have hi: "x \<le> List.last xs" if "x \<in> set xs" for x using that by (auto simp: sorted_append)
  have mem: "hd xs \<in> set xs" "List.last xs \<in> set xs" using ne by auto
  then show "1 \<le> first_non_zero lens" "last_non_zero lens < 24" "lens ! last_non_zero lens \<noteq> 0"
    by (auto simp: f l xs_def)
  show "first_non_zero lens \<le> i" "i \<le> last_non_zero lens" using lo hi i by (simp_all add: f l)
  show "lens ! j = 0" if "1 \<le> j" "j < first_non_zero lens" for j
  proof (rule ccontr)
    assume "lens ! j \<noteq> 0"
    then have "j \<in> set xs" using that \<open>first_non_zero lens \<le> i\<close> assms(3) by (simp add: xs_def)
    with lo [of j] that f show False by simp
  qed
  show "lens ! j = 0" if "last_non_zero lens < j" "j < 24" for j
  proof (rule ccontr)
    assume "lens ! j \<noteq> 0"
    then have "j \<in> set xs" using that by (simp add: xs_def)
    with hi [of j] that l show False by simp
  qed
qed

lemma small_tree_read:
  assumes lens: "length lens = 24" "\<forall>v \<in> set lens. v < 7" "0 < i" "i < 24" "lens ! i \<noteq> 0" "last_non_zero lens < 23"
    and at: "in_at lim s (field_bits 3 (small_fields lens) @ rest)"
  obtains s1 s2 s3 st where "bs_read 3 s = (of_nat (lens ! 0), s1)" "bs_read 3 s1 = (st, s2)"
    "small_lens_loop [1..<24] (unat st + 1) 0 s2 = (drop 1 lens, s3)" "in_at lim s3 rest" "unat (of_nat (lens ! 0) :: u32) = lens ! 0"
proof -
  note nz = non_zero_bounds [OF lens(1,3-5)]
  define f l where "f = min (first_non_zero lens) 8" and "l = last_non_zero lens"
  define vs where "vs = map (\<lambda>i. lens ! i) [f..<Suc l]"
  have f: "1 \<le> f" "f \<le> l" "f - 1 < 2 ^ 3" "l < 23" using nz lens(6) by (auto simp: f_def l_def)
  have l0: "lens ! 0 < 2 ^ 3" using lens(1,2) nth_mem [of 0 lens] by fastforce
  have at': "in_at lim s (wbits (of_nat (lens ! 0)) 3 @ wbits (of_nat (f - 1)) 3 @ field_bits 3 (vs @ [7]) @ rest)"
    using at by (simp add: small_fields_def Let_def f_def [symmetric] l_def [symmetric] vs_def)
  obtain s1 where s1: "bs_read (int 3) s = (of_nat (lens ! 0), s1)" "in_at lim s1 (wbits (of_nat (f - 1)) 3 @ field_bits 3 (vs @ [7]) @ rest)"
    using read_field [OF at' _ l0] by auto
  obtain s2 where s2: "bs_read (int 3) s1 = (of_nat (f - 1), s2)" "in_at lim s2 (field_bits 3 (vs @ [7]) @ rest)"
    using read_field [OF s1(2) _ f(3)] by auto
  have u: "unat (of_nat (f - 1) :: u32) + 1 = f" "unat (of_nat (lens ! 0) :: u32) = lens ! 0"
    using unat_field [of 3 "f - 1"] unat_field [of 3 "lens ! 0"] f l0 by auto
  have lv: "length vs = Suc l - f" by (simp add: vs_def del: upt_Suc)
  have "\<forall>v \<in> set vs. v < 7" using lens(1,2) f(4) by (auto simp: vs_def)
  then have r: "fst (small_lens_loop [f..<24] f 0 s2) = vs @ replicate (24 - (f + length vs)) 0 \<and> in_at lim (snd (small_lens_loop [f..<24] f 0 s2)) rest"
    using s2(2) f lv by (intro small_lens_read) auto
  have sk: "small_lens_loop [1..<24] f 0 s2 =
      (replicate (f - 1) 0 @ fst (small_lens_loop [f..<24] f 0 s2), snd (small_lens_loop [f..<24] f 0 s2))"
    using small_lens_skip [of 1 "f - 1" f 0 s2] f by simp
  have "replicate (f - 1) 0 @ vs @ replicate (24 - (f + length vs)) 0 = drop 1 lens"
  proof (rule nth_equalityI)
    show "length (replicate (f - 1) 0 @ vs @ replicate (24 - (f + length vs)) 0) = length (drop 1 lens)"
      using f lv lens(1) by simp
    fix j assume "j < length (replicate (f - 1) 0 @ vs @ replicate (24 - (f + length vs)) 0)"
    then have j: "Suc j < 24" using f lv by simp
    have "j < f - 1 \<Longrightarrow> lens ! Suc j = 0" using nz(6) [of "Suc j"] by (simp add: f_def)
    moreover have "l < Suc j \<Longrightarrow> lens ! Suc j = 0" using nz(7) [of "Suc j"] j by (simp add: l_def)
    moreover have "f - 1 \<le> j \<Longrightarrow> Suc j \<le> l \<Longrightarrow> vs ! (j - (f - 1)) = lens ! Suc j" using f by (simp add: vs_def del: upt_Suc)
    ultimately show "(replicate (f - 1) 0 @ vs @ replicate (24 - (f + length vs)) 0) ! j = drop 1 lens ! j"
      using j lens(1) f lv by (auto simp: nth_append)
  qed
  with sk r u s1 s2 that show ?thesis by (metis of_nat_numeral prod.collapse fst_conv snd_conv)
qed

subsection \<open>The coded lengths\<close>

definition item_bits :: "huffman_context \<Rightarrow> nat \<Rightarrow> nat \<times> nat option \<Rightarrow> bool list" where
  "item_bits small fb item =
     code_bits small (fst item) @
     (case snd item of None \<Rightarrow> [] | Some k \<Rightarrow> if k < 7 then wbits (of_nat k) 3 else wbits 7 3 @ wbits (of_nat (k - 7)) fb)"

definition items_bits :: "huffman_context \<Rightarrow> nat \<Rightarrow> (nat \<times> nat option) list \<Rightarrow> bool list" where
  "items_bits small fb items = concat (map (item_bits small fb) items)"

lemma write_rle_data_rep:
  assumes "\<forall>item \<in> set items. n_numbits (m_huffnode small ! fst item) \<le> 32" "fb \<le> 25" "out_rep s cap bs"
    "length bs + length (items_bits small fb items) < 2 ^ 34"
  shows "out_rep (write_rle_data small fb items s) cap (bs @ items_bits small fb items)"
  using assms
proof (induction items arbitrary: s bs)
  case (Cons item items)
  define s1 where "s1 = encode_one small (fst item) s"
  have len: "length bs + length (item_bits small fb item) + length (items_bits small fb items) < 2 ^ 34"
    using Cons.prems(4) by (simp add: items_bits_def)
  have r1: "out_rep s1 cap (bs @ code_bits small (fst item))"
    unfolding s1_def using Cons.prems len by (intro huff_out.wr_rep) auto
  define s2 where "s2 = (case snd item of None \<Rightarrow> s1 | Some k \<Rightarrow> if k < 7 then bs_write (of_nat k) 3 s1
      else bs_write (of_nat (k - 7)) (int fb) (bs_write 7 3 s1))"
  have w3: "out_rep (bs_write v 3 s) cap (bs @ wbits v 3)" if "out_rep s cap bs" "length bs < 2 ^ 34" for v s bs
    using field.wr_rep [of "(v, 3)" s cap bs] that by simp
  have "out_rep s2 cap (bs @ item_bits small fb item)"
  proof (cases "snd item")
    case None
    with r1 show ?thesis by (simp add: s2_def item_bits_def)
  next
    case (Some k)
    show ?thesis
    proof (cases "k < 7")
      case True
      with Some w3 [OF r1] len show ?thesis by (simp add: s2_def item_bits_def)
    next
      case False
      then have "length (bs @ code_bits small (fst item)) < 2 ^ 34" "length ((bs @ code_bits small (fst item)) @ wbits 7 3) < 2 ^ 34 \<or> fb = 0"
        using len Some by (auto simp: item_bits_def)
      with w3 [OF r1] have r2: "out_rep (bs_write 7 3 s1) cap ((bs @ code_bits small (fst item)) @ wbits 7 3)" by simp
      show ?thesis
        using field.wr_rep [of "(of_nat (k - 7), fb)", OF _ r2] len Some False Cons.prems(2)
        by (simp add: s2_def item_bits_def)
    qed
  qed
  moreover have "write_rle_data small fb (item # items) s = write_rle_data small fb items s2"
    by (simp add: s2_def Let_def flip: s1_def)
  ultimately show ?case
    using Cons.IH [of s2 "bs @ item_bits small fb item"] Cons.prems(1,2) len by (simp add: items_bits_def)
qed (simp add: items_bits_def)

lemma read_count:
  assumes "in_at lim s ((if k < 7 then wbits (of_nat k) 3 else wbits 7 3 @ wbits (of_nat (k - 7)) fb) @ rest)"
    "fb \<le> 25" "k - 7 < 2 ^ fb"
  shows "\<exists>c3 s2 more s3. bs_read 3 s = (c3, s2) \<and>
    (if unat c3 + 2 = 7 + 2 then bs_read (int fb) s2 else (0, s2)) = (more, s3) \<and> unat c3 + 2 + unat more = k + 2 \<and> in_at lim s3 rest"
proof (cases "k < 7")
  case True
  then have "in_at lim s (wbits (of_nat k) 3 @ rest)" using assms(1) by simp
  then obtain s' where "bs_read (int 3) s = (of_nat k, s')" "in_at lim s' rest" by (rule read_field) (use True in auto)
  moreover have "unat (of_nat k :: u32) = k" using unat_field [of 3 k] True by simp
  ultimately show ?thesis using True by auto
next
  case False
  then have "in_at lim s (wbits (of_nat 7) 3 @ wbits (of_nat (k - 7)) fb @ rest)" using assms(1) by simp
  then obtain s' where s': "bs_read (int 3) s = (of_nat 7, s')" "in_at lim s' (wbits (of_nat (k - 7)) fb @ rest)"
    by (rule read_field) auto
  have "(2 :: nat) ^ fb \<le> 2 ^ 25" using assms(2) by (intro power_increasing) auto
  then have "take_bit fb (of_nat (k - 7) :: u32) = of_nat (k - 7)" "unat (of_nat (k - 7) :: u32) = k - 7"
    using assms(3) by (simp_all add: take_bit_of_nat_word unat_of_nat_small)
  then have "fst (bs_read (int fb) s') = of_nat (k - 7)" "unat (of_nat (k - 7) :: u32) = k - 7" "in_at lim (snd (bs_read (int fb) s')) rest"
    using bs_read_at [OF s'(2) assms(2)] by auto
  moreover have "bs_read 3 s = (7, s')" "bs_read (int fb) s' = (fst (bs_read (int fb) s'), snd (bs_read (int fb) s'))"
    using s'(1) by simp_all
  ultimately show ?thesis using False
    by (intro exI [of _ 7] exI [of _ s'] exI [of _ "fst (bs_read (int fb) s')"] exI [of _ "snd (bs_read (int fb) s')"]) simp
qed

lemma import_items:
  assumes at: "in_at lim s (items_bits small fb items @ rest)" and m: "\<forall>item \<in> set items. symbol_ok small dec (fst item)"
    and it: "\<forall>item \<in> set items. item_ok n item \<and> fst item \<le> 256" "\<forall>k. k + 2 < n \<longrightarrow> k - 7 < 2 ^ fb" "fb \<le> 25" "n < 2 ^ 31"
    and len: "cur + length (expand lastval items) = n" "n \<le> length nodes" "lastval < 256"
  shows "\<exists>s'. import_huffman_loop dec fb n lastval cur nodes s = Some (set_lens cur (expand lastval items) nodes, s') \<and> in_at lim s' rest"
  using at m it(1) len
proof (induction items arbitrary: s lastval cur nodes)
  case Nil
  then show ?case by (subst import_huffman_loop.simps) (simp add: items_bits_def)
next
  case (Cons item items)
  have cur: "cur < n" using Cons.prems(4) by (auto split: if_splits)
  define rest1 where "rest1 = (case snd item of None \<Rightarrow> [] | Some k \<Rightarrow> if k < 7 then wbits (of_nat k) 3 else wbits 7 3 @ wbits (of_nat (k - 7)) fb) @ items_bits small fb items @ rest"
  have "in_at lim s (code_bits small (fst item) @ rest1)" using Cons.prems(1) by (simp add: items_bits_def item_bits_def rest1_def)
  moreover have "symbol_ok small dec (fst item)" using Cons.prems(2) by simp
  ultimately have "fst (decode_one dec s) = fst item \<and> in_at lim (snd (decode_one dec s)) rest1" by (intro huff.rd_at)
  then obtain s1 where s1: "decode_one dec s = (fst item, s1)" "in_at lim s1 rest1" by (metis prod.collapse)
  show ?case
  proof (cases "fst item = 0")
    case False
    then have sn: "snd item = None" using Cons.prems(3) by (auto simp: item_ok_def)
    define v where "v = fst item - 1"
    have v: "v < 256" using Cons.prems(3) False by (fastforce simp: v_def)
    have "\<exists>s'. import_huffman_loop dec fb n v (Suc cur) (set_lens cur [v] nodes) s1 =
        Some (set_lens (Suc cur) (expand v items) (set_lens cur [v] nodes), s') \<and> in_at lim s' rest"
      using Cons.prems s1(2) sn False v by (intro Cons.IH) (auto simp: rest1_def v_def)
    moreover have "set_lens (Suc cur) (expand v items) (set_lens cur [v] nodes) = set_lens cur (expand lastval (item # items)) nodes"
      using set_lens_append [of cur "[v]" "expand v items" nodes] Cons.prems(4,5) False by (simp add: v_def)
    moreover have "import_huffman_loop dec fb n lastval cur nodes s = import_huffman_loop dec fb n v (Suc cur) (set_lens cur [v] nodes) s1"
      using cur s1(1) False v by (subst import_huffman_loop.simps) (simp add: v_def)
    ultimately show ?thesis by auto
  next
    case True
    then obtain k where k: "snd item = Some k" "k + 2 < n" using Cons.prems(3) by (auto simp: item_ok_def)
    obtain c3 s2 more s3 where c: "bs_read 3 s1 = (c3, s2)" "(if unat c3 + 2 = 7 + 2 then bs_read (int fb) s2 else (0, s2)) = (more, s3)"
        "unat c3 + 2 + unat more = k + 2" "in_at lim s3 (items_bits small fb items @ rest)"
      using read_count [of lim s1 k fb "items_bits small fb items @ rest"] s1(2) it(2,3) k by (auto simp: rest1_def)
    have sum: "cur + (k + 2) + length (expand lastval items) = n" using Cons.prems(4) True k(1) by simp
    then have run: "min (w32 (unat c3 + 2 + unat more)) (n - cur) = k + 2"
      using c(3) k(2) it(4) by (simp add: w32_small)
    have "\<exists>s'. import_huffman_loop dec fb n lastval (cur + (k + 2)) (set_lens cur (replicate (k + 2) lastval) nodes) s3 =
        Some (set_lens (cur + (k + 2)) (expand lastval items) (set_lens cur (replicate (k + 2) lastval) nodes), s') \<and> in_at lim s' rest"
      using Cons.prems c(4) sum by (intro Cons.IH) auto
    moreover have "set_lens (cur + (k + 2)) (expand lastval items) (set_lens cur (replicate (k + 2) lastval) nodes) =
        set_lens cur (expand lastval (item # items)) nodes"
      using set_lens_append [of cur "replicate (k + 2) lastval" "expand lastval items" nodes] Cons.prems(5) True k(1) sum by simp
    moreover have "import_huffman_loop dec fb n lastval cur nodes s =
        import_huffman_loop dec fb n lastval (cur + (k + 2)) (set_lens cur (replicate (k + 2) lastval) nodes) s3"
      using cur s1(1) True Cons.prems(6)
      by (subst import_huffman_loop.simps) (simp only: Let_def split_beta fst_conv snd_conv c(1,2) run, simp)
    ultimately show ?thesis by auto
  qed
qed

subsection \<open>Export against import\<close>

text \<open>
  An encoder with at least ten and at most 256 codes and lengths up to 21, such as the 8-bit coder:
  the small tree exists, every item has a code in it, and its lengths end before the last index.
\<close>

definition small_ok :: "(nat \<times> nat option) list \<Rightarrow> huffman_context \<Rightarrow> huffman_context \<Rightarrow> bool" where
  "small_ok items small1 small \<longleftrightarrow>
     assign_canonical_codes small1 = Inr small \<and> sized small1 \<and> m_numcodes small1 = 24 \<and> m_maxbits small1 = 6 \<and>
     kraft 6 (codes small1) \<le> 2 ^ 6 \<and> map n_numbits (codes small) = map n_numbits (codes small1) \<and> length (codes small) = 24 \<and>
     (\<forall>c < 24. m_huffnode small ! c = codes small ! c \<and> n_numbits (m_huffnode small ! c) \<le> 6 \<and>
        (0 < n_numbits (m_huffnode small ! c) \<longleftrightarrow> c \<in> fst ` set items))"

lemma small_okD:
  assumes "small_ok items small1 small"
  shows "assign_canonical_codes small1 = Inr small" "sized small1" "m_numcodes small1 = 24" "m_maxbits small1 = 6"
    "kraft 6 (codes small1) \<le> 2 ^ 6" "map n_numbits (codes small) = map n_numbits (codes small1)" "length (codes small) = 24"
    and "c < 24 \<Longrightarrow> m_huffnode small ! c = codes small ! c" "c < 24 \<Longrightarrow> n_numbits (m_huffnode small ! c) \<le> 6"
      "c < 24 \<Longrightarrow> 0 < n_numbits (m_huffnode small ! c) \<longleftrightarrow> c \<in> fst ` set items"
  using assms unfolding small_ok_def by blast+

lemma small_tree_built:
  assumes items: "\<forall>item \<in> set items. fst item < 23" "length items \<le> 256" "\<exists>item \<in> set items. fst item \<noteq> 0"
  obtains small1 small where "small_tree items = Some (Inr small)" "small_ok items small1 small"
proof -
  define ctx0 where "ctx0 = projr (huffman_encoder 24 6)"
  define ctx where "ctx = fold (\<lambda>item. histo_one (fst item)) items ctx0"
  have c0: "m_datahisto ctx0 = replicate 24 0" "m_huffnode ctx0 = replicate 48 node_null" "m_numcodes ctx0 = 24" "m_maxbits ctx0 = 6"
    by (simp_all add: ctx0_def huffman_encoder_def huffman_context_base_def del: replicate.simps)
  have ctx_eq: "ctx = fold histo_one (map fst items) ctx0" by (simp add: ctx_def fold_map comp_def)
  have "\<forall>d \<in> set (map fst items). d < length (m_datahisto ctx0)" "sum_list (m_datahisto ctx0) + length (map fst items) < 2 ^ 32"
    using items(1,2) by (auto simp: c0 sum_list_replicate simp del: replicate.simps)
  note h = histo_fold [OF this, folded ctx_eq]
  have hc: "m_datahisto ctx ! c = count_list (map fst items) c" if "c < 24" for c
    using h(2) [of c] that by (simp add: c0 del: replicate.simps)
  have shape: "encoder_shape ctx" using h items(2) by (simp add: encoder_shape_def c0 sum_list_replicate del: replicate.simps)
  have M: "m_numcodes ctx \<le> 2 ^ m_maxbits ctx" "1 \<le> m_maxbits ctx" "m_maxbits ctx \<le> 24" using h by (simp_all add: c0)
  obtain small1 small mb where s: "search_tree ctx = Some (Inr small1)" "compute_tree_from_histo ctx = Some (Inr small)" "mb \<le> m_maxbits ctx"
      "built ctx mb small1" "assign_canonical_codes small1 = Inr small"
    using compute_tree_built [OF shape M] by blast
  note b = builtD [OF s(4)]
  have sz: "sized small1" using b h by (simp add: sized_def c0)
  have n: "m_numcodes small1 \<le> length (m_huffnode small1)" "m_numcodes small1 < 2 ^ 32" "m_maxbits small1 \<le> 32"
    using b(1,2,4) h by (simp_all add: c0)
  note f = assign_canonical_codes_fields [OF s(5) n]
  have st: "small_tree items = Some (Inr small)"
    using s(1,5) by (simp add: small_tree_def ctx_def [symmetric] ctx0_def [symmetric])
  have kr: "kraft 6 (codes small1) \<le> 2 ^ 6" using b(7) [of 6] s(3) h by (auto simp: c0)
  have len: "length (codes small) = 24" using f(2) b(2,4) h by (simp add: codes_def c0)
  have "m_huffnode small ! c = codes small ! c \<and> n_numbits (m_huffnode small ! c) \<le> 6 \<and>
       (0 < n_numbits (m_huffnode small ! c) \<longleftrightarrow> c \<in> fst ` set items)" if c: "c < 24" for c
    using b(6) [of c] f(2) f(3) [of c] c s(3) h b(2) hc [OF c] count_list_0_iff [of "map fst items" c] by (simp add: c0 codes_def)
  then have all: "\<forall>c < 24. m_huffnode small ! c = codes small ! c \<and> n_numbits (m_huffnode small ! c) \<le> 6 \<and>
       (0 < n_numbits (m_huffnode small ! c) \<longleftrightarrow> c \<in> fst ` set items)" by blast
  have "m_numcodes small1 = 24" "m_maxbits small1 = 6" using b(1,2) h by (simp_all add: c0)
  with s(5) sz kr f(1) len all have "small_ok items small1 small" unfolding small_ok_def by blast
  from that [OF st this] show ?thesis .
qed

lemma rlefullbits_bounds:
  assumes "m_numcodes ctx \<le> 256" "9 < m_numcodes ctx"
  shows "rlefullbits ctx \<le> 8" "k + 2 < m_numcodes ctx \<Longrightarrow> k - 7 < 2 ^ rlefullbits ctx"
proof -
  have "w32 (m_numcodes ctx + (2 ^ 32 - 9)) = m_numcodes ctx - 9" using assms by (simp add: w32_def mod_if)
  then have r: "rlefullbits ctx = bit_length (m_numcodes ctx - 9)" by (simp add: rlefullbits_def)
  show "rlefullbits ctx \<le> 8" unfolding r using assms by (intro bit_length_le) simp
  show "k - 7 < 2 ^ rlefullbits ctx" if "k + 2 < m_numcodes ctx"
    using that bit_length_less [of "m_numcodes ctx - 9"] assms unfolding r by linarith
qed

definition export_bits :: "huffman_context \<Rightarrow> bool list" where
  "export_bits ctx =
     (let items = rle_lengths_loop (- 1) 0 (map n_numbits (codes ctx)); small = projr (the (small_tree items))
      in field_bits 3 (small_fields (map n_numbits (codes small))) @ items_bits small (rlefullbits ctx) items)"

text \<open>The lengths of a tree to export.\<close>

definition exportable :: "huffman_context \<Rightarrow> bool" where
  "exportable ctx \<longleftrightarrow> 9 < m_numcodes ctx \<and> m_numcodes ctx \<le> 256 \<and> length (codes ctx) = m_numcodes ctx \<and>
     (\<forall>nd \<in> set (codes ctx). n_numbits nd \<le> 21)"

lemma exportable_items:
  assumes "exportable ctx"
  defines "items \<equiv> rle_lengths_loop (- 1) 0 (map n_numbits (codes ctx))"
  shows "\<forall>item \<in> set items. fst item < 23" "length items \<le> 256" "\<exists>item \<in> set items. fst item \<noteq> 0"
    "expand 0 items = map n_numbits (codes ctx)" "\<forall>item \<in> set items. item_ok (m_numcodes ctx) item"
proof -
  define lens where "lens = map n_numbits (codes ctx)"
  have l: "lens \<noteq> []" "length lens = m_numcodes ctx" "\<forall>x \<in> set lens. x \<le> 21"
    using assms(1) by (auto simp: exportable_def lens_def)
  have "\<forall>item \<in> set items. fst item \<le> Suc 21"
    unfolding items_def using rle_item_bound [OF l(3), of "- 1" 0] by (simp add: lens_def)
  then show "\<forall>item \<in> set items. fst item < 23" by fastforce
  show "length items \<le> 256" "\<exists>item \<in> set items. fst item \<noteq> 0" "expand 0 items = map n_numbits (codes ctx)"
    "\<forall>item \<in> set items. item_ok (m_numcodes ctx) item"
    using rle_lengths_table [OF l(1)] l(2) assms(1) unfolding items_def lens_def [symmetric] by (auto simp: exportable_def)
qed

lemma export_small:
  assumes "exportable ctx"
  defines "items \<equiv> rle_lengths_loop (- 1) 0 (map n_numbits (codes ctx))"
  obtains small1 small where "small_tree items = Some (Inr small)" "small_ok items small1 small"
    "export_bits ctx = field_bits 3 (small_fields (map n_numbits (codes small))) @ items_bits small (rlefullbits ctx) items"
proof -
  note it = exportable_items [OF assms(1), folded items_def]
  from small_tree_built [OF it(1-3)] obtain small1 small where s: "small_tree items = Some (Inr small)" "small_ok items small1 small" .
  have "export_bits ctx = field_bits 3 (small_fields (map n_numbits (codes small))) @ items_bits small (rlefullbits ctx) items"
    by (simp add: export_bits_def items_def [symmetric] s(1) Let_def)
  from that [OF s this] show ?thesis .
qed

lemma small_nonzero:
  assumes ok: "small_ok items small1 small"
    and it: "\<forall>item \<in> set items. fst item < 23" "\<exists>item \<in> set items. fst item \<noteq> 0"
  defines "lens \<equiv> map n_numbits (codes small)"
  shows "length lens = 24" "\<forall>v \<in> set lens. v < 7" "\<exists>i. 0 < i \<and> i < 24 \<and> lens ! i \<noteq> 0" "last_non_zero lens < 23"
    "length (small_fields lens) \<le> 26"
proof -
  note s = small_okD [OF ok]
  have at: "lens ! c = n_numbits (m_huffnode small ! c)" if "c < 24" for c using s(7,8) that by (simp add: lens_def)
  show l: "length lens = 24" using s(7) by (simp add: lens_def)
  show "\<forall>v \<in> set lens. v < 7"
  proof
    fix v assume "v \<in> set lens"
    then obtain c where "c < 24" "v = lens ! c" using l by (metis in_set_conv_nth)
    then show "v < 7" using at [of c] s(9) [of c] by simp
  qed
  obtain item where i: "item \<in> set items" "fst item \<noteq> 0" "fst item < 24" using it by fastforce
  then show ex: "\<exists>i. 0 < i \<and> i < 24 \<and> lens ! i \<noteq> 0" using at [of "fst item"] s(10) [of "fst item"] by (intro exI [of _ "fst item"]) auto
  then obtain j where j: "0 < j" "j < 24" "lens ! j \<noteq> 0" by blast
  note nz = non_zero_bounds [OF l j]
  have "23 \<notin> fst ` set items" using it(1) by fastforce
  then have "lens ! 23 = 0" using at [of 23] s(10) [of 23] by simp
  then have "last_non_zero lens \<noteq> 23" using nz(5) by auto
  then show "last_non_zero lens < 23" using nz(4) by simp
  then show "length (small_fields lens) \<le> 26" by (simp add: small_fields_def Let_def) linarith
qed

lemma length_export_bits:
  assumes "exportable ctx"
  shows "length (export_bits ctx) \<le> 4430"
proof -
  note it = exportable_items [OF assms]
  obtain small1 small where s: "small_ok (rle_lengths_loop (- 1) 0 (map n_numbits (codes ctx))) small1 small"
    "export_bits ctx = field_bits 3 (small_fields (map n_numbits (codes small))) @
       items_bits small (rlefullbits ctx) (rle_lengths_loop (- 1) 0 (map n_numbits (codes ctx)))"
    using export_small [OF assms] by metis
  have fb: "rlefullbits ctx \<le> 8" using rlefullbits_bounds(1) assms by (simp add: exportable_def)
  have "length (item_bits small (rlefullbits ctx) item) \<le> 17" if "fst item < 23" for item
    using small_okD(9) [OF s(1), of "fst item"] that fb by (auto simp: item_bits_def code_bits_def split: option.splits)
  then have "length (items_bits small (rlefullbits ctx) items) \<le> 17 * length items" if "\<forall>item \<in> set items. fst item < 23" for items
    using that by (induction items) (fastforce simp: items_bits_def)+
  from this [OF it(1)] it(2) small_nonzero(5) [OF s(1) it(1,3)] show ?thesis unfolding s(2) by simp
qed

lemma export_tree_huffman_rep:
  assumes ex: "exportable ctx" and rep: "out_rep s cap bs" and sz: "length bs + 4430 < 2 ^ 34"
  obtains s' where "export_tree_huffman ctx s = (Some (if out_overflow s' then Inl (Huff_Error HUFFERR_OUTPUT_BUFFER_TOO_SMALL) else Inr ()), s')"
    "out_rep s' cap (bs @ export_bits ctx)"
proof -
  note it = exportable_items [OF ex]
  define items where "items = rle_lengths_loop (- 1) 0 (map n_numbits (codes ctx))"
  obtain small1 small where s: "small_tree items = Some (Inr small)" "small_ok items small1 small"
    "export_bits ctx = field_bits 3 (small_fields (map n_numbits (codes small))) @ items_bits small (rlefullbits ctx) items"
    unfolding items_def using export_small [OF ex] by metis
  define s1 where "s1 = write_small_tree (map n_numbits (codes small)) s"
  define s2 where "s2 = write_rle_data small (rlefullbits ctx) items s1"
  have len: "length bs + length (export_bits ctx) < 2 ^ 34" using length_export_bits [OF ex] sz by simp
  have "s1 = fold (\<lambda>(v, n). bs_write v (int n)) (map (\<lambda>v. (of_nat v, 3)) (small_fields (map n_numbits (codes small)))) s"
    by (simp only: s1_def write_small_tree_def small_fields_def Let_def fold_map comp_def case_prod_conv of_nat_numeral)
  moreover have "concat (map (\<lambda>(v, n). wbits v n) (map (\<lambda>v. (of_nat v, 3)) fs)) = field_bits 3 fs" for fs
    by (simp add: field_bits_def comp_def)
  ultimately have r1: "out_rep s1 cap (bs @ field_bits 3 (small_fields (map n_numbits (codes small))))"
    using field.write_all_rep [of "map (\<lambda>v. (of_nat v, 3)) (small_fields (map n_numbits (codes small)))", OF _ rep] len s(3)
    by auto
  have nb: "\<forall>item \<in> set items. n_numbits (m_huffnode small ! fst item) \<le> 32"
  proof
    fix item assume "item \<in> set items"
    then have "fst item < 24" using it(1) by (fastforce simp: items_def)
    then show "n_numbits (m_huffnode small ! fst item) \<le> 32" using small_okD(9) [OF s(2)] by fastforce
  qed
  have fb: "rlefullbits ctx \<le> 25" using rlefullbits_bounds(1) [of ctx] ex by (simp add: exportable_def)
  have r2: "out_rep s2 cap (bs @ export_bits ctx)"
    using write_rle_data_rep [OF nb fb r1] len by (simp add: s2_def s(3))
  have "\<not> (\<exists>item \<in> set items. 24 \<le> fst item)" using it(1) by (fastforce simp: items_def)
  then have "export_tree_huffman ctx s = (Some (if out_overflow s2 then Inl (Huff_Error HUFFERR_OUTPUT_BUFFER_TOO_SMALL) else Inr ()), s2)"
    by (simp add: export_tree_huffman_def items_def [symmetric] s(1) Let_def s1_def [symmetric] s2_def [symmetric])
  then show ?thesis using r2 that by blast
qed

lemma import_tree_huffman_at:
  assumes ex: "exportable enc" and dec: "m_numcodes dec = m_numcodes enc" "m_numcodes enc \<le> length (m_huffnode dec)"
    and sm: "m_numcodes small0 = 24" "m_maxbits small0 = 6" "length (m_huffnode small0) = 24" "length (m_lookup small0) = 2 ^ 6"
    and at: "in_at lim s (export_bits enc @ rest)"
  obtains s' where "in_at lim s' rest"
    "import_tree_huffman small0 dec s = (Some (finish_import (dec\<lparr>m_huffnode := set_lens 0 (map n_numbits (codes enc)) (m_huffnode dec)\<rparr>) s'), s')"
proof -
  note it = exportable_items [OF ex]
  define items where "items = rle_lengths_loop (- 1) 0 (map n_numbits (codes enc))"
  obtain small1 small where s: "small_ok items small1 small"
    "export_bits enc = field_bits 3 (small_fields (map n_numbits (codes small))) @ items_bits small (rlefullbits enc) items"
    unfolding items_def using export_small [OF ex] by metis
  note so = small_okD [OF s(1)]
  define lens where "lens = map n_numbits (codes small)"
  note nz = small_nonzero [OF s(1) it(1,3) [folded items_def], folded lens_def]
  obtain i where i: "0 < i" "i < 24" "lens ! i \<noteq> 0" using nz(3) by blast
  obtain s1 s2 s3 st where r: "bs_read 3 s = (of_nat (lens ! 0), s1)" "bs_read 3 s1 = (st, s2)"
    "small_lens_loop [1..<24] (unat st + 1) 0 s2 = (drop 1 lens, s3)" "in_at lim s3 (items_bits small (rlefullbits enc) items @ rest)"
    "unat (of_nat (lens ! 0) :: u32) = lens ! 0"
    using small_tree_read [OF nz(1,2) i nz(4)] at [unfolded s(2)] by (metis append.assoc lens_def)
  define dec1 where "dec1 = small0\<lparr>m_huffnode := set_lens 0 lens (m_huffnode small0)\<rparr>"
  have l: "unat (of_nat (lens ! 0) :: u32) # drop 1 lens = lens" using r(5) nz(1) by (cases lens) auto
  have same: "map n_numbits (codes small1) = map n_numbits (codes dec1)"
    using map_numbits_set_lens [of lens "m_huffnode small0"] nz(1) sm so(6) by (simp add: codes_def dec1_def lens_def)
  have sz: "sized dec1" "length (m_lookup dec1) = 2 ^ m_maxbits dec1" "m_numcodes dec1 \<le> 2 ^ 11" "m_maxbits small1 = m_maxbits dec1"
    using sm nz(1) so(4) by (simp_all add: sized_def dec1_def)
  have kr: "kraft (m_maxbits small1) (codes small1) \<le> 2 ^ m_maxbits small1" using so(4,5) by simp
  from finish_import_ok [OF so(1,2) sz(1-3) same sz(4) kr in_at_no_overflow [OF r(4)]]
  obtain dec2 where f: "finish_import dec1 s3 = Inr dec2" "coders_match small dec2" "m_numcodes dec2 = 24"
    using sm(1) by (auto simp: dec1_def)
  obtain dec3 where d3: "assign_canonical_codes dec1 = Inr dec3" "build_lookup_table dec3 = Inr dec2"
    using f(1) by (auto simp: finish_import_def split: sum.splits if_splits)
  have sym: "\<forall>item \<in> set items. symbol_ok small dec2 (fst item)"
  proof
    fix item assume m: "item \<in> set items"
    then have "fst item < 24" using it(1) by (fastforce simp: items_def)
    with m so(10) [of "fst item"] f show "symbol_ok small dec2 (fst item)" by (simp add: symbol_ok_def)
  qed
  have n: "9 < m_numcodes enc" "m_numcodes enc \<le> 256" using ex by (simp_all add: exportable_def)
  have ok: "\<forall>item \<in> set items. item_ok (m_numcodes enc) item \<and> fst item \<le> 256"
    using it(1,5) by (fastforce simp: items_def)
  have le: "length (expand 0 items) = m_numcodes enc" using it(4) ex by (simp add: items_def exportable_def)
  have fb: "\<forall>k. k + 2 < m_numcodes enc \<longrightarrow> k - 7 < 2 ^ rlefullbits enc" "rlefullbits enc \<le> 25" "m_numcodes enc < 2 ^ 31"
    using rlefullbits_bounds [of enc] n by auto
  obtain s4 where s4: "import_huffman_loop dec2 (rlefullbits enc) (m_numcodes enc) 0 0 (m_huffnode dec) s3 =
      Some (set_lens 0 (expand 0 items) (m_huffnode dec), s4)" "in_at lim s4 rest"
    using import_items [OF r(4) sym ok fb, of 0 0 "m_huffnode dec"] le dec(2) by auto
  have rf: "rlefullbits dec = rlefullbits enc" using dec(1) by (simp add: rlefullbits_def)
  have "import_tree_huffman small0 dec s = (Some (finish_import (dec\<lparr>m_huffnode := set_lens 0 (map n_numbits (codes enc)) (m_huffnode dec)\<rparr>) s4), s4)"
    unfolding import_tree_huffman_def r(1,2) Let_def split_beta fst_conv snd_conv r(3) l dec1_def [symmetric]
    using d3 s4 it(4) rf dec(1) by (simp add: items_def)
  with s4(2) that show ?thesis by blast
qed

lemma decode_loop_at:
  assumes "in_at lim s (concat (map (code_bits enc) (map unat bs)) @ rest)" "\<forall>b \<in> set bs. symbol_ok enc dec (unat b)"
  shows "\<exists>s'. decode_loop dec (length bs) s = (bs, s') \<and> in_at lim s' rest"
  using assms
proof (induction bs arbitrary: s)
  case (Cons b bs)
  have "fst (decode_one dec s) = unat b \<and> in_at lim (snd (decode_one dec s)) (concat (map (code_bits enc) (map unat bs)) @ rest)"
    using Cons.prems by (intro huff.rd_at) auto
  then obtain s1 where s1: "decode_one dec s = (unat b, s1)" "in_at lim s1 (concat (map (code_bits enc) (map unat bs)) @ rest)"
    by (metis prod.collapse)
  from Cons.IH [OF s1(2)] Cons.prems(2) obtain s' where "decode_loop dec (length bs) s1 = (bs, s')" "in_at lim s' rest" by auto
  with s1(1) show ?case by simp
qed auto

lemma in_at_flush_no_overflow:
  assumes "in_at lim s []"
  shows "\<not> in_overflow (snd (in_flush s))"
proof -
  obtain data p where rep: "in_rep s data p" "p < 2 ^ 34" "p \<le> 8 * length data" using assms by (auto simp: in_at_def)
  have "in_rep (snd (in_flush s)) data (8 * ((p + 7) div 8))" using in_flush_rep [OF rep(1,2)] by simp
  moreover have "8 * ((p + 7) div 8) \<le> 8 * length data" using rep(3) by simp
  ultimately show ?thesis using in_overflow_sound [of "snd (in_flush s)" data] by (metis leD)
qed

text \<open>The reader of the finished bytes alone, without the rest of the destination.\<close>

lemma flushed_take_in_at:
  assumes rep: "out_rep s cap bs" and sm: "length bs + 7 < 2 ^ 34" and fits: "length bs \<le> 8 * cap" and cap: "cap < 2 ^ 32"
  defines "n \<equiv> unat (fst (out_flush s))" and "out \<equiv> o_write (snd (out_flush s))"
  shows "in_at (length bs) (mk_bitstream_in (take n out) (of_nat n)) bs" "n \<le> cap" "length (take n out) = n"
proof -
  have "length bs < 2 ^ 34" using sm by simp
  then obtain k where k: "out_rep (snd (out_flush s)) cap (bs @ replicate k False)" "o_bits (snd (out_flush s)) = 0"
    using out_flush_rep [OF rep] by metis
  note fl = flushed_in_at [OF rep sm fits cap]
  have bits: "bits_at out 0 (length bs) = bs"
    using out_rep_bits_at [OF k fl(2), of 0 "length bs"] by (simp add: out_def)
  have n: "n = (length bs + 7) div 8" "length out = cap" using fl by (simp_all add: n_def out_def)
  then show nc: "n \<le> cap" using fits by linarith
  then show len: "length (take n out) = n" using n(2) by simp
  have "bits_at (take n out) 0 (length bs) = bits_at out 0 (length bs)"
    using n nc by (intro nth_equalityI) (auto simp: bitat_def)
  moreover have "in_rep (mk_bitstream_in (take n out) (of_nat n)) (take n out) 0"
    using mk_bitstream_in_rep [of "take n out"] len nc cap by simp
  ultimately show "in_at (length bs) (mk_bitstream_in (take n out) (of_nat n)) bs"
    unfolding in_at_def using bits sm n len by (intro exI [of _ "take n out"] exI [of _ 0]) auto
qed

lemma unat_byte: "unat (b :: u8) < 256"
proof -
  have "unat b < 2 ^ LENGTH(8)" by (rule unsigned_less)
  then show ?thesis by simp
qed

lemma byte_histogram:
  fixes source :: bytes
  assumes "m_numcodes enc = 256" "m_maxbits enc = 16" "length (m_huffnode enc) = 512" "length source < 2 ^ 31"
  defines "ctx \<equiv> fold (\<lambda>b. histo_one (unat b)) source (histo_reset enc)"
  shows "encoder_shape ctx" "m_numcodes ctx = 256" "m_maxbits ctx = 16" "\<And>b. b \<in> set source \<Longrightarrow> 0 < m_datahisto ctx ! unat b"
proof -
  let ?c0 = "histo_reset enc"
  have c0: "m_datahisto ?c0 = replicate 256 0" "m_huffnode ?c0 = m_huffnode enc" "m_numcodes ?c0 = 256" "m_maxbits ?c0 = 16"
    using assms by (simp_all add: histo_reset_def del: replicate.simps)
  have ctx_eq: "ctx = fold histo_one (map unat source) ?c0" by (simp add: ctx_def fold_map comp_def)
  have "\<forall>d \<in> set (map unat source). d < length (m_datahisto ?c0)" "sum_list (m_datahisto ?c0) + length (map unat source) < 2 ^ 32"
    using assms(4) unat_byte by (auto simp: c0 sum_list_replicate simp del: replicate.simps)
  note h = histo_fold [OF this, folded ctx_eq]
  show "encoder_shape ctx" "m_numcodes ctx = 256" "m_maxbits ctx = 16"
    using h assms(3,4) by (simp_all add: encoder_shape_def c0 sum_list_replicate del: replicate.simps)
  fix b assume "b \<in> set source"
  then have "count_list (map unat source) (unat b) \<noteq> 0" by (simp add: count_list_0_iff)
  then show "0 < m_datahisto ctx ! unat b" using h(2) [of "unat b"] unat_byte [of b] by (simp add: c0 del: replicate.simps)
qed

text \<open>
  The coder either runs out of room or its output decodes to the source. It has enough room with
  4430 bits for the tree and 16 bits for each byte.
\<close>

lemma huffman_8bit_code:
  assumes enc: "m_numcodes enc = 256" "m_maxbits enc = 16" "length (m_huffnode enc) = 512"
    and dec: "m_numcodes dec = 256" "m_maxbits dec = 16" "length (m_huffnode dec) = 256" "length (m_lookup dec) = 2 ^ 16"
    and sm: "m_numcodes small0 = 24" "m_maxbits small0 = 6" "length (m_huffnode small0) = 24" "length (m_lookup small0) = 2 ^ 6"
    and sizes: "length source < 2 ^ 29" "length dest < 2 ^ 30"
  shows "(8 * length dest < 4430 + 16 * length source \<and> (\<exists>out. encode_8bit enc source dest = (Some (Inl (Huff_Error HUFFERR_OUTPUT_BUFFER_TOO_SMALL)), out))) \<or>
    (\<exists>n out. encode_8bit enc source dest = (Some (Inr n), out) \<and> n \<le> length dest \<and> length out = length dest \<and>
      decode_8bit small0 dec (take n out) (length source) = Some (Inr source))"
proof -
  define ctx where "ctx = fold (\<lambda>b. histo_one (unat b)) source (histo_reset enc)"
  have "length source < 2 ^ 31" using sizes by simp
  note h = byte_histogram [OF enc this, folded ctx_def]
  have M: "m_numcodes ctx \<le> 2 ^ m_maxbits ctx" "1 \<le> m_maxbits ctx" "m_maxbits ctx \<le> 24" using h by simp_all
  obtain ctx1 ctx' mb where c: "compute_tree_from_histo ctx = Some (Inr ctx')" "mb \<le> m_maxbits ctx" "built ctx mb ctx1"
      "assign_canonical_codes ctx1 = Inr ctx'"
    using compute_tree_built [OF h(1) M] by blast
  note b = builtD [OF c(3)]
  note lens = compute_tree_lengths [OF h(1) M c]
  have ctx1: "m_numcodes ctx1 \<le> length (m_huffnode ctx1)" "m_numcodes ctx1 < 2 ^ 32" "m_maxbits ctx1 \<le> 32"
    using b(1,2,4) h by simp_all
  note f = assign_canonical_codes_fields [OF c(4) ctx1]
  have sz: "sized ctx1" using b(1,2,4) h by (simp add: sized_def)
  have cl: "length (codes ctx') = 256" "length (codes ctx1) = 256" using f(2) b(2,4) h by (simp_all add: codes_def)
  have ex: "exportable ctx'" using f(2,4) b(1,2) h cl by (fastforce simp: exportable_def)
  have nb: "n_numbits (m_huffnode ctx' ! unat (x :: u8)) \<le> 16" for x
    using lens h(2,3) unat_byte [of x] by simp
  obtain s1 where s1: "export_tree_huffman ctx' (mk_bitstream_out dest (of_nat (length dest))) =
        (Some (if out_overflow s1 then Inl (Huff_Error HUFFERR_OUTPUT_BUFFER_TOO_SMALL) else Inr ()), s1)"
      "out_rep s1 (length dest) ([] @ export_bits ctx')"
    by (rule export_tree_huffman_rep [OF ex mk_bitstream_out_rep [of dest]]) (use sizes in auto)
  define s2 where "s2 = fold (\<lambda>b. encode_one ctx' (unat b)) source s1"
  define sb where "sb = concat (map (code_bits ctx') (map unat source))"
  have "length sb = (\<Sum>x\<leftarrow>source. n_numbits (m_huffnode ctx' ! unat x))"
    by (simp add: sb_def length_concat comp_def code_bits_def)
  also have "\<dots> \<le> (\<Sum>x\<leftarrow>source. 16)" using nb by (intro sum_list_mono)
  finally have ls: "length sb \<le> 16 * length source" by (simp add: sum_list_triv)
  have bound: "length (export_bits ctx' @ sb) \<le> 4430 + 16 * length source" using ls length_export_bits [OF ex] by simp
  have "s2 = fold (encode_one ctx') (map unat source) s1" by (simp add: s2_def fold_map comp_def)
  moreover have "\<forall>i \<in> set (map unat source). n_numbits (m_huffnode ctx' ! i) \<le> 32" using nb by (fastforce intro: order.trans)
  ultimately have r2: "out_rep s2 (length dest) (export_bits ctx' @ sb)"
    using huff_out.write_all_rep [of "map unat source" ctx' s1 "length dest" "export_bits ctx'"] s1(2) bound sizes by (simp add: sb_def)
  define out where "out = o_write (snd (out_flush s2))"
  define n where "n = unat (fst (out_flush s2))"
  have code: "encode_8bit enc source dest = (if out_overflow s1 then (Some (Inl (Huff_Error HUFFERR_OUTPUT_BUFFER_TOO_SMALL)), o_write s1)
      else (Some (if out_overflow (snd (out_flush s2)) then Inl (Huff_Error HUFFERR_OUTPUT_BUFFER_TOO_SMALL) else Inr n), out))"
    using c(1) s1(1) by (simp add: encode_8bit_def ctx_def [symmetric] s2_def [symmetric] split_beta Let_def out_def n_def)
  show ?thesis
  proof (cases "out_overflow s1 \<or> out_overflow (snd (out_flush s2))")
    case True
    have "\<not> out_overflow s1 \<and> \<not> out_overflow (snd (out_flush s2))" if "4430 + 16 * length source \<le> 8 * length dest"
    proof
      have b: "length (export_bits ctx' @ sb) \<le> 8 * length dest" using that bound by linarith
      then show "\<not> out_overflow s1" using out_overflow_iff [OF s1(2)] by simp
      show "\<not> out_overflow (snd (out_flush s2))" by (rule flushed_in_at(2) [OF r2 _ b]) (use bound sizes in simp_all)
    qed
    with True have "8 * length dest < 4430 + 16 * length source" using not_le by blast
    with True show ?thesis using code by (cases "out_overflow s1") simp_all
  next
    case nov: False
    have bits: "length (export_bits ctx' @ sb) \<le> 8 * length dest"
      using flush_fits [OF r2] nov bound sizes by auto
  have fl: "in_at (length (export_bits ctx' @ sb)) (mk_bitstream_in (take n out) (of_nat n)) (export_bits ctx' @ sb)" "n \<le> length dest" "length (take n out) = n"
      "\<not> out_overflow (snd (out_flush s2))"
    unfolding out_def n_def using flushed_take_in_at [OF r2] flushed_in_at(2) [OF r2] bits sizes by auto
  have lo: "length out = length dest" unfolding out_def using flushed_in_at(4) [OF r2] bits sizes by auto
  have "encode_8bit enc source dest = (Some (Inr n), out)" using code nov by simp
  moreover have "decode_8bit small0 dec (take n out) (length source) = Some (Inr source)"
  proof -
    define dec1 where "dec1 = dec\<lparr>m_huffnode := set_lens 0 (map n_numbits (codes ctx')) (m_huffnode dec)\<rparr>"
    have nc: "m_numcodes ctx' = 256" "m_numcodes ctx1 = 256" "m_maxbits ctx1 = 16" using f(2) b(1,2) h by simp_all
    obtain s3 where s3: "in_at (length (export_bits ctx' @ sb)) s3 sb" "import_tree_huffman small0 dec (mk_bitstream_in (take n out) (of_nat n)) = (Some (finish_import dec1 s3), s3)"
      unfolding dec1_def by (rule import_tree_huffman_at [OF ex _ _ sm fl(1), of dec]) (use dec nc in auto)
    have same: "map n_numbits (codes ctx1) = map n_numbits (codes dec1)"
      using map_numbits_set_lens [of "map n_numbits (codes ctx')" "m_huffnode dec"] cl dec f(1) by (simp add: dec1_def codes_def [of "m_huffnode_update _ _"])
    have d1: "sized dec1" "length (m_lookup dec1) = 2 ^ m_maxbits dec1" "m_numcodes dec1 \<le> 2 ^ 11" "m_maxbits ctx1 = m_maxbits dec1"
      using dec cl nc by (simp_all add: dec1_def sized_def)
    have kr: "kraft (m_maxbits ctx1) (codes ctx1) \<le> 2 ^ m_maxbits ctx1" using lens kraft_map [OF f(1)] nc h(3) by simp
    from finish_import_ok [OF c(4) sz d1(1-3) same d1(4) kr in_at_no_overflow [OF s3(1)]]
    obtain dec' where d': "finish_import dec1 s3 = Inr dec'" "coders_match ctx' dec'" "m_numcodes dec' = 256"
      using dec(1) by (auto simp: dec1_def)
    have "symbol_ok ctx' dec' (unat x)" if "x \<in> set source" for x
      using d'(2,3) lens h(4) [OF that] h(2) unat_byte [of x] by (simp add: symbol_ok_def)
    then obtain s4 where s4: "decode_loop dec' (length source) s3 = (source, s4)" "in_at (length (export_bits ctx' @ sb)) s4 []"
      using decode_loop_at [of _ s3 ctx' source "[]" dec'] s3(1) by (auto simp: sb_def)
    then show ?thesis
      using s3(2) d'(1) in_at_flush_no_overflow [OF s4(2)] fl(3) by (simp add: decode_8bit_def split_beta Let_def)
  qed
  ultimately show ?thesis using fl(2) lo by blast
  qed
qed

subsection \<open>Properties\<close>

text \<open>
  C5: The 8-bit Huffman coder loses nothing. Any buffer is encoded without an error into a
  destination of 4430 bits for the tree and 16 bits for each byte, and the decoder, which rebuilds
  the tree from the coded lengths, returns the buffer, whatever its tables held before.
\<close>

theorem huffman_8bit_roundtrip:
  assumes enc: "m_numcodes enc = 256" "m_maxbits enc = 16" "length (m_huffnode enc) = 512"
    and dec: "m_numcodes dec = 256" "m_maxbits dec = 16" "length (m_huffnode dec) = 256" "length (m_lookup dec) = 2 ^ 16"
    and sm: "m_numcodes small0 = 24" "m_maxbits small0 = 6" "length (m_huffnode small0) = 24" "length (m_lookup small0) = 2 ^ 6"
    and cap: "4430 + 16 * length source \<le> 8 * length dest" "length dest < 2 ^ 30"
  shows "\<exists>n out. encode_8bit enc source dest = (Some (Inr n), out) \<and> n \<le> length dest \<and>
    decode_8bit small0 dec (take n out) (length source) = Some (Inr source)"
  using huffman_8bit_code [OF enc dec sm, of source dest] cap by fastforce

theorem huffman_8bit_roundtrip_witness:
  "\<exists>n out. encode_8bit (projr (huffman_encoder 256 16)) [1, 2, 3, 3, 3, 9] (replicate 600 0) = (Some (Inr n), out) \<and> n \<le> 600 \<and>
    decode_8bit (projr (huffman_decoder 24 6)) (projr (huffman_decoder 256 16)) (take n out) 6 = Some (Inr [1, 2, 3, 3, 3, 9])"
proof -
  have len: "length [1, 2, 3, 3, 3, 9 :: u8] = 6" "length (replicate 600 (0 :: u8)) = 600" by simp_all
  show ?thesis
    by (rule huffman_8bit_roundtrip [of "projr (huffman_encoder 256 16)" "projr (huffman_decoder 256 16)" "projr (huffman_decoder 24 6)"
      "[1, 2, 3, 3, 3, 9]" "replicate 600 0", unfolded len])
      (simp_all add: huffman_encoder_def huffman_decoder_def huffman_context_base_def del: replicate.simps)
qed

end
