(* ===== verification/Hashing.thy ===== *)
theory Hashing
  imports Prelude
begin

text \<open>
  The hash and checksum helpers of \<^verbatim>\<open>lib/util/hashing.cpp\<close> and \<^verbatim>\<open>hashing.h\<close>: SHA-1, CRC-16,
  the 16-bit sum, the CRC-32 wrapper, and the conversions of digests from and to text. CRC-32 itself
  is zlib's \<open>crc32\<close> and stays a parameter. Shown here: the table-driven CRC-16 is the bitwise
  CCITT polynomial division and notices every change within one byte; the SHA-1 rounds over a
  circular buffer with rotating registers are those of the standard, and digesting in pieces of any
  size gives the standard's digest of the whole message.
\<close>

subsection \<open>Text forms\<close>

definition char_to_hex :: "char \<Rightarrow> int" where
  "char_to_hex c =
     (let n = int (of_char c :: nat) in
      if 48 \<le> n \<and> n \<le> 57 then n - 48
      else if 97 \<le> n \<and> n \<le> 102 then 10 + n - 97
      else if 65 \<le> n \<and> n \<le> 70 then 10 + n - 65
      else - 1)"

text \<open>
  \<open>hex_bytes n s raw\<close> is the loop of \<open>sha1_t::from_string\<close> and \<open>md5_t::from_string\<close>: the
  remaining \<open>n\<close> bytes of the digest, which are zero at the start, are filled from the string.
\<close>

fun hex_bytes :: "nat \<Rightarrow> string \<Rightarrow> bool \<times> bytes" where
  "hex_bytes 0 s = (True, [])"
| "hex_bytes (Suc n) (c0 # c1 # s) =
     (let upper = char_to_hex c0; lower = char_to_hex c1 in
      if upper = - 1 \<or> lower = - 1 then (False, replicate (Suc n) 0)
      else let (ok, rest) = hex_bytes n s
           in (ok, (push_bit 4 (word_of_int upper) OR word_of_int lower) # rest))"
| "hex_bytes (Suc n) s = (False, replicate (Suc n) 0)"

definition digest_from_string :: "nat \<Rightarrow> string \<Rightarrow> bool \<times> bytes" where
  "digest_from_string n s = (if length s < 2 * n then (False, replicate n 0) else hex_bytes n s)"

definition sha1_from_string :: "string \<Rightarrow> bool \<times> bytes" where
  "sha1_from_string = digest_from_string 20"

definition md5_from_string :: "string \<Rightarrow> bool \<times> bytes" where
  "md5_from_string = digest_from_string 16"

definition hex_digit :: "nat \<Rightarrow> char" where
  "hex_digit n = char_of ((if 10 > n then 48 else 97 - 10) + n)"

definition digest_as_string :: "bytes \<Rightarrow> string" where
  "digest_as_string raw =
     concat (map (\<lambda>elem. [hex_digit (unat (drop_bit 4 elem)), hex_digit (unat (elem AND 0x0f))]) raw)"

definition sha1_as_string :: "bytes \<Rightarrow> string" where
  "sha1_as_string = digest_as_string"

definition md5_as_string :: "bytes \<Rightarrow> string" where
  "md5_as_string = digest_as_string"

text \<open>
  The integer digests (\<open>crc32_t\<close>, \<open>crc16_t\<close>, \<open>sum16_t\<close>): \<open>n\<close> nibbles are shifted into the
  accumulator.
\<close>

fun hex_nibbles :: "nat \<Rightarrow> string \<Rightarrow> 'a::len word \<Rightarrow> bool \<times> 'a word" where
  "hex_nibbles 0 s raw = (True, raw)"
| "hex_nibbles (Suc n) (c # s) raw =
     (let nibble = char_to_hex c in
      if nibble = - 1 then (False, raw) else hex_nibbles n s (push_bit 4 raw OR word_of_int nibble))"
| "hex_nibbles (Suc n) [] raw = (False, raw)"

definition crc32_from_string :: "string \<Rightarrow> bool \<times> u32" where
  "crc32_from_string s = (if length s < 8 then (False, 0) else hex_nibbles 8 s 0)"

definition crc16_from_string :: "string \<Rightarrow> bool \<times> u16" where
  "crc16_from_string s = (if length s < 4 then (False, 0) else hex_nibbles 4 s 0)"

definition sum16_from_string :: "string \<Rightarrow> bool \<times> u16" where
  "sum16_from_string s = (if length s < 4 then (False, 0) else hex_nibbles 4 s 0)"

text \<open>\<^verbatim>\<open>string_format("%08x")\<close> and \<^verbatim>\<open>"%04x"\<close>: the nibbles, most significant first.\<close>

definition hex_word :: "nat \<Rightarrow> 'a::len word \<Rightarrow> string" where
  "hex_word n raw = map (\<lambda>i. hex_digit (unat (take_bit 4 (drop_bit (4 * (n - 1 - i)) raw)))) [0..<n]"

definition crc32_as_string :: "u32 \<Rightarrow> string" where
  "crc32_as_string = hex_word 8"

definition crc16_as_string :: "u16 \<Rightarrow> string" where
  "crc16_as_string = hex_word 4"

definition sum16_as_string :: "u16 \<Rightarrow> string" where
  "sum16_as_string = hex_word 4"

subsection \<open>CRC-16, the 16-bit sum and CRC-32\<close>

definition s_table :: "u16 list" where
  "s_table =
     [0x0000, 0x1021, 0x2042, 0x3063, 0x4084, 0x50a5, 0x60c6, 0x70e7,
      0x8108, 0x9129, 0xa14a, 0xb16b, 0xc18c, 0xd1ad, 0xe1ce, 0xf1ef,
      0x1231, 0x0210, 0x3273, 0x2252, 0x52b5, 0x4294, 0x72f7, 0x62d6,
      0x9339, 0x8318, 0xb37b, 0xa35a, 0xd3bd, 0xc39c, 0xf3ff, 0xe3de,
      0x2462, 0x3443, 0x0420, 0x1401, 0x64e6, 0x74c7, 0x44a4, 0x5485,
      0xa56a, 0xb54b, 0x8528, 0x9509, 0xe5ee, 0xf5cf, 0xc5ac, 0xd58d,
      0x3653, 0x2672, 0x1611, 0x0630, 0x76d7, 0x66f6, 0x5695, 0x46b4,
      0xb75b, 0xa77a, 0x9719, 0x8738, 0xf7df, 0xe7fe, 0xd79d, 0xc7bc,
      0x48c4, 0x58e5, 0x6886, 0x78a7, 0x0840, 0x1861, 0x2802, 0x3823,
      0xc9cc, 0xd9ed, 0xe98e, 0xf9af, 0x8948, 0x9969, 0xa90a, 0xb92b,
      0x5af5, 0x4ad4, 0x7ab7, 0x6a96, 0x1a71, 0x0a50, 0x3a33, 0x2a12,
      0xdbfd, 0xcbdc, 0xfbbf, 0xeb9e, 0x9b79, 0x8b58, 0xbb3b, 0xab1a,
      0x6ca6, 0x7c87, 0x4ce4, 0x5cc5, 0x2c22, 0x3c03, 0x0c60, 0x1c41,
      0xedae, 0xfd8f, 0xcdec, 0xddcd, 0xad2a, 0xbd0b, 0x8d68, 0x9d49,
      0x7e97, 0x6eb6, 0x5ed5, 0x4ef4, 0x3e13, 0x2e32, 0x1e51, 0x0e70,
      0xff9f, 0xefbe, 0xdfdd, 0xcffc, 0xbf1b, 0xaf3a, 0x9f59, 0x8f78,
      0x9188, 0x81a9, 0xb1ca, 0xa1eb, 0xd10c, 0xc12d, 0xf14e, 0xe16f,
      0x1080, 0x00a1, 0x30c2, 0x20e3, 0x5004, 0x4025, 0x7046, 0x6067,
      0x83b9, 0x9398, 0xa3fb, 0xb3da, 0xc33d, 0xd31c, 0xe37f, 0xf35e,
      0x02b1, 0x1290, 0x22f3, 0x32d2, 0x4235, 0x5214, 0x6277, 0x7256,
      0xb5ea, 0xa5cb, 0x95a8, 0x8589, 0xf56e, 0xe54f, 0xd52c, 0xc50d,
      0x34e2, 0x24c3, 0x14a0, 0x0481, 0x7466, 0x6447, 0x5424, 0x4405,
      0xa7db, 0xb7fa, 0x8799, 0x97b8, 0xe75f, 0xf77e, 0xc71d, 0xd73c,
      0x26d3, 0x36f2, 0x0691, 0x16b0, 0x6657, 0x7676, 0x4615, 0x5634,
      0xd94c, 0xc96d, 0xf90e, 0xe92f, 0x99c8, 0x89e9, 0xb98a, 0xa9ab,
      0x5844, 0x4865, 0x7806, 0x6827, 0x18c0, 0x08e1, 0x3882, 0x28a3,
      0xcb7d, 0xdb5c, 0xeb3f, 0xfb1e, 0x8bf9, 0x9bd8, 0xabbb, 0xbb9a,
      0x4a75, 0x5a54, 0x6a37, 0x7a16, 0x0af1, 0x1ad0, 0x2ab3, 0x3a92,
      0xfd2e, 0xed0f, 0xdd6c, 0xcd4d, 0xbdaa, 0xad8b, 0x9de8, 0x8dc9,
      0x7c26, 0x6c07, 0x5c64, 0x4c45, 0x3ca2, 0x2c83, 0x1ce0, 0x0cc1,
      0xef1f, 0xff3e, 0xcf5d, 0xdf7c, 0xaf9b, 0xbfba, 0x8fd9, 0x9ff8,
      0x6e17, 0x7e36, 0x4e55, 0x5e74, 0x2e93, 0x3eb2, 0x0ed1, 0x1ef0]"

definition crc16_reset :: u16 where
  "crc16_reset = 0xffff"

primrec crc16_append :: "bytes \<Rightarrow> u16 \<Rightarrow> u16" where
  "crc16_append [] crc = crc"
| "crc16_append (b # data) crc =
     crc16_append data (push_bit 8 crc XOR s_table ! unat (drop_bit 8 crc XOR ucast b))"

definition crc16_simple :: "bytes \<Rightarrow> u16" where
  "crc16_simple data = crc16_append data crc16_reset"

definition sum16_reset :: u16 where
  "sum16_reset = 0"

primrec sum16_append :: "bytes \<Rightarrow> u16 \<Rightarrow> u16" where
  "sum16_append [] acc = acc"
| "sum16_append (b # data) acc = sum16_append data (acc + ucast b)"

definition sum16_simple :: "bytes \<Rightarrow> u16" where
  "sum16_simple data = sum16_append data sum16_reset"

text \<open>\<open>zcrc\<close> is zlib's \<open>crc32(crc, data)\<close>.\<close>

definition crc32_append :: "(u32 \<Rightarrow> bytes \<Rightarrow> u32) \<Rightarrow> bytes \<Rightarrow> u32 \<Rightarrow> u32" where
  "crc32_append zcrc data accum = zcrc accum data"

definition crc32_simple :: "(u32 \<Rightarrow> bytes \<Rightarrow> u32) \<Rightarrow> bytes \<Rightarrow> u32" where
  "crc32_simple zcrc data = crc32_append zcrc data 0"

subsection \<open>SHA-1\<close>

definition rotl_32 :: "u32 \<Rightarrow> nat \<Rightarrow> u32" where
  "rotl_32 v shift = (let s = shift mod 32 in if s \<noteq> 0 then push_bit s v OR drop_bit (32 - s) v else v)"

definition sha1_b :: "u32 list \<Rightarrow> nat \<Rightarrow> u32 \<times> u32 list" where
  "sha1_b data i =
     (let r = data ! ((i + 13) mod 16) XOR data ! ((i + 8) mod 16) XOR data ! ((i + 2) mod 16) XOR data ! (i mod 16);
          r' = rotl_32 r 1
      in (r', data[i mod 16 := r']))"

text \<open>One round: \<open>f\<close> mixes three registers, \<open>w\<close> is the message word, \<open>k\<close> the constant.\<close>

definition sha1_round :: "(u32 \<Rightarrow> u32 \<Rightarrow> u32 \<Rightarrow> u32) \<Rightarrow> u32 \<Rightarrow> u32 \<Rightarrow> u32 list \<Rightarrow> nat \<Rightarrow> u32 list" where
  "sha1_round f k w d i =
     (let d1 = d[i mod 5 := d ! (i mod 5) + f (d ! ((i + 3) mod 5)) (d ! ((i + 2) mod 5)) (d ! ((i + 1) mod 5))
                 + w + k + rotl_32 (d ! ((i + 4) mod 5)) 5]
      in d1[(i + 3) mod 5 := rotl_32 (d1 ! ((i + 3) mod 5)) 30])"

definition sha1_r0 :: "nat \<Rightarrow> u32 list \<times> u32 list \<Rightarrow> u32 list \<times> u32 list" where
  "sha1_r0 i = (\<lambda>(data, d). (data, sha1_round (\<lambda>b c d. (b AND (c XOR d)) XOR d) 0x5a827999 (data ! i) d i))"

definition sha1_r1 :: "nat \<Rightarrow> u32 list \<times> u32 list \<Rightarrow> u32 list \<times> u32 list" where
  "sha1_r1 i = (\<lambda>(data, d). case sha1_b data i of (w, data') \<Rightarrow>
     (data', sha1_round (\<lambda>b c d. (b AND (c XOR d)) XOR d) 0x5a827999 w d i))"

definition sha1_r2 :: "nat \<Rightarrow> u32 list \<times> u32 list \<Rightarrow> u32 list \<times> u32 list" where
  "sha1_r2 i = (\<lambda>(data, d). case sha1_b data i of (w, data') \<Rightarrow>
     (data', sha1_round (\<lambda>b c d. b XOR c XOR d) 0x6ed9eba1 w d i))"

definition sha1_r3 :: "nat \<Rightarrow> u32 list \<times> u32 list \<Rightarrow> u32 list \<times> u32 list" where
  "sha1_r3 i = (\<lambda>(data, d). case sha1_b data i of (w, data') \<Rightarrow>
     (data', sha1_round (\<lambda>b c d. ((b OR c) AND d) OR (b AND c)) 0x8f1bbcdc w d i))"

definition sha1_r4 :: "nat \<Rightarrow> u32 list \<times> u32 list \<Rightarrow> u32 list \<times> u32 list" where
  "sha1_r4 i = (\<lambda>(data, d). case sha1_b data i of (w, data') \<Rightarrow>
     (data', sha1_round (\<lambda>b c d. b XOR c XOR d) 0xca62c1d6 w d i))"

definition sha1_process :: "u32 list \<Rightarrow> u32 list \<Rightarrow> u32 list \<times> u32 list" where
  "sha1_process st data =
     (let (data', d) = fold sha1_r4 [60..<80] (fold sha1_r3 [40..<60] (fold sha1_r2 [20..<40]
            (fold sha1_r1 [16..<20] (fold sha1_r0 [0..<16] (data, st)))))
      in (map (\<lambda>i. st ! i + d ! i) [0..<5], data'))"

record sha1_creator =
  m_cnt :: u64
  m_st :: "u32 list"
  m_buf :: "u32 list"

definition sha1_reset :: "u32 list \<Rightarrow> sha1_creator" where
  "sha1_reset buf =
     \<lparr>m_cnt = 0, m_st = [0xc3d2e1f0, 0x10325476, 0x98badcfe, 0xefcdab89, 0x67452301], m_buf = buf\<rparr>"

text \<open>
  \<open>set_byte\<close> stores byte \<open>i\<close> of the 64-byte buffer, which is an array of 16 words; with the swizzle
  of the source the first byte of a word is its most significant one on either kind of host.
\<close>

definition set_byte :: "u32 list \<Rightarrow> nat \<Rightarrow> u8 \<Rightarrow> u32 list" where
  "set_byte buf i v =
     (let k = 8 * (3 - i mod 4)
      in buf[i div 4 := (buf ! (i div 4) AND NOT (push_bit k 0xff)) OR push_bit k (ucast v)])"

primrec store_bytes :: "bytes \<Rightarrow> nat \<Rightarrow> u32 list \<Rightarrow> u32 list" where
  "store_bytes [] pos buf = buf"
| "store_bytes (b # bs) pos buf = store_bytes bs (Suc pos) (set_byte buf pos b)"

definition sha1_block :: "bytes \<Rightarrow> nat \<Rightarrow> u32 list \<times> u32 list \<Rightarrow> u32 list \<times> u32 list" where
  "sha1_block bs pos = (\<lambda>(st, buf). sha1_process st (store_bytes bs pos buf))"

fun sha1_blocks :: "bytes \<Rightarrow> u32 list \<times> u32 list \<Rightarrow> bytes \<times> u32 list \<times> u32 list" where
  "sha1_blocks data stb =
     (if length data \<ge> 64 then sha1_blocks (drop 64 data) (sha1_block (take 64 data) 0 stb) else (data, stb))"

declare sha1_blocks.simps [simp del]

definition sha1_append :: "bytes \<Rightarrow> sha1_creator \<Rightarrow> sha1_creator" where
  "sha1_append data c =
     (let residual = unat (drop_bit 3 (ucast (m_cnt c) :: u32) AND 63);
          cnt = m_cnt c + push_bit 3 (of_nat (length data));
          (rest, (st, buf), pos) =
            (if length data \<ge> 64 - residual then
               let (data1, stb1) =
                     (if residual \<noteq> 0 then (drop (64 - residual) data,
                        sha1_block (take (64 - residual) data) residual (m_st c, m_buf c))
                      else (data, (m_st c, m_buf c)));
                   (data2, stb2) = sha1_blocks data1 stb1
               in (data2, stb2, 0)
             else (data, (m_st c, m_buf c), residual))
      in \<lparr>m_cnt = cnt, m_st = st, m_buf = store_bytes rest pos buf\<rparr>)"

definition sha1_finish :: "sha1_creator \<Rightarrow> bytes" where
  "sha1_finish c =
     (let padlen = 64 - unat (63 AND (drop_bit 3 (ucast (m_cnt c) :: u32) + 8));
          padbuf = 0x80 # replicate (padlen - 1) 0;
          lenbuf = map (\<lambda>i. ucast (drop_bit (8 * (7 - i)) (m_cnt c))) [0..<8];
          c' = sha1_append lenbuf (sha1_append padbuf c)
      in map (\<lambda>i. ucast (drop_bit (8 * (3 - i mod 4)) (m_st c' ! (4 - i div 4)))) [0..<20])"

definition sha1_simple :: "u32 list \<Rightarrow> bytes \<Rightarrow> bytes" where
  "sha1_simple buf data = sha1_finish (sha1_append data (sha1_reset buf))"

subsection \<open>CRC-16 is polynomial division\<close>

text \<open>
  The reference: one bit of the shift register for \<open>x^16 + x^12 + x^5 + 1\<close>, and a byte fed in at
  the top.
\<close>

definition crc_bit :: "u16 \<Rightarrow> u16" where
  "crc_bit c = push_bit 1 c XOR (if bit c 15 then 0x1021 else 0)"

definition crc_byte :: "u8 \<Rightarrow> u16 \<Rightarrow> u16" where
  "crc_byte b c = (crc_bit ^^ 8) (c XOR push_bit 8 (ucast b))"

text \<open>
  The table follows from its first entry by doubling the index (one step of the register) and by
  adding one to an even index (adding the polynomial), which is checked entry by entry.
\<close>

fun evens :: "'a list \<Rightarrow> 'a list" where
  "evens (x # y # zs) = x # evens zs"
| "evens zs = zs"

fun odds :: "'a list \<Rightarrow> 'a list" where
  "odds (x # y # zs) = y # odds zs"
| "odds zs = []"

lemma nth_evens: "2 * k < length xs \<Longrightarrow> evens xs ! k = xs ! (2 * k)"
  by (induction xs arbitrary: k rule: evens.induct) (auto simp: nth_Cons split: nat.splits)

lemma nth_odds: "2 * k + 1 < length xs \<Longrightarrow> odds xs ! k = xs ! (2 * k + 1)"
  by (induction xs arbitrary: k rule: odds.induct) (auto simp: nth_Cons split: nat.splits)

lemma s_table_evens: "take 128 (map crc_bit s_table) = evens s_table"
  by (simp add: s_table_def crc_bit_def)

lemma s_table_odds: "map (\<lambda>x. x XOR 0x1021) (evens s_table) = odds s_table"
  by (simp add: s_table_def)

lemma length_s_table [simp]: "length s_table = 256" "length (evens s_table) = 128" "s_table ! 0 = 0"
  by (simp_all add: s_table_def)

lemma s_table_double: "k < 128 \<Longrightarrow> s_table ! (2 * k) = crc_bit (s_table ! k)"
  using arg_cong [OF s_table_evens, of "\<lambda>xs. xs ! k"] nth_evens [of k s_table] by simp

lemma s_table_plus_one: "k < 128 \<Longrightarrow> s_table ! (2 * k + 1) = s_table ! (2 * k) XOR 0x1021"
  using arg_cong [OF s_table_odds, of "\<lambda>xs. xs ! k"] nth_evens [of k s_table] nth_odds [of k s_table] by simp

lemma crc_bit_xor: "crc_bit (a XOR b) = crc_bit a XOR crc_bit b"
  by (rule bit_word_eqI) (auto simp: crc_bit_def bit_xor_iff bit_push_bit_iff)

lemma crc_bits_xor: "(crc_bit ^^ n) (a XOR b) = (crc_bit ^^ n) a XOR (crc_bit ^^ n) b"
  by (induction n) (simp_all add: crc_bit_xor)

lemma crc_bits_low: "n \<le> 8 \<Longrightarrow> (crc_bit ^^ n) (take_bit 8 c) = push_bit n (take_bit 8 c)"
proof (induction n)
  case (Suc n)
  have "\<not> bit (push_bit n (take_bit 8 c)) 15" using Suc.prems by (auto simp: bit_push_bit_iff bit_take_bit_iff)
  then have "crc_bit (push_bit n (take_bit 8 c)) = push_bit (Suc n) (take_bit 8 c)"
    by (simp only: crc_bit_def if_False xor.right_neutral push_bit_push_bit plus_1_eq_Suc)
  with Suc show ?case by (simp del: push_bit_Suc)
qed simp

lemma crc_bit_double: "k < 128 \<Longrightarrow> crc_bit (push_bit 8 (of_nat k)) = push_bit 8 (of_nat (2 * k))"
proof -
  assume k: "k < 128"
  have "\<not> bit k 7" using k by (simp add: bit_iff_odd)
  then have "\<not> bit (push_bit 8 (of_nat k :: u16)) 15"
    by (simp add: bit_push_bit_iff bit_of_nat_iff)
  then show ?thesis by (simp add: crc_bit_def push_bit_eq_mult)
qed

lemma xor_one_even: "of_nat (2 * k + 1) = (of_nat (2 * k) XOR 1 :: 'a::len word)"
  by (simp add: one_xor_eq xor.commute [of _ 1])

lemma crc_table: "i < 256 \<Longrightarrow> s_table ! i = (crc_bit ^^ 8) (push_bit 8 (of_nat i))"
proof (induction i rule: less_induct)
  case (less i)
  consider "i = 0" | k where "i = 2 * k" "0 < k" | k where "i = 2 * k + 1"
    by (metis oddE evenE bot_nat_0.not_eq_extremum mult_0_right)
  then show ?case
  proof cases
    case 1
    then show ?thesis by (simp add: numeral_eq_Suc crc_bit_def)
  next
    case 2
    with less have "s_table ! i = crc_bit ((crc_bit ^^ 8) (push_bit 8 (of_nat k)))"
      by (simp add: s_table_double)
    also have "\<dots> = (crc_bit ^^ 8) (push_bit 8 (of_nat i))"
      using 2 less.prems by (simp only: funpow_swap1 crc_bit_double [of k])
    finally show ?thesis .
  next
    case 3
    have "s_table ! i = s_table ! (2 * k) XOR 0x1021" using 3 less.prems s_table_plus_one [of k] by simp
    also have "s_table ! (2 * k) = (crc_bit ^^ 8) (push_bit 8 (of_nat (2 * k)))" using 3 less by simp
    also have "0x1021 = (crc_bit ^^ 8) (push_bit 8 1)" by code_simp
    finally show ?thesis
      unfolding crc_bits_xor [symmetric] 3 xor_one_even by (simp add: push_bit_xor)
  qed
qed

lemma s_table_nth: "s_table ! unat (ucast (x :: u8) :: u16) = (crc_bit ^^ 8) (push_bit 8 (ucast x))"
proof -
  have "unat x < 256" using unsigned_less [of x] by simp
  moreover have "of_nat (unat x) = (ucast x :: u16)" by (simp add: unsigned_of_nat)
  moreover have "unat (ucast x :: u16) = unat x"
    using calculation(1) by (simp add: unsigned_ucast_eq take_bit_nat_eq_self)
  ultimately show ?thesis using crc_table [of "unat x"] by simp
qed

lemma crc16_step: "push_bit 8 crc XOR s_table ! unat (drop_bit 8 crc XOR ucast b) = crc_byte b crc"
proof -
  define x where "x = (ucast (drop_bit 8 crc) XOR b :: u8)"
  have x: "drop_bit 8 crc XOR ucast b = (ucast x :: u16)"
    by (rule bit_word_eqI) (auto simp: x_def bit_simps dest: bit_imp_le_length)
  have c: "crc XOR push_bit 8 (ucast b) = push_bit 8 (ucast x) XOR take_bit 8 crc"
    by (rule bit_word_eqI) (auto simp: x_def bit_simps)
  have "crc_byte b crc = (crc_bit ^^ 8) (push_bit 8 (ucast x)) XOR push_bit 8 (take_bit 8 crc)"
    by (simp only: crc_byte_def c crc_bits_xor) (simp only: crc_bits_low [OF order_refl])
  moreover have "push_bit 8 (take_bit 8 crc) = push_bit 8 crc"
    by (rule bit_word_eqI) (auto simp: bit_simps)
  ultimately show ?thesis unfolding x s_table_nth by (simp add: xor.commute)
qed

lemma crc16_append_fold: "crc16_append data crc = fold crc_byte data crc"
  by (induction data arbitrary: crc) (simp_all add: crc16_step)

lemma crc16_append_append: "crc16_append (xs @ ys) crc = crc16_append ys (crc16_append xs crc)"
  by (induction xs arbitrary: crc) simp_all

lemma crc_bit_inj: "inj crc_bit"
proof (rule injI)
  fix a b assume eq: "crc_bit a = crc_bit b"
  have low: "bit (crc_bit c) 0 \<longleftrightarrow> bit c 15" for c
    using bit_push_bit_iff [of 1 c 0] by (simp add: crc_bit_def bit_0 even_xor_iff)
  have top: "bit a 15 \<longleftrightarrow> bit b 15" using eq low by metis
  have "push_bit 1 a = push_bit 1 b" using eq top by (auto simp: crc_bit_def xor_cancel split: if_splits)
  then have low15: "bit a n \<longleftrightarrow> bit b n" if "n < 15" for n
    using that bit_push_bit_iff [of 1 a "Suc n"] bit_push_bit_iff [of 1 b "Suc n"] by simp
  show "a = b"
  proof (rule bit_word_eqI)
    fix n assume "n < LENGTH(16)"
    then have "n < 15 \<or> n = 15" by auto
    with low15 top show "bit a n \<longleftrightarrow> bit b n" by auto
  qed
qed

lemma crc_byte_inj: "inj (crc_byte b)" "inj (\<lambda>b. crc_byte b c)"
proof -
  have f: "inj (crc_bit ^^ n)" for n
    by (induction n) (auto intro: inj_compose [OF crc_bit_inj, unfolded comp_def])
  show "inj (crc_byte b)"
  proof (rule injI)
    fix x y assume "crc_byte b x = crc_byte b y"
    then have "x XOR push_bit 8 (ucast b) = y XOR push_bit 8 (ucast b)"
      unfolding crc_byte_def by (rule injD [OF f])
    then show "x = y" by (simp add: xor_cancel)
  qed
  show "inj (\<lambda>b. crc_byte b c)"
  proof (rule injI)
    fix a b assume "crc_byte a c = crc_byte b c"
    then have "c XOR push_bit 8 (ucast a) = c XOR push_bit 8 (ucast b)"
      unfolding crc_byte_def by (rule injD [OF f])
    then have eq: "push_bit 8 (ucast a) = (push_bit 8 (ucast b) :: u16)"
      by (simp add: xor.commute [of c] xor_cancel)
    show "a = b"
    proof (rule bit_word_eqI)
      fix n assume "n < LENGTH(8)"
      then show "bit a n \<longleftrightarrow> bit b n"
        using arg_cong [OF eq, of "\<lambda>w. bit w (8 + n)"] by (simp add: bit_simps)
    qed
  qed
qed

lemma crc16_append_inj: "inj (crc16_append data)"
proof (induction data)
  case (Cons b data)
  have "crc16_append (b # data) = crc16_append data \<circ> crc_byte b"
    by (rule ext) (simp add: crc16_step)
  with Cons crc_byte_inj(1) show ?case by (metis inj_compose)
qed simp

subsection \<open>SHA-1: the standard's compression function\<close>

definition fips_f :: "nat \<Rightarrow> u32 \<Rightarrow> u32 \<Rightarrow> u32 \<Rightarrow> u32" where
  "fips_f t b c d =
     (if t < 20 then (b AND c) OR (NOT b AND d)
      else if t < 40 then b XOR c XOR d
      else if t < 60 then (b AND c) OR (b AND d) OR (c AND d)
      else b XOR c XOR d)"

definition fips_k :: "nat \<Rightarrow> u32" where
  "fips_k t = (if t < 20 then 0x5a827999 else if t < 40 then 0x6ed9eba1 else if t < 60 then 0x8f1bbcdc else 0xca62c1d6)"

fun fips_w :: "u32 list \<Rightarrow> nat \<Rightarrow> u32" where
  "fips_w m t =
     (if t < 16 then m ! t
      else rotl_32 (fips_w m (t - 3) XOR fips_w m (t - 8) XOR fips_w m (t - 14) XOR fips_w m (t - 16)) 1)"

declare fips_w.simps [simp del]

type_synonym regs = "u32 \<times> u32 \<times> u32 \<times> u32 \<times> u32"

definition fips_step :: "u32 list \<Rightarrow> nat \<Rightarrow> regs \<Rightarrow> regs" where
  "fips_step m t = (\<lambda>(a, b, c, d, e). (rotl_32 a 5 + fips_f t b c d + e + fips_k t + fips_w m t, a, rotl_32 b 30, c, d))"

definition fips_compress :: "u32 list \<Rightarrow> regs \<Rightarrow> regs" where
  "fips_compress m h = (case h of (h0, h1, h2, h3, h4) \<Rightarrow>
     case fold (fips_step m) [0..<80] h of (a, b, c, d, e) \<Rightarrow> (h0 + a, h1 + b, h2 + c, h3 + d, h4 + e))"

text \<open>The registers rotate through the array: before round \<open>i\<close> they are found at these places.\<close>

definition regs_at :: "u32 list \<Rightarrow> nat \<Rightarrow> regs" where
  "regs_at d i = (d ! ((i + 4) mod 5), d ! ((i + 3) mod 5), d ! ((i + 2) mod 5), d ! ((i + 1) mod 5), d ! (i mod 5))"

lemma regs_at_mod: "regs_at d i = regs_at d (i mod 5)"
  by (simp only: regs_at_def mod_add_left_eq mod_mod_trivial)

lemma mod5_facts:
  "(Suc i + 4) mod 5 = i mod 5" "(Suc i + 3) mod 5 = (i + 4) mod 5" "(Suc i + 2) mod 5 = (i + 3) mod 5"
  "(Suc i + 1) mod 5 = (i + 2) mod 5" "Suc i mod 5 = (i + 1) mod 5"
  "i mod 5 \<noteq> (i + 1) mod 5" "i mod 5 \<noteq> (i + 2) mod 5" "i mod 5 \<noteq> (i + 3) mod 5" "i mod 5 \<noteq> (i + 4) mod 5"
  "(i + 3) mod 5 \<noteq> (i + 1) mod 5" "(i + 3) mod 5 \<noteq> (i + 2) mod 5" "(i + 3) mod 5 \<noteq> (i + 4) mod (5 :: nat)"
proof -
  have "Suc i + 4 = i + 5" "Suc i + 3 = i + 4" "Suc i + 2 = i + 3" "Suc i + 1 = i + 2" "Suc i = i + 1" by simp_all
  then show "(Suc i + 4) mod 5 = i mod 5" "(Suc i + 3) mod 5 = (i + 4) mod 5" "(Suc i + 2) mod 5 = (i + 3) mod 5"
    "(Suc i + 1) mod 5 = (i + 2) mod 5" "Suc i mod 5 = (i + 1) mod 5"
    by (simp_all only: mod_add_self2)
  show "i mod 5 \<noteq> (i + 1) mod 5" "i mod 5 \<noteq> (i + 2) mod 5" "i mod 5 \<noteq> (i + 3) mod 5" "i mod 5 \<noteq> (i + 4) mod 5"
    using mod_apart [of 0 1 5 i] mod_apart [of 0 2 5 i] mod_apart [of 0 3 5 i] mod_apart [of 0 4 5 i] by auto
  show "(i + 3) mod 5 \<noteq> (i + 1) mod 5" "(i + 3) mod 5 \<noteq> (i + 2) mod 5" "(i + 3) mod 5 \<noteq> (i + 4) mod 5"
    using mod_apart [of 1 3 5 i] mod_apart [of 2 3 5 i] mod_apart [of 3 4 5 i] by auto
qed

lemma sha1_round_regs:
  assumes "length d = 5"
  shows "regs_at (sha1_round f k w d i) (Suc i) =
    (case regs_at d i of (a, b, c, d, e) \<Rightarrow> (e + f b c d + w + k + rotl_32 a 5, a, rotl_32 b 30, c, d))"
  unfolding regs_at_def sha1_round_def Let_def mod5_facts(1-5) prod.case
  using assms mod5_facts(6-12) [of i] by (simp only: nth_list_update length_list_update mod_less_divisor
      zero_less_numeral simp_thms if_True if_False not_sym cong: if_cong)

lemma length_sha1_round [simp]: "length (sha1_round f k w d i) = length d"
  by (simp add: sha1_round_def Let_def)

text \<open>The circular message schedule holds the last sixteen words.\<close>

definition window :: "u32 list \<Rightarrow> u32 list \<Rightarrow> nat \<Rightarrow> bool" where
  "window m data t \<longleftrightarrow> length data = 16 \<and>
     (\<forall>s. max t 16 - 16 \<le> s \<and> s < max t 16 \<longrightarrow> data ! (s mod 16) = fips_w m s)"

lemma mod16_shift:
  assumes "16 \<le> t"
  shows "(t + 13) mod 16 = (t - 3) mod 16" "(t + 8) mod 16 = (t - 8) mod 16"
    "(t + 2) mod 16 = (t - 14) mod 16" "t mod 16 = (t - 16) mod (16 :: nat)"
proof -
  obtain u where t: "t = 16 + u" using assms le_Suc_ex by blast
  have "t + 13 = 16 + (u + 13) + 0" "t - 3 = u + 13" "t + 8 = 16 + (u + 8)" "t - 8 = u + 8"
    "t + 2 = 16 + (u + 2)" "t - 14 = u + 2" "t - 16 = u" using t by auto
  then show "(t + 13) mod 16 = (t - 3) mod 16" "(t + 8) mod 16 = (t - 8) mod 16"
    "(t + 2) mod 16 = (t - 14) mod 16" "t mod 16 = (t - 16) mod 16"
    using t by (simp_all only: mod_add_self1 add_0_right)
qed

lemma mod16_apart: "t - 15 \<le> s \<Longrightarrow> s < t \<Longrightarrow> s mod 16 \<noteq> t mod (16 :: nat)"
  using mod_apart [of 0 "t - s" 16 s] by simp

lemma sha1_b_window:
  assumes win: "window m data t" and t: "16 \<le> t"
  shows "fst (sha1_b data t) = fips_w m t" "window m (snd (sha1_b data t)) (Suc t)"
proof -
  have mx: "max t 16 = t" using t by simp
  have nth: "data ! (s mod 16) = fips_w m s" if "t - 16 \<le> s" "s < t" for s
    using win that unfolding window_def mx by blast
  have "data ! ((t + 13) mod 16) = fips_w m (t - 3)" "data ! ((t + 8) mod 16) = fips_w m (t - 8)"
    "data ! ((t + 2) mod 16) = fips_w m (t - 14)" "data ! (t mod 16) = fips_w m (t - 16)"
    using nth [of "t - 3"] nth [of "t - 8"] nth [of "t - 14"] nth [of "t - 16"] t
    by (simp_all only: mod16_shift [OF t])
  then show fst: "fst (sha1_b data t) = fips_w m t"
    using t fips_w.simps [of m t] by (simp add: sha1_b_def Let_def)
  have upd: "snd (sha1_b data t) = data[t mod 16 := fips_w m t]"
    using fst by (simp add: sha1_b_def Let_def)
  show "window m (snd (sha1_b data t)) (Suc t)"
    unfolding window_def upd
  proof (intro conjI allI impI)
    show len: "length (data[t mod 16 := fips_w m t]) = 16" using win by (simp add: window_def)
    fix s assume "max (Suc t) 16 - 16 \<le> s \<and> s < max (Suc t) 16"
    then have s: "t - 15 \<le> s" "s \<le> t" using t by auto
    show "data[t mod 16 := fips_w m t] ! (s mod 16) = fips_w m s"
    proof (cases "s = t")
      case False
      then have "s mod 16 \<noteq> t mod 16" using s mod16_apart [of t s] by simp
      then show ?thesis using nth [of s] s False by simp
    qed (use len in simp)
  qed
qed

definition rounds_inv :: "u32 list \<Rightarrow> u32 list \<Rightarrow> nat \<Rightarrow> u32 list \<times> u32 list \<Rightarrow> bool" where
  "rounds_inv m st t = (\<lambda>(data, d). length d = 5 \<and> window m data t \<and>
     regs_at d t = fold (fips_step m) [0..<t] (regs_at st 0))"

lemma fold_upt_inv:
  assumes "\<And>t x. lo \<le> t \<Longrightarrow> t < hi \<Longrightarrow> P t x \<Longrightarrow> P (Suc t) (r t x)" "lo \<le> hi" "P lo x"
  shows "P hi (fold r [lo..<hi] x)"
  using assms(2,1,3)
proof (induction hi rule: dec_induct)
  case (step n)
  then show ?case by simp
qed simp

lemma round_fn:
  "(b AND (c XOR d)) XOR d = (b AND c) OR (NOT b AND d)"
  "((b OR c) AND d) OR (b AND c) = (b AND c) OR (b AND d) OR (c AND d)" for b c d :: u32
  by (rule bit_word_eqI, auto simp: bit_simps)+

lemma round_step:
  assumes inv: "rounds_inv m st t (data, d)" and w: "w = fips_w m t" and win: "window m data' (Suc t)"
    and f: "\<And>b c d. f b c d = fips_f t b c d" and k: "k = fips_k t"
  shows "rounds_inv m st (Suc t) (data', sha1_round f k w d t)"
  using inv sha1_round_regs [of d f k w t] win
  by (cases "regs_at d t") (auto simp: rounds_inv_def fips_step_def w f k add_ac)

lemma sha1_r0_inv: "rounds_inv m st t x \<Longrightarrow> t < 16 \<Longrightarrow> rounds_inv m st (Suc t) (sha1_r0 t x)"
proof (cases x)
  case (Pair data d)
  assume inv: "rounds_inv m st t x" and t: "t < 16"
  have win: "window m data t" using inv Pair by (simp add: rounds_inv_def)
  then have "window m data (Suc t)" "data ! t = fips_w m t" using t by (auto simp: window_def)
  with inv Pair t show ?thesis
    by (simp add: sha1_r0_def round_step round_fn fips_f_def fips_k_def)
qed

lemma sha1_rx_inv:
  "rounds_inv m st t x \<Longrightarrow> 16 \<le> t \<Longrightarrow> t < 20 \<Longrightarrow> rounds_inv m st (Suc t) (sha1_r1 t x)"
  "rounds_inv m st t x \<Longrightarrow> 20 \<le> t \<Longrightarrow> t < 40 \<Longrightarrow> rounds_inv m st (Suc t) (sha1_r2 t x)"
  "rounds_inv m st t x \<Longrightarrow> 40 \<le> t \<Longrightarrow> t < 60 \<Longrightarrow> rounds_inv m st (Suc t) (sha1_r3 t x)"
  "rounds_inv m st t x \<Longrightarrow> 60 \<le> t \<Longrightarrow> rounds_inv m st (Suc t) (sha1_r4 t x)"
proof -
  obtain data d where x: "x = (data, d)" by fastforce
  obtain w data' where b: "sha1_b data t = (w, data')" by fastforce
  have w: "w = fips_w m t" "window m data' (Suc t)" if "rounds_inv m st t x" "16 \<le> t"
    using sha1_b_window [of m data t] that b x by (auto simp: rounds_inv_def)
  show "rounds_inv m st t x \<Longrightarrow> 16 \<le> t \<Longrightarrow> t < 20 \<Longrightarrow> rounds_inv m st (Suc t) (sha1_r1 t x)"
    "rounds_inv m st t x \<Longrightarrow> 20 \<le> t \<Longrightarrow> t < 40 \<Longrightarrow> rounds_inv m st (Suc t) (sha1_r2 t x)"
    "rounds_inv m st t x \<Longrightarrow> 40 \<le> t \<Longrightarrow> t < 60 \<Longrightarrow> rounds_inv m st (Suc t) (sha1_r3 t x)"
    "rounds_inv m st t x \<Longrightarrow> 60 \<le> t \<Longrightarrow> rounds_inv m st (Suc t) (sha1_r4 t x)"
    using w by (simp_all add: sha1_r1_def sha1_r2_def sha1_r3_def sha1_r4_def x b round_step round_fn fips_f_def fips_k_def)
qed

lemma sha1_process_fips:
  assumes "length st = 5" "length m = 16"
  shows "regs_at (fst (sha1_process st m)) 0 = fips_compress m (regs_at st 0)"
    and "length (fst (sha1_process st m)) = 5" and "length (snd (sha1_process st m)) = 16"
proof -
  have "rounds_inv m st 0 (m, st)"
    using assms by (auto simp: rounds_inv_def window_def fips_w.simps)
  then have "rounds_inv m st 16 (fold sha1_r0 [0..<16] (m, st))"
    by (rule fold_upt_inv [where P = "rounds_inv m st", rotated 2]) (auto intro: sha1_r0_inv)
  then have "rounds_inv m st 20 (fold sha1_r1 [16..<20] (fold sha1_r0 [0..<16] (m, st)))"
    by (rule fold_upt_inv [where P = "rounds_inv m st", rotated 2]) (auto intro: sha1_rx_inv)
  then have "rounds_inv m st 40 (fold sha1_r2 [20..<40] (fold sha1_r1 [16..<20] (fold sha1_r0 [0..<16] (m, st))))"
    by (rule fold_upt_inv [where P = "rounds_inv m st", rotated 2]) (auto intro: sha1_rx_inv)
  then have "rounds_inv m st 60 (fold sha1_r3 [40..<60] (fold sha1_r2 [20..<40] (fold sha1_r1 [16..<20] (fold sha1_r0 [0..<16] (m, st)))))"
    by (rule fold_upt_inv [where P = "rounds_inv m st", rotated 2]) (auto intro: sha1_rx_inv)
  then have fin: "rounds_inv m st 80 (fold sha1_r4 [60..<80] (fold sha1_r3 [40..<60] (fold sha1_r2 [20..<40]
      (fold sha1_r1 [16..<20] (fold sha1_r0 [0..<16] (m, st))))))"
    by (rule fold_upt_inv [where P = "rounds_inv m st", rotated 2]) (auto intro: sha1_rx_inv)
  obtain data d where run: "fold sha1_r4 [60..<80] (fold sha1_r3 [40..<60] (fold sha1_r2 [20..<40]
      (fold sha1_r1 [16..<20] (fold sha1_r0 [0..<16] (m, st))))) = (data, d)" by fastforce
  with fin have d: "length d = 5" "length data = 16" "regs_at d 80 = fold (fips_step m) [0..<80] (regs_at st 0)"
    by (auto simp: rounds_inv_def window_def)
  have proc: "sha1_process st m = (map (\<lambda>i. st ! i + d ! i) [0..<5], data)"
    unfolding sha1_process_def run by simp
  have "regs_at d 80 = regs_at d 0" using regs_at_mod [of d 80] by simp
  then have "fold (fips_step m) [0..<80] (regs_at st 0) = (d ! 4, d ! 3, d ! 2, d ! 1, d ! 0)"
    using d(3) by (simp add: regs_at_def numeral_2_eq_2)
  moreover have "regs_at st 0 = (st ! 4, st ! 3, st ! 2, st ! 1, st ! 0)" by (simp add: regs_at_def numeral_2_eq_2)
  ultimately show "regs_at (fst (sha1_process st m)) 0 = fips_compress m (regs_at st 0)"
    unfolding proc fips_compress_def by (simp add: regs_at_def numeral_2_eq_2)
  show "length (fst (sha1_process st m)) = 5" "length (snd (sha1_process st m)) = 16"
    using proc d by simp_all
qed

subsection \<open>SHA-1: digesting in pieces\<close>

definition buf_byte :: "u32 list \<Rightarrow> nat \<Rightarrow> u8" where
  "buf_byte buf i = ucast (drop_bit (8 * (3 - i mod 4)) (buf ! (i div 4)))"

lemma length_set_byte [simp]: "length (set_byte buf i v) = length buf"
  by (simp add: set_byte_def Let_def)

lemma length_store_bytes [simp]: "length (store_bytes bs pos buf) = length buf"
  by (induction bs arbitrary: pos buf) simp_all

lemma buf_byte_set:
  assumes "length buf = 16" "i < 64"
  shows "buf_byte (set_byte buf i v) j = (if j = i then v else buf_byte buf j)"
proof (cases "j div 4 = i div 4")
  case True
  have i: "i div 4 < length buf" using assms by linarith
  have ne: "j \<noteq> i \<Longrightarrow> j mod 4 \<noteq> i mod 4" using True by (metis div_mult_mod_eq)
  have lt: "i mod 4 < 4" "j mod 4 < 4" by simp_all
  define ki kj where "ki = 8 * (3 - i mod 4)" and "kj = 8 * (3 - j mod 4)"
  define w where "w = buf ! (i div 4)"
  have set: "buf_byte (set_byte buf i v) j = ucast (drop_bit kj ((w AND NOT (push_bit ki 0xff)) OR push_bit ki (ucast v)))"
    using True i by (simp add: buf_byte_def set_byte_def Let_def ki_def kj_def w_def)
  show ?thesis
  proof (cases "j = i")
    case True
    then have "kj = ki" "ki \<le> 24" by (simp_all add: ki_def kj_def)
    then show ?thesis unfolding set using True by (intro bit_word_eqI) (auto simp: bit_simps)
  next
    case False
    then have "ki + 8 \<le> kj \<or> kj + 8 \<le> ki" using ne lt unfolding ki_def kj_def by linarith
    moreover have "kj \<le> 24" by (simp add: kj_def)
    ultimately have "ucast (drop_bit kj ((w AND NOT (push_bit ki 0xff)) OR push_bit ki (ucast v))) = (ucast (drop_bit kj w) :: u8)"
      by (intro bit_word_eqI) (auto simp: bit_simps dest: bit_imp_le_length)
    then show ?thesis unfolding set using False True by (simp add: buf_byte_def kj_def w_def)
  qed
next
  case False
  then have "j \<noteq> i" by auto
  with False show ?thesis by (simp add: buf_byte_def set_byte_def Let_def)
qed

lemma buf_eqI:
  assumes "length a = 16" "length b = 16" "\<And>j. j < 64 \<Longrightarrow> buf_byte a j = buf_byte b j"
  shows "a = b"
proof (rule nth_equalityI)
  fix k assume k: "k < length a"
  show "a ! k = b ! k"
  proof (rule bit_word_eqI)
    fix n assume n: "n < LENGTH(32)"
    define r j where "r = 3 - n div 8" and "j = 4 * k + r"
    have r: "r < 4" "3 - r = n div 8" using n by (auto simp: r_def)
    then have j: "j < 64" "j div 4 = k" "j mod 4 = r" using k assms(1) by (auto simp: j_def)
    have "8 * (3 - j mod 4) + n mod 8 = n" using r j(3) by (simp add: mult_div_mod_eq)
    then show "bit (a ! k) n \<longleftrightarrow> bit (b ! k) n"
      using arg_cong [OF assms(3) [OF j(1)], of "\<lambda>w. bit w (n mod 8)"] j(2)
      by (simp add: buf_byte_def bit_simps)
  qed
qed (use assms in simp)

lemma store_bytes_byte:
  assumes "length buf = 16" "pos + length bs \<le> 64"
  shows "buf_byte (store_bytes bs pos buf) j = (if pos \<le> j \<and> j < pos + length bs then bs ! (j - pos) else buf_byte buf j)"
  using assms
proof (induction bs arbitrary: pos buf)
  case (Cons b bs)
  have "j - pos = Suc (j - Suc pos)" if "Suc pos \<le> j" using that by simp
  with Cons show ?case by (auto simp: buf_byte_set nth_Cons')
qed auto

definition block_words :: "bytes \<Rightarrow> u32 list" where
  "block_words bs = store_bytes bs 0 (replicate 16 0)"

lemma length_block_words [simp]: "length (block_words bs) = 16"
  by (simp add: block_words_def)

lemma store_bytes_block:
  assumes "length buf = 16" "\<forall>i < length pre. buf_byte buf i = pre ! i" "length pre + length bs = 64"
  shows "store_bytes bs (length pre) buf = block_words (pre @ bs)"
proof (rule buf_eqI)
  fix j :: nat assume "j < 64"
  with assms show "buf_byte (store_bytes bs (length pre) buf) j = buf_byte (block_words (pre @ bs)) j"
    by (simp add: store_bytes_byte block_words_def nth_append)
qed (use assms in simp_all)

text \<open>The hash of the complete blocks of a message.\<close>

fun absorb :: "bytes \<Rightarrow> u32 list \<Rightarrow> u32 list" where
  "absorb msg st = (if 64 \<le> length msg then absorb (drop 64 msg) (fst (sha1_process st (block_words (take 64 msg)))) else st)"

declare absorb.simps [simp del]

lemma absorb_short: "length msg < 64 \<Longrightarrow> absorb msg st = st"
  by (simp add: absorb.simps)

lemma absorb_block: "length b = 64 \<Longrightarrow> absorb (b @ msg) st = absorb msg (fst (sha1_process st (block_words b)))"
  by (simp add: absorb.simps [of "b @ msg"])

lemma absorb_append: "64 dvd length xs \<Longrightarrow> absorb (xs @ ys) st = absorb ys (absorb xs st)"
proof (induction xs st rule: absorb.induct)
  case (1 xs st)
  show ?case
  proof (cases "64 \<le> length xs")
    case True
    have "64 dvd length (drop 64 xs)" using 1(2) True by (simp add: dvd_diff_nat)
    with 1(1) True show ?thesis by (simp add: absorb.simps [of "xs @ ys"] absorb.simps [of xs])
  next
    case False
    with 1(2) have "xs = []" using dvd_imp_le [of 64 "length xs"] by auto
    then show ?thesis by (simp add: absorb_short)
  qed
qed

lemma length_absorb: "length st = 5 \<Longrightarrow> length (absorb msg st) = 5"
proof (induction msg st rule: absorb.induct)
  case (1 msg st)
  then show ?case by (subst absorb.simps) (simp add: sha1_process_fips)
qed

lemma sha1_blocks_absorb:
  assumes "sha1_blocks data (st, buf) = (rest, st', buf')" "length buf = 16" "length st = 5"
  shows "\<exists>full. data = full @ rest \<and> 64 dvd length full \<and> length rest < 64 \<and> st' = absorb full st \<and> length buf' = 16"
  using assms
proof (induction "length data" arbitrary: data st buf rule: less_induct)
  case less
  show ?case
  proof (cases "64 \<le> length data")
    case False
    with less.prems show ?thesis by (auto simp: sha1_blocks.simps [of data] absorb_short)
  next
    case True
    let ?b = "take 64 data"
    obtain st1 buf1 where p: "sha1_process st (block_words ?b) = (st1, buf1)" by fastforce
    have len: "length st1 = 5" "length buf1 = 16"
      using sha1_process_fips(2,3) [OF less.prems(3) length_block_words, of ?b] p by auto
    have "store_bytes ?b 0 buf = block_words ?b"
      using store_bytes_block [of buf "[]" ?b] less.prems(2) True by simp
    then have "sha1_blocks (drop 64 data) (st1, buf1) = (rest, st', buf')"
      using less.prems(1) True p by (simp add: sha1_blocks.simps [of data] sha1_block_def)
    moreover have "length (drop 64 data) < length data" using True by simp
    ultimately obtain full where full: "drop 64 data = full @ rest" "64 dvd length full" "length rest < 64"
      "st' = absorb full st1" "length buf' = 16"
      using less.hyps len by blast
    have "data = (?b @ full) @ rest" using full(1) by (metis append_take_drop_id append.assoc)
    moreover have "64 dvd length (?b @ full)" using full(2) True by simp
    moreover have "st' = absorb (?b @ full) st" using full(4) True p by (simp add: absorb_block)
    ultimately show ?thesis using full(3,5) by blast
  qed
qed

definition sha1_init :: "u32 list" where
  "sha1_init = [0xc3d2e1f0, 0x10325476, 0x98badcfe, 0xefcdab89, 0x67452301]"

definition sha1_rep :: "sha1_creator \<Rightarrow> bytes \<Rightarrow> bool" where
  "sha1_rep c msg \<longleftrightarrow> m_cnt c = of_nat (8 * length msg) \<and> length (m_buf c) = 16 \<and>
     (\<exists>full tail. msg = full @ tail \<and> 64 dvd length full \<and> length tail < 64 \<and>
        m_st c = absorb full sha1_init \<and> (\<forall>i < length tail. buf_byte (m_buf c) i = tail ! i))"

lemma sha1_reset_rep: "length buf = 16 \<Longrightarrow> sha1_rep (sha1_reset buf) []"
  by (simp add: sha1_rep_def sha1_reset_def sha1_init_def absorb_short)

lemma residual_eq: "unat (drop_bit 3 (ucast (of_nat (8 * n) :: u64) :: u32) AND 63) = n mod 64"
proof -
  have m: "(63 :: u32) = mask 6" by (simp add: mask_eq_exp_minus_1)
  have "drop_bit 3 (ucast (of_nat (8 * n) :: u64) :: u32) AND 63 = take_bit 6 (of_nat n)"
  proof (rule bit_word_eqI)
    fix i
    have "8 * n = push_bit 3 n" by (simp add: push_bit_eq_mult)
    then show "bit (drop_bit 3 (ucast (of_nat (8 * n) :: u64) :: u32) AND 63) i \<longleftrightarrow> bit (take_bit 6 (of_nat n :: u32)) i"
      unfolding m by (auto simp: bit_simps bit_of_nat_iff)
  qed
  then have "unat (drop_bit 3 (ucast (of_nat (8 * n) :: u64) :: u32) AND 63) = take_bit 6 (take_bit 32 n)"
    by (simp add: unsigned_take_bit_eq unsigned_of_nat)
  then show ?thesis by (simp add: take_bit_eq_mod mod_mod_cancel)
qed

lemma sha1_append_rep:
  assumes rep: "sha1_rep c msg"
  shows "sha1_rep (sha1_append data c) (msg @ data)"
proof -
  obtain full tail where msg: "msg = full @ tail" "64 dvd length full" "length tail < 64"
    and st: "m_st c = absorb full sha1_init" and buf: "\<forall>i < length tail. buf_byte (m_buf c) i = tail ! i"
    and cnt: "m_cnt c = of_nat (8 * length msg)" and lb: "length (m_buf c) = 16"
    using rep by (auto simp: sha1_rep_def)
  have ls: "length (m_st c) = 5" unfolding st by (intro length_absorb) (simp add: sha1_init_def)
  have res: "unat (drop_bit 3 (ucast (m_cnt c) :: u32) AND 63) = length tail"
    unfolding cnt residual_eq using msg by (simp add: mod_add_left_eq [symmetric] dvd_imp_mod_0)
  have cnt': "m_cnt c + push_bit 3 (of_nat (length data)) = of_nat (8 * length (msg @ data))"
    by (simp add: cnt push_bit_eq_mult algebra_simps)
  show ?thesis
  proof (cases "64 - length tail \<le> length data")
    case False
    then have "sha1_append data c =
        \<lparr>m_cnt = of_nat (8 * length (msg @ data)), m_st = m_st c, m_buf = store_bytes data (length tail) (m_buf c)\<rparr>"
      by (simp add: sha1_append_def Let_def res cnt')
    moreover have "msg @ data = full @ (tail @ data)" "length (tail @ data) < 64" using msg False by auto
    moreover have "\<forall>i < length (tail @ data). buf_byte (store_bytes data (length tail) (m_buf c)) i = (tail @ data) ! i"
      using buf lb False by (auto simp: store_bytes_byte nth_append)
    ultimately show ?thesis
      unfolding sha1_rep_def using msg(2) st lb by (intro conjI exI [of _ full] exI [of _ "tail @ data"]) simp_all
  next
    case True
    define head where "head = take (64 - length tail) data"
    define stb where "stb = (if tail \<noteq> [] then sha1_block head (length tail) (m_st c, m_buf c) else (m_st c, m_buf c))"
    define data1 where "data1 = (if tail \<noteq> [] then drop (64 - length tail) data else data)"
    define full1 where "full1 = (if tail \<noteq> [] then full @ tail @ head else full)"
    have hd: "length tail + length head = 64" using True msg(3) by (simp add: head_def)
    have split1: "msg @ data = full1 @ data1" "64 dvd length full1"
      using msg hd by (auto simp: full1_def data1_def head_def)
    obtain st1 buf1 where stb: "stb = (st1, buf1)" by fastforce
    have one: "st1 = absorb full1 sha1_init \<and> length buf1 = 16 \<and> length st1 = 5"
    proof (cases "tail = []")
      case False
      have "store_bytes head (length tail) (m_buf c) = block_words (tail @ head)"
        using store_bytes_block [OF lb buf hd] .
      then have proc: "sha1_process (m_st c) (block_words (tail @ head)) = (st1, buf1)"
        using False stb by (simp add: stb_def sha1_block_def)
      have "absorb full1 sha1_init = st1"
        using False msg(2) hd proc absorb_block [of "tail @ head" "[]"]
        by (simp add: full1_def absorb_append absorb_short flip: st)
      then show ?thesis
        using proc sha1_process_fips(2,3) [OF ls length_block_words, of "tail @ head"] by simp
    qed (use stb stb_def st lb ls full1_def in auto)
    obtain rest st2 buf2 where run: "sha1_blocks data1 (st1, buf1) = (rest, st2, buf2)" by (metis prod_cases3)
    obtain full2 where f2: "data1 = full2 @ rest" "64 dvd length full2" "length rest < 64"
      "st2 = absorb full2 st1" "length buf2 = 16"
      using sha1_blocks_absorb [OF run] one by blast
    have "sha1_append data c = \<lparr>m_cnt = of_nat (8 * length (msg @ data)), m_st = st2, m_buf = store_bytes rest 0 buf2\<rparr>"
      using True run stb by (simp add: sha1_append_def Let_def res cnt' stb_def data1_def head_def split: if_splits)
    moreover have "msg @ data = (full1 @ full2) @ rest" using split1 f2(1) by simp
    moreover have "64 dvd length (full1 @ full2)" using split1(2) f2(2) by simp
    moreover have "st2 = absorb (full1 @ full2) sha1_init" using f2(4) one split1(2) by (simp add: absorb_append)
    moreover have "\<forall>i < length rest. buf_byte (store_bytes rest 0 buf2) i = rest ! i"
      using f2(3,5) by (simp add: store_bytes_byte)
    ultimately show ?thesis
      unfolding sha1_rep_def using f2 by (intro conjI exI [of _ "full1 @ full2"] exI [of _ rest]) simp_all
  qed
qed

text \<open>The standard's digest: padding, then the compression function over the blocks.\<close>

definition fips_pad :: "bytes \<Rightarrow> bytes" where
  "fips_pad msg =
     msg @ 0x80 # replicate ((119 - length msg mod 64) mod 64) 0
     @ map (\<lambda>i. ucast (drop_bit (8 * (7 - i)) (of_nat (8 * length msg) :: u64))) [0..<8]"

fun fips_hash :: "bytes \<Rightarrow> regs \<Rightarrow> regs" where
  "fips_hash msg h = (if 64 \<le> length msg then fips_hash (drop 64 msg) (fips_compress (block_words (take 64 msg)) h) else h)"

declare fips_hash.simps [simp del]

definition fips_sha1 :: "bytes \<Rightarrow> bytes" where
  "fips_sha1 msg = (case fips_hash (fips_pad msg) (0x67452301, 0xefcdab89, 0x98badcfe, 0x10325476, 0xc3d2e1f0) of
     (h0, h1, h2, h3, h4) \<Rightarrow>
       concat (map (\<lambda>h. map (\<lambda>j. ucast (drop_bit (8 * (3 - j)) h)) [0..<4]) [h0, h1, h2, h3, h4]))"

lemma absorb_fips: "length st = 5 \<Longrightarrow> regs_at (absorb msg st) 0 = fips_hash msg (regs_at st 0)"
proof (induction msg st rule: absorb.induct)
  case (1 msg st)
  show ?case
  proof (cases "64 \<le> length msg")
    case True
    then show ?thesis
      using 1 sha1_process_fips [of st "block_words (take 64 msg)"]
      by (simp add: absorb.simps [of msg] fips_hash.simps [of msg])
  qed (simp add: absorb.simps [of msg] fips_hash.simps [of msg])
qed

lemma padlen_eq: "unat (63 AND (drop_bit 3 (ucast (of_nat (8 * n) :: u64) :: u32) + 8)) = (n + 8) mod 64"
proof -
  have "drop_bit 3 (ucast (of_nat (8 * n) :: u64) :: u32) = of_nat (take_bit 29 n)"
  proof (rule bit_word_eqI)
    fix i
    have "8 * n = push_bit 3 n" by (simp add: push_bit_eq_mult)
    then show "bit (drop_bit 3 (ucast (of_nat (8 * n) :: u64) :: u32)) i \<longleftrightarrow> bit (of_nat (take_bit 29 n) :: u32) i"
      by (auto simp: bit_simps bit_of_nat_iff)
  qed
  then have "63 AND (drop_bit 3 (ucast (of_nat (8 * n) :: u64) :: u32) + 8) = take_bit 6 (of_nat (take_bit 29 n + 8))"
    by (simp add: take_bit_eq_mask and.commute mask_eq_exp_minus_1)
  then have "unat (63 AND (drop_bit 3 (ucast (of_nat (8 * n) :: u64) :: u32) + 8)) = take_bit 6 (take_bit 32 (take_bit 29 n + 8))"
    by (simp only: unsigned_take_bit_eq unsigned_of_nat) simp
  also have "\<dots> = (n mod 2 ^ 29 + 8) mod 64"
    by (simp add: take_bit_eq_mod mod_mod_cancel)
  also have "\<dots> = (n mod 2 ^ 29 mod 64 + 8) mod 64" by (simp add: mod_add_left_eq)
  also have "n mod 2 ^ 29 mod 64 = n mod 64" by (rule mod_mod_cancel) simp
  finally show ?thesis by (simp add: mod_add_left_eq)
qed

lemma pad_bytes:
  assumes "m_cnt c = of_nat (8 * length msg)"
  shows "64 - unat (63 AND (drop_bit 3 (ucast (m_cnt c) :: u32) + 8)) - 1 = (119 - length msg mod 64) mod 64"
proof -
  have "64 - (n + 8) mod 64 - 1 = (119 - n mod 64) mod (64 :: nat)" for n
  proof -
    define r where "r = n mod 64"
    have r: "r < 64" by (simp add: r_def)
    have "(n + 8) mod 64 = (r + 8) mod 64" by (simp add: r_def mod_add_left_eq)
    also have "\<dots> = (if r < 56 then r + 8 else r - 56)" using r by (simp add: mod_if)
    finally have "(n + 8) mod 64 = (if r < 56 then r + 8 else r - 56)" .
    moreover have "(119 - r) mod 64 = (if r < 56 then 55 - r else 119 - r)" using r by (auto simp: mod_if)
    ultimately show ?thesis using r unfolding r_def [symmetric] by (simp split: if_splits)
  qed
  then show ?thesis unfolding assms padlen_eq by simp
qed

lemma fips_pad_length: "64 dvd length (fips_pad msg)"
proof -
  define r where "r = length msg mod 64"
  have r: "r < 64" by (simp add: r_def)
  have "length (fips_pad msg) = length msg + (9 + (119 - r) mod 64)"
    by (simp add: fips_pad_def r_def)
  then have "length (fips_pad msg) mod 64 = (r + (9 + (119 - r) mod 64)) mod 64"
    by (simp add: r_def mod_add_left_eq)
  also have "\<dots> = 0"
    using r by (simp add: mod_if)
  finally show ?thesis by (simp add: dvd_eq_mod_eq_0)
qed

lemma sha1_finish_digest:
  assumes rep: "sha1_rep c msg"
  shows "sha1_finish c = fips_sha1 msg"
proof -
  have cnt: "m_cnt c = of_nat (8 * length msg)" using rep by (simp add: sha1_rep_def)
  define c1 where "c1 = sha1_append (map (\<lambda>i. ucast (drop_bit (8 * (7 - i)) (m_cnt c))) [0..<8])
    (sha1_append (0x80 # replicate (64 - unat (63 AND (drop_bit 3 (ucast (m_cnt c) :: u32) + 8)) - 1) 0) c)"
  have "sha1_rep c1 ((msg @ 0x80 # replicate (64 - unat (63 AND (drop_bit 3 (ucast (m_cnt c) :: u32) + 8)) - 1) 0)
      @ map (\<lambda>i. ucast (drop_bit (8 * (7 - i)) (m_cnt c))) [0..<8])"
    unfolding c1_def by (intro sha1_append_rep rep)
  then have "sha1_rep c1 (fips_pad msg)"
    unfolding pad_bytes [OF cnt] by (simp add: fips_pad_def cnt)
  then obtain full tail where ft: "fips_pad msg = full @ tail" "64 dvd length full" "length tail < 64"
    and st: "m_st c1 = absorb full sha1_init"
    by (auto simp: sha1_rep_def)
  have "64 dvd length tail" using fips_pad_length [of msg] ft(1,2) by (simp add: dvd_add_right_iff)
  then have "tail = []" using ft(3) dvd_imp_le [of 64 "length tail"] by auto
  then have st: "m_st c1 = absorb (fips_pad msg) sha1_init" using st ft(1) by simp
  obtain h0 h1 h2 h3 h4 where h: "fips_hash (fips_pad msg) (0x67452301, 0xefcdab89, 0x98badcfe, 0x10325476, 0xc3d2e1f0)
      = (h0, h1, h2, h3, h4)" by (metis prod_cases5)
  have "regs_at sha1_init 0 = (0x67452301, 0xefcdab89, 0x98badcfe, 0x10325476, 0xc3d2e1f0)"
    by (simp add: regs_at_def sha1_init_def)
  then have "regs_at (m_st c1) 0 = (h0, h1, h2, h3, h4)"
    using absorb_fips [of sha1_init "fips_pad msg"] h st by (simp add: sha1_init_def)
  then have m: "m_st c1 ! 4 = h0" "m_st c1 ! 3 = h1" "m_st c1 ! 2 = h2" "m_st c1 ! Suc 0 = h3" "m_st c1 ! 0 = h4"
    by (simp_all add: regs_at_def numeral_2_eq_2)
  have "sha1_finish c = map (\<lambda>i. ucast (drop_bit (8 * (3 - i mod 4)) (m_st c1 ! (4 - i div 4)))) [0..<20]"
    unfolding sha1_finish_def Let_def c1_def ..
  also have "\<dots> = fips_sha1 msg"
    unfolding fips_sha1_def h prod.case by (simp add: upt_rec m)
  finally show ?thesis .
qed

lemma sha1_appends_rep: "sha1_rep c msg \<Longrightarrow> sha1_rep (fold sha1_append chunks c) (msg @ concat chunks)"
proof (induction chunks arbitrary: c msg)
  case (Cons d chunks)
  from Cons.IH [OF sha1_append_rep [OF Cons.prems]] show ?case by simp
qed simp

subsection \<open>Text round trips\<close>

lemma hex_digit_value: "n < 16 \<Longrightarrow> char_to_hex (hex_digit n) = int n"
  by (auto simp: char_to_hex_def hex_digit_def Let_def of_char_of)

lemma uint_not_minus_one [simp]: "uint (x :: 'a::len word) \<noteq> - 1"
proof -
  have "0 \<le> uint x" by simp
  then show ?thesis by linarith
qed

lemma hex_bytes_digest:
  "hex_bytes (length raw) (digest_as_string raw @ rest) = (True, raw)"
proof (induction raw)
  case (Cons b raw)
  have lt: "unat (drop_bit 4 b) < 16" "unat (b AND 0x0f) < 16"
  proof -
    have "unat b < 256" using unsigned_less [of b] by simp
    moreover have "unat (drop_bit 4 b) = unat b div 16"
      using drop_bit_eq_div [of 4 "unat b"] by (simp only: unat_drop_bit_eq) simp
    ultimately show "unat (drop_bit 4 b) < 16" by simp
    have "(0x0f :: u8) = mask 4" by (simp add: mask_eq_exp_minus_1)
    then have "b AND 0x0f = take_bit 4 b" by (simp add: take_bit_eq_mask)
    then have "unat (b AND 0x0f) = take_bit 4 (unat b)" by (simp add: unsigned_take_bit_eq)
    then show "unat (b AND 0x0f) < 16" using take_bit_nat_less_exp [of 4 "unat b"] by simp
  qed
  have m: "(0x0f :: u8) = mask 4" by (simp add: mask_eq_exp_minus_1)
  have "push_bit 4 (drop_bit 4 b) OR (b AND 0x0f) = b"
    by (rule bit_word_eqI) (auto simp: m bit_simps)
  with Cons lt show ?case
    by (simp add: digest_as_string_def Let_def hex_digit_value)
qed (simp add: digest_as_string_def)

lemma hex_word_Suc:
  "hex_word (Suc n) w = hex_digit (unat (take_bit 4 (drop_bit (4 * n) w))) # hex_word n w"
  by (simp add: hex_word_def upt_conv_Cons map_Suc_upt [symmetric] del: upt_Suc)

lemma hex_nibbles_word:
  fixes w :: "'a::len word"
  assumes "4 \<le> LENGTH('a)"
  shows "hex_nibbles n (hex_word n w @ rest) raw = (True, push_bit (4 * n) raw OR take_bit (4 * n) w)"
proof (induction n arbitrary: raw)
  case (Suc n)
  define d where "d = take_bit 4 (drop_bit (4 * n) w)"
  have "unat d = take_bit 4 (unat (drop_bit (4 * n) w))" by (simp add: d_def unsigned_take_bit_eq)
  then have lt: "unat d < 16" using take_bit_nat_less_exp [of 4] by simp
  have "push_bit (4 * n) (push_bit 4 raw OR d) OR take_bit (4 * n) w = push_bit (4 * Suc n) raw OR take_bit (4 * Suc n) w"
    by (rule bit_word_eqI) (auto simp: d_def bit_simps algebra_simps)
  then show ?case
    using Suc.IH [of "push_bit 4 raw OR d"] hex_digit_value [OF lt]
    by (simp add: hex_word_Suc Let_def flip: d_def)
qed (simp add: hex_word_def)

subsection \<open>Properties\<close>

text \<open>
  C10: SHA-1 in pieces: digesting the chunks of a message one after the other, of any sizes and from
  any buffer contents, gives the standard's SHA-1 digest of the whole message.
\<close>

theorem sha1_streaming:
  assumes "length buf = 16"
  shows "sha1_finish (fold sha1_append chunks (sha1_reset buf)) = fips_sha1 (concat chunks)"
  using sha1_finish_digest [OF sha1_appends_rep [OF sha1_reset_rep [OF assms]]] by simp

theorem sha1_streaming_witness:
  "sha1_finish (fold sha1_append [[1, 2], [], [3]] (sha1_reset (replicate 16 7))) = fips_sha1 [1, 2, 3]"
  using sha1_streaming [of "replicate 16 7" "[[1, 2], [], [3]]"] by simp

text \<open>
  C26: The table-driven CRC-16 is the bitwise division by \<open>x^16 + x^12 + x^5 + 1\<close> from the initial
  value \<open>0xffff\<close>.
\<close>

theorem crc16_ccitt: "crc16_simple data = fold crc_byte data 0xffff"
  by (simp add: crc16_simple_def crc16_reset_def crc16_append_fold)

text \<open>
  C27: The CRC-16 of a hunk notices every change that is confined to one byte.
\<close>

theorem crc16_detects_byte:
  assumes "b \<noteq> b'"
  shows "crc16_simple (xs @ b # ys) \<noteq> crc16_simple (xs @ b' # ys)"
proof
  assume "crc16_simple (xs @ b # ys) = crc16_simple (xs @ b' # ys)"
  then have "crc16_append ys (crc_byte b (crc16_append xs crc16_reset)) =
      crc16_append ys (crc_byte b' (crc16_append xs crc16_reset))"
    by (simp add: crc16_simple_def crc16_append_append crc16_step)
  then have "crc_byte b (crc16_append xs crc16_reset) = crc_byte b' (crc16_append xs crc16_reset)"
    by (rule injD [OF crc16_append_inj])
  then show False using assms injD [OF crc_byte_inj(2)] by blast
qed

theorem crc16_detects_byte_witness: "crc16_simple ([1, 2] @ 3 # [4]) \<noteq> crc16_simple ([1, 2] @ 5 # [4])"
  by (rule crc16_detects_byte) simp

text \<open>
  C28: The text forms of the digests are read back: a SHA-1 digest from its forty hex digits, a
  CRC-32 and a CRC-16 from theirs, whatever follows them in the string.
\<close>

theorem digest_text_roundtrip:
  assumes "length raw = 20"
  shows "sha1_from_string (sha1_as_string raw @ rest) = (True, raw) \<and>
    crc32_from_string (crc32_as_string c @ rest) = (True, c) \<and>
    crc16_from_string (crc16_as_string d @ rest) = (True, d)"
proof -
  have "length (digest_as_string raw) = 40"
    using assms by (simp add: digest_as_string_def length_concat comp_def sum_list_triv)
  moreover have "take_bit 32 c = c" "take_bit 16 d = d"
    using take_bit_length_eq [of c] take_bit_length_eq [of d] by simp_all
  ultimately show ?thesis
    using hex_bytes_digest [of raw rest] assms hex_nibbles_word [of 8 c rest 0] hex_nibbles_word [of 4 d rest 0]
    by (simp add: sha1_from_string_def sha1_as_string_def digest_from_string_def crc32_from_string_def crc32_as_string_def
        crc16_from_string_def crc16_as_string_def hex_word_def)
qed

theorem digest_text_roundtrip_witness:
  "sha1_from_string (sha1_as_string (replicate 20 0xa5) @ ''xyz'') = (True, replicate 20 0xa5) \<and>
    crc32_from_string (crc32_as_string 0x1234abcd @ ''xyz'') = (True, 0x1234abcd) \<and>
    crc16_from_string (crc16_as_string 0xbeef @ ''xyz'') = (True, 0xbeef)"
  using digest_text_roundtrip [of "replicate 20 0xa5" "''xyz''" "0x1234abcd" "0xbeef"] by simp

end
