(* ===== verification/Chd_File.thy ===== *)
theory Chd_File
  imports Multibyte
begin

text \<open>
  The state of an open CHD (\<^verbatim>\<open>lib/util/chd.h\<close>, class \<open>chd_file\<close>) and its access to the underlying
  file (\<open>file_read\<close>, \<open>file_write\<close>, \<open>file_append\<close> of \<^verbatim>\<open>chd.cpp\<close>).

  The underlying \<open>random_read_write\<close> object is an array of bytes in which reads past the end are
  short and writes past the end fill the gap with zeros; two fault functions, asked with the offset
  and the length of a transfer, decide whether it fails, with which error and after how many bytes.
  Unsigned header fields are natural numbers, with the wrap-around of their width written out where
  the source computes with them. A file is held together with its chain of parents as a list whose
  head is the file itself; \<open>m_parent\<close> is the tail. What C++ leaves undefined is the left outcome of a
  result (\<open>ub\<close>), and so is an abort of the program: the build does not define \<^verbatim>\<open>NDEBUG\<close> for these
  sources, so an \<^verbatim>\<open>assert\<close> whose condition is false is the outcome \<open>Assert_Failed\<close>.
\<close>

subsection \<open>Errors\<close>

datatype chd_error =
    NO_INTERFACE | NOT_OPEN | ALREADY_OPEN | INVALID_FILE | INVALID_DATA | REQUIRES_PARENT
  | FILE_NOT_WRITEABLE | CODEC_ERROR | INVALID_PARENT | HUNK_OUT_OF_RANGE | DECOMPRESSION_ERROR
  | COMPRESSION_ERROR | CANT_VERIFY | METADATA_NOT_FOUND | INVALID_METADATA_SIZE | UNSUPPORTED_VERSION
  | VERIFY_INCOMPLETE | INVALID_METADATA | INVALID_STATE | OPERATION_PENDING | UNSUPPORTED_FORMAT
  | UNKNOWN_COMPRESSION | WALKING_PARENT | COMPRESSING

datatype errc = Errc_io_error | Errc_invalid_argument | Errc_not_enough_memory | Errc_other nat

datatype error_condition = Chd_Error chd_error | Std_Error errc

datatype ub =
    Null_Deref | Bad_Index | Bad_Shift | Div_By_Zero | Int_Overflow | Stack_Overflow | Infinite_Loop | Uncaught_Exception
  | Assert_Failed

type_synonym 'a res = "ub + 'a"

subsection \<open>The underlying file\<close>

record vfile =
  f_data :: bytes
  f_read_fault :: "nat \<Rightarrow> nat \<Rightarrow> (error_condition \<times> nat) option"
  f_write_fault :: "nat \<Rightarrow> nat \<Rightarrow> (error_condition \<times> nat) option"

definition pwrite :: "nat \<Rightarrow> bytes \<Rightarrow> bytes \<Rightarrow> bytes" where
  "pwrite off src data =
     (if src = [] then data
      else take off data @ replicate (off - length data) 0 @ src @ drop (off + length src) data)"

definition vread :: "vfile \<Rightarrow> nat \<Rightarrow> nat \<Rightarrow> error_condition option \<times> bytes" where
  "vread f off len =
     (case f_read_fault f off len of
        None \<Rightarrow> (None, slice off len (f_data f))
      | Some (e, n) \<Rightarrow> (Some e, slice off (min n len) (f_data f)))"

definition vwrite :: "vfile \<Rightarrow> nat \<Rightarrow> bytes \<Rightarrow> error_condition option \<times> vfile" where
  "vwrite f off src =
     (case f_write_fault f off (length src) of
        None \<Rightarrow> (None, f\<lparr>f_data := pwrite off src (f_data f)\<rparr>)
      | Some (e, n) \<Rightarrow> (Some e, f\<lparr>f_data := pwrite off (take n src) (f_data f)\<rparr>))"

subsection \<open>The state of a CHD\<close>

record chd_file =
  m_file :: "vfile option"
  m_allow_reads :: bool
  m_allow_writes :: bool
  m_version :: nat
  m_logicalbytes :: nat
  m_mapoffset :: nat
  m_metaoffset :: nat
  m_hunkbytes :: nat
  m_hunkcount :: nat
  m_unitbytes :: nat
  m_unitcount :: nat
  m_compression :: "u32 list"
  m_parent_missing :: bool
  m_mapoffset_offset :: nat
  m_metaoffset_offset :: nat
  m_sha1_offset :: nat
  m_rawsha1_offset :: nat
  m_parentsha1_offset :: nat
  m_mapentrybytes :: nat
  m_rawmap :: bytes
  m_decompressor :: "bool list"
  m_compressed :: bytes
  m_cache :: bytes
  m_cachehunk :: nat

type_synonym chain = "chd_file list"

definition HEADER_VERSION :: nat where "HEADER_VERSION = 5"
definition V3_HEADER_SIZE :: nat where "V3_HEADER_SIZE = 120"
definition V4_HEADER_SIZE :: nat where "V4_HEADER_SIZE = 108"
definition V5_HEADER_SIZE :: nat where "V5_HEADER_SIZE = 124"

definition CHD_CODEC_NONE :: u32 where "CHD_CODEC_NONE = 0"

definition opened :: "chd_file \<Rightarrow> bool" where
  "opened c \<longleftrightarrow> m_file c \<noteq> None"

definition compressed :: "chd_file \<Rightarrow> bool" where
  "compressed c \<longleftrightarrow> m_compression c ! 0 \<noteq> CHD_CODEC_NONE"

definition sha1_null :: bytes where
  "sha1_null = replicate 20 0"

primrec parent_missing :: "chain \<Rightarrow> bool" where
  "parent_missing [] = False"
| "parent_missing (c # parents) = (if m_parent_missing c then True else parent_missing parents)"

text \<open>\<open>close\<close>; the parent chain is dropped with it.\<close>

definition chd_closed :: chd_file where
  "chd_closed =
     \<lparr>m_file = None, m_allow_reads = False, m_allow_writes = False, m_version = HEADER_VERSION,
      m_logicalbytes = 0, m_mapoffset = 0, m_metaoffset = 0, m_hunkbytes = 0, m_hunkcount = 0,
      m_unitbytes = 0, m_unitcount = 0, m_compression = replicate 4 0, m_parent_missing = False,
      m_mapoffset_offset = 0, m_metaoffset_offset = 0, m_sha1_offset = 0, m_rawsha1_offset = 0,
      m_parentsha1_offset = 0, m_mapentrybytes = 0, m_rawmap = [], m_decompressor = replicate 4 False,
      m_compressed = [], m_cache = [], m_cachehunk = 2 ^ 32 - 1\<rparr>"

definition chd_close :: "chain \<Rightarrow> chain" where
  "chd_close chain = [chd_closed]"

subsection \<open>File access\<close>

definition be_read_sha1 :: "bytes \<Rightarrow> bytes" where
  "be_read_sha1 base = take 20 base"

definition be_write_sha1 :: "bytes \<Rightarrow> bytes \<Rightarrow> bytes" where
  "be_write_sha1 value base = overwrite 0 (take 20 value) base"

definition file_read :: "chd_file \<Rightarrow> nat \<Rightarrow> bytes \<Rightarrow> nat \<Rightarrow> error_condition option \<times> bytes" where
  "file_read c offset dest len =
     (case m_file c of
        None \<Rightarrow> (Some (Chd_Error NOT_OPEN), dest)
      | Some f \<Rightarrow>
          (case vread f offset len of
             (err, got) \<Rightarrow>
               (if err = None \<and> length got \<noteq> len then Some (Std_Error Errc_io_error) else err,
                overwrite 0 got dest)))"

definition file_write :: "chd_file \<Rightarrow> nat \<Rightarrow> bytes \<Rightarrow> error_condition option \<times> chd_file" where
  "file_write c offset source =
     (case m_file c of
        None \<Rightarrow> (Some (Chd_Error NOT_OPEN), c)
      | Some f \<Rightarrow> (case vwrite f offset source of (err, f') \<Rightarrow> (err, c\<lparr>m_file := Some f'\<rparr>)))"

text \<open>The padding loop of \<open>file_append\<close>: \<open>delta\<close> zero bytes from a local buffer of 1024.\<close>

function append_pad :: "nat \<Rightarrow> vfile \<Rightarrow> error_condition option \<times> vfile" where
  "append_pad delta f =
     (if delta = 0 then (None, f)
      else let bytes_to_write = min 1024 delta in
           case vwrite f (length (f_data f)) (replicate bytes_to_write 0) of
             (Some e, f') \<Rightarrow> (Some e, f')
           | (None, f') \<Rightarrow> append_pad (delta - bytes_to_write) f')"
  by pat_completeness auto
termination by (relation "measure fst") auto

declare append_pad.simps [simp del]

definition file_append :: "chd_file \<Rightarrow> bytes \<Rightarrow> nat \<Rightarrow> (error_condition + nat) \<times> chd_file" where
  "file_append c source alignment =
     (case m_file c of
        None \<Rightarrow> (Inl (Chd_Error NOT_OPEN), c)
      | Some f \<Rightarrow>
          let delta = (if alignment \<noteq> 0 then length (f_data f) mod alignment else 0) in
          case (if delta \<noteq> 0 then append_pad (alignment - delta) f else (None, f)) of
            (Some e, f1) \<Rightarrow> (Inl e, c\<lparr>m_file := Some f1\<rparr>)
          | (None, f1) \<Rightarrow>
              let offset = length (f_data f1) in
              case vwrite f1 offset source of
                (Some e, f2) \<Rightarrow> (Inl e, c\<lparr>m_file := Some f2\<rparr>)
              | (None, f2) \<Rightarrow> (Inr offset, c\<lparr>m_file := Some f2\<rparr>))"

fun bits_for_value :: "nat \<Rightarrow> nat" where
  "bits_for_value v = (if v \<noteq> 0 then bits_for_value (v div 2) + 1 else 0)"

declare bits_for_value.simps [simp del]

definition read_sha1_at :: "chd_file \<Rightarrow> nat \<Rightarrow> bytes" where
  "read_sha1_at c offset =
     (case file_read c offset (replicate 20 0) 20 of
        (Some _, _) \<Rightarrow> sha1_null
      | (None, rawbuf) \<Rightarrow> be_read_sha1 rawbuf)"

definition chd_sha1 :: "chd_file \<Rightarrow> bytes" where
  "chd_sha1 c = read_sha1_at c (m_sha1_offset c)"

definition raw_sha1 :: "chd_file \<Rightarrow> bytes" where
  "raw_sha1 c = (if m_rawsha1_offset c = 0 then sha1_null else read_sha1_at c (m_rawsha1_offset c))"

definition parent_sha1 :: "chd_file \<Rightarrow> bytes" where
  "parent_sha1 c = (if m_parentsha1_offset c = 0 then sha1_null else read_sha1_at c (m_parentsha1_offset c))"

definition set_parent_sha1 :: "bytes \<Rightarrow> chd_file \<Rightarrow> (error_condition option \<times> chd_file) res" where
  "set_parent_sha1 parent c =
     (if m_file c = None then Inr (Some (Chd_Error INVALID_FILE), c)
      else if m_parentsha1_offset c = 0 then Inl Assert_Failed
      else Inr (file_write c (m_parentsha1_offset c) (be_write_sha1 parent (replicate 20 0))))"

subsection \<open>Laws\<close>

text \<open>A file without faults.\<close>

definition no_faults :: "vfile \<Rightarrow> bool" where
  "no_faults f \<longleftrightarrow> (\<forall>off len. f_read_fault f off len = None \<and> f_write_fault f off len = None)"

definition file_data :: "chd_file \<Rightarrow> bytes" where
  "file_data c = (case m_file c of None \<Rightarrow> [] | Some f \<Rightarrow> f_data f)"

definition healthy :: "chd_file \<Rightarrow> bool" where
  "healthy c \<longleftrightarrow> (\<exists>f. m_file c = Some f \<and> no_faults f)"

definition set_data :: "bytes \<Rightarrow> chd_file \<Rightarrow> chd_file" where
  "set_data d c = c\<lparr>m_file := map_option (\<lambda>f. f\<lparr>f_data := d\<rparr>) (m_file c)\<rparr>"

lemma length_pwrite [simp]: "src \<noteq> [] \<Longrightarrow> length (pwrite off src data) = max (length data) (off + length src)"
  by (auto simp: pwrite_def)

lemma slice_pwrite_same: "slice off (length src) (pwrite off src data) = src"
  by (cases "src = []") (auto simp: pwrite_def slice_def min_def)

lemma pwrite_inside: "off + length src \<le> length data \<Longrightarrow> pwrite off src data = overwrite off src data"
  by (auto simp: pwrite_def overwrite_def)

lemma pwrite_end: "pwrite (length data) src data = data @ src"
  by (simp add: pwrite_def)

lemma slice_pwrite_before: "i + k \<le> off \<Longrightarrow> i + k \<le> length data \<Longrightarrow> slice i k (pwrite off src data) = slice i k data"
  by (auto simp: pwrite_def slice_def take_drop min_def)

lemma slice_pwrite_after:
  assumes "off + length src \<le> i" "off \<le> length data"
  shows "slice i k (pwrite off src data) = slice i k data"
proof -
  have "drop i (pwrite off src data) = drop i data"
    using assms by (auto simp: pwrite_def)
  then show ?thesis by (simp add: slice_def)
qed

lemma set_data_simps [simp, chd_simps]:
  "healthy c \<Longrightarrow> file_data (set_data d c) = d" "healthy c \<Longrightarrow> healthy (set_data d c)"
  "set_data d (set_data e c) = set_data d c"
  "healthy c \<Longrightarrow> set_data (file_data c) c = c"
  by (auto simp: file_data_def set_data_def healthy_def no_faults_def option.map_comp comp_def)

lemma healthy_opened [simp]: "healthy c \<Longrightarrow> m_file c \<noteq> None" "healthy c \<Longrightarrow> opened c"
  by (auto simp: healthy_def opened_def)

lemma file_read_healthy:
  "healthy c \<Longrightarrow> file_read c off dest len =
     (if off + len \<le> length (file_data c) \<or> len = 0 then None else Some (Std_Error Errc_io_error),
      overwrite 0 (slice off len (file_data c)) dest)"
  by (auto simp: healthy_def file_read_def vread_def no_faults_def file_data_def min_def)

lemma file_write_healthy: "healthy c \<Longrightarrow> file_write c off src = (None, set_data (pwrite off src (file_data c)) c)"
  by (auto simp: healthy_def file_write_def vwrite_def no_faults_def file_data_def set_data_def)

lemma append_pad_healthy:
  "no_faults f \<Longrightarrow> append_pad delta f = (None, f\<lparr>f_data := f_data f @ replicate delta 0\<rparr>)"
proof (induction delta f rule: append_pad.induct)
  case (1 delta f)
  show ?case
  proof (cases "delta = 0")
    case False
    let ?b = "min 1024 delta" and ?f = "f\<lparr>f_data := f_data f @ replicate (min 1024 delta) 0\<rparr>"
    have w: "vwrite f (length (f_data f)) (replicate ?b 0) = (None, ?f)"
      using 1(2) by (simp add: vwrite_def no_faults_def pwrite_end)
    have "append_pad (delta - ?b) ?f = (None, ?f\<lparr>f_data := f_data ?f @ replicate (delta - ?b) 0\<rparr>)"
      using 1(1) [OF False refl w [symmetric] refl] 1(2) by (simp add: no_faults_def)
    moreover have "replicate ?b (0 :: u8) @ replicate (delta - ?b) 0 = replicate delta 0"
      by (simp add: replicate_add [symmetric])
    ultimately show ?thesis using False w by (simp add: append_pad.simps [of delta] Let_def)
  qed (simp add: append_pad.simps)
qed

definition align_up :: "nat \<Rightarrow> nat \<Rightarrow> nat" where
  "align_up a n = (if a = 0 \<or> n mod a = 0 then n else n + (a - n mod a))"

lemma align_up_dvd: "0 < a \<Longrightarrow> a dvd align_up a n"
proof -
  assume a: "0 < a"
  have "n + (a - n mod a) = (n div a + 1) * a"
    using a div_mult_mod_eq [of n a] mod_less_divisor [OF a, of n] unfolding distrib_right by linarith
  then show ?thesis using a by (auto simp: align_up_def mod_eq_0_iff_dvd)
qed

lemma align_up_bounds: "n \<le> align_up a n" "0 < a \<Longrightarrow> align_up a n < n + a"
proof -
  show "n \<le> align_up a n"
    using mod_less_divisor [of a n] by (cases "a = 0"; simp add: align_up_def; linarith)
  show "0 < a \<Longrightarrow> align_up a n < n + a" by (auto simp: align_up_def)
qed

lemma vwrite_end: "no_faults f \<Longrightarrow> vwrite f (length (f_data f)) src = (None, f\<lparr>f_data := f_data f @ src\<rparr>)"
  by (simp add: vwrite_def no_faults_def pwrite_end)

lemma file_append_healthy:
  assumes "healthy c"
  shows "file_append c src a =
    (Inr (align_up a (length (file_data c))),
     set_data (file_data c @ replicate (align_up a (length (file_data c)) - length (file_data c)) 0 @ src) c)"
proof -
  obtain f where f: "m_file c = Some f" "no_faults f" using assms by (auto simp: healthy_def)
  let ?n = "length (f_data f)"
  define f1 where "f1 = f\<lparr>f_data := f_data f @ replicate (align_up a ?n - ?n) 0\<rparr>"
  have pad: "(if (if a \<noteq> 0 then ?n mod a else 0) \<noteq> 0
      then append_pad (a - (if a \<noteq> 0 then ?n mod a else 0)) f else (None, f)) = (None, f1)"
    using append_pad_healthy [OF f(2)] by (auto simp: align_up_def f1_def)
  have vw: "vwrite f1 (length (f_data f1)) src = (None, f1\<lparr>f_data := f_data f1 @ src\<rparr>)"
    using f(2) by (intro vwrite_end) (simp add: no_faults_def f1_def)
  have "file_append c src a = (Inr (length (f_data f1)), c\<lparr>m_file := Some (f1\<lparr>f_data := f_data f1 @ src\<rparr>)\<rparr>)"
    unfolding file_append_def f(1) option.case Let_def pad prod.case vw ..
  then show ?thesis
    using f align_up_bounds(1) [of ?n a] by (simp add: file_data_def set_data_def f1_def)
qed

lemma bits_for_value_bound: "v < 2 ^ bits_for_value v" "v \<noteq> 0 \<Longrightarrow> 2 ^ (bits_for_value v - 1) \<le> v"
proof (induction v rule: bits_for_value.induct)
  case (1 v)
  {
    case 1
    show ?case
    proof (cases "v = 0")
      case False
      then have "v div 2 < 2 ^ bits_for_value (v div 2)" using "1.IH"(1) by simp
      with False show ?thesis by (subst bits_for_value.simps) simp
    qed (simp add: bits_for_value.simps)
  next
    case 2
    show ?case
    proof (cases "v div 2 = 0")
      case True
      then show ?thesis using 2 by (subst bits_for_value.simps) (simp add: bits_for_value.simps [of 0])
    next
      case False
      then have "2 ^ (bits_for_value (v div 2) - 1) \<le> v div 2" using "1.IH"(2) 2 by simp
      moreover have "0 < bits_for_value (v div 2)" using False by (subst bits_for_value.simps) simp
      ultimately show ?thesis
        using 2 by (subst bits_for_value.simps) (cases "bits_for_value (v div 2)"; simp)
    qed
  }
qed

end
