(* ===== verification/Chd_Hunk.thy ===== *)
theory Chd_Hunk
  imports Chd_File Hashing
begin

text \<open>
  Reading and writing hunks, units and bytes (\<open>hunk_info\<close>, \<open>codec_process_hunk\<close>, \<open>read_hunk\<close>,
  \<open>write_hunk\<close>, \<open>read_units\<close>, \<open>write_units\<close>, \<open>read_bytes\<close>, \<open>write_bytes\<close> of \<^verbatim>\<open>chd.cpp\<close>). The codecs and
  zlib's checksum are parameters, gathered in the record \<open>codecs\<close>. The recursion of \<open>read_hunk\<close> through
  references to other hunks and to the parent is bounded by \<open>fuel\<close>, the stack depth; running out of it
  is the outcome \<open>Stack_Overflow\<close>.
\<close>

subsection \<open>Codecs and map entries\<close>

record codecs =
  cx_decompress :: "u32 \<Rightarrow> bytes \<Rightarrow> nat \<Rightarrow> bytes \<times> error_condition option"
  cx_lossy :: "u32 \<Rightarrow> bool"
  cx_process :: "u32 \<Rightarrow> bytes \<Rightarrow> error_condition option"
  cx_exists :: "u32 \<Rightarrow> bool"
  cx_crc32 :: "u32 \<Rightarrow> bytes \<Rightarrow> u32"

definition CHD_CODEC_ZLIB :: u32 where "CHD_CODEC_ZLIB = 0x7a6c6962"
definition CHD_CODEC_AVHUFF :: u32 where "CHD_CODEC_AVHUFF = 0x61766875"
definition CHD_CODEC_SELF :: u32 where "CHD_CODEC_SELF = 1"
definition CHD_CODEC_PARENT :: u32 where "CHD_CODEC_PARENT = 2"
definition CHD_CODEC_MINI :: u32 where "CHD_CODEC_MINI = 3"

datatype v34_type =
    V34_INVALID | V34_COMPRESSED | V34_UNCOMPRESSED | V34_MINI | V34_SELF_HUNK | V34_PARENT_HUNK | V34_2ND_COMPRESSED

definition v34_type_of :: "u8 \<Rightarrow> v34_type" where
  "v34_type_of b =
     (let t = b AND 0x0f in
      if t = 1 then V34_COMPRESSED else if t = 2 then V34_UNCOMPRESSED else if t = 3 then V34_MINI
      else if t = 4 then V34_SELF_HUNK else if t = 5 then V34_PARENT_HUNK
      else if t = 6 then V34_2ND_COMPRESSED else V34_INVALID)"

datatype v5_type =
    COMPRESSION_TYPE nat | COMPRESSION_NONE | COMPRESSION_SELF | COMPRESSION_PARENT | COMPRESSION_OTHER

definition v5_type_of :: "u8 \<Rightarrow> v5_type" where
  "v5_type_of b =
     (if b < 4 then COMPRESSION_TYPE (unat b) else if b = 4 then COMPRESSION_NONE
      else if b = 5 then COMPRESSION_SELF else if b = 6 then COMPRESSION_PARENT else COMPRESSION_OTHER)"

text \<open>The pointer \<open>&m_rawmap[i]\<close> to an entry of \<open>width\<close> bytes.\<close>

definition map_entry :: "chd_file \<Rightarrow> nat \<Rightarrow> nat \<Rightarrow> bytes res" where
  "map_entry c i width = (if i + width \<le> length (m_rawmap c) then Inr (drop i (m_rawmap c)) else Inl Bad_Index)"

definition blocklen_v34 :: "bytes \<Rightarrow> nat" where
  "blocklen_v34 rawmap = unat (ucast (get_u16be (drop 12 rawmap)) OR push_bit 16 (ucast (rawmap ! 14) :: u32))"

definition hunk_info :: "chd_file \<Rightarrow> nat \<Rightarrow> u32 \<times> nat \<Rightarrow> (error_condition option \<times> u32 \<times> nat) res" where
  "hunk_info c hunknum out =
     (if hunknum \<ge> m_hunkcount c then Inr (Some (Chd_Error HUNK_OUT_OF_RANGE), out)
      else if m_version c = 3 \<or> m_version c = 4 then
        case map_entry c (w32 (16 * hunknum)) 16 of
          Inl u \<Rightarrow> Inl u
        | Inr rawmap \<Rightarrow>
            (case v34_type_of (rawmap ! 15) of
               V34_COMPRESSED \<Rightarrow>
                 Inr (None, CHD_CODEC_ZLIB, unat (get_u16be (drop 12 rawmap)) + unat (rawmap ! 14) * 2 ^ 16)
             | V34_UNCOMPRESSED \<Rightarrow> Inr (None, CHD_CODEC_NONE, m_hunkbytes c)
             | V34_MINI \<Rightarrow> Inr (None, CHD_CODEC_MINI, 0)
             | V34_SELF_HUNK \<Rightarrow> Inr (None, CHD_CODEC_SELF, 0)
             | V34_PARENT_HUNK \<Rightarrow> Inr (None, CHD_CODEC_PARENT, 0)
             | _ \<Rightarrow> Inr (None, out))
      else if m_version c = 5 then
        if \<not> compressed c then
          case map_entry c (w32 (m_mapentrybytes c * hunknum)) 4 of
            Inl u \<Rightarrow> Inl u
          | Inr rawmap \<Rightarrow>
              if get_u32be rawmap = 0 then Inr (None, CHD_CODEC_PARENT, 0)
              else Inr (None, CHD_CODEC_NONE, m_hunkbytes c)
        else
          case map_entry c (w32 (m_mapentrybytes c * hunknum)) 12 of
            Inl u \<Rightarrow> Inl u
          | Inr rawmap \<Rightarrow>
              (case v5_type_of (rawmap ! 0) of
                 COMPRESSION_TYPE i \<Rightarrow> Inr (None, m_compression c ! i, unat (get_u24be (drop 1 rawmap)))
               | COMPRESSION_NONE \<Rightarrow> Inr (None, CHD_CODEC_NONE, m_hunkbytes c)
               | COMPRESSION_SELF \<Rightarrow> Inr (None, CHD_CODEC_SELF, 0)
               | COMPRESSION_PARENT \<Rightarrow> Inr (None, CHD_CODEC_PARENT, 0)
               | COMPRESSION_OTHER \<Rightarrow> Inr (Some (Chd_Error UNKNOWN_COMPRESSION), out))
      else Inr (None, out))"

subsection \<open>Reading a hunk\<close>

type_synonym read_res = "(error_condition option \<times> bytes \<times> chain) res"
type_synonym reader = "chain \<Rightarrow> nat \<Rightarrow> bytes \<Rightarrow> read_res"

text \<open>Reading \<open>len\<close> bytes of the file into \<open>dest\<close>, then checking them with \<open>ok\<close>.\<close>

definition read_plain :: "chd_file \<Rightarrow> chain \<Rightarrow> nat \<Rightarrow> nat \<Rightarrow> (bytes \<Rightarrow> bool) \<Rightarrow> bytes \<Rightarrow> read_res" where
  "read_plain c parents offset len ok dest =
     (if length dest < len then Inl Bad_Index
      else case file_read c offset dest len of
             (Some e, dest') \<Rightarrow> Inr (Some e, dest', c # parents)
           | (None, dest') \<Rightarrow>
               if ok (take len dest') then Inr (None, dest', c # parents)
               else Inr (Some (Chd_Error DECOMPRESSION_ERROR), dest', c # parents))"

text \<open>
  Reading \<open>blocklen\<close> bytes into the buffer \<open>m_compressed\<close>, running decompressor \<open>i\<close> on them, then
  checking the result with \<open>ok\<close>, which sees the compressed and the decompressed bytes. An error the
  decompressor throws is returned.
\<close>

definition read_coded ::
    "codecs \<Rightarrow> chd_file \<Rightarrow> chain \<Rightarrow> nat \<Rightarrow> nat \<Rightarrow> nat \<Rightarrow> (bytes \<Rightarrow> bytes \<Rightarrow> bool) \<Rightarrow> bytes \<Rightarrow> read_res" where
  "read_coded cx c parents i offset blocklen ok dest =
     (if length (m_compressed c) < blocklen then Inl Bad_Index
      else case file_read c offset (m_compressed c) blocklen of
             (Some e, cdata) \<Rightarrow> Inr (Some e, dest, c\<lparr>m_compressed := cdata\<rparr> # parents)
           | (None, cdata) \<Rightarrow>
               let chain' = c\<lparr>m_compressed := cdata\<rparr> # parents in
               if \<not> m_decompressor c ! i then Inl Null_Deref
               else if length dest < m_hunkbytes c then Inl Bad_Index
               else case cx_decompress cx (m_compression c ! i) (take blocklen cdata) (m_hunkbytes c) of
                      (out, Some e) \<Rightarrow> Inr (Some e, overwrite 0 out dest, chain')
                    | (out, None) \<Rightarrow>
                        let dest' = overwrite 0 out dest in
                        if ok (take blocklen cdata) (take (m_hunkbytes c) dest') then Inr (None, dest', chain')
                        else Inr (Some (Chd_Error DECOMPRESSION_ERROR), dest', chain'))"

definition mini_fill :: "nat \<Rightarrow> bytes \<Rightarrow> bytes" where
  "mini_fill hunkbytes dest = fold (\<lambda>i d. d[i := d ! (i - 8)]) [8..<hunkbytes] dest"

definition read_hunk_v34 :: "reader \<Rightarrow> codecs \<Rightarrow> chd_file \<Rightarrow> chain \<Rightarrow> nat \<Rightarrow> bytes \<Rightarrow> read_res" where
  "read_hunk_v34 rec cx c parents hunknum dest =
     (case map_entry c (w32 (16 * hunknum)) 16 of
        Inl u \<Rightarrow> Inl u
      | Inr rawmap \<Rightarrow>
          let blockoffs = unat (get_u64be rawmap);
              blockcrc = get_u32be (drop 8 rawmap);
              nocrc = (rawmap ! 15 AND 0x10 \<noteq> 0);
              ok = (\<lambda>d. nocrc \<or> crc32_simple (cx_crc32 cx) d = blockcrc) in
          (case v34_type_of (rawmap ! 15) of
             V34_COMPRESSED \<Rightarrow> read_coded cx c parents 0 blockoffs (blocklen_v34 rawmap) (\<lambda>_. ok) dest
           | V34_UNCOMPRESSED \<Rightarrow> read_plain c parents blockoffs (m_hunkbytes c) ok dest
           | V34_MINI \<Rightarrow>
               if length dest < max 8 (m_hunkbytes c) then Inl Bad_Index
               else let dest' = mini_fill (m_hunkbytes c) (put_u64be (of_nat blockoffs) dest) in
                    if ok (take (m_hunkbytes c) dest') then Inr (None, dest', c # parents)
                    else Inr (Some (Chd_Error DECOMPRESSION_ERROR), dest', c # parents)
           | V34_SELF_HUNK \<Rightarrow> rec (c # parents) (w32 blockoffs) dest
           | V34_PARENT_HUNK \<Rightarrow>
               if m_parent_missing c then Inr (Some (Chd_Error REQUIRES_PARENT), dest, c # parents)
               else (case rec parents (w32 blockoffs) dest of
                       Inl u \<Rightarrow> Inl u
                     | Inr (err, dest', parents') \<Rightarrow> Inr (err, dest', c # parents'))
           | _ \<Rightarrow> Inr (Some (Chd_Error INVALID_DATA), dest, c # parents)))"

definition read_hunk_raw :: "reader \<Rightarrow> chd_file \<Rightarrow> chain \<Rightarrow> nat \<Rightarrow> bytes \<Rightarrow> read_res" where
  "read_hunk_raw rec c parents hunknum dest =
     (case map_entry c (w32 (m_mapentrybytes c * hunknum)) 4 of
        Inl u \<Rightarrow> Inl u
      | Inr rawmap \<Rightarrow>
          let blockoffs = unat (get_u32be rawmap) * m_hunkbytes c in
          if blockoffs \<noteq> 0 then read_plain c parents blockoffs (m_hunkbytes c) (\<lambda>_. True) dest
          else if m_parent_missing c then Inr (Some (Chd_Error REQUIRES_PARENT), dest, c # parents)
          else if parents \<noteq> [] then
            (case rec parents hunknum dest of
               Inl u \<Rightarrow> Inl u
             | Inr (err, dest', parents') \<Rightarrow> Inr (err, dest', c # parents'))
          else if length dest < m_hunkbytes c then Inl Bad_Index
          else Inr (None, overwrite 0 (replicate (m_hunkbytes c) 0) dest, c # parents))"

subsection \<open>Reading bytes\<close>

definition first_hunk :: "nat \<Rightarrow> nat \<Rightarrow> nat" where
  "first_hunk hb offset = w32 (offset div hb)"

definition last_hunk :: "nat \<Rightarrow> nat \<Rightarrow> nat \<Rightarrow> nat" where
  "last_hunk hb offset bytes = w32 (w64 (offset + bytes + (2 ^ 64 - 1)) div hb)"

definition start_offs :: "nat \<Rightarrow> nat \<Rightarrow> nat \<Rightarrow> nat" where
  "start_offs hb offset cur = (if cur = first_hunk hb offset then offset mod hb else 0)"

definition end_offs :: "nat \<Rightarrow> nat \<Rightarrow> nat \<Rightarrow> nat \<Rightarrow> nat" where
  "end_offs hb offset bytes cur =
     (if cur = last_hunk hb offset bytes then w64 (offset + bytes + (2 ^ 64 - 1)) mod hb else hb - 1)"

definition piece_len :: "nat \<Rightarrow> nat \<Rightarrow> nat" where
  "piece_len startoffs endoffs = w32 (endoffs + 1 + (2 ^ 32 - startoffs))"

text \<open>
  The hunks a loop \<open>for (curhunk = first; curhunk <= last; curhunk++)\<close> visits. With the greatest 32 bit
  number as its bound the loop has no end: the counter starts again at zero, and a whole round of it
  leaves every buffer.
\<close>

definition loop_hunks :: "nat \<Rightarrow> nat \<Rightarrow> nat list" where
  "loop_hunks i j = [i..<Suc j] @ (if j = 2 ^ 32 - 1 then [0..<2 ^ 32] else [])"

text \<open>Making hunk \<open>cur\<close> the cached one: it is read into \<open>m_cache\<close>, whatever comes of it.\<close>

definition fill_cache :: "reader \<Rightarrow> chain \<Rightarrow> nat \<Rightarrow> (error_condition option \<times> chain) res" where
  "fill_cache rec chain cur =
     (case chain of
        [] \<Rightarrow> Inl Null_Deref
      | c # _ \<Rightarrow>
          if cur \<noteq> m_cachehunk c then
            case rec chain cur (m_cache c) of
              Inl u \<Rightarrow> Inl u
            | Inr (_, _, []) \<Rightarrow> Inl Null_Deref
            | Inr (Some e, cache, c' # parents') \<Rightarrow> Inr (Some e, c'\<lparr>m_cache := cache\<rparr> # parents')
            | Inr (None, cache, c' # parents') \<Rightarrow>
                Inr (None, c'\<lparr>m_cache := cache, m_cachehunk := cur\<rparr> # parents')
          else Inr (None, chain))"

text \<open>The loop over the hunks; \<open>dest\<close> is the whole buffer and \<open>pos\<close> the current write position.\<close>

fun read_bytes_loop :: "reader \<Rightarrow> nat \<Rightarrow> nat \<Rightarrow> nat list \<Rightarrow> chain \<Rightarrow> nat \<Rightarrow> bytes \<Rightarrow> read_res" where
  "read_bytes_loop rec offset bytes (cur # hunks) (c # parents) pos dest =
     (let hb = m_hunkbytes c;
          startoffs = start_offs hb offset cur;
          endoffs = end_offs hb offset bytes cur;
          n = piece_len startoffs endoffs in
      if startoffs = 0 \<and> endoffs = hb - 1 \<and> cur \<noteq> m_cachehunk c then
        if length dest < pos + hb then Inl Bad_Index
        else case rec (c # parents) cur (slice pos hb dest) of
               Inl u \<Rightarrow> Inl u
             | Inr (Some e, out, chain') \<Rightarrow> Inr (Some e, overwrite pos out dest, chain')
             | Inr (None, out, chain') \<Rightarrow>
                 read_bytes_loop rec offset bytes hunks chain' (pos + n) (overwrite pos out dest)
      else
        case fill_cache rec (c # parents) cur of
          Inl u \<Rightarrow> Inl u
        | Inr (Some e, chain') \<Rightarrow> Inr (Some e, dest, chain')
        | Inr (None, chain') \<Rightarrow>
            let cache = m_cache (hd chain') in
            if length cache < startoffs + n \<or> length dest < pos + n then Inl Bad_Index
            else read_bytes_loop rec offset bytes hunks chain' (pos + n)
                   (overwrite pos (slice startoffs n cache) dest))"
| "read_bytes_loop rec offset bytes [] chain pos dest = Inr (None, dest, chain)"
| "read_bytes_loop rec offset bytes (cur # hunks) [] pos dest = Inl Null_Deref"

definition read_bytes_with :: "reader \<Rightarrow> chain \<Rightarrow> nat \<Rightarrow> bytes \<Rightarrow> nat \<Rightarrow> read_res" where
  "read_bytes_with rec chain offset dest bytes =
     (case chain of
        [] \<Rightarrow> Inl Null_Deref
      | c # _ \<Rightarrow>
          if m_hunkbytes c = 0 then Inl Div_By_Zero
          else read_bytes_loop rec offset bytes
                 (loop_hunks (first_hunk (m_hunkbytes c) offset) (last_hunk (m_hunkbytes c) offset bytes)) chain 0 dest)"

definition read_hunk_v5 :: "reader \<Rightarrow> codecs \<Rightarrow> chd_file \<Rightarrow> chain \<Rightarrow> nat \<Rightarrow> bytes \<Rightarrow> read_res" where
  "read_hunk_v5 rec cx c parents hunknum dest =
     (case map_entry c (w32 (m_mapentrybytes c * hunknum)) 12 of
        Inl u \<Rightarrow> Inl u
      | Inr rawmap \<Rightarrow>
          let blocklen = unat (get_u24be (drop 1 rawmap));
              blockoffs = unat (get_u48be (drop 4 rawmap));
              blockcrc = get_u16be (drop 10 rawmap) in
          (case v5_type_of (rawmap ! 0) of
             COMPRESSION_TYPE i \<Rightarrow>
               read_coded cx c parents i blockoffs blocklen
                 (\<lambda>cdata d. (if \<not> cx_lossy cx (m_compression c ! i) then crc16_simple d else crc16_simple cdata) = blockcrc) dest
           | COMPRESSION_NONE \<Rightarrow>
               read_plain c parents blockoffs (m_hunkbytes c) (\<lambda>d. crc16_simple d = blockcrc) dest
           | COMPRESSION_SELF \<Rightarrow> rec (c # parents) (w32 blockoffs) dest
           | COMPRESSION_PARENT \<Rightarrow>
               if m_parent_missing c then Inr (Some (Chd_Error REQUIRES_PARENT), dest, c # parents)
               else (case parents of
                       [] \<Rightarrow> Inl Null_Deref
                     | p # _ \<Rightarrow>
                         (case read_bytes_with rec parents (w64 (blockoffs * m_unitbytes p)) dest (m_hunkbytes c) of
                            Inl u \<Rightarrow> Inl u
                          | Inr (err, dest', parents') \<Rightarrow> Inr (err, dest', c # parents')))
           | COMPRESSION_OTHER \<Rightarrow> Inr (Some (Chd_Error INVALID_DATA), dest, c # parents)))"

primrec read_hunk :: "nat \<Rightarrow> codecs \<Rightarrow> reader" where
  "read_hunk 0 cx chain hunknum dest = Inl Stack_Overflow"
| "read_hunk (Suc fuel) cx chain hunknum dest =
     (case chain of
        [] \<Rightarrow> Inl Null_Deref
      | c # parents \<Rightarrow>
          if m_file c = None then Inr (Some (Chd_Error NOT_OPEN), dest, chain)
          else if hunknum \<ge> m_hunkcount c then Inr (Some (Chd_Error HUNK_OUT_OF_RANGE), dest, chain)
          else if m_version c = 3 \<or> m_version c = 4 then
            read_hunk_v34 (read_hunk fuel cx) cx c parents hunknum dest
          else if m_version c = 5 then
            if \<not> compressed c then read_hunk_raw (read_hunk fuel cx) c parents hunknum dest
            else read_hunk_v5 (read_hunk fuel cx) cx c parents hunknum dest
          else Inr (Some (Chd_Error INVALID_DATA), dest, chain))"

definition read_bytes :: "nat \<Rightarrow> codecs \<Rightarrow> chain \<Rightarrow> nat \<Rightarrow> bytes \<Rightarrow> nat \<Rightarrow> read_res" where
  "read_bytes fuel cx = read_bytes_with (read_hunk fuel cx)"

definition read_units :: "nat \<Rightarrow> codecs \<Rightarrow> chain \<Rightarrow> nat \<Rightarrow> bytes \<Rightarrow> nat \<Rightarrow> read_res" where
  "read_units fuel cx chain unitnum dest count =
     (case chain of
        [] \<Rightarrow> Inl Null_Deref
      | c # _ \<Rightarrow> read_bytes fuel cx chain (w64 (unitnum * m_unitbytes c)) dest (w32 (count * m_unitbytes c)))"

subsection \<open>Writing\<close>

text \<open>
  \<open>write_hunk\<close>; \<open>from_cache\<close> says that the buffer is \<open>m_cache\<close> itself. The scan for zeros looks at whole
  32 bit words.
\<close>

definition all_zeros :: "nat \<Rightarrow> bytes \<Rightarrow> bool" where
  "all_zeros hb buffer \<longleftrightarrow> list_all (\<lambda>b. b = 0) (take (4 * (hb div 4)) buffer)"

definition write_hunk :: "chd_file \<Rightarrow> nat \<Rightarrow> bytes \<Rightarrow> bool \<Rightarrow> (error_condition option \<times> chd_file) res" where
  "write_hunk c hunknum buffer from_cache =
     (if m_file c = None then Inr (Some (Chd_Error NOT_OPEN), c)
      else if hunknum \<ge> m_hunkcount c then Inr (Some (Chd_Error HUNK_OUT_OF_RANGE), c)
      else if \<not> m_allow_writes c then Inr (Some (Chd_Error FILE_NOT_WRITEABLE), c)
      else if compressed c then Inr (Some (Chd_Error FILE_NOT_WRITEABLE), c)
      else case map_entry c (w32 (hunknum * 4)) 4 of
             Inl u \<Rightarrow> Inl u
           | Inr rawmap \<Rightarrow>
               let rawentry = unat (get_u32be rawmap); hb = m_hunkbytes c in
               if length buffer < hb then Inl Bad_Index
               else if rawentry = 0 then
                 if all_zeros hb buffer then Inr (None, c)
                 else if hb = 0 then Inl Div_By_Zero
                 else case file_append c (take hb buffer) hb of
                        (Inl e, c1) \<Rightarrow> Inr (Some e, c1)
                      | (Inr offset, c1) \<Rightarrow>
                          let rawentry' = of_nat (offset div hb) :: u32;
                              c2 = c1\<lparr>m_rawmap := at_off (w32 (hunknum * 4)) (put_u32be rawentry') (m_rawmap c1)\<rparr> in
                          case file_write c2 (w64 (m_mapoffset c + w32 (hunknum * 4)))
                                 (slice (w32 (hunknum * 4)) 4 (m_rawmap c2)) of
                            (Some e, c3) \<Rightarrow> Inr (Some e, c3)
                          | (None, c3) \<Rightarrow>
                              if hunknum = m_cachehunk c3 \<and> \<not> from_cache then
                                if length (m_cache c3) < hb then Inl Bad_Index
                                else Inr (None, c3\<lparr>m_cache := overwrite 0 (take hb buffer) (m_cache c3)\<rparr>)
                              else Inr (None, c3)
               else Inr (file_write c (rawentry * hb) (take hb buffer)))"

type_synonym write_res = "(error_condition option \<times> chain) res"

text \<open>\<open>pos\<close> is the current read position in the source buffer.\<close>

fun write_bytes_loop :: "reader \<Rightarrow> nat \<Rightarrow> nat \<Rightarrow> nat list \<Rightarrow> chain \<Rightarrow> nat \<Rightarrow> bytes \<Rightarrow> write_res" where
  "write_bytes_loop rec offset bytes (cur # hunks) (c # parents) pos source =
     (let hb = m_hunkbytes c;
          startoffs = start_offs hb offset cur;
          endoffs = end_offs hb offset bytes cur;
          n = piece_len startoffs endoffs in
      if startoffs = 0 \<and> endoffs = hb - 1 \<and> cur \<noteq> m_cachehunk c then
        case write_hunk c cur (drop pos source) False of
          Inl u \<Rightarrow> Inl u
        | Inr (Some e, c') \<Rightarrow> Inr (Some e, c' # parents)
        | Inr (None, c') \<Rightarrow> write_bytes_loop rec offset bytes hunks (c' # parents) (pos + n) source
      else
        case fill_cache rec (c # parents) cur of
          Inl u \<Rightarrow> Inl u
        | Inr (Some e, chain') \<Rightarrow> Inr (Some e, chain')
        | Inr (None, []) \<Rightarrow> Inl Null_Deref
        | Inr (None, c1 # parents1) \<Rightarrow>
            if length (m_cache c1) < startoffs + n \<or> length source < pos + n then Inl Bad_Index
            else let c2 = c1\<lparr>m_cache := overwrite startoffs (slice pos n source) (m_cache c1)\<rparr> in
              case write_hunk c2 cur (m_cache c2) True of
                Inl u \<Rightarrow> Inl u
              | Inr (Some e, c') \<Rightarrow> Inr (Some e, c' # parents1)
              | Inr (None, c') \<Rightarrow> write_bytes_loop rec offset bytes hunks (c' # parents1) (pos + n) source)"
| "write_bytes_loop rec offset bytes [] chain pos source = Inr (None, chain)"
| "write_bytes_loop rec offset bytes (cur # hunks) [] pos source = Inl Null_Deref"

definition write_bytes :: "nat \<Rightarrow> codecs \<Rightarrow> chain \<Rightarrow> nat \<Rightarrow> bytes \<Rightarrow> nat \<Rightarrow> write_res" where
  "write_bytes fuel cx chain offset source bytes =
     (case chain of
        [] \<Rightarrow> Inl Null_Deref
      | c # _ \<Rightarrow>
          if m_hunkbytes c = 0 then Inl Div_By_Zero
          else write_bytes_loop (read_hunk fuel cx) offset bytes
                 (loop_hunks (first_hunk (m_hunkbytes c) offset) (last_hunk (m_hunkbytes c) offset bytes)) chain 0 source)"

definition write_units :: "nat \<Rightarrow> codecs \<Rightarrow> chain \<Rightarrow> nat \<Rightarrow> bytes \<Rightarrow> nat \<Rightarrow> write_res" where
  "write_units fuel cx chain unitnum source count =
     (case chain of
        [] \<Rightarrow> Inl Null_Deref
      | c # _ \<Rightarrow> write_bytes fuel cx chain (w64 (unitnum * m_unitbytes c)) source (w32 (count * m_unitbytes c)))"

subsection \<open>Processing a hunk in its codec\<close>

type_synonym process_res = "(error_condition option \<times> chain) res"

definition process_coded :: "codecs \<Rightarrow> chd_file \<Rightarrow> chain \<Rightarrow> nat \<Rightarrow> nat \<Rightarrow> nat \<Rightarrow> process_res" where
  "process_coded cx c parents i offset blocklen =
     (if length (m_compressed c) < blocklen then Inl Bad_Index
      else case file_read c offset (m_compressed c) blocklen of
             (Some e, cdata) \<Rightarrow> Inr (Some e, c\<lparr>m_compressed := cdata\<rparr> # parents)
           | (None, cdata) \<Rightarrow>
               if \<not> m_decompressor c ! i then Inl Null_Deref
               else Inr (cx_process cx (m_compression c ! i) (take blocklen cdata), c\<lparr>m_compressed := cdata\<rparr> # parents))"

definition in_parent :: "chd_file \<Rightarrow> process_res \<Rightarrow> process_res" where
  "in_parent c r = (case r of Inl u \<Rightarrow> Inl u | Inr (err, parents') \<Rightarrow> Inr (err, c # parents'))"

primrec codec_process_hunk :: "nat \<Rightarrow> codecs \<Rightarrow> chain \<Rightarrow> nat \<Rightarrow> process_res" where
  "codec_process_hunk 0 cx chain hunknum = Inl Stack_Overflow"
| "codec_process_hunk (Suc fuel) cx chain hunknum =
     (case chain of
        [] \<Rightarrow> Inl Null_Deref
      | c # parents \<Rightarrow>
          if m_file c = None then Inr (Some (Chd_Error NOT_OPEN), chain)
          else if hunknum \<ge> m_hunkcount c then Inr (Some (Chd_Error HUNK_OUT_OF_RANGE), chain)
          else if m_version c = 3 \<or> m_version c = 4 then
            case map_entry c (w32 (16 * hunknum)) 16 of
              Inl u \<Rightarrow> Inl u
            | Inr rawmap \<Rightarrow>
                let blockoffs = unat (get_u64be rawmap) in
                (case v34_type_of (rawmap ! 15) of
                   V34_COMPRESSED \<Rightarrow> process_coded cx c parents 0 blockoffs (blocklen_v34 rawmap)
                 | V34_UNCOMPRESSED \<Rightarrow> Inr (Some (Chd_Error UNSUPPORTED_FORMAT), chain)
                 | V34_MINI \<Rightarrow> Inr (Some (Chd_Error UNSUPPORTED_FORMAT), chain)
                 | V34_SELF_HUNK \<Rightarrow> codec_process_hunk fuel cx chain (w32 blockoffs)
                 | V34_PARENT_HUNK \<Rightarrow>
                     if m_parent_missing c then Inr (Some (Chd_Error REQUIRES_PARENT), chain)
                     else in_parent c (codec_process_hunk fuel cx parents (w32 blockoffs))
                 | _ \<Rightarrow> Inr (Some (Chd_Error INVALID_DATA), chain))
          else if m_version c = 5 then
            if \<not> compressed c then Inr (Some (Chd_Error UNSUPPORTED_FORMAT), chain)
            else case map_entry c (w32 (m_mapentrybytes c * hunknum)) 12 of
                   Inl u \<Rightarrow> Inl u
                 | Inr rawmap \<Rightarrow>
                     let blocklen = unat (get_u24be (drop 1 rawmap));
                         blockoffs = unat (get_u48be (drop 4 rawmap)) in
                     (case v5_type_of (rawmap ! 0) of
                        COMPRESSION_TYPE i \<Rightarrow> process_coded cx c parents i blockoffs blocklen
                      | COMPRESSION_NONE \<Rightarrow> Inr (Some (Chd_Error UNSUPPORTED_FORMAT), chain)
                      | COMPRESSION_SELF \<Rightarrow> codec_process_hunk fuel cx chain (w32 blockoffs)
                      | COMPRESSION_PARENT \<Rightarrow>
                          if m_parent_missing c then Inr (Some (Chd_Error REQUIRES_PARENT), chain)
                          else (case parents of
                                  [] \<Rightarrow> Inl Null_Deref
                                | p # _ \<Rightarrow>
                                    if m_unitbytes p = 0 \<or> m_hunkbytes p div m_unitbytes p = 0 then Inl Div_By_Zero
                                    else in_parent c (codec_process_hunk fuel cx parents
                                           (w32 (blockoffs div (m_hunkbytes p div m_unitbytes p)))))
                      | COMPRESSION_OTHER \<Rightarrow> Inr (Some (Chd_Error INVALID_DATA), chain))
          else Inr (Some (Chd_Error INVALID_DATA), chain))"

subsection \<open>Appending to a compressed file\<close>

definition verify_proper_compression_append :: "chd_file \<Rightarrow> nat \<Rightarrow> error_condition option res" where
  "verify_proper_compression_append c hunknum =
     (if m_file c = None then Inr (Some (Chd_Error NOT_OPEN))
      else if hunknum \<ge> m_hunkcount c then Inr (Some (Chd_Error HUNK_OUT_OF_RANGE))
      else if \<not> m_allow_writes c then Inr (Some (Chd_Error FILE_NOT_WRITEABLE))
      else if \<not> compressed c then Inr (Some (Chd_Error FILE_NOT_WRITEABLE))
      else case map_entry c (w32 (hunknum * 12)) 12 of
             Inl u \<Rightarrow> Inl u
           | Inr rawmap \<Rightarrow>
               if rawmap ! 0 \<noteq> 0xff then Inr (Some (Chd_Error COMPRESSION_ERROR))
               else if hunknum \<noteq> 0 \<and> w32 (hunknum * 12) < 12 then Inl Bad_Index
               else if hunknum \<noteq> 0 \<and> m_rawmap c ! (w32 (hunknum * 12) - 12) = 0xff
                 then Inr (Some (Chd_Error COMPRESSION_ERROR))
               else Inr None)"

text \<open>The four fields of a map entry, written one after the other.\<close>

definition put_map_entry :: "u8 \<Rightarrow> nat \<Rightarrow> nat \<Rightarrow> u16 \<Rightarrow> bytes \<Rightarrow> bytes" where
  "put_map_entry comptype len offset crc rawmap =
     at_off 10 (put_u16be crc) (at_off 4 (put_u48be (of_nat offset)) (at_off 1 (put_u24be (of_nat len)) (rawmap[0 := comptype])))"

definition set_map_entry :: "nat \<Rightarrow> u8 \<Rightarrow> nat \<Rightarrow> nat \<Rightarrow> u16 \<Rightarrow> chd_file \<Rightarrow> chd_file" where
  "set_map_entry hunknum comptype len offset crc c =
     c\<lparr>m_rawmap := at_off (w32 (hunknum * 12)) (put_map_entry comptype len offset crc) (m_rawmap c)\<rparr>"

definition hunk_write_compressed ::
    "chd_file \<Rightarrow> nat \<Rightarrow> int \<Rightarrow> bytes \<Rightarrow> nat \<Rightarrow> u16 \<Rightarrow> (error_condition option \<times> chd_file) res" where
  "hunk_write_compressed c hunknum compression compressed_data complength crc =
     (case verify_proper_compression_append c hunknum of
        Inl u \<Rightarrow> Inl u
      | Inr (Some e) \<Rightarrow> Inr (Some e, c)
      | Inr None \<Rightarrow>
          if length compressed_data < complength then Inl Bad_Index
          else case file_append c (take complength compressed_data) 0 of
                 (Inl e, c1) \<Rightarrow> Inr (Some e, c1)
               | (Inr offset, c1) \<Rightarrow>
                   Inr (None, set_map_entry hunknum (if compression = -1 then 4 else word_of_int compression)
                                complength offset crc c1))"

definition hunk_copy_from_self :: "chd_file \<Rightarrow> nat \<Rightarrow> nat \<Rightarrow> (error_condition option \<times> chd_file) res" where
  "hunk_copy_from_self c hunknum otherhunk =
     (case verify_proper_compression_append c hunknum of
        Inl u \<Rightarrow> Inl u
      | Inr (Some e) \<Rightarrow> Inr (Some e, c)
      | Inr None \<Rightarrow>
          if otherhunk \<ge> hunknum then Inr (Some (Chd_Error HUNK_OUT_OF_RANGE), c)
          else Inr (None, set_map_entry hunknum 5 0 otherhunk 0 c))"

definition hunk_copy_from_parent :: "chd_file \<Rightarrow> nat \<Rightarrow> nat \<Rightarrow> (error_condition option \<times> chd_file) res" where
  "hunk_copy_from_parent c hunknum parentunit =
     (case verify_proper_compression_append c hunknum of
        Inl u \<Rightarrow> Inl u
      | Inr (Some e) \<Rightarrow> Inr (Some e, c)
      | Inr None \<Rightarrow> Inr (None, set_map_entry hunknum 6 0 parentunit 0 c))"

end
