(* ===== verification/Chd_Bytes.thy ===== *)
theory Chd_Bytes
  imports Chd_Hunk
begin

text \<open>
  The byte interface over hunks. The loops of \<open>read_bytes\<close> and \<open>write_bytes\<close> are verified once, against
  the contract of a hunk reader and a hunk writer, stated as locales: a chain that holds the hunks \<open>f\<close>
  behaves as the flat array \<open>flat n f\<close>. The contracts are interpreted on the model where the hunks are
  stored.
\<close>

subsection \<open>The geometry of a transfer\<close>

definition flat :: "nat \<Rightarrow> (nat \<Rightarrow> bytes) \<Rightarrow> bytes" where
  "flat n f = concat (map f [0..<n])"

text \<open>How many bytes of a transfer at \<open>offset\<close> lie before hunk \<open>cur\<close>.\<close>

definition done_before :: "nat \<Rightarrow> nat \<Rightarrow> nat \<Rightarrow> nat \<Rightarrow> nat" where
  "done_before hb offset bytes cur = min bytes (cur * hb - offset)"

lemma length_flat: "(\<And>h. h < n \<Longrightarrow> length (f h) = hb) \<Longrightarrow> length (flat n f) = n * hb"
  by (induction n) (auto simp: flat_def)

lemma flat_Suc: "flat (Suc n) f = flat n f @ f n"
  by (simp add: flat_def)

lemma slice_flat:
  assumes "\<And>h. h < n \<Longrightarrow> length (f h) = hb" "h < n" "i + k \<le> hb"
  shows "slice (h * hb + i) k (flat n f) = slice i k (f h)"
  using assms
proof (induction n)
  case (Suc n)
  have len: "length (flat n f) = n * hb" using Suc.prems(1) by (intro length_flat) simp
  show ?case
  proof (cases "h < n")
    case True
    have "(h + 1) * hb \<le> n * hb" using True by (intro mult_le_mono1) simp
    then have "h * hb + i + k \<le> length (flat n f)" using Suc.prems(3) len by simp
    then show ?thesis using True Suc by (simp add: flat_Suc slice_append_left)
  next
    case False
    then have "h = n" using Suc.prems(2) by simp
    then show ?thesis using len by (simp add: flat_Suc slice_append_right)
  qed
qed simp

lemma flat_update:
  assumes "\<And>h. h < n \<Longrightarrow> length (f h) = hb" "h < n" "i + length ys \<le> hb"
  shows "flat n (f(h := overwrite i ys (f h))) = overwrite (h * hb + i) ys (flat n f)"
  using assms
proof (induction n)
  case (Suc n)
  have len: "length (flat n f) = n * hb" using Suc.prems(1) by (intro length_flat) simp
  show ?case
  proof (cases "h < n")
    case True
    have "(h + 1) * hb \<le> n * hb" using True by (intro mult_le_mono1) simp
    then have "h * hb + i + length ys \<le> length (flat n f)" using Suc.prems(3) len by simp
    then show ?thesis using True Suc by (simp add: flat_Suc overwrite_def)
  next
    case False
    then have h: "h = n" using Suc.prems(2) by simp
    have "flat n (f(n := overwrite i ys (f n))) = flat n f"
      unfolding flat_def by (intro arg_cong [of _ _ concat] map_cong) simp_all
    then show ?thesis unfolding flat_Suc h fun_upd_same using len by (simp add: overwrite_def)
  qed
qed simp

text \<open>A transfer that stays inside the data and inside 32 and 64 bit numbers.\<close>

definition transfer_ok :: "nat \<Rightarrow> nat \<Rightarrow> nat \<Rightarrow> nat \<Rightarrow> bool" where
  "transfer_ok hb n offset bytes \<longleftrightarrow>
     0 < hb \<and> hb < 2 ^ 32 \<and> n < 2 ^ 32 \<and> 0 < bytes \<and> offset + bytes \<le> n * hb"

lemma transfer_bounds:
  assumes "transfer_ok hb n offset bytes"
  shows "first_hunk hb offset = offset div hb"
    "last_hunk hb offset bytes = (offset + bytes - 1) div hb"
    "w64 (offset + bytes + (2 ^ 64 - 1)) = offset + bytes - 1"
    "(offset + bytes - 1) div hb < n" "offset div hb \<le> (offset + bytes - 1) div hb"
proof -
  have t: "0 < hb" "hb < 2 ^ 32" "n < 2 ^ 32" "0 < bytes" "offset + bytes \<le> n * hb"
    using assms by (simp_all add: transfer_ok_def)
  have "n * hb \<le> 2 ^ 32 * 2 ^ 32" using t by (intro mult_le_mono) simp_all
  then have big: "offset + bytes \<le> 2 ^ 64" using t(5) by simp
  have "offset + bytes + (2 ^ 64 - 1) = (offset + bytes - 1) + 2 ^ 64" using t(4) by simp
  then show w: "w64 (offset + bytes + (2 ^ 64 - 1)) = offset + bytes - 1"
    unfolding w64_def by (simp only: mod_add_self2) (use big t(4) in simp)
  have "offset + bytes - 1 < n * hb" using t(4,5) by linarith
  then show l: "(offset + bytes - 1) div hb < n" by (simp add: less_mult_imp_div_less)
  show le: "offset div hb \<le> (offset + bytes - 1) div hb" using t(4) by (intro div_le_mono) simp
  show "first_hunk hb offset = offset div hb" using l le t(3) by (simp add: first_hunk_def w32_def)
  show "last_hunk hb offset bytes = (offset + bytes - 1) div hb"
    using l t(3) w by (simp add: last_hunk_def w32_def)
qed

lemma transfer_piece:
  assumes "transfer_ok hb n offset bytes" "offset div hb \<le> cur" "cur \<le> (offset + bytes - 1) div hb"
  defines "s \<equiv> start_offs hb offset cur" and "e \<equiv> end_offs hb offset bytes cur"
    and "p \<equiv> done_before hb offset bytes cur"
  shows "piece_len s e = e + 1 - s" "s \<le> e" "e < hb" "offset + p = cur * hb + s"
    "p + (e + 1 - s) = done_before hb offset bytes (Suc cur)" "p + (e + 1 - s) \<le> bytes"
proof -
  note t = transfer_bounds [OF assms(1)]
  have hb: "0 < hb" "hb < 2 ^ 32" "0 < bytes" using assms(1) by (simp_all add: transfer_ok_def)
  define z where "z = offset + bytes - 1"
  have ow: "offset = offset div hb * hb + offset mod hb" by simp
  have zw: "z = z div hb * hb + z mod hb" by simp
  have om: "offset mod hb < hb" "z mod hb < hb" using hb by simp_all
  have oz: "offset \<le> z" using hb by (simp add: z_def)
  have s: "s = (if cur = offset div hb then offset mod hb else 0)"
    unfolding s_def start_offs_def t(1) by simp
  have e: "e = (if cur = z div hb then z mod hb else hb - 1)"
    unfolding e_def end_offs_def t(2,3) z_def by simp
  have cz: "cur \<le> z div hb" using assms(3) by (simp add: z_def)
  have s_eq: "cur * hb + s = max (cur * hb) offset"
  proof (cases "cur = offset div hb")
    case False
    then have "(offset div hb + 1) * hb \<le> cur * hb" using assms(2) by (intro mult_le_mono1) simp
    then have "offset < cur * hb" using om ow unfolding distrib_right by linarith
    then show ?thesis using False s by simp
  qed (use s ow in \<open>simp add: max_def\<close>)
  have e_eq: "cur * hb + e = min (cur * hb + (hb - 1)) z"
  proof (cases "cur = z div hb")
    case False
    then have "(cur + 1) * hb \<le> z div hb * hb" using cz by (intro mult_le_mono1) simp
    then have "cur * hb + hb \<le> z" using zw unfolding distrib_right by linarith
    then show ?thesis using False e by simp
  next
    case True
    then have "cur * hb + e = z" using e zw by simp
    moreover have "e \<le> hb - 1" using True e om by simp
    ultimately show ?thesis by linarith
  qed
  have cur_z: "cur * hb \<le> z" using cz zw by (metis le_add1 mult_le_mono1 order_trans)
  have off_end: "offset \<le> cur * hb + (hb - 1)"
  proof -
    have "offset div hb * hb \<le> cur * hb" using assms(2) by (rule mult_le_mono1)
    then show ?thesis using ow om by linarith
  qed
  show se: "s \<le> e" using s_eq e_eq cur_z oz off_end by linarith
  show eb: "e < hb" using e om hb by auto
  show "piece_len s e = e + 1 - s"
  proof -
    have "e + 1 + (2 ^ 32 - s) = (e + 1 - s) + 2 ^ 32" using se eb hb by simp
    then show ?thesis using se eb hb unfolding piece_len_def w32_def by (simp only: mod_add_self2) simp
  qed
  have p: "p = cur * hb - offset" using cur_z hb by (simp add: p_def done_before_def z_def)
  show "offset + p = cur * hb + s" using p s_eq by simp
  show "p + (e + 1 - s) = done_before hb offset bytes (Suc cur)"
  proof -
    have "Suc cur * hb = cur * hb + hb" by simp
    then show ?thesis using p s_eq e_eq se hb oz cur_z unfolding done_before_def z_def by linarith
  qed
  then show "p + (e + 1 - s) \<le> bytes" by (simp add: done_before_def)
qed

subsection \<open>One turn of a loop\<close>

definition whole_hunk :: "nat \<Rightarrow> nat \<Rightarrow> chd_file \<Rightarrow> nat \<Rightarrow> bool" where
  "whole_hunk offset bytes c cur \<longleftrightarrow>
     start_offs (m_hunkbytes c) offset cur = 0 \<and>
     end_offs (m_hunkbytes c) offset bytes cur = m_hunkbytes c - 1 \<and> cur \<noteq> m_cachehunk c"

lemma read_loop_whole:
  assumes "whole_hunk offset bytes c cur" "pos + m_hunkbytes c \<le> length dest"
    "rec (c # parents) cur (slice pos (m_hunkbytes c) dest) = Inr (None, out, chain')"
  shows "read_bytes_loop rec offset bytes (cur # hunks) (c # parents) pos dest =
    read_bytes_loop rec offset bytes hunks chain'
      (pos + piece_len (start_offs (m_hunkbytes c) offset cur) (end_offs (m_hunkbytes c) offset bytes cur))
      (overwrite pos out dest)"
  using assms by (simp add: whole_hunk_def)

lemma read_loop_part:
  assumes "\<not> whole_hunk offset bytes c cur"
    "fill_cache rec (c # parents) cur = Inr (None, c' # parents')"
  defines "s \<equiv> start_offs (m_hunkbytes c) offset cur"
    and "k \<equiv> piece_len (start_offs (m_hunkbytes c) offset cur) (end_offs (m_hunkbytes c) offset bytes cur)"
  assumes "s + k \<le> length (m_cache c')" "pos + k \<le> length dest"
  shows "read_bytes_loop rec offset bytes (cur # hunks) (c # parents) pos dest =
    read_bytes_loop rec offset bytes hunks (c' # parents') (pos + k) (overwrite pos (slice s k (m_cache c')) dest)"
  using assms unfolding read_bytes_loop.simps Let_def whole_hunk_def [symmetric] by simp

lemma write_loop_whole:
  assumes "whole_hunk offset bytes c cur" "write_hunk c cur (drop pos source) False = Inr (None, c')"
  shows "write_bytes_loop rec offset bytes (cur # hunks) (c # parents) pos source =
    write_bytes_loop rec offset bytes hunks (c' # parents)
      (pos + piece_len (start_offs (m_hunkbytes c) offset cur) (end_offs (m_hunkbytes c) offset bytes cur)) source"
  using assms by (simp add: whole_hunk_def)

lemma write_loop_part:
  assumes "\<not> whole_hunk offset bytes c cur"
    "fill_cache rec (c # parents) cur = Inr (None, c1 # parents1)"
  defines "s \<equiv> start_offs (m_hunkbytes c) offset cur"
    and "k \<equiv> piece_len (start_offs (m_hunkbytes c) offset cur) (end_offs (m_hunkbytes c) offset bytes cur)"
  assumes "buf = overwrite s (slice pos k source) (m_cache c1)" "s + k \<le> length (m_cache c1)" "pos + k \<le> length source"
    "write_hunk (c1\<lparr>m_cache := buf\<rparr>) cur buf True = Inr (None, c')"
  shows "write_bytes_loop rec offset bytes (cur # hunks) (c # parents) pos source =
    write_bytes_loop rec offset bytes hunks (c' # parents1) (pos + k) source"
  using assms unfolding write_bytes_loop.simps Let_def whole_hunk_def [symmetric] by simp

subsection \<open>The contract of a hunk reader\<close>

text \<open>
  \<open>inv f chain\<close>: the chain holds \<open>n\<close> hunks of \<open>hb\<close> bytes, hunk \<open>h\<close> being \<open>f h\<close>, and its cache is right.
  A reader returns the hunk it is asked for and keeps what the chain holds.
\<close>

locale hunk_reader =
  fixes rec :: reader
    and inv :: "(nat \<Rightarrow> bytes) \<Rightarrow> chain \<Rightarrow> bool"
    and hb :: nat
    and n :: nat
  assumes inv_hunk: "inv f chain \<Longrightarrow> h < n \<Longrightarrow> length (f h) = hb"
    and inv_head: "inv f chain \<Longrightarrow>
      \<exists>c parents. chain = c # parents \<and> m_hunkbytes c = hb \<and> length (m_cache c) = hb \<and>
        (m_cachehunk c < n \<longrightarrow> m_cache c = f (m_cachehunk c))"
    and read: "inv f chain \<Longrightarrow> h < n \<Longrightarrow> hb \<le> length dest \<Longrightarrow>
      \<exists>chain'. rec chain h dest = Inr (None, overwrite 0 (f h) dest, chain') \<and> inv f chain'"
    and cached: "inv f (c # parents) \<Longrightarrow> h < n \<Longrightarrow>
      inv f (c\<lparr>m_cache := f h, m_cachehunk := h\<rparr> # parents)"
begin

lemma fill:
  assumes "inv f chain" "cur < n"
  shows "\<exists>c parents. fill_cache rec chain cur = Inr (None, c # parents) \<and> inv f (c # parents) \<and>
    m_cachehunk c = cur \<and> m_cache c = f cur"
proof -
  obtain c parents where c: "chain = c # parents" "length (m_cache c) = hb"
      "m_cachehunk c < n \<longrightarrow> m_cache c = f (m_cachehunk c)"
    using inv_head [OF assms(1)] by blast
  show ?thesis
  proof (cases "cur = m_cachehunk c")
    case True
    then show ?thesis using c assms by (auto simp: fill_cache_def)
  next
    case False
    obtain chain' where r: "rec chain cur (m_cache c) = Inr (None, overwrite 0 (f cur) (m_cache c), chain')"
        "inv f chain'"
      using read [OF assms, of "m_cache c"] c(2) by auto
    obtain c' parents' where c': "chain' = c' # parents'" using inv_head [OF r(2)] by blast
    have "overwrite 0 (f cur) (m_cache c) = f cur"
      using c(2) inv_hunk [OF assms] by (simp add: overwrite_def)
    moreover have "inv f (c'\<lparr>m_cache := f cur, m_cachehunk := cur\<rparr> # parents')"
      using cached [of f c' parents' cur] r(2) c' assms(2) by simp
    ultimately show ?thesis using False c(1) c' r(1) by (auto simp: fill_cache_def)
  qed
qed

lemma read_loop:
  assumes "inv f chain" "transfer_ok hb n offset bytes" "bytes \<le> length dest"
    and "offset div hb \<le> cur" "cur \<le> Suc ((offset + bytes - 1) div hb)"
  shows "\<exists>chain'. read_bytes_loop rec offset bytes [cur..<Suc ((offset + bytes - 1) div hb)] chain
      (done_before hb offset bytes cur) (overwrite 0 (slice offset (done_before hb offset bytes cur) (flat n f)) dest)
    = Inr (None, overwrite 0 (slice offset (done_before hb offset bytes (Suc ((offset + bytes - 1) div hb))) (flat n f)) dest, chain')
    \<and> inv f chain'"
  using assms
proof (induction "Suc ((offset + bytes - 1) div hb) - cur" arbitrary: cur chain)
  case 0
  then have "cur = Suc ((offset + bytes - 1) div hb)" by simp
  then show ?case using 0 by simp
next
  case (Suc k)
  define last where "last = (offset + bytes - 1) div hb"
  have le: "cur \<le> last" using Suc(2) unfolding last_def by linarith
  have step: "[cur..<Suc last] = cur # [Suc cur..<Suc last]" using le by (simp add: upt_conv_Cons)
  define p where "p = done_before hb offset bytes cur"
  define s where "s = start_offs hb offset cur"
  define e where "e = end_offs hb offset bytes cur"
  note piece = transfer_piece [OF Suc(4,6) le [unfolded last_def], folded s_def e_def p_def]
  have cur: "cur < n" using le transfer_bounds(4) [OF Suc(4)] unfolding last_def by linarith
  have lens: "\<And>h. h < n \<Longrightarrow> length (f h) = hb" using inv_hunk [OF Suc(3)] .
  have size: "offset + bytes \<le> length (flat n f)"
    using Suc(4) by (simp add: transfer_ok_def length_flat [OF lens])
  define d where "d = overwrite 0 (slice offset p (flat n f)) dest"
  have p_le: "p \<le> bytes" using piece(6) by linarith
  have len_d: "length d = length dest" using p_le size Suc(5) by (simp add: d_def)
  have next_d: "overwrite p (slice s (e + 1 - s) (f cur)) d =
      overwrite 0 (slice offset (done_before hb offset bytes (Suc cur)) (flat n f)) dest"
  proof -
    have "slice s (e + 1 - s) (f cur) = slice (offset + p) (e + 1 - s) (flat n f)"
      using slice_flat [of n f hb cur s "e + 1 - s"] lens cur piece(2,3,4) by simp
    moreover have "slice offset (done_before hb offset bytes (Suc cur)) (flat n f) =
        slice offset p (flat n f) @ slice (offset + p) (e + 1 - s) (flat n f)"
      unfolding piece(5) [symmetric] by (rule slice_add)
    ultimately show ?thesis using size piece(6) p_le Suc(5) by (simp add: d_def overwrite_def add.commute)
  qed
  obtain c parents where c: "chain = c # parents" "m_hunkbytes c = hb" using inv_head [OF Suc(3)] by blast
  have IH: "inv f chain' \<Longrightarrow> \<exists>chain''. read_bytes_loop rec offset bytes [Suc cur..<Suc last] chain'
      (p + (e + 1 - s)) (overwrite p (slice s (e + 1 - s) (f cur)) d)
      = Inr (None, overwrite 0 (slice offset (done_before hb offset bytes (Suc last)) (flat n f)) dest, chain'')
      \<and> inv f chain''" for chain'
    unfolding next_d piece(5) last_def
    using Suc(1) [of "Suc cur" chain'] Suc(2-7) le by (simp add: last_def)
  show ?case
  proof (cases "whole_hunk offset bytes c cur")
    case True
    have se: "s = 0" "e = hb - 1" using True c by (simp_all add: whole_hunk_def s_def e_def)
    have hb: "e + 1 - s = hb" using se piece(3) by simp
    then have room: "p + hb \<le> length d" using piece(6) Suc(5) len_d by linarith
    obtain chain' where r: "rec chain cur (slice p hb d) = Inr (None, overwrite 0 (f cur) (slice p hb d), chain')"
        "inv f chain'"
      using read [OF Suc(3) cur, of "slice p hb d"] room by auto
    have "overwrite 0 (f cur) (slice p hb d) = slice s (e + 1 - s) (f cur)"
      using room se lens [OF cur] hb by (simp add: overwrite_def)
    then have "read_bytes_loop rec offset bytes (cur # [Suc cur..<Suc last]) chain p d =
        read_bytes_loop rec offset bytes [Suc cur..<Suc last] chain' (p + (e + 1 - s))
          (overwrite p (slice s (e + 1 - s) (f cur)) d)"
      using read_loop_whole [OF True, of p d rec parents _ chain'] r(1) c room piece(1)
      by (simp add: s_def [symmetric] e_def [symmetric] del: upt_Suc)
    then show ?thesis
      using IH [OF r(2)] unfolding last_def [symmetric] step p_def [symmetric] d_def [symmetric] by simp
  next
    case False
    obtain c' parents' where r: "fill_cache rec chain cur = Inr (None, c' # parents')" "inv f (c' # parents')"
        "m_cache c' = f cur"
      using fill [OF Suc(3) cur] by blast
    have "read_bytes_loop rec offset bytes (cur # [Suc cur..<Suc last]) chain p d =
        read_bytes_loop rec offset bytes [Suc cur..<Suc last] (c' # parents') (p + (e + 1 - s))
          (overwrite p (slice s (e + 1 - s) (f cur)) d)"
      using read_loop_part [OF False, of rec parents c' parents' p d] r c piece(1,2,3,6) lens [OF cur] len_d Suc(5)
      by (simp add: s_def [symmetric] e_def [symmetric] del: upt_Suc)
    then show ?thesis
      using IH [OF r(2)] unfolding last_def [symmetric] step p_def [symmetric] d_def [symmetric] by simp
  qed
qed

lemma loop_hunks_bounded: "transfer_ok hb n offset bytes \<Longrightarrow>
  loop_hunks (first_hunk hb offset) (last_hunk hb offset bytes) = [offset div hb..<Suc ((offset + bytes - 1) div hb)]"
  using transfer_bounds [of hb n offset bytes] unfolding loop_hunks_def transfer_ok_def by simp

lemma done_at_first: "done_before hb offset bytes (offset div hb) = 0"
  by (simp add: done_before_def)

lemma done_at_last: "transfer_ok hb n offset bytes \<Longrightarrow>
  done_before hb offset bytes (Suc ((offset + bytes - 1) div hb)) = bytes"
proof -
  assume t: "transfer_ok hb n offset bytes"
  define z where "z = offset + bytes - 1"
  have "0 < hb" "0 < bytes" using t by (simp_all add: transfer_ok_def)
  moreover have "z < Suc (z div hb) * hb"
    using \<open>0 < hb\<close> by (metis div_less_iff_less_mult lessI)
  ultimately show ?thesis unfolding done_before_def z_def [symmetric] by (simp add: z_def)
qed

lemma read_bytes_flat:
  assumes "inv f chain" "transfer_ok hb n offset bytes" "bytes \<le> length dest"
  shows "\<exists>chain'. read_bytes_with rec chain offset dest bytes =
      Inr (None, overwrite 0 (slice offset bytes (flat n f)) dest, chain') \<and> inv f chain'"
proof -
  obtain c parents where c: "chain = c # parents" "m_hunkbytes c = hb" using inv_head [OF assms(1)] by blast
  have "0 < hb" using assms(2) by (simp add: transfer_ok_def)
  then show ?thesis
    using read_loop [OF assms, of "offset div hb"] transfer_bounds(5) [OF assms(2)] c
    unfolding done_at_first done_at_last [OF assms(2)]
    by (simp add: read_bytes_with_def loop_hunks_bounded [OF assms(2)] overwrite_def del: upt_Suc)
qed

end

subsection \<open>The contract of a hunk writer\<close>

text \<open>
  A hunk that is not the cached one is replaced by a direct write; the cached hunk is written from the
  cache after the cache was changed.
\<close>

locale hunk_writer = hunk_reader +
  assumes write_other: "inv f (c # parents) \<Longrightarrow> h < n \<Longrightarrow> h \<noteq> m_cachehunk c \<Longrightarrow> hb \<le> length buf \<Longrightarrow>
      \<exists>c'. write_hunk c h buf False = Inr (None, c') \<and> inv (f(h := take hb buf)) (c' # parents)"
    and write_cached: "inv f (c # parents) \<Longrightarrow> h < n \<Longrightarrow> m_cachehunk c = h \<Longrightarrow> length buf = hb \<Longrightarrow>
      \<exists>c'. write_hunk (c\<lparr>m_cache := buf\<rparr>) h buf True = Inr (None, c') \<and> inv (f(h := buf)) (c' # parents)"
begin

text \<open>One turn replaces a part of one hunk, which is a part of the flat array.\<close>

lemma write_step:
  assumes "inv f chain" "transfer_ok hb n offset bytes" "bytes \<le> length source"
    and "offset div hb \<le> cur" "cur \<le> (offset + bytes - 1) div hb"
  defines "p \<equiv> done_before hb offset bytes cur" and "q \<equiv> done_before hb offset bytes (Suc cur)"
  shows "\<exists>g chain'. write_bytes_loop rec offset bytes (cur # hunks) chain p source =
      write_bytes_loop rec offset bytes hunks chain' q source \<and> inv g chain' \<and>
      flat n g = overwrite (offset + p) (slice p (q - p) source) (flat n f)"
proof -
  define s where "s = start_offs hb offset cur"
  define e where "e = end_offs hb offset bytes cur"
  note piece = transfer_piece [OF assms(2,4,5), folded s_def e_def p_def q_def]
  have cur: "cur < n" using assms(5) transfer_bounds(4) [OF assms(2)] by linarith
  have lens: "\<And>h. h < n \<Longrightarrow> length (f h) = hb" using inv_hunk [OF assms(1)] .
  obtain c parents where c: "chain = c # parents" "m_hunkbytes c = hb" using inv_head [OF assms(1)] by blast
  have q: "e + 1 - s = q - p" "p + (q - p) = q" "q \<le> length source" using piece(5,6) assms(3) by linarith+
  show ?thesis
  proof (cases "whole_hunk offset bytes c cur")
    case True
    have se: "s = 0" "e = hb - 1" using True c by (simp_all add: whole_hunk_def s_def e_def)
    then have hb: "q - p = hb" using q(1) piece(3) by simp
    obtain c' where w: "write_hunk c cur (drop p source) False = Inr (None, c')"
        "inv (f(cur := take hb (drop p source))) (c' # parents)"
      using write_other [of f c parents cur "drop p source"] assms(1) c cur True hb q(2,3)
      by (fastforce simp: whole_hunk_def)
    have "take hb (drop p source) = overwrite 0 (slice p (q - p) source) (f cur)"
      using lens [OF cur] hb q by (simp add: overwrite_def slice_def)
    then have "flat n (f(cur := take hb (drop p source))) = overwrite (offset + p) (slice p (q - p) source) (flat n f)"
      using flat_update [of n f hb cur 0 "slice p (q - p) source"] lens cur hb q se piece(4) by simp
    then show ?thesis
      using write_loop_whole [OF True w(1), of rec hunks parents] w(2) c piece(1) q
      by (auto simp: s_def [symmetric] e_def [symmetric])
  next
    case False
    obtain c1 parents1 where r: "fill_cache rec chain cur = Inr (None, c1 # parents1)" "inv f (c1 # parents1)"
        "m_cachehunk c1 = cur" "m_cache c1 = f cur"
      using fill [OF assms(1) cur] by blast
    define buf where "buf = overwrite s (slice p (q - p) source) (f cur)"
    have sk: "s + (q - p) \<le> hb" using q(1) piece(2,3) by linarith
    then have len: "length buf = hb" using lens [OF cur] q by (simp add: buf_def)
    obtain c' where w: "write_hunk (c1\<lparr>m_cache := buf\<rparr>) cur buf True = Inr (None, c')" "inv (f(cur := buf)) (c' # parents1)"
      using write_cached [OF r(2) cur r(3) len] by blast
    have "flat n (f(cur := buf)) = overwrite (offset + p) (slice p (q - p) source) (flat n f)"
      using flat_update [of n f hb cur s "slice p (q - p) source"] lens cur q sk piece(4) by (simp add: buf_def)
    then show ?thesis
      using write_loop_part [OF False, of rec parents c1 parents1 buf p source c' hunks] r w c piece(1) q sk lens [OF cur]
      by (auto simp: s_def [symmetric] e_def [symmetric] buf_def)
  qed
qed

lemma write_loop:
  assumes "inv f chain" "transfer_ok hb n offset bytes" "bytes \<le> length source"
    and "offset div hb \<le> cur" "cur \<le> Suc ((offset + bytes - 1) div hb)"
  shows "\<exists>g chain'. write_bytes_loop rec offset bytes [cur..<Suc ((offset + bytes - 1) div hb)] chain
      (done_before hb offset bytes cur) source = Inr (None, chain') \<and> inv g chain' \<and>
    flat n g = overwrite (offset + done_before hb offset bytes cur)
      (slice (done_before hb offset bytes cur) (bytes - done_before hb offset bytes cur) source) (flat n f)"
  using assms
proof (induction "Suc ((offset + bytes - 1) div hb) - cur" arbitrary: cur chain f)
  case 0
  then have "cur = Suc ((offset + bytes - 1) div hb)" by simp
  moreover from this have "done_before hb offset bytes cur = bytes" using done_at_last [OF 0(3)] by simp
  ultimately show ?case using 0(2) by (auto simp: overwrite_def)
next
  case (Suc k)
  define last where "last = (offset + bytes - 1) div hb"
  have le: "cur \<le> last" using Suc(2) unfolding last_def by linarith
  have step: "[cur..<Suc last] = cur # [Suc cur..<Suc last]" using le by (simp add: upt_conv_Cons)
  define p where "p = done_before hb offset bytes cur"
  define q where "q = done_before hb offset bytes (Suc cur)"
  obtain g chain' where w: "write_bytes_loop rec offset bytes (cur # [Suc cur..<Suc last]) chain p source =
      write_bytes_loop rec offset bytes [Suc cur..<Suc last] chain' q source" "inv g chain'"
      "flat n g = overwrite (offset + p) (slice p (q - p) source) (flat n f)"
    using write_step [OF Suc(3-6) le [unfolded last_def], of "[Suc cur..<Suc last]"] by (auto simp: p_def q_def)
  obtain g' chain'' where IH: "write_bytes_loop rec offset bytes [Suc cur..<Suc last] chain' q source = Inr (None, chain'')"
      "inv g' chain''" "flat n g' = overwrite (offset + q) (slice q (bytes - q) source) (flat n g)"
  proof -
    have "k = Suc last - Suc cur" "offset div hb \<le> Suc cur" "Suc cur \<le> Suc last"
      using Suc(2,6) le by (simp_all add: last_def)
    then show ?thesis using that Suc(1) [OF _ w(2) Suc(4,5), of "Suc cur"] unfolding last_def q_def by blast
  qed
  have pq: "p \<le> q" "q \<le> bytes" "offset + bytes \<le> length (flat n f)"
    using Suc(4) length_flat [of n f hb] inv_hunk [OF Suc(3)]
    by (auto simp: p_def q_def done_before_def transfer_ok_def min_def)
  have "flat n g' = overwrite (offset + p) (slice p (bytes - p) source) (flat n f)"
  proof -
    have "slice p (bytes - p) source = slice p (q - p) source @ slice q (bytes - q) source"
      using slice_add [of p "q - p" "bytes - q" source] pq by simp
    then show ?thesis unfolding IH(3) w(3) using pq Suc(5) by (simp add: overwrite_def add.commute)
  qed
  then show ?case using IH w(1) unfolding last_def [symmetric] step p_def [symmetric] by auto
qed

lemma write_bytes_loop_flat:
  assumes "inv f chain" "transfer_ok hb n offset bytes" "bytes \<le> length source"
  shows "\<exists>g chain'. write_bytes_loop rec offset bytes
      (loop_hunks (first_hunk hb offset) (last_hunk hb offset bytes)) chain 0 source = Inr (None, chain') \<and>
    inv g chain' \<and> flat n g = overwrite offset (take bytes source) (flat n f)"
  using write_loop [OF assms, of "offset div hb"] transfer_bounds(5) [OF assms(2)]
  unfolding done_at_first loop_hunks_bounded [OF assms(2)] by (simp add: slice_def del: upt_Suc)

end

end
