(* ===== verification/Chd_Store.thy ===== *)
theory Chd_Store
  imports Chd_Bytes
begin

text \<open>
  An uncompressed, writable CHD without a parent refines a flat array of bytes: the representation
  invariant \<open>stored\<close>, its preservation by \<open>write_hunk\<close>, and the interpretation of the hunk reader and
  writer contracts, which gives the behaviour of \<open>read_bytes\<close> and \<open>write_bytes\<close>.
\<close>

subsection \<open>The representation invariant\<close>

text \<open>
  \<open>raw_geometry\<close> is what opening or creating such a file gives, with two conditions that the code does not
  check: the map has fewer than \<open>2 ^ 32\<close> bytes (its size is a 32-bit product), and the hunk size is a multiple
  of four. \<open>chd_file::create\<close> only asks for a multiple of the unit size, but \<open>write_hunk\<close> looks for bytes
  that are not zero in whole 32-bit words; \<open>write_hunk_drops_tail\<close> shows what other sizes lose.
\<close>

definition map_block :: "chd_file \<Rightarrow> nat \<Rightarrow> nat" where
  "map_block c h = unat (get_u32be (drop (4 * h) (m_rawmap c)))"

definition stored_hunk :: "chd_file \<Rightarrow> nat \<Rightarrow> bytes" where
  "stored_hunk c h =
     (if map_block c h = 0 then replicate (m_hunkbytes c) 0
      else slice (map_block c h * m_hunkbytes c) (m_hunkbytes c) (file_data c))"

definition raw_geometry :: "nat \<Rightarrow> nat \<Rightarrow> chd_file \<Rightarrow> bool" where
  "raw_geometry hb n c \<longleftrightarrow>
     healthy c \<and> m_version c = 5 \<and> \<not> compressed c \<and> m_allow_writes c \<and> \<not> m_parent_missing c \<and>
     m_hunkbytes c = hb \<and> m_hunkcount c = n \<and> m_mapentrybytes c = 4 \<and>
     0 < hb \<and> 4 dvd hb \<and> 4 * n < 2 ^ 32 \<and> m_mapoffset c + 4 * n < 2 ^ 64"

text \<open>
  The map in the file mirrors the one in memory; blocks lie behind the map, inside the file and apart
  from each other; and the blocks still to be allocated have numbers that fit their 32 bits.
\<close>

definition raw_blocks :: "nat \<Rightarrow> nat \<Rightarrow> chd_file \<Rightarrow> bool" where
  "raw_blocks hb n c \<longleftrightarrow>
     length (m_rawmap c) = 4 * n \<and>
     m_mapoffset c + 4 * n \<le> length (file_data c) \<and>
     slice (m_mapoffset c) (4 * n) (file_data c) = m_rawmap c \<and>
     (\<forall>h < n. map_block c h \<noteq> 0 \<longrightarrow>
        m_mapoffset c + 4 * n \<le> map_block c h * hb \<and> map_block c h * hb + hb \<le> length (file_data c)) \<and>
     (\<forall>h < n. \<forall>k < n. map_block c h \<noteq> 0 \<longrightarrow> map_block c h = map_block c k \<longrightarrow> h = k) \<and>
     align_up hb (length (file_data c)) div hb + card {h. h < n \<and> map_block c h = 0} \<le> 2 ^ 32"

definition cache_holds :: "nat \<Rightarrow> nat \<Rightarrow> (nat \<Rightarrow> bytes) \<Rightarrow> chd_file \<Rightarrow> bool" where
  "cache_holds hb n f c \<longleftrightarrow> length (m_cache c) = hb \<and> (m_cachehunk c < n \<longrightarrow> m_cache c = f (m_cachehunk c))"

definition stored :: "nat \<Rightarrow> nat \<Rightarrow> (nat \<Rightarrow> bytes) \<Rightarrow> chain \<Rightarrow> bool" where
  "stored hb n f chain \<longleftrightarrow>
     (\<exists>c. chain = [c] \<and> raw_geometry hb n c \<and> raw_blocks hb n c \<and> (\<forall>h < n. f h = stored_hunk c h) \<and>
        cache_holds hb n f c)"

subsection \<open>Reading\<close>

lemma map_index: "4 * n < 2 ^ 32 \<Longrightarrow> h < n \<Longrightarrow> w32 (4 * h) = 4 * h" "4 * n < 2 ^ 32 \<Longrightarrow> h < n \<Longrightarrow> w32 (h * 4) = 4 * h"
  by (simp_all add: w32_def mult.commute)

lemma length_stored_hunk:
  "raw_geometry hb n c \<Longrightarrow> raw_blocks hb n c \<Longrightarrow> h < n \<Longrightarrow> length (stored_hunk c h) = hb"
  by (auto simp: raw_geometry_def raw_blocks_def stored_hunk_def)

lemma overwrite_0: "length ys = k \<Longrightarrow> overwrite 0 ys xs = ys @ drop k xs"
  by (simp add: overwrite_def)

lemma read_stored:
  assumes g: "raw_geometry hb n c" and b: "raw_blocks hb n c" and h: "h < n" "hb \<le> length dest"
  shows "read_hunk (Suc fuel) cx [c] h dest = Inr (None, overwrite 0 (stored_hunk c h) dest, [c])"
proof -
  have mi: "w32 (4 * h) = 4 * h" using g h map_index(1) [of n h] by (simp add: raw_geometry_def)
  have me: "map_entry c (4 * h) 4 = Inr (drop (4 * h) (m_rawmap c))"
    using b h by (simp add: map_entry_def raw_blocks_def)
  have inside: "map_block c h \<noteq> 0 \<Longrightarrow> map_block c h * hb + hb \<le> length (file_data c)"
    using b h by (simp add: raw_blocks_def)
  have "healthy c" "m_hunkbytes c = hb" "0 < hb" using g by (simp_all add: raw_geometry_def)
  then show ?thesis
    using g h(1) inside h(2) unfolding raw_geometry_def
    by (auto simp: read_hunk_raw_def mi me Let_def read_plain_def file_read_healthy
        stored_hunk_def map_block_def [symmetric])
qed

subsection \<open>Writing\<close>

lemma map_block_update:
  assumes "length (m_rawmap c) = 4 * n" "h < n" "k < n"
  shows "unat (get_u32be (drop (4 * k) (at_off (4 * h) (put_u32be e) (m_rawmap c)))) = (if k = h then unat e else map_block c k)"
proof (cases k h rule: linorder_cases)
  case less
  then show ?thesis using assms f32be.get_at_before [of "4 * k" "4 * h" "m_rawmap c"] by (simp add: map_block_def)
next
  case equal
  then show ?thesis using assms f32be.get_at_same [of "4 * h" "m_rawmap c" e] by (simp add: take_bit_word_all)
next
  case greater
  then show ?thesis using assms f32be.at_tail [of "4 * h" "4 * k" "m_rawmap c" e] by (simp add: map_block_def)
qed

lemma all_zeros_iff:
  assumes "4 dvd hb" "hb \<le> length buf"
  shows "all_zeros hb buf \<longleftrightarrow> take hb buf = replicate hb 0"
proof -
  have "4 * (hb div 4) = hb" using assms(1) by simp
  moreover have "(\<forall>b\<in>set (take hb buf). b = 0) \<longleftrightarrow> take hb buf = replicate hb 0"
    using replicate_length_same [of "take hb buf" 0] assms(2) by (auto simp: min_absorb2 simp del: length_replicate)
  ultimately show ?thesis by (simp add: all_zeros_def list_all_iff)
qed

text \<open>
  Why the hunk size has to be a multiple of four: for another size the scan of a new hunk stops before
  its last bytes. When these are the only bytes that are not zero, nothing is written and they are lost,
  without an error.
\<close>

lemma write_hunk_drops_tail:
  assumes "m_file c \<noteq> None" "m_allow_writes c" "\<not> compressed c" "h < m_hunkcount c" "4 * m_hunkcount c < 2 ^ 32"
    and "length (m_rawmap c) = 4 * m_hunkcount c" "map_block c h = 0" "m_hunkbytes c \<le> length buf"
    and "\<forall>i < 4 * (m_hunkbytes c div 4). buf ! i = 0" "i < m_hunkbytes c" "buf ! i \<noteq> 0"
  shows "write_hunk c h buf from_cache = Inr (None, c) \<and> stored_hunk c h \<noteq> take (m_hunkbytes c) buf"
proof
  have e: "4 * (m_hunkbytes c div 4) \<le> m_hunkbytes c" by simp
  have "all_zeros (m_hunkbytes c) buf"
    using assms(8,9) e unfolding all_zeros_def list_all_iff set_conv_nth by auto
  then show "write_hunk c h buf from_cache = Inr (None, c)"
    using assms by (simp add: write_hunk_def map_entry_def w32_def Let_def map_block_def mult.commute)
  show "stored_hunk c h \<noteq> take (m_hunkbytes c) buf"
    using assms(7,8,10,11) by (auto simp: stored_hunk_def dest!: arg_cong [where f = "\<lambda>xs. xs ! i"])
qed
text \<open>The file after the first write of a hunk: the block is appended and the map entry set.\<close>

definition new_block :: "chd_file \<Rightarrow> nat" where
  "new_block c = align_up (m_hunkbytes c) (length (file_data c)) div m_hunkbytes c"

definition allocated :: "chd_file \<Rightarrow> nat \<Rightarrow> bytes \<Rightarrow> chd_file" where
  "allocated c h block =
     (let rawmap = at_off (4 * h) (put_u32be (of_nat (new_block c))) (m_rawmap c);
          len = length (file_data c) in
      set_data
        (pwrite (m_mapoffset c + 4 * h) (slice (4 * h) 4 rawmap)
           (file_data c @ replicate (align_up (m_hunkbytes c) len - len) 0 @ block))
        (c\<lparr>m_rawmap := rawmap\<rparr>))"

lemma healthy_update [simp]: "healthy (c\<lparr>m_rawmap := m\<rparr>) = healthy c" "file_data (c\<lparr>m_rawmap := m\<rparr>) = file_data c"
  "healthy (c\<lparr>m_cache := k\<rparr>) = healthy c" "file_data (c\<lparr>m_cache := k\<rparr>) = file_data c"
  "healthy (c\<lparr>m_cachehunk := i\<rparr>) = healthy c" "file_data (c\<lparr>m_cachehunk := i\<rparr>) = file_data c"
  "compressed (c\<lparr>m_rawmap := m\<rparr>) = compressed c" "compressed (c\<lparr>m_cache := k\<rparr>) = compressed c"
  "compressed (c\<lparr>m_cachehunk := i\<rparr>) = compressed c"
  by (simp_all add: healthy_def file_data_def compressed_def)

lemma set_data_fields [simp]:
  "m_version (set_data d c) = m_version c" "compressed (set_data d c) = compressed c"
  "m_allow_writes (set_data d c) = m_allow_writes c" "m_parent_missing (set_data d c) = m_parent_missing c"
  "m_hunkbytes (set_data d c) = m_hunkbytes c" "m_hunkcount (set_data d c) = m_hunkcount c"
  "m_mapentrybytes (set_data d c) = m_mapentrybytes c" "m_mapoffset (set_data d c) = m_mapoffset c"
  "m_rawmap (set_data d c) = m_rawmap c" "m_cache (set_data d c) = m_cache c"
  "m_cachehunk (set_data d c) = m_cachehunk c"
  by (simp_all add: set_data_def compressed_def)

lemma set_data_rawmap: "set_data d c\<lparr>m_rawmap := m\<rparr> = set_data d (c\<lparr>m_rawmap := m\<rparr>)"
  by (simp add: set_data_def)

lemma write_hunk_raw:
  assumes g: "raw_geometry hb n c" and b: "raw_blocks hb n c" and h: "h < n" "hb \<le> length buf"
    and cache: "length (m_cache c) = hb"
  shows "write_hunk c h buf from_cache =
    Inr (None,
      if map_block c h \<noteq> 0 then set_data (pwrite (map_block c h * hb) (take hb buf) (file_data c)) c
      else if all_zeros hb buf then c
      else let c' = allocated c h (take hb buf) in
           if h = m_cachehunk c \<and> \<not> from_cache then c'\<lparr>m_cache := take hb buf\<rparr> else c')"
proof -
  have mi: "w32 (h * 4) = 4 * h" using g h map_index(2) [of n h] by (simp add: raw_geometry_def)
  have me: "map_entry c (4 * h) 4 = Inr (drop (4 * h) (m_rawmap c))"
    using b h by (simp add: map_entry_def raw_blocks_def)
  have hc: "healthy c" "m_hunkbytes c = hb" "0 < hb" using g by (simp_all add: raw_geometry_def)
  have w: "w64 (m_mapoffset c + 4 * h) = m_mapoffset c + 4 * h"
    using g h by (intro w64_small) (simp add: raw_geometry_def)
  have ap: "file_append c (take hb buf) hb = (Inr (align_up hb (length (file_data c))), set_data (file_data c @
      replicate (align_up hb (length (file_data c)) - length (file_data c)) 0 @ take hb buf) c)"
    using file_append_healthy [OF hc(1)] .
  show ?thesis
    using g h hc cache unfolding raw_geometry_def
    by (simp add: write_hunk_def mi me Let_def map_block_def [symmetric] ap set_data_rawmap w file_write_healthy
        allocated_def new_block_def overwrite_def)
qed

text \<open>What the two kinds of file change do to the blocks.\<close>

lemma raw_geometry_data: "raw_geometry hb n (set_data d c) = raw_geometry hb n c" if "healthy c"
  using that by (simp add: raw_geometry_def)

lemma blocks_apart:
  assumes "raw_blocks hb n c" "h < n" "k < n" "h \<noteq> k" "map_block c h \<noteq> 0"
  shows "map_block c k * hb + hb \<le> map_block c h * hb \<or> map_block c h * hb + hb \<le> map_block c k * hb"
proof -
  have "map_block c h \<noteq> map_block c k" using assms unfolding raw_blocks_def by blast
  then consider "Suc (map_block c k) \<le> map_block c h" | "Suc (map_block c h) \<le> map_block c k" by linarith
  then show ?thesis by cases (metis add.commute mult_Suc mult_le_mono1)+
qed

lemma overwrite_block:
  assumes g: "raw_geometry hb n c" and b: "raw_blocks hb n c" and h: "h < n" "map_block c h \<noteq> 0" "length block = hb"
  defines "c' \<equiv> set_data (pwrite (map_block c h * hb) block (file_data c)) c"
  shows "raw_blocks hb n c'" "k < n \<Longrightarrow> stored_hunk c' k = (if k = h then block else stored_hunk c k)"
proof -
  have hc: "healthy c" "m_hunkbytes c = hb" "0 < hb" using g by (simp_all add: raw_geometry_def)
  have in_h: "m_mapoffset c + 4 * n \<le> map_block c h * hb" "map_block c h * hb + hb \<le> length (file_data c)"
    using b h by (simp_all add: raw_blocks_def)
  have mb: "map_block c' k = map_block c k" for k by (simp add: c'_def map_block_def)
  have fd: "file_data c' = overwrite (map_block c h * hb) block (file_data c)"
    using hc in_h h by (simp add: c'_def pwrite_inside)
  then have len: "length (file_data c') = length (file_data c)" using in_h h by simp
  have hb': "m_hunkbytes c' = hb" using hc by (simp add: c'_def)
  have "slice (m_mapoffset c) (4 * n) (file_data c') = m_rawmap c"
    using b in_h h by (simp add: fd slice_overwrite_before raw_blocks_def)
  then show "raw_blocks hb n c'" using b unfolding raw_blocks_def mb len by (simp add: c'_def)
  assume k: "k < n"
  show "stored_hunk c' k = (if k = h then block else stored_hunk c k)"
  proof (cases "k = h \<or> map_block c k = 0")
    case True
    then show ?thesis using in_h h hc by (auto simp: stored_hunk_def mb fd hb' slice_overwrite_same)
  next
    case False
    then have "slice (map_block c k * hb) hb (file_data c') = slice (map_block c k * hb) hb (file_data c)"
      using blocks_apart [OF b h(1) k _ h(2)] in_h h(3)
      by (auto simp: fd slice_overwrite_before slice_overwrite_after)
    then show ?thesis using False hc by (simp add: stored_hunk_def mb hb')
  qed
qed

lemma slice_overwrite_inside:
  assumes "i + length xs \<le> k" "m + k \<le> length d"
  shows "slice m k (overwrite (m + i) xs d) = overwrite i xs (slice m k d)"
proof -
  have "drop m (overwrite (m + i) xs d) = overwrite i xs (drop m d)"
    using assms by (simp add: overwrite_def drop_take ac_simps)
  moreover have "take k (overwrite i xs (drop m d)) = overwrite i xs (take k (drop m d))"
    using assms by (simp add: overwrite_def drop_take min_absorb1)
  ultimately show ?thesis by (simp add: slice_def)
qed

lemma allocate_block:
  assumes g: "raw_geometry hb n c" and b: "raw_blocks hb n c" and h: "h < n" "map_block c h = 0" "length block = hb"
  defines "c' \<equiv> allocated c h block"
  shows "raw_blocks hb n c'" "k < n \<Longrightarrow> stored_hunk c' k = (if k = h then block else stored_hunk c k)"
    "raw_geometry hb n c'" "m_cache c' = m_cache c" "m_cachehunk c' = m_cachehunk c"
proof -
  let ?d = "file_data c" and ?m = "m_mapoffset c" and ?len = "length (file_data c)"
  define rawmap where "rawmap = at_off (4 * h) (put_u32be (of_nat (new_block c))) (m_rawmap c)"
  define a where "a = align_up hb ?len"
  define d1 where "d1 = ?d @ replicate (a - ?len) 0 @ block"
  have hc: "healthy c" "m_hunkbytes c = hb" "0 < hb" using g by (simp_all add: raw_geometry_def)
  have rl: "length (m_rawmap c) = 4 * n" "?m + 4 * n \<le> ?len" "slice ?m (4 * n) ?d = m_rawmap c"
    using b by (simp_all add: raw_blocks_def)
  have a: "?len \<le> a" "hb dvd a" "new_block c = a div hb" "a div hb * hb = a"
    using align_up_bounds(1) [of ?len hb] align_up_dvd [OF hc(3), of ?len] hc by (simp_all add: a_def new_block_def)
  have card: "0 < card {k. k < n \<and> map_block c k = 0}" using h by (auto simp: card_gt_0_iff)
  have room: "a div hb + card {k. k < n \<and> map_block c k = 0} \<le> 2 ^ 32" using b by (simp add: raw_blocks_def a_def)
  with card have small: "new_block c < 2 ^ 32" by (simp add: a(3))
  have pos: "new_block c \<noteq> 0" using a(1,3,4) rl(2) h(1) by (metis add_is_0 le_zero_eq less_nat_zero_code mult_eq_0_iff zero_neq_numeral)
  have c': "c' = set_data (pwrite (?m + 4 * h) (slice (4 * h) 4 rawmap) d1) (c\<lparr>m_rawmap := rawmap\<rparr>)"
    by (simp add: c'_def allocated_def Let_def rawmap_def d1_def a_def hc(2))
  have len_raw: "length rawmap = 4 * n" by (simp add: rawmap_def rl(1))
  have len1: "length d1 = a + hb" using a(1) h(3) by (simp add: d1_def)
  define ys where "ys = slice (4 * h) 4 rawmap"
  have len_ys: "length ys = 4" using h(1) len_raw by (simp add: ys_def)
  have fd: "file_data c' = overwrite (?m + 4 * h) ys d1"
  proof -
    have "file_data c' = pwrite (?m + 4 * h) ys d1" by (simp add: c' hc(1) ys_def)
    then show ?thesis using h(1) len_ys len1 a(1) rl(2) by (simp add: pwrite_inside)
  qed
  have len': "length (file_data c') = a + hb" using h(1) len_ys len1 a(1) rl(2) by (simp add: fd)
  have mb: "k < n \<Longrightarrow> map_block c' k = (if k = h then new_block c else map_block c k)" for k
    using map_block_update [OF rl(1) h(1), of k "of_nat (new_block c)"] small
    by (simp add: c' map_block_def rawmap_def unat_of_nat_small)
  have mirror: "slice ?m (4 * n) (file_data c') = rawmap"
  proof -
    have "slice ?m (4 * n) d1 = m_rawmap c" using rl by (simp add: d1_def slice_append_left)
    then have "slice ?m (4 * n) (file_data c') = overwrite (4 * h) ys (m_rawmap c)"
      using slice_overwrite_inside [of "4 * h" ys "4 * n" ?m d1] h(1) len_ys len1 a(1) rl(2) by (simp add: fd)
    also have "\<dots> = rawmap"
      using f32be.at_overwrite [of "4 * h" "m_rawmap c" "of_nat (new_block c)"] h(1) rl(1)
      by (simp add: ys_def rawmap_def slice_overwrite_same length_put)
    finally show ?thesis .
  qed
  have after: "?m + 4 * n \<le> i \<Longrightarrow> slice i k (file_data c') = slice i k d1" for i k
    using h(1) len_ys len1 a(1) rl(2) by (simp add: fd slice_overwrite_after)
  have keep: "k < n \<Longrightarrow> map_block c k \<noteq> 0 \<Longrightarrow> ?m + 4 * n \<le> map_block c k * hb \<and> map_block c k * hb + hb \<le> ?len" for k
    using b by (simp add: raw_blocks_def)
  have fresh: "k < n \<Longrightarrow> map_block c k \<noteq> 0 \<Longrightarrow> map_block c k \<noteq> new_block c" for k
    using keep [of k] a hc(3) by (metis add_le_cancel_left add_leD1 le_trans less_not_refl not_le add.right_neutral)
  have free: "card {k. k < n \<and> map_block c' k = 0} + 1 = card {k. k < n \<and> map_block c k = 0}"
  proof -
    have "{k. k < n \<and> map_block c k = 0} = insert h {k. k < n \<and> map_block c' k = 0}"
      using mb pos h by (auto split: if_splits)
    moreover have "h \<notin> {k. k < n \<and> map_block c' k = 0}" using mb pos h(1) by simp
    ultimately show ?thesis by simp
  qed
  have au: "align_up hb (a + hb) div hb = a div hb + 1" using a(2) hc(3) by (simp add: align_up_def)
  show "raw_blocks hb n c'" unfolding raw_blocks_def len'
  proof (intro conjI allI impI)
    show "length (m_rawmap c') = 4 * n" "m_mapoffset c' + 4 * n \<le> a + hb"
      using len_raw rl(2) a(1) by (simp_all add: c')
    show "slice (m_mapoffset c') (4 * n) (file_data c') = m_rawmap c'" using mirror by (simp add: c')
    show "align_up hb (a + hb) div hb + card {h. h < n \<and> map_block c' h = 0} \<le> 2 ^ 32"
      using free room unfolding au by simp
    fix k assume k: "k < n" "map_block c' k \<noteq> 0"
    show "m_mapoffset c' + 4 * n \<le> map_block c' k * hb" "map_block c' k * hb + hb \<le> a + hb"
      using k mb [OF k(1)] keep [OF k(1)] a rl(2) by (auto simp: c' split: if_splits)
    fix j assume "j < n" "map_block c' k = map_block c' j"
    then show "k = j"
      using k mb [OF k(1)] mb [of j] fresh [of j] fresh [of k] pos b unfolding raw_blocks_def
      by (auto split: if_splits)
  qed
  show "raw_geometry hb n c'" using g by (simp add: c' raw_geometry_def)
  show "m_cache c' = m_cache c" "m_cachehunk c' = m_cachehunk c" by (simp_all add: c')
  have hb': "m_hunkbytes c' = hb" using hc by (simp add: c')
  assume k: "k < n"
  have new: "slice a hb d1 = block" using a(1) h(3) by (simp add: d1_def slice_append_right)
  have old: "i + hb \<le> ?len \<Longrightarrow> slice i hb d1 = slice i hb ?d" for i by (simp add: d1_def slice_append_left)
  show "stored_hunk c' k = (if k = h then block else stored_hunk c k)"
  proof (cases "k = h")
    case True
    have "?m + 4 * n \<le> a" using a(1) rl(2) by linarith
    then show ?thesis using True mb [OF k] pos after [of a hb] a(3,4) new by (simp add: stored_hunk_def hb')
  next
    case False
    then show ?thesis using mb [OF k] keep [OF k] after old hc by (simp add: stored_hunk_def hb')
  qed
qed

subsection \<open>The contracts\<close>

lemma cached_stored: "stored hb n f (c # parents) \<Longrightarrow> h < n \<Longrightarrow>
  stored hb n f (c\<lparr>m_cache := f h, m_cachehunk := h\<rparr> # parents)"
  using length_stored_hunk [of hb n c h]
  by (auto simp: stored_def raw_geometry_def raw_blocks_def map_block_def stored_hunk_def cache_holds_def)

lemma stored_update:
  assumes "raw_geometry hb n c'" "raw_blocks hb n c'" "\<And>k. k < n \<Longrightarrow> stored_hunk c' k = (if k = h then block else f k)"
    "length (m_cache c') = hb" "m_cachehunk c' < n \<Longrightarrow> m_cache c' = (if m_cachehunk c' = h then block else f (m_cachehunk c'))"
  shows "stored hb n (f(h := block)) [c']"
  using assms by (auto simp: stored_def cache_holds_def)

lemma write_stored:
  assumes st: "stored hb n f [c]" and h: "h < n" "hb \<le> length buf"
    and cache: "length k = hb" "if from_cache then m_cachehunk c = h \<and> k = take hb buf else m_cachehunk c \<noteq> h \<and> k = m_cache c"
  shows "\<exists>c'. write_hunk (c\<lparr>m_cache := k\<rparr>) h buf from_cache = Inr (None, c') \<and> stored hb n (f(h := take hb buf)) [c']"
proof -
  define c0 where "c0 = c\<lparr>m_cache := k\<rparr>"
  have g: "raw_geometry hb n c0" and b: "raw_blocks hb n c0" and f: "\<forall>j < n. f j = stored_hunk c0 j"
    and ch: "cache_holds hb n f c"
    using st by (auto simp: stored_def c0_def raw_geometry_def raw_blocks_def map_block_def stored_hunk_def)
  have hc: "healthy c0" "4 dvd hb" using g by (simp_all add: raw_geometry_def)
  have c0: "length (m_cache c0) = hb" "m_cachehunk c0 = m_cachehunk c" "m_cache c0 = k"
    using cache by (simp_all add: c0_def)
  have len: "length (take hb buf) = hb" using h(2) by simp
  have kept: "j < n \<Longrightarrow> m_cachehunk c = j \<Longrightarrow> k = (if j = h then take hb buf else f j)" for j
    using cache(2) ch by (auto simp: cache_holds_def split: if_splits)
  note w = write_hunk_raw [OF g b h c0(1), of from_cache]
  consider (over) "map_block c0 h \<noteq> 0" | (zero) "map_block c0 h = 0" "all_zeros hb buf"
    | (new) "map_block c0 h = 0" "\<not> all_zeros hb buf" by blast
  then show ?thesis
  proof cases
    case over
    let ?c' = "set_data (pwrite (map_block c0 h * hb) (take hb buf) (file_data c0)) c0"
    have "stored hb n (f(h := take hb buf)) [?c']"
      by (rule stored_update)
         (use overwrite_block [OF g b h(1) over len] raw_geometry_data [OF hc(1)] g f c0 kept in auto)
    then show ?thesis using w over by (simp add: c0_def)
  next
    case zero
    have "stored hb n (f(h := take hb buf)) [c0]"
      by (rule stored_update)
         (use g b f c0 kept zero all_zeros_iff [OF hc(2) h(2)] in \<open>auto simp: stored_hunk_def raw_geometry_def\<close>)
    then show ?thesis using w zero by (simp add: c0_def)
  next
    case new
    have "\<not> (h = m_cachehunk c0 \<and> \<not> from_cache)" using cache(2) c0(2) by (cases from_cache) auto
    moreover have "stored hb n (f(h := take hb buf)) [allocated c0 h (take hb buf)]"
      by (rule stored_update) (use allocate_block [OF g b h(1) new(1) len] f c0 kept in auto)
    ultimately show ?thesis using w new by (auto simp: c0_def Let_def)
  qed
qed

interpretation raw: hunk_writer "read_hunk (Suc fuel) cx" "stored hb n" hb n for fuel cx hb n
proof
  fix f chain h
  assume st: "stored hb n f chain"
  then obtain c where c: "chain = [c]" "raw_geometry hb n c" "raw_blocks hb n c" "\<forall>h < n. f h = stored_hunk c h"
      "cache_holds hb n f c" by (auto simp: stored_def)
  show "h < n \<Longrightarrow> length (f h) = hb" using c(4) length_stored_hunk [OF c(2,3)] by simp
  show "\<exists>c parents. chain = c # parents \<and> m_hunkbytes c = hb \<and> length (m_cache c) = hb \<and>
      (m_cachehunk c < n \<longrightarrow> m_cache c = f (m_cachehunk c))"
    using c by (simp add: raw_geometry_def cache_holds_def)
  show "h < n \<Longrightarrow> hb \<le> length dest \<Longrightarrow> \<exists>chain'. read_hunk (Suc fuel) cx chain h dest =
      Inr (None, overwrite 0 (f h) dest, chain') \<and> stored hb n f chain'" for dest
    using read_stored [OF c(2,3), of h dest fuel cx] c(1,4) st by simp
next
  fix f c parents h buf
  assume st: "stored hb n f (c # parents)" and h: "h < n"
  show "stored hb n f (c\<lparr>m_cache := f h, m_cachehunk := h\<rparr> # parents)" using cached_stored [OF st h] .
  have p: "parents = []" "length (m_cache c) = hb" using st by (auto simp: stored_def cache_holds_def)
  show "h \<noteq> m_cachehunk c \<Longrightarrow> hb \<le> length buf \<Longrightarrow> \<exists>c'. write_hunk c h buf False = Inr (None, c') \<and>
      stored hb n (f(h := take hb buf)) (c' # parents)"
    using write_stored [of hb n f c h buf "m_cache c" False] st h p by auto
  show "m_cachehunk c = h \<Longrightarrow> length buf = hb \<Longrightarrow> \<exists>c'. write_hunk (c\<lparr>m_cache := buf\<rparr>) h buf True = Inr (None, c') \<and>
      stored hb n (f(h := buf)) (c' # parents)"
    using write_stored [of hb n f c h buf buf True] st h p by auto
qed

lemma write_bytes_stored:
  assumes "stored hb n f chain" "transfer_ok hb n offset bytes" "bytes \<le> length source"
  shows "\<exists>g chain'. write_bytes (Suc fuel) cx chain offset source bytes = Inr (None, chain') \<and>
    stored hb n g chain' \<and> flat n g = overwrite offset (take bytes source) (flat n f)"
proof -
  obtain c parents where c: "chain = c # parents" "m_hunkbytes c = hb" using raw.inv_head [OF assms(1)] by blast
  have "0 < hb" using assms(2) by (simp add: transfer_ok_def)
  then show ?thesis
    using raw.write_bytes_loop_flat [OF assms, of fuel cx] c by (simp add: write_bytes_def)
qed

text \<open>Reading the cached hunk as a whole takes it from the cache.\<close>

lemma read_bytes_cached_hunk:
  assumes "m_cachehunk c = h" "m_hunkbytes c = hb" "length (m_cache c) = hb" "hb \<le> length dest"
    and t: "transfer_ok hb n (h * hb) hb"
  shows "read_bytes fuel cx (c # parents) (h * hb) dest hb = Inr (None, overwrite 0 (m_cache c) dest, c # parents)"
proof -
  have hb: "0 < hb" using t by (simp add: transfer_ok_def)
  have z: "(h * hb + hb - 1) div hb = h"
  proof -
    have "h * hb + hb - 1 = (hb - 1) + h * hb" using hb by simp
    moreover have "((hb - 1) + h * hb) div hb = h" using hb by (simp only: div_mult_self1) simp
    ultimately show ?thesis by simp
  qed
  have hunks: "loop_hunks (first_hunk hb (h * hb)) (last_hunk hb (h * hb) hb) = [h]"
    using raw.loop_hunks_bounded [OF t] z hb by simp
  have s: "start_offs hb (h * hb) h = 0" by (simp add: start_offs_def)
  have "piece_len 0 (end_offs hb (h * hb) hb h) = hb"
    using transfer_piece(1,2,3,5) [OF t, of h] z hb s by (simp add: done_before_def)
  then have "read_bytes_loop (read_hunk fuel cx) (h * hb) hb [h] (c # parents) 0 dest =
      Inr (None, overwrite 0 (m_cache c) dest, c # parents)"
    using read_loop_part [of "h * hb" hb c h "read_hunk fuel cx" parents c parents 0 dest "[]"] assms(1-4) s
    by (simp add: whole_hunk_def fill_cache_def)
  then show ?thesis using hunks hb assms(2) by (simp add: read_bytes_def read_bytes_with_def)
qed

lemma stored_head: "stored hb n f [c] \<Longrightarrow> raw_geometry hb n c" "stored hb n f [c] \<Longrightarrow> raw_blocks hb n c"
  "stored hb n f [c] \<Longrightarrow> length (m_cache c) = hb" "stored hb n f [c] \<Longrightarrow> m_hunkbytes c = hb"
  "stored hb n f [c] \<Longrightarrow> m_cachehunk c < n \<Longrightarrow> m_cache c = f (m_cachehunk c)"
  by (auto simp: stored_def cache_holds_def raw_geometry_def)

text \<open>A small file: two hunks of four bytes, not yet written.\<close>

definition sample_store :: chd_file where
  "sample_store = chd_closed
     \<lparr>m_file := Some \<lparr>f_data = replicate 8 0, f_read_fault = \<lambda>_ _. None, f_write_fault = \<lambda>_ _. None\<rparr>,
      m_allow_writes := True, m_hunkbytes := 4, m_hunkcount := 2, m_mapentrybytes := 4,
      m_rawmap := replicate 8 0, m_cache := replicate 4 0\<rparr>"

text \<open>The same file with hunk 1 written and cached.\<close>

definition sample_cached :: chd_file where
  "sample_cached = sample_store
     \<lparr>m_file := Some \<lparr>f_data = [0, 0, 0, 0, 0, 0, 0, 2, 1, 2, 3, 4], f_read_fault = \<lambda>_ _. None, f_write_fault = \<lambda>_ _. None\<rparr>,
      m_rawmap := [0, 0, 0, 0, 0, 0, 0, 2], m_cache := [1, 2, 3, 4], m_cachehunk := 1\<rparr>"

definition no_codecs :: codecs where
  "no_codecs = \<lparr>cx_decompress = \<lambda>_ _ _. ([], Some (Chd_Error CODEC_ERROR)), cx_lossy = \<lambda>_. False,
     cx_process = \<lambda>_ _. None, cx_exists = \<lambda>_. False, cx_crc32 = \<lambda>_ _. 0\<rparr>"

lemma map_block_samples:
  "map_block sample_store 0 = 0" "map_block sample_store 1 = 0"
  "map_block sample_cached 0 = 0" "map_block sample_cached 1 = 2"
  by (simp_all add: map_block_def sample_store_def sample_cached_def get_u32be_def)

lemma all_below_two: "(\<forall>h < (2 :: nat). P h) \<longleftrightarrow> P 0 \<and> P 1"
  by (auto simp: less_2_cases_iff)

lemma below_two_Collect: "{h. h < (2 :: nat) \<and> P h} = (if P 0 then {0} else {}) \<union> (if P 1 then {1} else {})"
  by (auto simp: less_2_cases_iff) (metis not_gr_zero)

lemma sample_fields:
  "healthy sample_store" "healthy sample_cached" "file_data sample_store = replicate 8 0"
  "file_data sample_cached = [0, 0, 0, 0, 0, 0, 0, 2, 1, 2, 3, 4]"
  "\<not> compressed sample_store" "\<not> compressed sample_cached"
  by (simp_all add: sample_store_def sample_cached_def healthy_def no_faults_def file_data_def compressed_def
      chd_closed_def CHD_CODEC_NONE_def)

lemma sample_stored: "stored 4 2 (\<lambda>_. replicate 4 0) [sample_store]"
proof -
  have "raw_geometry 4 2 sample_store"
    unfolding raw_geometry_def by (simp add: sample_fields) (simp add: sample_store_def chd_closed_def HEADER_VERSION_def)
  moreover have "raw_blocks 4 2 sample_store"
    unfolding raw_blocks_def all_below_two below_two_Collect map_block_samples sample_fields
    by (simp add: align_up_def) (simp add: sample_store_def chd_closed_def)
  ultimately show ?thesis
    unfolding stored_def all_below_two
    by (simp add: stored_hunk_def map_block_samples [unfolded One_nat_def]) (simp add: sample_store_def cache_holds_def)
qed

lemma sample_cached_stored: "stored 4 2 (\<lambda>h. if h = 1 then [1, 2, 3, 4] else replicate 4 0) [sample_cached]"
proof -
  have "raw_geometry 4 2 sample_cached"
    unfolding raw_geometry_def by (simp add: sample_fields) (simp add: sample_cached_def sample_store_def chd_closed_def HEADER_VERSION_def)
  moreover have "raw_blocks 4 2 sample_cached"
    unfolding raw_blocks_def all_below_two below_two_Collect map_block_samples sample_fields
    by (simp add: align_up_def) (simp add: sample_cached_def sample_store_def chd_closed_def slice_def)
  ultimately show ?thesis
    unfolding stored_def all_below_two
    by (simp add: stored_hunk_def map_block_samples [unfolded One_nat_def] sample_fields)
       (simp add: sample_cached_def sample_store_def cache_holds_def slice_def)
qed

subsection \<open>Properties\<close>

text \<open>
  C7: Reading bytes from an uncompressed CHD without a parent returns exactly the addressed bytes of the
  flat array the CHD represents, and keeps its representation invariant and contents, whatever hunk is in
  the cache.
\<close>

theorem read_bytes_refines:
  assumes "stored hb n f chain" "transfer_ok hb n offset bytes" "bytes \<le> length dest"
  shows "\<exists>chain'. read_bytes (Suc fuel) cx chain offset dest bytes =
      Inr (None, overwrite 0 (slice offset bytes (flat n f)) dest, chain') \<and> stored hb n f chain'"
  unfolding read_bytes_def by (rule raw.read_bytes_flat [OF assms])

theorem read_bytes_refines_witness:
  "\<exists>chain'. read_bytes 1 no_codecs [sample_cached] 3 [9, 9, 9, 9] 3 = Inr (None, [0, 1, 2, 9], chain') \<and>
     stored 4 2 (\<lambda>h. if h = 1 then [1, 2, 3, 4] else replicate 4 0) chain'"
  using read_bytes_refines [OF sample_cached_stored, of 3 3 "[9, 9, 9, 9]" 0 no_codecs]
  by (simp add: transfer_ok_def flat_def slice_def overwrite_def upt_rec)

text \<open>
  C6: Writing bytes to an uncompressed CHD without a parent succeeds and replaces exactly the addressed
  bytes of the flat array the CHD represents; blocks are allocated on the first non-zero write of a hunk,
  the map in the file follows, and the representation invariant is kept.
\<close>

theorem write_bytes_refines:
  assumes "stored hb n f chain" "transfer_ok hb n offset bytes" "bytes \<le> length source"
  shows "\<exists>g chain'. write_bytes (Suc fuel) cx chain offset source bytes = Inr (None, chain') \<and>
    stored hb n g chain' \<and> flat n g = overwrite offset (take bytes source) (flat n f)"
  by (rule write_bytes_stored [OF assms])

theorem write_bytes_refines_witness:
  "\<exists>g chain'. write_bytes 1 no_codecs [sample_store] 3 [5, 6, 7] 2 = Inr (None, chain') \<and>
     stored 4 2 g chain' \<and> flat 2 g = [0, 0, 0, 5, 6, 0, 0, 0]"
  using write_bytes_refines [OF sample_stored, of 3 2 "[5, 6, 7]" 0 no_codecs]
  by (simp add: transfer_ok_def flat_def overwrite_def upt_rec numeral_3_eq_3)

text \<open>
  What was written is read back: a read of the same range after a write returns the bytes written.
\<close>

theorem write_then_read_bytes:
  assumes "stored hb n f chain" "transfer_ok hb n offset bytes" "length source = bytes" "length dest = bytes"
  shows "\<exists>chain' chain''. write_bytes (Suc fuel) cx chain offset source bytes = Inr (None, chain') \<and>
    read_bytes (Suc fuel) cx chain' offset dest bytes = Inr (None, source, chain'')"
proof -
  obtain g chain' where w: "write_bytes (Suc fuel) cx chain offset source bytes = Inr (None, chain')"
      "stored hb n g chain'" "flat n g = overwrite offset source (flat n f)"
    using write_bytes_stored [OF assms(1,2), of source fuel cx] assms(3) by auto
  have "offset + bytes \<le> length (flat n f)"
    using assms(2) length_flat [of n f hb] raw.inv_hunk [OF assms(1)] by (simp add: transfer_ok_def)
  then have "slice offset bytes (flat n g) = source" using assms(3) w(3) by (simp add: slice_overwrite_same)
  moreover obtain chain'' where "read_bytes (Suc fuel) cx chain' offset dest bytes =
      Inr (None, overwrite 0 (slice offset bytes (flat n g)) dest, chain'')"
    unfolding read_bytes_def using raw.read_bytes_flat [OF w(2) assms(2), of dest] assms(4) by blast
  ultimately show ?thesis using w(1) assms(3,4) by (auto simp: overwrite_def)
qed

theorem write_then_read_bytes_witness:
  "\<exists>chain' chain''. write_bytes 1 no_codecs [sample_store] 2 [5, 6, 7, 8] 4 = Inr (None, chain') \<and>
     read_bytes 1 no_codecs chain' 2 [0, 0, 0, 0] 4 = Inr (None, [5, 6, 7, 8], chain'')"
  using write_then_read_bytes [OF sample_stored, of 2 4 "[5, 6, 7, 8]" "[0, 0, 0, 0]" 0 no_codecs]
  by (simp add: transfer_ok_def)

text \<open>
  C21: Writing a hunk that is not the cached one keeps the representation invariant (blocks aligned,
  apart, behind the map, and the map on disk equal to the one in memory) and replaces that hunk only.
\<close>

theorem write_hunk_preserves:
  assumes "stored hb n f [c]" "h < n" "h \<noteq> m_cachehunk c" "hb \<le> length buf"
  shows "\<exists>c'. write_hunk c h buf False = Inr (None, c') \<and> stored hb n (f(h := take hb buf)) [c']"
  by (rule raw.write_other [OF assms])

theorem write_hunk_preserves_witness:
  "\<exists>c'. write_hunk sample_store 1 [1, 2, 3, 4] False = Inr (None, c') \<and>
     stored 4 2 ((\<lambda>_. replicate 4 0)(1 := [1, 2, 3, 4])) [c']"
  using write_hunk_preserves [OF sample_stored, of 1 "[1, 2, 3, 4]"]
  by (simp add: sample_store_def chd_closed_def del: fun_upd_apply)

text \<open>
  C32: Overwriting the hunk that is in the cache leaves the cache as it was: the new bytes are in the
  file, and a read of that hunk still returns the old ones.
\<close>

theorem write_hunk_stale_cache:
  assumes "stored hb n f [c]" "h < n" "m_cachehunk c = h" "map_block c h \<noteq> 0" "hb \<le> length buf"
    and "hb < 2 ^ 32" "hb \<le> length dest"
  shows "\<exists>c'. write_hunk c h buf False = Inr (None, c') \<and> stored_hunk c' h = take hb buf \<and>
    read_bytes (Suc fuel) cx [c'] (h * hb) dest hb = Inr (None, overwrite 0 (f h) dest, [c'])"
proof -
  note st = stored_head [OF assms(1)]
  define c' where "c' = set_data (pwrite (map_block c h * hb) (take hb buf) (file_data c)) c"
  have w: "write_hunk c h buf False = Inr (None, c')"
    using write_hunk_raw [OF st(1,2) assms(2,5) st(3)] assms(4) by (simp add: c'_def)
  have "(h + 1) * hb \<le> n * hb" using assms(2) by (intro mult_le_mono1) simp
  then have "transfer_ok hb n (h * hb) hb"
    using st(1) assms(6) by (simp add: transfer_ok_def raw_geometry_def)
  then have "read_bytes (Suc fuel) cx [c'] (h * hb) dest hb = Inr (None, overwrite 0 (m_cache c') dest, [c'])"
    using st(3,4) assms(3,7) by (intro read_bytes_cached_hunk) (simp_all add: c'_def)
  moreover have "m_cache c' = f h" using st(5) assms(2,3) by (simp add: c'_def)
  moreover have "stored_hunk c' h = take hb buf"
    using overwrite_block(2) [OF st(1,2) assms(2,4), of "take hb buf" h] assms(2,5) by (simp add: c'_def)
  ultimately show ?thesis using w by auto
qed

theorem write_hunk_stale_cache_witness:
  "\<exists>c'. write_hunk sample_cached 1 [5, 6, 7, 8] False = Inr (None, c') \<and> stored_hunk c' 1 = [5, 6, 7, 8] \<and>
     read_bytes 1 no_codecs [c'] 4 [0, 0, 0, 0] 4 = Inr (None, [1, 2, 3, 4], [c'])"
  using write_hunk_stale_cache [OF sample_cached_stored, of 1 "[5, 6, 7, 8]" "[0, 0, 0, 0]" 0 no_codecs] map_block_samples(4)
  by (simp add: overwrite_def) (simp add: sample_cached_def)

end
