(* ===== verification/Chd_Chain.thy ===== *)
theory Chd_Chain
  imports Chd_Store
begin

text \<open>
  The recursion of \<open>read_hunk\<close> over references. Reading changes only caches and scratch buffers
  (\<open>shape\<close>), and when every reference inside a file points to an earlier hunk, which is what
  \<open>hunk_copy_from_self\<close> writes, the recursion depth is bounded by the hunk counts along the chain.
\<close>

subsection \<open>What reading leaves alone\<close>

definition shape :: "chd_file \<Rightarrow> chd_file" where
  "shape c = c\<lparr>m_cache := [], m_cachehunk := 0, m_compressed := []\<rparr>"

definition keeps :: "reader \<Rightarrow> bool" where
  "keeps rec \<longleftrightarrow> (\<forall>chain h dest err dest' chain'.
     rec chain h dest = Inr (err, dest', chain') \<longrightarrow> map shape chain' = map shape chain)"

lemma keepsD: "keeps rec \<Longrightarrow> rec chain h dest = Inr (err, dest', chain') \<Longrightarrow> map shape chain' = map shape chain"
  by (auto simp: keeps_def)

lemma shape_updates [simp]: "shape (c\<lparr>m_cache := k\<rparr>) = shape c" "shape (c\<lparr>m_cachehunk := i\<rparr>) = shape c"
  "shape (c\<lparr>m_compressed := d\<rparr>) = shape c"
  by (simp_all add: shape_def)

lemma read_plain_keeps: "read_plain c parents offset len ok dest = Inr (err, dest', chain') \<Longrightarrow> chain' = c # parents"
  by (auto simp: read_plain_def split: if_splits prod.splits option.splits)

lemma read_coded_keeps:
  "read_coded cx c parents i offset blocklen ok dest = Inr (err, dest', chain') \<Longrightarrow> map shape chain' = map shape (c # parents)"
  by (auto simp: read_coded_def Let_def split: if_splits prod.splits option.splits)

lemma fill_cache_keeps: "keeps rec \<Longrightarrow> fill_cache rec chain cur = Inr (err, chain') \<Longrightarrow> map shape chain' = map shape chain"
  by (auto simp: fill_cache_def split: if_splits list.splits sum.splits option.splits prod.splits dest!: keepsD)

lemma read_bytes_loop_keeps:
  "keeps rec \<Longrightarrow> read_bytes_loop rec offset bytes hunks chain pos dest = Inr (err, dest', chain') \<Longrightarrow>
    map shape chain' = map shape chain"
proof (induction rec offset bytes hunks chain pos dest arbitrary: err dest' chain' rule: read_bytes_loop.induct)
  case (1 rec offset bytes cur hunks c parents pos dest)
  show ?case
  proof (cases "whole_hunk offset bytes c cur")
    case True
    then show ?thesis using 1 
      by (auto simp: whole_hunk_def Let_def split: if_splits sum.splits prod.splits option.splits dest!: keepsD)
  next
    case False
    then show ?thesis using 1(2,3,4) fill_cache_keeps [OF 1(3)]
      by (fastforce simp: whole_hunk_def Let_def split: if_splits sum.splits prod.splits option.splits)
  qed
qed (auto)

lemma read_bytes_with_keeps:
  "keeps rec \<Longrightarrow> read_bytes_with rec chain offset dest bytes = Inr (err, dest', chain') \<Longrightarrow> map shape chain' = map shape chain"
  by (auto simp: read_bytes_with_def split: list.splits if_splits dest!: read_bytes_loop_keeps)

lemma read_hunk_v34_keeps: "keeps rec \<Longrightarrow> read_hunk_v34 rec cx c parents h dest = Inr (err, dest', chain') \<Longrightarrow>
    map shape chain' = map shape (c # parents)"
  by (cases "map_entry c (w32 (16 * h)) 16"; cases "v34_type_of (projr (map_entry c (w32 (16 * h)) 16) ! 15)")
     (auto simp: read_hunk_v34_def Let_def split: sum.splits if_splits dest!: read_plain_keeps read_coded_keeps dest: keepsD)

lemma read_hunk_raw_keeps: "keeps rec \<Longrightarrow> read_hunk_raw rec c parents h dest = Inr (err, dest', chain') \<Longrightarrow>
    map shape chain' = map shape (c # parents)"
  by (auto simp: read_hunk_raw_def Let_def split: sum.splits if_splits dest!: read_plain_keeps keepsD)

lemma read_hunk_v5_keeps: "keeps rec \<Longrightarrow> read_hunk_v5 rec cx c parents h dest = Inr (err, dest', chain') \<Longrightarrow>
    map shape chain' = map shape (c # parents)"
  by (cases "map_entry c (w32 (m_mapentrybytes c * h)) 12";
      cases "v5_type_of (projr (map_entry c (w32 (m_mapentrybytes c * h)) 12) ! 0)")
     (auto simp: read_hunk_v5_def Let_def split: sum.splits if_splits list.splits
        dest!: read_plain_keeps read_coded_keeps dest: keepsD read_bytes_with_keeps)

lemma read_hunk_keeps: "keeps (read_hunk fuel cx)"
proof (induction fuel)
  case (Suc fuel)
  show ?case
    unfolding keeps_def
    by (auto split: list.splits if_splits
        dest!: read_hunk_v34_keeps [OF Suc] read_hunk_raw_keeps [OF Suc] read_hunk_v5_keeps [OF Suc])
qed (simp add: keeps_def)

subsection \<open>References to earlier hunks\<close>

text \<open>The hunk of the same file that the map entry of hunk \<open>h\<close> refers to.\<close>

definition self_ref :: "chd_file \<Rightarrow> nat \<Rightarrow> nat option" where
  "self_ref c h =
     (if m_version c = 3 \<or> m_version c = 4 then
        (case map_entry c (w32 (16 * h)) 16 of
           Inr rawmap \<Rightarrow> if v34_type_of (rawmap ! 15) = V34_SELF_HUNK then Some (w32 (unat (get_u64be rawmap))) else None
         | Inl _ \<Rightarrow> None)
      else if m_version c = 5 \<and> compressed c then
        (case map_entry c (w32 (m_mapentrybytes c * h)) 12 of
           Inr rawmap \<Rightarrow> if v5_type_of (rawmap ! 0) = COMPRESSION_SELF then Some (w32 (unat (get_u48be (drop 4 rawmap)))) else None
         | Inl _ \<Rightarrow> None)
      else None)"

definition refs_earlier :: "chd_file \<Rightarrow> bool" where
  "refs_earlier c \<longleftrightarrow> (\<forall>h < m_hunkcount c. \<forall>k. self_ref c h = Some k \<longrightarrow> k < h)"

text \<open>
  The stack frames that suffice for a chain: one for the call, and for every file one for each of its hunks
  and one for entering it.
\<close>

definition chain_weight :: "chain \<Rightarrow> nat" where
  "chain_weight chain = sum_list (map (\<lambda>c. m_hunkcount c + 1) chain) + 1"

definition depth :: "chain \<Rightarrow> nat \<Rightarrow> nat" where
  "depth chain h = (case chain of [] \<Rightarrow> 0 | c # parents \<Rightarrow> min h (m_hunkcount c) + chain_weight parents)"

lemma shape_fields [simp]: "m_hunkcount (shape c) = m_hunkcount c" "m_version (shape c) = m_version c"
  "compressed (shape c) = compressed c" "m_mapentrybytes (shape c) = m_mapentrybytes c" "map_entry (shape c) = map_entry c"
  by (simp_all add: shape_def compressed_def map_entry_def fun_eq_iff)

lemma refs_earlier_shape [simp]: "refs_earlier (shape c) = refs_earlier c"
  by (simp add: refs_earlier_def self_ref_def)

lemma same_shape_ordered: "map shape a = map shape b \<Longrightarrow> (\<forall>c \<in> set a. refs_earlier c) = (\<forall>c \<in> set b. refs_earlier c)"
proof -
  assume "map shape a = map shape b"
  then have "set (map refs_earlier (map shape a)) = set (map refs_earlier (map shape b))" by simp
  then have "refs_earlier ` set a = refs_earlier ` set b" by (simp add: image_image)
  then show ?thesis by (metis (mono_tags, opaque_lifting) image_iff)
qed

lemma same_shape_weight: "map shape a = map shape b \<Longrightarrow> chain_weight a = chain_weight b"
proof -
  assume "map shape a = map shape b"
  then have "map (\<lambda>c. m_hunkcount c + 1) (map shape a) = map (\<lambda>c. m_hunkcount c + 1) (map shape b)" by simp
  then show ?thesis by (simp add: chain_weight_def comp_def)
qed

lemma depth_less_weight: "depth chain h < chain_weight chain"
  by (cases chain) (simp_all add: depth_def chain_weight_def)

subsection \<open>No overflow\<close>

definition calm :: "reader \<Rightarrow> chain \<Rightarrow> bool" where
  "calm rec chain \<longleftrightarrow> (\<forall>chain' h dest. map shape chain' = map shape chain \<longrightarrow> rec chain' h dest \<noteq> Inl Stack_Overflow)"

lemma calmD: "calm rec chain \<Longrightarrow> rec chain h dest \<noteq> Inl Stack_Overflow"
  by (simp add: calm_def)

lemma calm_same: "calm rec chain \<Longrightarrow> map shape chain' = map shape chain \<Longrightarrow> calm rec chain'"
  by (simp add: calm_def)

lemma fill_cache_calm: "calm rec chain \<Longrightarrow> fill_cache rec chain cur \<noteq> Inl Stack_Overflow"
  using calmD [of rec chain]
  by (auto simp: fill_cache_def split: list.splits if_splits sum.splits prod.splits option.splits)

lemma read_bytes_loop_calm:
  "keeps rec \<Longrightarrow> calm rec chain \<Longrightarrow> read_bytes_loop rec offset bytes hunks chain pos dest \<noteq> Inl Stack_Overflow"
proof (induction rec offset bytes hunks chain pos dest rule: read_bytes_loop.induct)
  case (1 rec offset bytes cur hunks c parents pos dest)
  note keep = keepsD [OF 1(3)] fill_cache_keeps [OF 1(3)]
  show ?case
  proof (cases "whole_hunk offset bytes c cur")
    case True
    have "rec (c # parents) cur d = Inr (e, a, b) \<Longrightarrow> calm rec b" for d e a b
      using calm_same [OF 1(4)] keep(1) by blast
    then show ?thesis using True 1(1,3) calmD [OF 1(4)]
      by (fastforce simp: whole_hunk_def Let_def split: if_splits sum.splits prod.splits option.splits)
  next
    case False
    then show ?thesis using 1(2,3,4) fill_cache_calm [OF 1(4)] calm_same [OF 1(4)]
      by (fastforce simp: whole_hunk_def Let_def split: if_splits sum.splits prod.splits option.splits dest: keep)
  qed
qed auto

lemma read_bytes_with_calm:
  "keeps rec \<Longrightarrow> calm rec chain \<Longrightarrow> read_bytes_with rec chain offset dest bytes \<noteq> Inl Stack_Overflow"
  by (simp add: read_bytes_with_def read_bytes_loop_calm split: list.split)

lemma leaf_calm: "read_plain c parents offset len ok dest \<noteq> Inl Stack_Overflow"
  "read_coded cx c parents i offset blocklen ok2 dest \<noteq> Inl Stack_Overflow"
  "map_entry c i width \<noteq> Inl Stack_Overflow"
  by (auto simp: read_plain_def read_coded_def map_entry_def Let_def split: prod.splits option.splits)

lemma read_hunk_calm:
  "\<forall>c \<in> set chain. refs_earlier c \<Longrightarrow> depth chain h < fuel \<Longrightarrow> read_hunk fuel cx chain h dest \<noteq> Inl Stack_Overflow"
proof (induction fuel arbitrary: chain h dest)
  case (Suc fuel)
  show ?case
  proof (cases chain)
    case (Cons c parents)
    have ord: "\<forall>c \<in> set parents. refs_earlier c" and w: "chain_weight parents \<le> fuel"
      using Suc.prems Cons by (simp_all add: depth_def)
    have calm: "calm (read_hunk fuel cx) parents"
      unfolding calm_def
    proof (intro allI impI Suc.IH)
      fix chain' k
      assume same: "map shape chain' = map shape parents"
      show "\<forall>c \<in> set chain'. refs_earlier c" using same_shape_ordered [OF same] ord by simp
      show "depth chain' k < fuel"
        using depth_less_weight [of chain' k] same_shape_weight [OF same] w by linarith
    qed
    have self: "h < m_hunkcount c \<Longrightarrow> self_ref c h = Some k \<Longrightarrow> read_hunk fuel cx (c # parents) k dest \<noteq> Inl Stack_Overflow" for k
      using Suc.prems Cons by (intro Suc.IH) (auto simp: refs_earlier_def depth_def)
    note parent = calmD [OF calm] read_bytes_with_calm [OF read_hunk_keeps calm]
    consider "m_file c = None \<or> h \<ge> m_hunkcount c" | (v34) "h < m_hunkcount c" "m_version c = 3 \<or> m_version c = 4"
      | (raw) "h < m_hunkcount c" "m_version c = 5" "\<not> compressed c"
      | (v5) "h < m_hunkcount c" "m_version c = 5" "compressed c"
      | "m_version c \<noteq> 3" "m_version c \<noteq> 4" "m_version c \<noteq> 5" by force
    then show ?thesis
    proof cases
      case v34
      then have "read_hunk_v34 (read_hunk fuel cx) cx c parents h dest \<noteq> Inl Stack_Overflow"
        using self parent leaf_calm
        by (cases "map_entry c (w32 (16 * h)) 16"; cases "v34_type_of (projr (map_entry c (w32 (16 * h)) 16) ! 15)")
           (auto simp: read_hunk_v34_def self_ref_def Let_def split: sum.splits)
      then show ?thesis using v34 Cons by auto
    next
      case raw
      have "read_hunk_raw (read_hunk fuel cx) c parents h dest \<noteq> Inl Stack_Overflow"
        using parent leaf_calm by (auto simp: read_hunk_raw_def Let_def split: sum.splits)
      then show ?thesis using raw Cons by auto
    next
      case v5
      then have "read_hunk_v5 (read_hunk fuel cx) cx c parents h dest \<noteq> Inl Stack_Overflow"
        using self parent leaf_calm
        by (cases "map_entry c (w32 (m_mapentrybytes c * h)) 12";
            cases "v5_type_of (projr (map_entry c (w32 (m_mapentrybytes c * h)) 12) ! 0)")
           (auto simp: read_hunk_v5_def self_ref_def Let_def split: sum.splits list.splits)
      then show ?thesis using v5 Cons by auto
    qed (use Cons in auto)
  qed simp
qed simp

subsection \<open>More depth changes nothing\<close>

definition extends :: "reader \<Rightarrow> reader \<Rightarrow> bool" where
  "extends rec rec' \<longleftrightarrow> (\<forall>chain h dest. rec chain h dest \<noteq> Inl Stack_Overflow \<longrightarrow> rec' chain h dest = rec chain h dest)"

lemma extendsD: "extends rec rec' \<Longrightarrow> rec chain h dest \<noteq> Inl Stack_Overflow \<Longrightarrow> rec' chain h dest = rec chain h dest"
  by (simp add: extends_def)

lemma fill_cache_extends:
  "extends rec rec' \<Longrightarrow> fill_cache rec chain cur \<noteq> Inl Stack_Overflow \<Longrightarrow> fill_cache rec' chain cur = fill_cache rec chain cur"
  by (cases chain; cases "rec chain cur (m_cache (hd chain))") (auto simp: fill_cache_def extends_def)

lemma read_bytes_loop_extends:
  "extends rec rec' \<Longrightarrow> read_bytes_loop rec offset bytes hunks chain pos dest \<noteq> Inl Stack_Overflow \<Longrightarrow>
    read_bytes_loop rec' offset bytes hunks chain pos dest = read_bytes_loop rec offset bytes hunks chain pos dest"
proof (induction rec offset bytes hunks chain pos dest rule: read_bytes_loop.induct)
  case (1 rec offset bytes cur hunks c parents pos dest)
  show ?case
  proof (cases "whole_hunk offset bytes c cur")
    case True
    let ?r = "rec (c # parents) cur (slice pos (m_hunkbytes c) dest)"
    have "?r \<noteq> Inl Stack_Overflow \<or> length dest < pos + m_hunkbytes c"
      using 1(4) True by (auto simp: whole_hunk_def Let_def split: if_splits)
    then show ?thesis using 1(1,3,4) True extendsD [OF 1(3), of "c # parents" cur]
      by (cases ?r) (auto simp: whole_hunk_def Let_def split: if_splits prod.splits option.splits)
  next
    case False
    let ?r = "fill_cache rec (c # parents) cur"
    have "?r \<noteq> Inl Stack_Overflow" using 1(4) False by (auto simp: whole_hunk_def Let_def split: if_splits)
    then show ?thesis using 1(2,3,4) False fill_cache_extends [OF 1(3), of "c # parents" cur]
      by (cases ?r) (auto simp: whole_hunk_def Let_def split: if_splits prod.splits option.splits)
  qed
qed auto

lemma read_bytes_with_extends:
  "extends rec rec' \<Longrightarrow> read_bytes_with rec chain offset dest bytes \<noteq> Inl Stack_Overflow \<Longrightarrow>
    read_bytes_with rec' chain offset dest bytes = read_bytes_with rec chain offset dest bytes"
  by (cases chain) (auto simp: read_bytes_with_def read_bytes_loop_extends split: if_splits)

lemma v34_extends: "extends rec rec' \<Longrightarrow> read_hunk_v34 rec cx c parents h dest \<noteq> Inl Stack_Overflow \<Longrightarrow>
    read_hunk_v34 rec' cx c parents h dest = read_hunk_v34 rec cx c parents h dest"
  by (cases "map_entry c (w32 (16 * h)) 16"; cases "v34_type_of (projr (map_entry c (w32 (16 * h)) 16) ! 15)")
     (auto simp: read_hunk_v34_def Let_def extends_def split: sum.splits if_splits)

lemma raw_extends: "extends rec rec' \<Longrightarrow> read_hunk_raw rec c parents h dest \<noteq> Inl Stack_Overflow \<Longrightarrow>
    read_hunk_raw rec' c parents h dest = read_hunk_raw rec c parents h dest"
  by (cases "map_entry c (w32 (m_mapentrybytes c * h)) 4"; cases "rec parents h dest = Inl Stack_Overflow")
     (auto simp: read_hunk_raw_def Let_def extends_def split: if_splits)

lemma v5_extends: "extends rec rec' \<Longrightarrow> read_hunk_v5 rec cx c parents h dest \<noteq> Inl Stack_Overflow \<Longrightarrow>
    read_hunk_v5 rec' cx c parents h dest = read_hunk_v5 rec cx c parents h dest"
  using read_bytes_with_extends [of rec rec']
  by (cases "map_entry c (w32 (m_mapentrybytes c * h)) 12";
      cases "v5_type_of (projr (map_entry c (w32 (m_mapentrybytes c * h)) 12) ! 0)"; cases parents)
     (auto simp: read_hunk_v5_def Let_def extends_def split: sum.splits if_splits)

lemma read_hunk_extends: "extends (read_hunk fuel cx) (read_hunk (Suc fuel) cx)"
proof (induction fuel)
  case (Suc fuel)
  show ?case
    unfolding extends_def
  proof (intro allI impI)
    fix chain h dest
    assume no: "read_hunk (Suc fuel) cx chain h dest \<noteq> Inl Stack_Overflow"
    show "read_hunk (Suc (Suc fuel)) cx chain h dest = read_hunk (Suc fuel) cx chain h dest"
      using no v34_extends [OF Suc] raw_extends [OF Suc] v5_extends [OF Suc]
      unfolding read_hunk.simps(2) [of "Suc fuel"] read_hunk.simps(2) [of fuel]
      by (cases chain) (auto simp del: read_hunk.simps split: if_splits)
  qed
qed (simp add: extends_def)

lemma read_hunk_more: "fuel \<le> fuel' \<Longrightarrow> extends (read_hunk fuel cx) (read_hunk fuel' cx)"
proof (induction fuel' rule: dec_induct)
  case (step k)
  then show ?case using read_hunk_extends [of k cx] unfolding extends_def by metis
qed (simp add: extends_def)

subsection \<open>Appending keeps the references ordered\<close>

lemma put_map_entry_laws:
  assumes "12 \<le> length buf"
  shows "length (put_map_entry t len offset crc buf) = length buf"
    "put_map_entry t len offset crc buf ! 0 = t"
    "get_u48be (drop 4 (put_map_entry t len offset crc buf)) = take_bit 48 (of_nat offset)"
    "drop 12 (put_map_entry t len offset crc buf) = drop 12 buf"
proof -
  let ?a = "buf[0 := t]"
  let ?b = "at_off 1 (put_u24be (of_nat len)) ?a"
  let ?c = "at_off 4 (put_u48be (of_nat offset)) ?b"
  have len: "length ?a = length buf" "length ?b = length buf" "length ?c = length buf"
    by (simp_all add: f24be.length_at f48be.length_at)
  show "length (put_map_entry t len offset crc buf) = length buf"
    by (simp add: put_map_entry_def f16be.length_at f24be.length_at f48be.length_at)
  have "put_map_entry t len offset crc buf ! 0 = ?c ! 0"
    using assms len unfolding put_map_entry_def by (intro nth_at_off_before) simp_all
  also have "\<dots> = ?b ! 0" using assms len by (intro nth_at_off_before) simp_all
  also have "\<dots> = ?a ! 0" using assms len by (intro nth_at_off_before) simp_all
  finally show "put_map_entry t len offset crc buf ! 0 = t" using assms by (cases buf) auto
  have "get_u48be (drop 4 (put_map_entry t len offset crc buf)) = get_u48be (drop 4 ?c)"
    using assms len unfolding put_map_entry_def by (intro f48be.get_at_before) simp_all
  also have "\<dots> = take_bit 48 (of_nat offset)" using assms len f48be.get_at_same [of 4 ?b] by simp
  finally show "get_u48be (drop 4 (put_map_entry t len offset crc buf)) = take_bit 48 (of_nat offset)" .
  show "drop 12 (put_map_entry t len offset crc buf) = drop 12 buf"
    using assms len f16be.at_tail [of 10 12 ?c crc] f48be.at_tail [of 4 12 ?b] f24be.at_tail [of 1 12 ?a]
    by (simp add: put_map_entry_def)
qed

text \<open>A compressed file being written.\<close>

definition appending :: "chd_file \<Rightarrow> bool" where
  "appending c \<longleftrightarrow> m_version c = 5 \<and> m_mapentrybytes c = 12 \<and> compressed c \<and>
     length (m_rawmap c) = 12 * m_hunkcount c \<and> 12 * m_hunkcount c < 2 ^ 32"

lemma self_ref_appending:
  assumes "appending c" "h < m_hunkcount c"
  shows "self_ref c h = (if v5_type_of (m_rawmap c ! (12 * h)) = COMPRESSION_SELF
    then Some (w32 (unat (get_u48be (slice (12 * h + 4) 6 (m_rawmap c))))) else None)"
proof -
  have "w32 (12 * h) = 12 * h" "12 * h + 12 \<le> length (m_rawmap c)"
    using assms by (simp_all add: appending_def w32_def)
  moreover from this have "get_u48be (drop 4 (drop (12 * h) (m_rawmap c))) = get_u48be (slice (12 * h + 4) 6 (m_rawmap c))"
    using f48be.get_slice [of "12 * h + 4" "m_rawmap c"] by (simp add: add.commute)
  ultimately show ?thesis using assms by (simp add: self_ref_def appending_def map_entry_def)
qed

lemma self_ref_set_map_entry:
  fixes t len offset crc
  assumes "appending c" "h < m_hunkcount c" "k < m_hunkcount c"
  defines "c' \<equiv> set_map_entry h t len offset crc c"
  shows "self_ref c' k = (if k = h then if v5_type_of t = COMPRESSION_SELF then Some (w32 (unat (take_bit 48 (of_nat offset :: u64)))) else None
    else self_ref c k)"
proof -
  define E where "E = put_map_entry t len offset crc"
  have w: "w32 (h * 12) = 12 * h" using assms by (simp add: appending_def w32_def)
  have len: "12 * h + 12 \<le> length (m_rawmap c)" "12 * k + 12 \<le> length (m_rawmap c)"
    using assms by (simp_all add: appending_def)
  have rm: "m_rawmap c' = at_off (12 * h) E (m_rawmap c)" by (simp add: c'_def set_map_entry_def w E_def)
  have laws: "length (E (drop (12 * h) (m_rawmap c))) = length (m_rawmap c) - 12 * h"
      "E (drop (12 * h) (m_rawmap c)) ! 0 = t"
      "get_u48be (drop 4 (E (drop (12 * h) (m_rawmap c)))) = take_bit 48 (of_nat offset)"
      "drop 12 (E (drop (12 * h) (m_rawmap c))) = drop 12 (drop (12 * h) (m_rawmap c))"
    using put_map_entry_laws [of "drop (12 * h) (m_rawmap c)"] len unfolding E_def by simp_all
  have len': "length (m_rawmap c') = length (m_rawmap c)" using laws(1) len by (simp add: rm at_off_def)
  have ap: "appending c'" using assms(1) len' by (simp add: appending_def c'_def set_map_entry_def)
  have hc: "m_hunkcount c' = m_hunkcount c" by (simp add: c'_def set_map_entry_def)
  show ?thesis
  proof (cases "k = h")
    case True
    have e: "m_rawmap c' ! (12 * h) = t"
      using laws(1,2) len by (simp add: rm at_off_def nth_append)
    have "drop (12 * h) (m_rawmap c') = E (drop (12 * h) (m_rawmap c))" using len by (simp add: rm)
    then have "get_u48be (slice (12 * h + 4) 6 (m_rawmap c')) = take_bit 48 (of_nat offset)"
      using laws(3) f48be.get_slice [of "12 * h + 4" "m_rawmap c'"] len len' by (simp add: add.commute drop_drop [symmetric] del: drop_drop)
    then show ?thesis using True e self_ref_appending [OF ap] assms(3) hc by simp
  next
    case False
    have "take 12 (drop (12 * k) (m_rawmap c')) = take 12 (drop (12 * k) (m_rawmap c))"
    proof (cases "k < h")
      case True
      then show ?thesis using len by (simp add: rm at_off_def take_drop)
    next
      case False
      then have "12 * h + 12 \<le> 12 * k" using \<open>k \<noteq> h\<close> by simp
      then have "drop (12 * k) (m_rawmap c') = drop (12 * k - 12 * h - 12) (drop 12 (E (drop (12 * h) (m_rawmap c))))"
        using len by (simp add: rm at_off_def)
      then show ?thesis using \<open>12 * h + 12 \<le> 12 * k\<close> by (simp add: laws(4))
    qed
    then have s: "slice (12 * k) 12 (m_rawmap c') = slice (12 * k) 12 (m_rawmap c)" by (simp add: slice_def)
    have "m_rawmap c' ! (12 * k) = m_rawmap c ! (12 * k)"
      using nth_slice [of 0 12 "12 * k" "m_rawmap c'"] nth_slice [of 0 12 "12 * k" "m_rawmap c"] len len' s by simp
    moreover have "slice (12 * k + 4) 6 (m_rawmap c') = slice (12 * k + 4) 6 (m_rawmap c)"
      using slice_slice [of 4 6 12 "12 * k" "m_rawmap c'"] slice_slice [of 4 6 12 "12 * k" "m_rawmap c"] s by simp
    ultimately show ?thesis using False self_ref_appending [OF ap] self_ref_appending [OF assms(1)] assms(3) hc by simp
  qed
qed

lemma hunkcount_set_map_entry: "m_hunkcount (set_map_entry h t len offset crc c) = m_hunkcount c"
  by (simp add: set_map_entry_def)

lemma refs_earlier_set_map_entry:
  assumes "appending c" "refs_earlier c" "h < m_hunkcount c" "t \<noteq> 5 \<or> offset < h"
  shows "refs_earlier (set_map_entry h t len offset crc c)"
proof -
  have t: "v5_type_of t = COMPRESSION_SELF \<longleftrightarrow> t = 5" by (auto simp: v5_type_of_def)
  have "offset < h \<Longrightarrow> w32 (unat (take_bit 48 (of_nat offset :: u64))) = offset"
    using assms(1,3) by (simp add: appending_def unsigned_take_bit_eq unsigned_of_nat take_bit_nat_eq_self w32_def take_bit_nat_def)
  then show ?thesis
    using assms(2,4) self_ref_set_map_entry [OF assms(1,3), of _ t len offset crc] unfolding refs_earlier_def
    by (auto simp: t hunkcount_set_map_entry split: if_splits)
qed

lemma file_append_only_file: "file_append c src a = (r, c') \<Longrightarrow> \<exists>f. c' = c\<lparr>m_file := f\<rparr>"
  by (cases "m_file c")
     (auto simp: file_append_def Let_def split: prod.splits option.splits if_splits sum.splits intro: exI [of _ None])

lemma file_update_ignored:
  "refs_earlier (c\<lparr>m_file := f\<rparr>) = refs_earlier c" "appending (c\<lparr>m_file := f\<rparr>) = appending c"
  by (simp_all add: refs_earlier_def self_ref_def map_entry_def compressed_def appending_def)

lemma verified_in_range: "verify_proper_compression_append c h = Inr None \<Longrightarrow> h < m_hunkcount c"
  by (auto simp: verify_proper_compression_append_def split: if_splits sum.splits)

lemma write_compressed_earlier:
  assumes "appending c" "refs_earlier c" "-1 \<le> compression" "compression < 4"
    and "hunk_write_compressed c h compression d len crc = Inr (err, c')"
  shows "refs_earlier c'"
proof (cases "verify_proper_compression_append c h = Inr None \<and> len \<le> length d")
  case True
  obtain r c1 where ap: "file_append c (take len d) 0 = (r, c1)" by fastforce
  then obtain f where c1: "c1 = c\<lparr>m_file := f\<rparr>" using file_append_only_file by blast
  have "(if compression = -1 then 4 else word_of_int compression :: u8) \<noteq> 5"
  proof (cases "compression = -1")
    case False
    then have "compression \<in> {0, 1, 2, 3}" using assms(3,4) by auto
    then show ?thesis using False by auto
  qed simp
  then have "refs_earlier (set_map_entry h (if compression = -1 then 4 else word_of_int compression) len k crc c1)" for k
    using assms(1,2) verified_in_range True c1 by (intro refs_earlier_set_map_entry) (auto simp: file_update_ignored)
  then show ?thesis
    using assms(2,5) True ap c1 by (cases r) (auto simp: hunk_write_compressed_def file_update_ignored)
next
  case False
  then show ?thesis using assms(2,5)
    by (auto simp: hunk_write_compressed_def split: sum.splits option.splits if_splits)
qed

text \<open>A file whose only hunk is a copy of itself, as no call of \<open>hunk_copy_from_self\<close> would write it.\<close>

definition sample_loop :: chd_file where
  "sample_loop = chd_closed
     \<lparr>m_file := Some \<lparr>f_data = [], f_read_fault = \<lambda>_ _. None, f_write_fault = \<lambda>_ _. None\<rparr>,
      m_hunkbytes := 4, m_hunkcount := 1, m_mapentrybytes := 12, m_compression := [CHD_CODEC_ZLIB, 0, 0, 0],
      m_rawmap := 5 # replicate 11 0, m_cache := replicate 4 0\<rparr>"

text \<open>Two hunks, the first stored, the second a copy of the first, the third still to be written.\<close>

definition sample_copies :: chd_file where
  "sample_copies = sample_loop
     \<lparr>m_allow_writes := True, m_hunkcount := 3, m_rawmap := (4 # replicate 11 0) @ (5 # replicate 11 0) @ replicate 12 255\<rparr>"

lemma sample_self_refs: "self_ref sample_loop 0 = Some 0" "self_ref sample_copies 0 = None"
  "self_ref sample_copies 1 = Some 0" "self_ref sample_copies 2 = None"
  by (simp_all add: self_ref_def sample_loop_def sample_copies_def chd_closed_def HEADER_VERSION_def compressed_def
      CHD_CODEC_ZLIB_def CHD_CODEC_NONE_def map_entry_def v5_type_of_def w32_def get_u48be_def nth_append)

lemma sample_copies_earlier: "refs_earlier sample_copies"
proof -
  have "h < m_hunkcount sample_copies \<Longrightarrow> h = 0 \<or> h = 1 \<or> h = 2" for h by (auto simp: sample_copies_def)
  then show ?thesis using sample_self_refs(2-4) unfolding refs_earlier_def by fastforce
qed

lemma sample_copies_appending: "appending sample_copies"
  by (simp add: appending_def sample_copies_def sample_loop_def chd_closed_def HEADER_VERSION_def compressed_def
      CHD_CODEC_ZLIB_def CHD_CODEC_NONE_def)

subsection \<open>Properties\<close>

text \<open>
  C11: Reading a hunk terminates: when the references inside each file of the chain point to earlier hunks,
  a stack of \<open>chain_weight\<close> frames suffices, which is one more than the sum, over the files of the chain, of
  their hunk counts plus one, and a deeper stack does not change the result.
\<close>

theorem read_hunk_terminates:
  assumes "\<forall>c \<in> set chain. refs_earlier c" "chain_weight chain \<le> fuel"
  shows "read_hunk fuel cx chain h dest \<noteq> Inl Stack_Overflow \<and>
    read_hunk fuel cx chain h dest = read_hunk (chain_weight chain) cx chain h dest"
proof -
  have "read_hunk (chain_weight chain) cx chain h dest \<noteq> Inl Stack_Overflow"
    using read_hunk_calm [OF assms(1) depth_less_weight] .
  then show ?thesis using extendsD [OF read_hunk_more [OF assms(2), of cx]] by simp
qed

theorem read_hunk_terminates_witness:
  "read_hunk 9 no_codecs [sample_copies] 1 [0, 0, 0, 0] \<noteq> Inl Stack_Overflow \<and>
   read_hunk 9 no_codecs [sample_copies] 1 [0, 0, 0, 0] = read_hunk (chain_weight [sample_copies]) no_codecs [sample_copies] 1 [0, 0, 0, 0]"
  by (rule read_hunk_terminates)
     (use sample_copies_earlier in \<open>simp_all add: chain_weight_def\<close>, simp add: sample_copies_def)

text \<open>
  C15: Every way of adding a hunk to a compressed file keeps the references pointing to earlier hunks,
  whether the hunk is written, refers to the parent, or is a copy of another hunk.
\<close>

theorem append_keeps_refs_earlier:
  assumes "appending c" "refs_earlier c" "-1 \<le> compression" "compression < 4"
    and "Inr (err, c') \<in> {hunk_write_compressed c h compression d len crc, hunk_copy_from_self c h other,
           hunk_copy_from_parent c h parentunit}"
  shows "refs_earlier c'"
proof -
  consider "hunk_write_compressed c h compression d len crc = Inr (err, c')"
    | (self) "hunk_copy_from_self c h other = Inr (err, c')" | (par) "hunk_copy_from_parent c h parentunit = Inr (err, c')"
    using assms(5) by auto
  then show ?thesis
  proof cases
    case self
    then show ?thesis
      using assms(1,2) verified_in_range [of c h] refs_earlier_set_map_entry [OF assms(1,2), of h 5 other 0 0]
      by (auto simp: hunk_copy_from_self_def split: sum.splits option.splits if_splits)
  next
    case par
    then show ?thesis
      using assms(1,2) verified_in_range [of c h] refs_earlier_set_map_entry [OF assms(1,2), of h 6 parentunit 0 0]
      by (auto simp: hunk_copy_from_parent_def split: sum.splits option.splits if_splits)
  qed (use write_compressed_earlier [OF assms(1-4)] in blast)
qed

theorem append_keeps_refs_earlier_witness:
  "refs_earlier (set_map_entry 2 5 0 1 0 sample_copies)"
proof -
  have "hunk_copy_from_self sample_copies 2 1 = Inr (None, set_map_entry 2 5 0 1 0 sample_copies)"
    by (simp add: hunk_copy_from_self_def verify_proper_compression_append_def map_entry_def w32_def sample_copies_def
        sample_loop_def chd_closed_def compressed_def CHD_CODEC_ZLIB_def CHD_CODEC_NONE_def nth_append)
  then show ?thesis
    using append_keeps_refs_earlier [OF sample_copies_appending sample_copies_earlier, of 0 None _ 2 "[]" 0 0 1 0] by simp
qed

text \<open>
  C33: A map entry that names its own hunk makes \<open>read_hunk\<close> recurse without end: no stack is deep enough.
\<close>

theorem self_reference_overflows:
  assumes "m_file c \<noteq> None" "h < m_hunkcount c" "self_ref c h = Some h"
  shows "read_hunk fuel cx (c # parents) h dest = Inl Stack_Overflow"
proof (induction fuel)
  case (Suc fuel)
  consider "m_version c = 3 \<or> m_version c = 4" | "m_version c = 5" "compressed c"
    using assms(3) by (auto simp: self_ref_def split: if_splits)
  then show ?case
    using Suc assms
    by cases (auto simp: self_ref_def read_hunk_v34_def read_hunk_v5_def Let_def split: sum.splits if_splits)
qed simp

theorem self_reference_overflows_witness:
  "read_hunk 1000 no_codecs [sample_loop] 0 [0, 0, 0, 0] = Inl Stack_Overflow"
  using self_reference_overflows [OF _ _ sample_self_refs(1), of 1000 no_codecs "[]" "[0, 0, 0, 0]"]
  by (simp add: sample_loop_def)

end
