(* ===== verification/Chd_Meta.thy ===== *)
theory Chd_Meta
  imports Chd_Hunk
begin

text \<open>
  Metadata of a CHD (\<open>metadata_find\<close>, \<open>read_metadata\<close>, \<open>write_metadata\<close>, \<open>delete_metadata\<close>,
  \<open>clone_all_metadata\<close>, \<open>compute_overall_sha1\<close> and their helpers in \<^verbatim>\<open>chd.cpp\<close>). The entries form a
  linked list in the file. A list that runs into a cycle is walked for ever, so the operations that walk
  it return an option: \<open>None\<close> is a walk that does not end. The buffer a fresh SHA-1 creator leaves
  uninitialised is taken to be zeros; its contents do not reach the digest.
\<close>

subsection \<open>Entries\<close>

definition METADATA_HEADER_SIZE :: nat where "METADATA_HEADER_SIZE = 16"
definition CHDMETATAG_WILDCARD :: u32 where "CHDMETATAG_WILDCARD = 0"
definition CHD_MDFLAGS_CHECKSUM :: u8 where "CHD_MDFLAGS_CHECKSUM = 1"

definition CHD_MAKE_TAG :: "u8 \<Rightarrow> u8 \<Rightarrow> u8 \<Rightarrow> u8 \<Rightarrow> u32" where
  "CHD_MAKE_TAG a b c d = push_bit 24 (ucast a) OR push_bit 16 (ucast b) OR push_bit 8 (ucast c) OR ucast d"

definition HARD_DISK_METADATA_TAG :: u32 where "HARD_DISK_METADATA_TAG = CHD_MAKE_TAG 0x47 0x44 0x44 0x44"
definition CDROM_OLD_METADATA_TAG :: u32 where "CDROM_OLD_METADATA_TAG = CHD_MAKE_TAG 0x43 0x48 0x43 0x44"
definition CDROM_TRACK_METADATA_TAG :: u32 where "CDROM_TRACK_METADATA_TAG = CHD_MAKE_TAG 0x43 0x48 0x54 0x52"
definition CDROM_TRACK_METADATA2_TAG :: u32 where "CDROM_TRACK_METADATA2_TAG = CHD_MAKE_TAG 0x43 0x48 0x54 0x32"
definition GDROM_OLD_METADATA_TAG :: u32 where "GDROM_OLD_METADATA_TAG = CHD_MAKE_TAG 0x43 0x48 0x47 0x54"
definition GDROM_TRACK_METADATA_TAG :: u32 where "GDROM_TRACK_METADATA_TAG = CHD_MAKE_TAG 0x43 0x48 0x47 0x44"
definition DVD_METADATA_TAG :: u32 where "DVD_METADATA_TAG = CHD_MAKE_TAG 0x44 0x56 0x44 0x20"
definition AV_METADATA_TAG :: u32 where "AV_METADATA_TAG = CHD_MAKE_TAG 0x41 0x56 0x41 0x56"

record metadata_entry =
  me_offset :: nat
  me_next :: nat
  me_prev :: nat
  me_length :: nat
  me_metatag :: u32
  me_flags :: u8

text \<open>The fields \<open>metadata_find\<close> takes from the 16 bytes of a header, and a header as \<open>write_metadata\<close> builds it.\<close>

definition parse_meta_header :: "bytes \<Rightarrow> metadata_entry \<Rightarrow> metadata_entry" where
  "parse_meta_header raw e = e\<lparr>me_metatag := get_u32be raw, me_flags := raw ! 4,
     me_length := unat (get_u24be (drop 5 raw)), me_next := unat (get_u64be (drop 8 raw))\<rparr>"

definition build_meta_header :: "u32 \<Rightarrow> u8 \<Rightarrow> nat \<Rightarrow> bytes" where
  "build_meta_header metatag flags inputlen =
     at_off 8 (put_u64be 0)
       (at_off 5 (put_u24be (of_nat inputlen AND 0x00ffffff))
         ((put_u32be metatag (replicate METADATA_HEADER_SIZE 0))[4 := flags]))"

subsection \<open>Walking the list\<close>

partial_function (option) metadata_loop ::
    "chd_file \<Rightarrow> u32 \<Rightarrow> int \<Rightarrow> metadata_entry \<Rightarrow> (error_condition option \<times> metadata_entry) option" where
  "metadata_loop c metatag metaindex e =
     (if me_offset e = 0 then Some (Some (Chd_Error METADATA_NOT_FOUND), e)
      else case file_read c (me_offset e) (replicate METADATA_HEADER_SIZE 0) METADATA_HEADER_SIZE of
             (Some err, _) \<Rightarrow> Some (Some err, e)
           | (None, raw) \<Rightarrow>
               let e1 = parse_meta_header raw e;
                   matches = (metatag = CHDMETATAG_WILDCARD \<or> me_metatag e1 = metatag) in
               if matches \<and> metaindex = 0 then Some (None, e1)
               else metadata_loop c metatag (if matches then metaindex - 1 else metaindex)
                      (e1\<lparr>me_prev := me_offset e1, me_offset := me_next e1\<rparr>))"

definition metadata_find ::
    "chd_file \<Rightarrow> u32 \<Rightarrow> int \<Rightarrow> metadata_entry \<Rightarrow> bool \<Rightarrow> (error_condition option \<times> metadata_entry) option" where
  "metadata_find c metatag metaindex e resume =
     metadata_loop c metatag metaindex
       (if \<not> resume then e\<lparr>me_offset := m_metaoffset c, me_prev := 0\<rparr>
        else e\<lparr>me_prev := me_offset e, me_offset := me_next e\<rparr>)"

text \<open>An entry nothing was stored in yet.\<close>

definition no_entry :: metadata_entry where
  "no_entry = \<lparr>me_offset = 0, me_next = 0, me_prev = 0, me_length = 0, me_metatag = 0, me_flags = 0\<rparr>"

subsection \<open>Reading\<close>

definition read_metadata_string ::
    "chd_file \<Rightarrow> u32 \<Rightarrow> nat \<Rightarrow> bytes \<Rightarrow> (error_condition option \<times> bytes) option" where
  "read_metadata_string c searchtag searchindex output =
     (case metadata_find c searchtag (s32 searchindex) no_entry False of
        None \<Rightarrow> None
      | Some (Some err, _) \<Rightarrow> Some (Some err, output)
      | Some (None, e) \<Rightarrow>
          Some (file_read c (w64 (me_offset e + METADATA_HEADER_SIZE)) (replicate (me_length e) 0) (me_length e)))"

text \<open>\<open>resize\<close> of a vector keeps what fits and fills with zeros.\<close>

definition resize :: "nat \<Rightarrow> bytes \<Rightarrow> bytes" where
  "resize n xs = take n xs @ replicate (n - length xs) 0"

definition read_metadata_vector ::
    "chd_file \<Rightarrow> u32 \<Rightarrow> nat \<Rightarrow> bytes \<Rightarrow> (error_condition option \<times> bytes) option" where
  "read_metadata_vector c searchtag searchindex output =
     (case metadata_find c searchtag (s32 searchindex) no_entry False of
        None \<Rightarrow> None
      | Some (Some err, _) \<Rightarrow> Some (Some err, output)
      | Some (None, e) \<Rightarrow>
          Some (file_read c (w64 (me_offset e + METADATA_HEADER_SIZE)) (resize (me_length e) output) (me_length e)))"

definition read_metadata_buffer ::
    "chd_file \<Rightarrow> u32 \<Rightarrow> nat \<Rightarrow> bytes \<Rightarrow> nat \<Rightarrow> nat \<Rightarrow> (error_condition option \<times> bytes \<times> nat) option" where
  "read_metadata_buffer c searchtag searchindex output outputlen resultlen =
     (case metadata_find c searchtag (s32 searchindex) no_entry False of
        None \<Rightarrow> None
      | Some (Some err, _) \<Rightarrow> Some (Some err, output, resultlen)
      | Some (None, e) \<Rightarrow>
          (case file_read c (w64 (me_offset e + METADATA_HEADER_SIZE)) output (min outputlen (me_length e)) of
             (err, output') \<Rightarrow> Some (err, output', me_length e)))"

definition read_metadata_full ::
    "chd_file \<Rightarrow> u32 \<Rightarrow> nat \<Rightarrow> bytes \<Rightarrow> u32 \<Rightarrow> u8 \<Rightarrow> (error_condition option \<times> bytes \<times> u32 \<times> u8) option" where
  "read_metadata_full c searchtag searchindex output resulttag resultflags =
     (case metadata_find c searchtag (s32 searchindex) no_entry False of
        None \<Rightarrow> None
      | Some (Some err, _) \<Rightarrow> Some (Some err, output, resulttag, resultflags)
      | Some (None, e) \<Rightarrow>
          (case file_read c (w64 (me_offset e + METADATA_HEADER_SIZE)) (resize (me_length e) output) (me_length e) of
             (Some err, output') \<Rightarrow> Some (Some err, output', resulttag, resultflags)
           | (None, output') \<Rightarrow> Some (None, output', me_metatag e, me_flags e)))"

subsection \<open>The overall digest\<close>

text \<open>A \<open>metadata_hash\<close> is its 24 bytes; \<open>memcmp\<close> compares them as unsigned bytes.\<close>

fun memcmp :: "bytes \<Rightarrow> bytes \<Rightarrow> int" where
  "memcmp (a # as) (b # bs) = (if a < b then -1 else if b < a then 1 else memcmp as bs)"
| "memcmp [] [] = 0"
| "memcmp [] (b # bs) = -1"
| "memcmp (a # as) [] = 1"

definition metadata_hash_compare :: "bytes \<Rightarrow> bytes \<Rightarrow> int" where
  "metadata_hash_compare elem1 elem2 = memcmp elem1 elem2"

fun insert_hash :: "bytes \<Rightarrow> bytes list \<Rightarrow> bytes list" where
  "insert_hash x [] = [x]"
| "insert_hash x (y # ys) = (if metadata_hash_compare x y \<le> 0 then x # y # ys else y # insert_hash x ys)"

definition sort_hashes :: "bytes list \<Rightarrow> bytes list" where
  "sort_hashes hs = foldr insert_hash hs []"

definition sha1_of :: "bytes \<Rightarrow> bytes" where
  "sha1_of d = sha1_simple (replicate 16 0) d"

definition hash_entry :: "u32 \<Rightarrow> bytes \<Rightarrow> bytes" where
  "hash_entry metatag filedata = put_u32be metatag (replicate 4 0) @ sha1_of filedata"

partial_function (option) collect_hashes ::
    "chd_file \<Rightarrow> error_condition option \<Rightarrow> metadata_entry \<Rightarrow> bytes list \<Rightarrow> (error_condition + bytes list) option" where
  "collect_hashes c err e hasharray =
     (case err of
        Some x \<Rightarrow> Some (if x = Chd_Error METADATA_NOT_FOUND then Inr hasharray else Inl x)
      | None \<Rightarrow>
          if me_flags e AND CHD_MDFLAGS_CHECKSUM = 0 then
            Option.bind (metadata_find c CHDMETATAG_WILDCARD 0 e True) (\<lambda>(err', e'). collect_hashes c err' e' hasharray)
          else case file_read c (w64 (me_offset e + METADATA_HEADER_SIZE)) (replicate (me_length e) 0) (me_length e) of
                 (Some x, _) \<Rightarrow> Some (Inl x)
               | (None, filedata) \<Rightarrow>
                   Option.bind (metadata_find c CHDMETATAG_WILDCARD 0 e True)
                     (\<lambda>(err', e'). collect_hashes c err' e' (hasharray @ [hash_entry (me_metatag e) filedata])))"

definition compute_overall_sha1 :: "chd_file \<Rightarrow> bytes \<Rightarrow> (error_condition + bytes) option" where
  "compute_overall_sha1 c rawsha1 =
     (if m_version c < 4 then Some (Inr rawsha1)
      else Option.bind (metadata_find c CHDMETATAG_WILDCARD 0 no_entry False) (\<lambda>(err, e).
           Option.bind (collect_hashes c err e []) (\<lambda>r. Some (
             case r of
               Inl x \<Rightarrow> Inl x
             | Inr hasharray \<Rightarrow>
                 let sorted = (if hasharray \<noteq> [] then sort_hashes hasharray else []);
                     overall = sha1_append rawsha1 (sha1_reset (replicate 16 0));
                     overall' = (if hasharray \<noteq> [] then sha1_append (concat sorted) overall else overall) in
                 Inr (sha1_finish overall')))))"

definition metadata_update_hash :: "chd_file \<Rightarrow> (error_condition option \<times> chd_file) option" where
  "metadata_update_hash c =
     (if m_version c < 4 \<or> \<not> compressed c then Some (None, c)
      else case compute_overall_sha1 c (raw_sha1 c) of
             None \<Rightarrow> None
           | Some (Inl x) \<Rightarrow> Some (Some x, c)
           | Some (Inr fullsha1) \<Rightarrow> Some (file_write c (m_sha1_offset c) (be_write_sha1 fullsha1 (replicate 20 0))))"

definition set_raw_sha1 :: "bytes \<Rightarrow> chd_file \<Rightarrow> (error_condition option \<times> chd_file) res" where
  "set_raw_sha1 rawdata c =
     (let offset = (if m_rawsha1_offset c \<noteq> 0 then m_rawsha1_offset c else m_sha1_offset c) in
      if offset = 0 then Inl Assert_Failed
      else case file_write c offset (be_write_sha1 rawdata (replicate 20 0)) of
             (Some err, c1) \<Rightarrow> Inr (Some err, c1)
           | (None, c1) \<Rightarrow>
               if m_rawsha1_offset c1 \<noteq> 0 then (case metadata_update_hash c1 of None \<Rightarrow> Inl Infinite_Loop | Some r \<Rightarrow> Inr r)
               else Inr (None, c1))"

subsection \<open>Writing\<close>

definition metadata_set_previous_next :: "nat \<Rightarrow> nat \<Rightarrow> chd_file \<Rightarrow> error_condition option \<times> chd_file" where
  "metadata_set_previous_next prevoffset nextoffset c =
     (let rawbuf = put_u64be (of_nat nextoffset) (replicate 8 0) in
      if prevoffset = 0 then file_write (c\<lparr>m_metaoffset := nextoffset\<rparr>) (m_metaoffset_offset c) rawbuf
      else file_write c (w64 (prevoffset + 8)) rawbuf)"

text \<open>The part of \<open>write_metadata\<close> that appends a new entry behind \<open>prev\<close>, and the final hash update.\<close>

definition append_metadata :: "chd_file \<Rightarrow> u32 \<Rightarrow> bytes \<Rightarrow> u8 \<Rightarrow> nat \<Rightarrow> error_condition option \<times> chd_file" where
  "append_metadata c metatag input flags prev =
     (case file_append c (build_meta_header metatag flags (length input)) 0 of
        (Inl err, c1) \<Rightarrow> (Some err, c1)
      | (Inr offset, c1) \<Rightarrow>
          (case file_append c1 input 0 of
             (Inl err, c2) \<Rightarrow> (Some err, c2)
           | (Inr _, c2) \<Rightarrow> metadata_set_previous_next prev offset c2))"

definition overwrite_metadata :: "chd_file \<Rightarrow> metadata_entry \<Rightarrow> bytes \<Rightarrow> error_condition option \<times> chd_file" where
  "overwrite_metadata c e input =
     (case file_write c (w64 (me_offset e + METADATA_HEADER_SIZE)) input of
        (Some err, c1) \<Rightarrow> (Some err, c1)
      | (None, c1) \<Rightarrow>
          if length input \<noteq> me_length e then
            file_write c1 (w64 (me_offset e + 5)) (take 3 (put_u24be (of_nat (length input)) (replicate 3 0)))
          else (None, c1))"

definition write_metadata :: "chd_file \<Rightarrow> u32 \<Rightarrow> nat \<Rightarrow> bytes \<Rightarrow> u8 \<Rightarrow> (error_condition option \<times> chd_file) option" where
  "write_metadata c metatag metaindex input flags =
     (if length input < 1 \<or> length input \<ge> 16 * 1024 * 1024 then Some (Some (Std_Error Errc_invalid_argument), c)
      else case metadata_find c metatag (s32 metaindex) no_entry False of
             None \<Rightarrow> None
           | Some (err, e) \<Rightarrow>
               let stored =
                 (if err = None then
                    if length input \<le> me_length e then overwrite_metadata c e input
                    else case metadata_set_previous_next (me_prev e) (me_next e) c of
                           (Some x, c1) \<Rightarrow> (Some x, c1)
                         | (None, c1) \<Rightarrow> append_metadata c1 metatag input flags (me_prev e)
                  else if err = Some (Chd_Error METADATA_NOT_FOUND) then append_metadata c metatag input flags (me_prev e)
                  else (err, c)) in
               case stored of
                 (Some x, c1) \<Rightarrow> Some (Some x, c1)
               | (None, c1) \<Rightarrow> metadata_update_hash c1)"

definition delete_metadata :: "chd_file \<Rightarrow> u32 \<Rightarrow> nat \<Rightarrow> (error_condition option \<times> chd_file) option" where
  "delete_metadata c metatag metaindex =
     (case metadata_find c metatag (s32 metaindex) no_entry False of
        None \<Rightarrow> None
      | Some (Some err, _) \<Rightarrow> Some (Some err, c)
      | Some (None, e) \<Rightarrow> Some (metadata_set_previous_next (me_prev e) (me_next e) c))"

partial_function (option) clone_loop ::
    "chd_file \<Rightarrow> error_condition option \<Rightarrow> metadata_entry \<Rightarrow> chd_file \<Rightarrow> (error_condition option \<times> chd_file) option" where
  "clone_loop source err e c =
     (case err of
        Some x \<Rightarrow> Some (if x = Chd_Error METADATA_NOT_FOUND then None else Some x, c)
      | None \<Rightarrow>
          (case file_read source (w64 (me_offset e + METADATA_HEADER_SIZE)) (replicate (me_length e) 0) (me_length e) of
             (Some x, _) \<Rightarrow> Some (Some x, c)
           | (None, filedata) \<Rightarrow>
               Option.bind (write_metadata c (me_metatag e) (2 ^ 32 - 1) filedata (me_flags e)) (\<lambda>(err1, c1).
                 if err1 \<noteq> None then Some (err1, c1)
                 else Option.bind (metadata_find source CHDMETATAG_WILDCARD 0 e True)
                        (\<lambda>(err2, e2). clone_loop source err2 e2 c1))))"

definition clone_all_metadata :: "chd_file \<Rightarrow> chd_file \<Rightarrow> (error_condition option \<times> chd_file) option" where
  "clone_all_metadata c source =
     Option.bind (metadata_find source CHDMETATAG_WILDCARD 0 no_entry False) (\<lambda>(err, e). clone_loop source err e c)"

subsection \<open>What kind of CHD it is\<close>

definition check_tag :: "chd_file \<Rightarrow> u32 \<Rightarrow> error_condition option option" where
  "check_tag c tag = map_option fst (metadata_find c tag 0 no_entry False)"

definition check_next :: "chd_file \<Rightarrow> u32 \<Rightarrow> error_condition option option \<Rightarrow> error_condition option option" where
  "check_next c tag r =
     (case r of
        None \<Rightarrow> None
      | Some err \<Rightarrow> if err = Some (Chd_Error METADATA_NOT_FOUND) then check_tag c tag else Some err)"

definition check_is_hd :: "chd_file \<Rightarrow> error_condition option option" where
  "check_is_hd c = check_tag c HARD_DISK_METADATA_TAG"

definition check_is_cd :: "chd_file \<Rightarrow> error_condition option option" where
  "check_is_cd c =
     check_next c CDROM_TRACK_METADATA2_TAG (check_next c CDROM_TRACK_METADATA_TAG (check_tag c CDROM_OLD_METADATA_TAG))"

definition check_is_gd :: "chd_file \<Rightarrow> error_condition option option" where
  "check_is_gd c = check_next c GDROM_TRACK_METADATA_TAG (check_tag c GDROM_OLD_METADATA_TAG)"

definition check_is_dvd :: "chd_file \<Rightarrow> error_condition option option" where
  "check_is_dvd c = check_tag c DVD_METADATA_TAG"

definition check_is_av :: "chd_file \<Rightarrow> error_condition option option" where
  "check_is_av c = check_tag c AV_METADATA_TAG"

end
