(* ===== verification/Chd_Meta_Laws.thy ===== *)
theory Chd_Meta_Laws
  imports Chd_Meta Chd_Store "HOL-Library.List_Lexorder" "HOL-Library.Multiset"
begin

text \<open>
  The metadata of a CHD as a list of items. \<open>metas H c es\<close> says that the linked list in the file of \<open>c\<close>
  holds the entries \<open>es\<close>, each a position, a tag, flags and contents, in the order of their positions and
  behind the header of \<open>H\<close> bytes; the operations are shown to act on that list.
\<close>

subsection \<open>The list in the file\<close>

type_synonym meta_item = "nat \<times> u32 \<times> u8 \<times> bytes"

definition meta_header :: "u32 \<Rightarrow> u8 \<Rightarrow> nat \<Rightarrow> nat \<Rightarrow> bytes" where
  "meta_header tag flags len next = at_off 8 (put_u64be (of_nat next)) (build_meta_header tag flags len)"

definition meta_at :: "bytes \<Rightarrow> meta_item \<Rightarrow> nat \<Rightarrow> bool" where
  "meta_at d x next \<longleftrightarrow> (case x of (p, tag, flags, content) \<Rightarrow>
     0 < p \<and> p + 16 + length content \<le> length d \<and> length content < 2 ^ 24 \<and>
     slice p 16 d = meta_header tag flags (length content) next \<and> slice (p + 16) (length content) d = content)"

definition head_off :: "meta_item list \<Rightarrow> nat" where
  "head_off es = (case es of [] \<Rightarrow> 0 | x # _ \<Rightarrow> fst x)"

fun meta_list :: "bytes \<Rightarrow> meta_item list \<Rightarrow> bool" where
  "meta_list d [] = True"
| "meta_list d (x # es) = (meta_at d x (head_off es) \<and> meta_list d es)"

definition item_end :: "meta_item \<Rightarrow> nat" where
  "item_end x = (case x of (p, _, _, content) \<Rightarrow> p + 16 + length content)"

fun laid_out :: "nat \<Rightarrow> meta_item list \<Rightarrow> bool" where
  "laid_out lo [] = True"
| "laid_out lo (x # es) = (lo \<le> fst x \<and> laid_out (item_end x) es)"

definition metas :: "nat \<Rightarrow> chd_file \<Rightarrow> meta_item list \<Rightarrow> bool" where
  "metas H c es \<longleftrightarrow>
     healthy c \<and> length (file_data c) < 2 ^ 64 \<and> 0 < H \<and> H \<le> length (file_data c) \<and>
     m_metaoffset c = head_off es \<and> meta_list (file_data c) es \<and> laid_out H es \<and>
     m_metaoffset_offset c + 8 \<le> H \<and> m_sha1_offset c + 20 \<le> H \<and>
     (m_metaoffset_offset c + 8 \<le> m_sha1_offset c \<or> m_sha1_offset c + 20 \<le> m_metaoffset_offset c) \<and>
     slice (m_metaoffset_offset c) 8 (file_data c) = put_u64be (of_nat (head_off es)) (replicate 8 0)"

lemma length_meta_header [simp]: "length (meta_header tag flags len next) = 16"
  by (simp add: meta_header_def build_meta_header_def METADATA_HEADER_SIZE_def f64be.length_at f24be.length_at length_put)

lemma build_as_header: "build_meta_header tag flags len = meta_header tag flags len 0"
proof -
  let ?b = "at_off 5 (put_u24be (of_nat len AND 0x00ffffff)) ((put_u32be tag (replicate METADATA_HEADER_SIZE 0))[4 := flags])"
  have "8 + 8 \<le> length ?b" by (simp add: METADATA_HEADER_SIZE_def f24be.length_at length_put)
  then have "at_off 8 (put_u64be 0) (at_off 8 (put_u64be 0) ?b) = at_off 8 (put_u64be 0) ?b"
    using f64be.at_overwrite [of 8 ?b 0] f64be.at_overwrite [of 8 "at_off 8 (put_u64be 0) ?b" 0]
    by (simp add: overwrite_def f64be.length_at length_put min_def)
  then show ?thesis by (simp add: meta_header_def build_meta_header_def)
qed

text \<open>The fields of a header.\<close>

lemma parse_header:
  assumes "len < 2 ^ 24" "next < 2 ^ 64"
  shows "parse_meta_header (meta_header tag flags len next) e =
    e\<lparr>me_metatag := tag, me_flags := flags, me_length := len, me_next := next\<rparr>"
proof -
  let ?a = "(put_u32be tag (replicate 16 0))[4 := flags]"
  let ?b = "at_off 5 (put_u24be (of_nat len AND 0x00ffffff)) ?a"
  let ?c = "at_off 8 (put_u64be 0) ?b"
  let ?d = "at_off 8 (put_u64be (of_nat next)) ?c"
  have len': "length ?a = 16" "length ?b = 16" "length ?c = 16" "length ?d = 16"
    by (simp_all add: f24be.length_at f64be.length_at length_put)
  have d: "meta_header tag flags len next = ?d"
    by (simp add: meta_header_def build_meta_header_def METADATA_HEADER_SIZE_def)
  have nx: "get_u64be (drop 8 ?d) = of_nat next"
    using f64be.get_at_same [of 8 ?c "of_nat next"] len' by (simp add: take_bit_word_all)
  have "get_u24be (drop 5 ?d) = get_u24be (drop 5 ?b)"
    using f24be.get_at_before [of 5 8 ?c "put_u64be (of_nat next)"] f24be.get_at_before [of 5 8 ?b "put_u64be 0"] len' by simp
  also have "\<dots> = take_bit 24 (of_nat len AND 0x00ffffff)" using f24be.get_at_same [of 5 ?a] len' by simp
  also have "\<dots> = of_nat len"
  proof -
    have m: "(0x00ffffff :: u32) = mask 24" by (simp add: mask_eq_exp_minus_1)
    have "take_bit 24 (of_nat len AND 0x00ffffff :: u32) = take_bit 24 (of_nat len)"
      unfolding m by (simp only: take_bit_eq_mask [symmetric] take_bit_take_bit min.idem)
    also have "\<dots> = of_nat len" using assms(1) by (simp only: take_bit_of_nat take_bit_nat_eq_self)
    finally show ?thesis .
  qed
  finally have ln: "get_u24be (drop 5 ?d) = of_nat len" .
  have "get_u32be (drop 0 ?d) = get_u32be (drop 0 ?a)"
    using f32be.get_at_before [of 0 8 ?c "put_u64be (of_nat next)"] f32be.get_at_before [of 0 8 ?b "put_u64be 0"]
      f32be.get_at_before [of 0 5 ?a "put_u24be (of_nat len AND 0x00ffffff)"] len' by simp
  also have "\<dots> = get_u32be (put_u32be tag (replicate 16 0))"
    by (simp, rule f32be.get_local) (simp_all add: length_put)
  finally have tg: "get_u32be ?d = tag" by (simp add: get_put_u32be)
  have "?d ! 4 = ?a ! 4" using len' by (simp add: nth_at_off_before)
  then have fl: "?d ! 4 = flags" by (simp add: length_put)
  show ?thesis
    unfolding d parse_meta_header_def nx ln tg fl
    using assms by (simp add: unat_of_nat_small)
qed

text \<open>Setting the link of a header.\<close>

lemma relink_header:
  "overwrite 8 (put_u64be (of_nat next') (replicate 8 0)) (meta_header tag flags len next) = meta_header tag flags len next'"
proof -
  let ?b = "build_meta_header tag flags len"
  have "8 + 8 \<le> length ?b" using length_meta_header [of tag flags len 0] by (simp add: build_as_header)
  then show ?thesis
    using f64be.at_overwrite [of 8 ?b "of_nat next"] f64be.at_overwrite [of 8 ?b "of_nat next'"]
    by (simp add: meta_header_def overwrite_def f64be.length_at length_put min_def)
qed

subsection \<open>Searching\<close>

definition tag_matches :: "u32 \<Rightarrow> meta_item \<Rightarrow> bool" where
  "tag_matches tag x \<longleftrightarrow> tag = CHDMETATAG_WILDCARD \<or> fst (snd x) = tag"

text \<open>
  Where the search for match number \<open>i\<close> stops: the position of the entry before (or \<open>prev\<close>), and the rest
  of the list from the match on.
\<close>

fun seek :: "u32 \<Rightarrow> int \<Rightarrow> nat \<Rightarrow> meta_item list \<Rightarrow> nat \<times> meta_item list" where
  "seek tag i prev [] = (prev, [])"
| "seek tag i prev (x # es) =
     (if tag_matches tag x then if i = 0 then (prev, x # es) else seek tag (i - 1) (fst x) es
      else seek tag i (fst x) es)"

definition entry_of :: "meta_item \<Rightarrow> nat \<Rightarrow> nat \<Rightarrow> metadata_entry" where
  "entry_of x prev next = (case x of (p, tag, flags, content) \<Rightarrow>
     \<lparr>me_offset = p, me_next = next, me_prev = prev, me_length = length content, me_metatag = tag, me_flags = flags\<rparr>)"

definition found :: "nat \<times> meta_item list \<Rightarrow> error_condition option \<times> metadata_entry \<Rightarrow> bool" where
  "found s r \<longleftrightarrow> (case s of
     (prev, []) \<Rightarrow> fst r = Some (Chd_Error METADATA_NOT_FOUND) \<and> me_prev (snd r) = prev
   | (prev, x # es) \<Rightarrow> r = (None, entry_of x prev (head_off es)))"

lemma head_off_bound: "meta_list d es \<Longrightarrow> length d < 2 ^ 64 \<Longrightarrow> head_off es < 2 ^ 64"
  by (cases es) (auto simp: head_off_def meta_at_def)

lemma read_header:
  assumes "healthy c" "meta_at (file_data c) x next"
  shows "file_read c (fst x) (replicate METADATA_HEADER_SIZE 0) METADATA_HEADER_SIZE =
    (None, meta_header (fst (snd x)) (fst (snd (snd x))) (length (snd (snd (snd x)))) next)"
  using assms by (cases x) (auto simp: meta_at_def file_read_healthy METADATA_HEADER_SIZE_def overwrite_def)

lemma metadata_loop_list:
  assumes "healthy c" "length (file_data c) < 2 ^ 64"
  shows "meta_list (file_data c) es \<Longrightarrow> me_offset e = head_off es \<Longrightarrow>
    \<exists>r. metadata_loop c tag i e = Some r \<and> found (seek tag i (me_prev e) es) r"
proof (induction es arbitrary: i e)
  case Nil
  then show ?case by (subst metadata_loop.simps) (simp add: head_off_def found_def)
next
  case (Cons x es)
  obtain p t f content where x: "x = (p, t, f, content)" by (cases x)
  have at: "meta_at (file_data c) x (head_off es)" and rest: "meta_list (file_data c) es" using Cons.prems by simp_all
  have p: "me_offset e = p" "0 < p" "length content < 2 ^ 24" using Cons.prems at x by (simp_all add: head_off_def meta_at_def)
  define e1 where "e1 = e\<lparr>me_metatag := t, me_flags := f, me_length := length content, me_next := head_off es\<rparr>"
  have parse: "parse_meta_header (meta_header t f (length content) (head_off es)) e = e1"
    unfolding e1_def using parse_header [OF p(3) head_off_bound [OF rest assms(2)]] .
  have step: "metadata_loop c tag i e = (if tag_matches tag x \<and> i = 0 then Some (None, e1)
      else metadata_loop c tag (if tag_matches tag x then i - 1 else i) (e1\<lparr>me_prev := p, me_offset := head_off es\<rparr>))"
    using read_header [OF assms(1) at] p x parse
    by (subst metadata_loop.simps) (simp add: tag_matches_def Let_def, simp add: e1_def)
  show ?case
  proof (cases "tag_matches tag x \<and> i = 0")
    case True
    then show ?thesis using step p x by (simp add: found_def entry_of_def e1_def)
  next
    case False
    then show ?thesis
      using step Cons.IH [OF rest, of "e1\<lparr>me_prev := p, me_offset := head_off es\<rparr>" "if tag_matches tag x then i - 1 else i"] x
      by (auto split: if_splits)
  qed
qed

lemma metadata_find_first:
  assumes "metas H c es"
  shows "\<exists>r. metadata_find c tag i e False = Some r \<and> found (seek tag i 0 es) r"
  using metadata_loop_list [of c es "e\<lparr>me_offset := m_metaoffset c, me_prev := 0\<rparr>" tag i] assms
  by (simp add: metas_def metadata_find_def)

lemma metadata_find_resume:
  assumes "metas H c es" "es = ys @ x # zs"
  shows "\<exists>r. metadata_find c tag i (entry_of x prev (head_off zs)) True = Some r \<and> found (seek tag i (fst x) zs) r"
proof -
  have "meta_list (file_data c) zs"
  proof -
    have "meta_list (file_data c) (as @ bs) \<Longrightarrow> meta_list (file_data c) bs" for as bs by (induction as) auto
    from this [of "ys @ [x]" zs] show ?thesis using assms by (simp add: metas_def)
  qed
  then show ?thesis
    using metadata_loop_list [of c zs "entry_of x prev (head_off zs)\<lparr>me_prev := fst x, me_offset := head_off zs\<rparr>" tag i] assms(1)
    by (cases x) (simp add: metas_def metadata_find_def entry_of_def)
qed

subsection \<open>Changing the file under the list\<close>

lemma meta_at_cong:
  assumes "slice (fst x) (item_end x - fst x) d' = slice (fst x) (item_end x - fst x) d" "length d \<le> length d'"
  shows "meta_at d x next \<Longrightarrow> meta_at d' x next"
proof -
  obtain p t f content where x: "x = (p, t, f, content)" by (cases x)
  assume at: "meta_at d x next"
  have e: "slice p (16 + length content) d' = slice p (16 + length content) d"
    using assms x by (simp add: item_end_def)
  have "slice p 16 d' = slice p 16 d" "slice (p + 16) (length content) d' = slice (p + 16) (length content) d"
    using slice_slice [of 0 16 "16 + length content" p] slice_slice [of 16 "length content" "16 + length content" p] e
    by (metis add.right_neutral add_0 le_add1, metis order_refl)
  then show ?thesis using at x assms(2) by (simp add: meta_at_def)
qed

lemma laid_out_bound: "laid_out lo es \<Longrightarrow> x \<in> set es \<Longrightarrow> lo \<le> fst x"
proof (induction es arbitrary: lo)
  case (Cons y es)
  have "fst y \<le> item_end y" by (cases y) (simp add: item_end_def)
  then show ?case using Cons by fastforce
qed simp

lemma meta_list_cong:
  assumes "\<And>x. x \<in> set es \<Longrightarrow> slice (fst x) (item_end x - fst x) d' = slice (fst x) (item_end x - fst x) d"
    "length d \<le> length d'" "meta_list d es"
  shows "meta_list d' es"
  using assms by (induction es) (auto intro: meta_at_cong)

lemma meta_list_end: "meta_list d es \<Longrightarrow> x \<in> set es \<Longrightarrow> item_end x \<le> length d"
  by (induction es) (auto simp: meta_at_def item_end_def)

text \<open>A change below every entry, or an extension of the file, leaves the list as it is.\<close>

lemma meta_list_below:
  assumes "meta_list d es" "laid_out H es" "off + length src \<le> H" "H \<le> length d"
  shows "meta_list (pwrite off src d) es"
proof (rule meta_list_cong [OF _ _ assms(1)])
  fix x assume "x \<in> set es"
  then have "off + length src \<le> fst x" using laid_out_bound [OF assms(2)] assms(3) by fastforce
  then show "slice (fst x) (item_end x - fst x) (pwrite off src d) = slice (fst x) (item_end x - fst x) d"
    using assms(3,4) by (intro slice_pwrite_after) auto
qed (cases "src = []"; simp add: pwrite_def)

lemma meta_list_append: "meta_list d es \<Longrightarrow> meta_list (d @ e) es"
proof (rule meta_list_cong [of es])
  fix x assume "meta_list d es" "x \<in> set es"
  then have "item_end x \<le> length d" by (rule meta_list_end)
  then show "slice (fst x) (item_end x - fst x) (d @ e) = slice (fst x) (item_end x - fst x) d"
    by (cases x) (simp add: slice_append_left item_end_def)
qed simp_all

lemma laid_out_before: "laid_out lo (ys @ x # zs) \<Longrightarrow> y \<in> set ys \<Longrightarrow> item_end y \<le> fst x"
proof (induction ys arbitrary: lo)
  case (Cons a ys)
  then show ?case using laid_out_bound [of "item_end a" "ys @ x # zs" x] by fastforce
qed simp

text \<open>Replacing an entry and what follows it, with the entries before it untouched.\<close>

lemma meta_list_replace:
  assumes "meta_list d (ys @ x # zs)" "meta_list d' (x' # zs')" "fst x' = fst x" "length d \<le> length d'"
    and "\<And>y. y \<in> set ys \<Longrightarrow> slice (fst y) (item_end y - fst y) d' = slice (fst y) (item_end y - fst y) d"
  shows "meta_list d' (ys @ x' # zs')"
  using assms
proof (induction ys)
  case (Cons a ys)
  have "head_off (ys @ x # zs) = head_off (ys @ x' # zs')" using assms(3) by (cases ys) (simp_all add: head_off_def)
  then show ?case using Cons meta_at_cong [of a d' d "head_off (ys @ x # zs)"] by simp
qed simp

text \<open>Relinking the last entry of a prefix: the entries before it keep their links.\<close>

lemma meta_list_relink:
  assumes "meta_list d (ys @ [x] @ zs)" "laid_out H (ys @ [x] @ zs)" "laid_out (item_end x) zs'" "meta_list d zs'"
  shows "meta_list (pwrite (fst x + 8) (put_u64be (of_nat (head_off zs')) (replicate 8 0)) d) (ys @ [x] @ zs')"
proof -
  obtain p t f content where x: "x = (p, t, f, content)" by (cases x)
  let ?ys = "put_u64be (of_nat (head_off zs')) (replicate 8 0)" and ?d = "pwrite (fst x + 8) (put_u64be (of_nat (head_off zs')) (replicate 8 0)) d"
  have app: "meta_list d (as @ y # bs) \<Longrightarrow> meta_at d y (head_off bs)" for as y bs by (induction as) auto
  have at: "meta_at d x (head_off zs)" using app [of ys x zs] assms(1) by simp
  have inside: "p + 16 + length content \<le> length d" using at x by (simp add: meta_at_def)
  have d: "?d = overwrite (p + 8) ?ys d" using inside x by (simp add: pwrite_inside length_put)
  have len: "length ?d = length d" using inside by (simp add: d length_put)
  have x': "meta_at ?d x next'" if "next' = head_off zs'" for next'
  proof -
    have "slice p 16 ?d = overwrite 8 ?ys (slice p 16 d)"
      unfolding d using slice_overwrite_inside [of 8 ?ys 16 p d] inside by (simp add: length_put)
    moreover have "slice (p + 16) (length content) ?d = slice (p + 16) (length content) d"
      unfolding d using inside by (intro slice_overwrite_after) (simp_all add: length_put)
    ultimately show ?thesis using at x len that by (simp add: meta_at_def relink_header)
  qed
  have after: "meta_list ?d zs'"
  proof (rule meta_list_cong [OF _ _ assms(4)])
    fix z assume "z \<in> set zs'"
    then have "p + 16 \<le> fst z" using laid_out_bound [OF assms(3)] x by (fastforce simp: item_end_def)
    then show "slice (fst z) (item_end z - fst z) ?d = slice (fst z) (item_end z - fst z) d"
      unfolding d using inside by (intro slice_overwrite_after) (simp_all add: length_put)
  qed (simp add: len)
  show ?thesis
  proof (simp, rule meta_list_replace [of d ys x zs])
    show "meta_list ?d (x # zs')" using x' after by simp
    fix y assume "y \<in> set ys"
    then have "item_end y \<le> p" using laid_out_before [of H ys x zs] assms(2) x by simp
    then show "slice (fst y) (item_end y - fst y) ?d = slice (fst y) (item_end y - fst y) d"
      unfolding d using inside by (intro slice_overwrite_before) (auto simp: length_put item_end_def split: prod.splits)
  qed (use assms(1) len in simp_all)
qed

subsection \<open>Links\<close>

definition last_off :: "meta_item list \<Rightarrow> nat" where
  "last_off es = (if es = [] then 0 else fst (last es))"

lemma seek_split: "seek tag i prev es = (q, rest) \<Longrightarrow>
  \<exists>ys. es = ys @ rest \<and> q = (if ys = [] then prev else fst (last ys))"
proof (induction es arbitrary: i prev)
  case (Cons x es)
  show ?case
  proof (cases "tag_matches tag x \<and> i = 0")
    case False
    then obtain j where "seek tag j (fst x) es = (q, rest)" using Cons.prems by (auto split: if_splits)
    from Cons.IH [OF this] obtain ys where "es = ys @ rest" "q = (if ys = [] then fst x else fst (last ys))" by blast
    then show ?thesis by (intro exI [of _ "x # ys"]) auto
  qed (use Cons.prems in auto)
qed auto

lemma laid_out_append: "laid_out lo (ys @ zs) \<longleftrightarrow> laid_out lo ys \<and> laid_out (if ys = [] then lo else item_end (last ys)) zs"
  by (induction ys arbitrary: lo) auto

lemma meta_list_suffix: "meta_list d (ys @ zs) \<Longrightarrow> meta_list d zs"
  by (induction ys) auto

lemma set_link:
  assumes m: "metas H c (ys @ zs)" and l: "laid_out H (ys @ zs')" "meta_list (file_data c) zs'"
  shows "\<exists>c'. metadata_set_previous_next (last_off ys) (head_off zs') c = (None, c') \<and> metas H c' (ys @ zs') \<and>
    length (file_data c') = length (file_data c) \<and> m_version c' = m_version c \<and> compressed c' = compressed c"
proof -
  let ?d = "file_data c" and ?raw = "put_u64be (of_nat (head_off zs')) (replicate 8 0)"
  have hc: "healthy c" "length ?d < 2 ^ 64" "H \<le> length ?d" "0 < H" and fields: "m_metaoffset_offset c + 8 \<le> H" "m_sha1_offset c + 20 \<le> H"
    using m by (simp_all add: metas_def)
  show ?thesis
  proof (cases "ys = []")
    case True
    define c' where "c' = set_data (pwrite (m_metaoffset_offset c) ?raw ?d) (c\<lparr>m_metaoffset := head_off zs'\<rparr>)"
    have hc1: "healthy (c\<lparr>m_metaoffset := head_off zs'\<rparr>)" "file_data (c\<lparr>m_metaoffset := head_off zs'\<rparr>) = ?d"
      using hc(1) by (simp_all add: healthy_def file_data_def)
    have fd: "file_data c' = overwrite (m_metaoffset_offset c) ?raw ?d"
      unfolding c'_def using hc1 fields hc(3) by (simp add: pwrite_inside length_put)
    have len: "length (file_data c') = length ?d" using fields hc(3) by (simp add: fd length_put)
    have ml: "meta_list (file_data c') zs'"
      using meta_list_below [OF l(2), of H "m_metaoffset_offset c" ?raw] l(1) True fields hc(3) hc1
      by (simp add: c'_def length_put)
    have "slice (m_metaoffset_offset c) 8 (file_data c') = ?raw"
      unfolding fd using fields hc(3) by (intro slice_overwrite_same) (simp_all add: length_put)
    then have "metas H c' zs'"
      using m ml len hc hc1 l(1) True unfolding metas_def by (simp add: c'_def) (simp add: set_data_def)
    then show ?thesis using True hc1 len
      by (simp add: metadata_set_previous_next_def last_off_def file_write_healthy c'_def [symmetric])
         (simp add: c'_def compressed_def set_data_def)
  next
    case False
    define x where "x = last ys"
    define ys0 where "ys0 = butlast ys"
    have ys: "ys = ys0 @ [x]" using False by (simp add: ys0_def x_def)
    define c' where "c' = set_data (pwrite (fst x + 8) ?raw ?d) c"
    have "x \<in> set (ys @ zs)" using ys by simp
    then have bound: "H \<le> fst x" "item_end x \<le> length ?d"
      using laid_out_bound [of H "ys @ zs" x] meta_list_end [of ?d "ys @ zs" x] m by (simp_all add: metas_def)
    then have in16: "fst x + 16 \<le> length ?d" by (cases x) (simp add: item_end_def)
    have fd: "file_data c' = overwrite (fst x + 8) ?raw ?d"
      unfolding c'_def using hc in16 by (simp add: pwrite_inside length_put)
    have len: "length (file_data c') = length ?d" using in16 by (simp add: fd length_put)
    have "laid_out (item_end x) zs'" using l(1) by (simp add: ys laid_out_append)
    then have ml: "meta_list (file_data c') (ys @ zs')"
      using meta_list_relink [of ?d ys0 x zs H zs'] m l(2) hc by (simp add: c'_def ys metas_def)
    have "slice (m_metaoffset_offset c) 8 (file_data c') = slice (m_metaoffset_offset c) 8 ?d"
      unfolding fd using fields bound in16 by (intro slice_overwrite_before) (simp_all add: length_put)
    moreover have "head_off (ys @ zs') = head_off (ys @ zs)" using ys by (cases ys0) (simp_all add: head_off_def)
    ultimately have "metas H c' (ys @ zs')"
      using m ml len hc l(1) unfolding metas_def by (simp add: c'_def) (simp add: set_data_def)
    moreover have "w64 (fst x + 8) = fst x + 8" using in16 hc(2) by (intro w64_small) linarith
    moreover have "fst x \<noteq> 0" using bound(1) hc(4) by linarith
    ultimately show ?thesis using False hc len
      by (simp add: metadata_set_previous_next_def last_off_def x_def [symmetric] file_write_healthy c'_def [symmetric])
         (simp add: c'_def)
  qed
qed

subsection \<open>The digest of the list\<close>

definition checked_hashes :: "meta_item list \<Rightarrow> bytes list" where
  "checked_hashes es = map (\<lambda>(p, tag, flags, content). hash_entry tag content)
     (filter (\<lambda>(p, tag, flags, content). flags AND CHD_MDFLAGS_CHECKSUM \<noteq> 0) es)"

lemma read_content:
  assumes "metas H c (ys @ (p, t, f, content) # zs)" "length buf = length content"
  shows "file_read c (w64 (p + METADATA_HEADER_SIZE)) buf (length content) = (None, content)"
proof -
  have at: "meta_at (file_data c) (p, t, f, content) (head_off zs)"
    using assms(1) meta_list_suffix [of "file_data c" ys "(p, t, f, content) # zs"] by (simp add: metas_def)
  then have "w64 (p + 16) = p + 16" using assms by (intro w64_small) (auto simp: meta_at_def metas_def)
  then show ?thesis using at assms
    by (auto simp: meta_at_def metas_def file_read_healthy METADATA_HEADER_SIZE_def overwrite_def)
qed

lemma collect_found:
  "metas H c (ys @ x # zs) \<Longrightarrow>
    collect_hashes c None (entry_of x prev (head_off zs)) hs = Some (Inr (hs @ checked_hashes (x # zs)))"
proof (induction zs arbitrary: ys x prev hs)
  case Nil
  obtain p t f content where x: "x = (p, t, f, content)" by (cases x)
  obtain e where nx: "metadata_find c CHDMETATAG_WILDCARD 0 (entry_of x prev 0) True =
      Some (Some (Chd_Error METADATA_NOT_FOUND), e)"
    using metadata_find_resume [OF Nil refl, of CHDMETATAG_WILDCARD 0 prev] by (auto simp: found_def head_off_def)
  have stop: "collect_hashes c (Some (Chd_Error METADATA_NOT_FOUND)) e h = Some (Inr h)" for h
    by (subst collect_hashes.simps) simp
  have rd: "file_read c (w64 (p + METADATA_HEADER_SIZE)) (replicate (length content) 0) (length content) = (None, content)"
    using read_content [of H c ys p t f content "[]"] Nil x by simp
  show ?case
    using nx stop rd
    by (subst collect_hashes.simps) (simp add: x entry_of_def checked_hashes_def head_off_def)
next
  case (Cons z zs)
  obtain p t f content where x: "x = (p, t, f, content)" by (cases x)
  have m: "metas H c ((ys @ [x]) @ z # zs)" using Cons.prems by simp
  have nx: "metadata_find c CHDMETATAG_WILDCARD 0 (entry_of x prev (head_off (z # zs))) True =
      Some (None, entry_of z (fst x) (head_off zs))"
    using metadata_find_resume [OF Cons.prems refl, of CHDMETATAG_WILDCARD 0 prev] by (simp add: found_def tag_matches_def)
  have rd: "file_read c (w64 (p + METADATA_HEADER_SIZE)) (replicate (length content) 0) (length content) = (None, content)"
    using read_content [of H c ys p t f content "z # zs"] Cons.prems x by simp
  show ?case
    using nx rd Cons.IH [OF m]
    by (subst collect_hashes.simps) (simp add: x entry_of_def checked_hashes_def)
qed

lemma two_appends: "sha1_finish (sha1_append b (sha1_append a (sha1_reset (replicate 16 0)))) = fips_sha1 (a @ b)"
  using sha1_finish_digest [OF sha1_appends_rep [OF sha1_reset_rep, of "replicate 16 0" "[a, b]"]] by simp

lemma one_append: "sha1_finish (sha1_append a (sha1_reset (replicate 16 0))) = fips_sha1 a"
  using sha1_finish_digest [OF sha1_appends_rep [OF sha1_reset_rep, of "replicate 16 0" "[a]"]] by simp

lemma overall_sha1_list:
  assumes "metas H c es" "4 \<le> m_version c"
  shows "compute_overall_sha1 c raw = Some (Inr (fips_sha1 (raw @ concat (sort_hashes (checked_hashes es)))))"
proof -
  have "\<exists>err e. metadata_find c CHDMETATAG_WILDCARD 0 no_entry False = Some (err, e) \<and>
      collect_hashes c err e [] = Some (Inr (checked_hashes es))"
  proof (cases es)
    case Nil
    then obtain e where "metadata_find c CHDMETATAG_WILDCARD 0 no_entry False = Some (Some (Chd_Error METADATA_NOT_FOUND), e)"
      using metadata_find_first [OF assms(1), of CHDMETATAG_WILDCARD 0 no_entry] by (auto simp: found_def)
    moreover have "collect_hashes c (Some (Chd_Error METADATA_NOT_FOUND)) e [] = Some (Inr [])"
      by (subst collect_hashes.simps) simp
    ultimately show ?thesis using Nil by (auto simp: checked_hashes_def)
  next
    case (Cons x zs)
    then have "metadata_find c CHDMETATAG_WILDCARD 0 no_entry False = Some (None, entry_of x 0 (head_off zs))"
      using metadata_find_first [OF assms(1), of CHDMETATAG_WILDCARD 0 no_entry] by (auto simp: found_def tag_matches_def)
    then show ?thesis using collect_found [of H c "[]" x zs 0 "[]"] assms(1) Cons by auto
  qed
  then show ?thesis using assms(2)
    by (cases "checked_hashes es = []")
       (auto simp: compute_overall_sha1_def Let_def one_append two_appends sort_hashes_def)
qed

text \<open>Sorting by \<open>memcmp\<close> is sorting in the lexicographic order, so it forgets the order of the entries.\<close>

lemma memcmp_le: "memcmp a b \<le> 0 \<longleftrightarrow> a \<le> b"
  by (induction a b rule: memcmp.induct) auto

lemma insert_hash_insort: "insert_hash x ys = insort x ys"
  by (induction ys) (simp_all add: metadata_hash_compare_def memcmp_le)

lemma sort_hashes_sort: "sort_hashes hs = sort hs"
  unfolding sort_hashes_def by (induction hs) (simp_all add: insert_hash_insort)

lemma sort_hashes_mset: "mset a = mset b \<Longrightarrow> sort_hashes a = sort_hashes b"
  by (simp add: sort_hashes_sort properties_for_sort)

subsection \<open>The operations\<close>

lemma metas_header_write:
  assumes m: "metas H c es" and w: "off + length src \<le> H"
    "off + length src \<le> m_metaoffset_offset c \<or> m_metaoffset_offset c + 8 \<le> off"
  shows "metas H (set_data (pwrite off src (file_data c)) c) es"
proof -
  have hc: "healthy c" "H \<le> length (file_data c)" "m_metaoffset_offset c + 8 \<le> H" using m by (simp_all add: metas_def)
  have p: "pwrite off src (file_data c) = overwrite off src (file_data c)" using w(1) hc by (intro pwrite_inside) simp
  have "slice (m_metaoffset_offset c) 8 (overwrite off src (file_data c)) = slice (m_metaoffset_offset c) 8 (file_data c)"
    using w hc by (auto intro: slice_overwrite_before slice_overwrite_after)
  then show ?thesis
    using m w hc meta_list_below [of "file_data c" es H off src] unfolding metas_def p [symmetric]
    by (simp add: p) (simp add: set_data_def p)
qed

lemma update_hash_list:
  assumes "metas H c es"
  shows "\<exists>c'. metadata_update_hash c = Some (None, c') \<and> metas H c' es"
proof (cases "m_version c < 4 \<or> \<not> compressed c")
  case False
  have hc: "healthy c" using assms by (simp add: metas_def)
  define sha where "sha = fips_sha1 (raw_sha1 c @ concat (sort_hashes (checked_hashes es)))"
  define src where "src = be_write_sha1 sha (replicate 20 0)"
  have "length src \<le> 20" by (simp add: src_def be_write_sha1_def overwrite_def)
  then have "metas H (set_data (pwrite (m_sha1_offset c) src (file_data c)) c) es"
    using assms by (intro metas_header_write) (auto simp: metas_def)
  then show ?thesis
    using False overall_sha1_list [OF assms, of "raw_sha1 c"] file_write_healthy [OF hc]
    by (simp add: metadata_update_hash_def sha_def src_def)
qed (use assms in \<open>simp add: metadata_update_hash_def\<close>)

lemma metas_extend:
  assumes m: "metas H c es" and len: "length (file_data c) + length e < 2 ^ 64"
  shows "metas H (set_data (file_data c @ e) c) es"
proof -
  have hc: "healthy c" "m_metaoffset_offset c + 8 \<le> length (file_data c)" using m by (auto simp: metas_def)
  then have "slice (m_metaoffset_offset c) 8 (file_data c @ e) = slice (m_metaoffset_offset c) 8 (file_data c)"
    by (simp add: slice_append_left)
  then show ?thesis
    using m len hc meta_list_append [of "file_data c" es e] unfolding metas_def by simp (simp add: set_data_def)
qed

lemma append_metadata_list:
  assumes m: "metas H c (ys @ zs)"
    and len: "length input < 2 ^ 24" "length (file_data c) + 16 + length input < 2 ^ 64"
  shows "\<exists>c'. append_metadata c tag input flags (last_off ys) = (None, c') \<and>
    metas H c' (ys @ [(length (file_data c), tag, flags, input)])"
proof -
  let ?d = "file_data c" and ?hdr = "build_meta_header tag flags (length input)"
  define new where "new = (length ?d, tag, flags, input)"
  have hc: "healthy c" "0 < H" "H \<le> length ?d" using m by (simp_all add: metas_def)
  have hdr: "?hdr = meta_header tag flags (length input) 0" by (rule build_as_header)
  define c2 where "c2 = set_data (?d @ ?hdr @ input) c"
  have a1: "file_append c ?hdr 0 = (Inr (length ?d), set_data (?d @ ?hdr) c)"
    using file_append_healthy [OF hc(1)] by (simp add: align_up_def)
  have a2: "file_append (set_data (?d @ ?hdr) c) input 0 = (Inr (length ?d + 16), c2)"
    using file_append_healthy [of "set_data (?d @ ?hdr) c"] hc(1) by (simp add: align_up_def c2_def hdr)
  have m2: "metas H c2 (ys @ zs)" unfolding c2_def using m len by (intro metas_extend) (simp_all add: hdr)
  have at: "meta_list (file_data c2) [new]"
  proof -
    have "0 < length ?d" using hc by linarith
    then show ?thesis
      using hc len by (simp add: new_def c2_def meta_at_def head_off_def hdr slice_append_right) (simp add: slice_def)
  qed
  have "y \<in> set ys \<Longrightarrow> item_end y \<le> length ?d" for y
    using meta_list_end [of ?d "ys @ zs" y] m by (simp add: metas_def)
  then have "laid_out H (ys @ [new])" using m hc by (auto simp: metas_def laid_out_append new_def)
  then show ?thesis
    using set_link [OF m2 _ at] a1 a2 by (auto simp: append_metadata_def new_def head_off_def)
qed

text \<open>Overwriting the contents of an entry in place, with the length of the header adjusted.\<close>

lemma shorten_header:
  "overwrite 5 (take 3 (put_u24be (of_nat len') (replicate 3 0))) (meta_header tag flags len next) = meta_header tag flags len' next"
  if "len' < 2 ^ 24"
proof -
  let ?a = "(put_u32be tag (replicate 16 0))[4 := flags]"
  have m: "(0x00ffffff :: u32) = mask 24" by (simp add: mask_eq_exp_minus_1)
  have e: "of_nat len' AND 0x00ffffff = (of_nat len' :: u32)"
    using that unfolding m by (simp only: take_bit_eq_mask [symmetric] take_bit_of_nat take_bit_nat_eq_self)
  let ?u = "\<lambda>v. take 3 (put_u24be v (replicate 3 0))" and ?v = "\<lambda>v. take 8 (put_u64be v (replicate 8 0))"
  have h: "meta_header tag flags l next = overwrite 8 (?v (of_nat next)) (overwrite 8 (?v 0) (overwrite 5 (?u (of_nat l AND 0x00ffffff)) ?a))" for l
    using f24be.at_overwrite [of 5 ?a "of_nat l AND 0x00ffffff"]
      f64be.at_overwrite [of 8 "at_off 5 (put_u24be (of_nat l AND 0x00ffffff)) ?a" 0]
      f64be.at_overwrite [of 8 "at_off 8 (put_u64be 0) (at_off 5 (put_u24be (of_nat l AND 0x00ffffff)) ?a)" "of_nat next"]
    by (simp add: meta_header_def build_meta_header_def METADATA_HEADER_SIZE_def f24be.length_at f64be.length_at length_put)
  show ?thesis unfolding h e by (simp add: overwrite_def length_put min_def)
qed

lemma overwrite_metadata_list:
  assumes m: "metas H c (ys @ (p, t, f, content) # zs)" and len: "length input \<le> length content"
  shows "\<exists>c'. overwrite_metadata c (entry_of (p, t, f, content) prev (head_off zs)) input = (None, c') \<and>
    metas H c' (ys @ (p, t, f, input) # zs)"
proof -
  let ?d = "file_data c" and ?x = "(p, t, f, content)" and ?x' = "(p, t, f, input)"
  let ?len = "take 3 (put_u24be (of_nat (length input)) (replicate 3 0))"
  have hc: "healthy c" "H \<le> length ?d" "length ?d < 2 ^ 64" using m by (simp_all add: metas_def)
  have at: "meta_at ?d ?x (head_off zs)" using m meta_list_suffix [of ?d ys "?x # zs"] by (simp add: metas_def)
  have inside: "p + 16 + length content \<le> length ?d" "length content < 2 ^ 24"
    "slice p 16 ?d = meta_header t f (length content) (head_off zs)" using at by (simp_all add: meta_at_def)
  define d1 where "d1 = overwrite (p + 16) input ?d"
  define d2 where "d2 = (if length input = length content then d1 else overwrite (p + 5) ?len d1)"
  have l: "length d1 = length ?d" "length d2 = length ?d" using inside len by (simp_all add: d1_def d2_def length_put)
  have w: "w64 (p + 16) = p + 16" "w64 (p + 5) = p + 5" using inside hc by (simp_all add: w64_def)
  have ow: "overwrite_metadata c (entry_of ?x prev (head_off zs)) input = (None, set_data d2 c)"
    using hc inside len l w
    by (auto simp: overwrite_metadata_def entry_of_def METADATA_HEADER_SIZE_def file_write_healthy pwrite_inside length_put d2_def d1_def)
  have hd16: "slice p 16 d2 = meta_header t f (length input) (head_off zs)"
  proof -
    have "slice p 16 d1 = slice p 16 ?d" unfolding d1_def using inside len by (intro slice_overwrite_before) auto
    moreover have "slice p 16 (overwrite (p + 5) ?len d1) = overwrite 5 ?len (slice p 16 d1)"
      using slice_overwrite_inside [of 5 ?len 16 p d1] inside l by (simp add: length_put)
    ultimately show ?thesis using inside len shorten_header [of "length input"] by (auto simp: d2_def)
  qed
  have body: "slice (p + 16) (length input) d2 = input"
  proof -
    have "slice (p + 16) (length input) d1 = input" unfolding d1_def using inside len by (intro slice_overwrite_same) auto
    moreover have "slice (p + 16) (length input) (overwrite (p + 5) ?len d1) = slice (p + 16) (length input) d1"
      using inside l by (intro slice_overwrite_after) (simp_all add: length_put)
    ultimately show ?thesis by (cases "length input = length content") (simp_all only: d2_def if_True if_False simp_thms)
  qed
  have at': "meta_at d2 ?x' (head_off zs)" using at len l hd16 body by (simp add: meta_at_def)
  have low: "i + k \<le> p \<Longrightarrow> slice i k d2 = slice i k ?d" for i k
    using inside len l by (auto simp: d2_def d1_def slice_overwrite_before length_put)
  have high: "p + 16 + length content \<le> i \<Longrightarrow> slice i k d2 = slice i k ?d" for i k
    using inside len l by (auto simp: d2_def d1_def slice_overwrite_after length_put)
  have lo: "laid_out H (ys @ ?x # zs)" and ml: "meta_list ?d (ys @ ?x # zs)" using m by (simp_all add: metas_def)
  have zs: "laid_out (item_end ?x) zs" using lo by (simp add: laid_out_append)
  have "item_end ?x' \<le> item_end ?x" using len by (simp add: item_end_def)
  moreover have mono: "laid_out b xs \<Longrightarrow> a \<le> b \<Longrightarrow> laid_out a xs" for a b xs by (cases xs) auto
  ultimately have lo': "laid_out H (ys @ ?x' # zs)" using lo by (auto simp: laid_out_append)
  have mz: "meta_list d2 zs"
  proof (rule meta_list_cong [of zs])
    show "meta_list ?d zs" using ml meta_list_suffix [of ?d "ys @ [?x]" zs] by simp
    fix z assume "z \<in> set zs"
    then have "p + 16 + length content \<le> fst z" using laid_out_bound [OF zs] by (simp add: item_end_def)
    then show "slice (fst z) (item_end z - fst z) d2 = slice (fst z) (item_end z - fst z) ?d" by (rule high)
  qed (simp add: l)
  have ml': "meta_list d2 (ys @ ?x' # zs)"
  proof (rule meta_list_replace [OF ml])
    show "meta_list d2 (?x' # zs)" using at' mz by simp
    fix y assume "y \<in> set ys"
    then have "item_end y \<le> p" using laid_out_before [OF lo] by simp
    then show "slice (fst y) (item_end y - fst y) d2 = slice (fst y) (item_end y - fst y) ?d"
      by (intro low) (auto simp: item_end_def split: prod.splits)
  qed (simp_all add: l)
  have "H \<le> p" using laid_out_bound [OF lo, of ?x] by simp
  then have "slice (m_metaoffset_offset c) 8 d2 = slice (m_metaoffset_offset c) 8 ?d" using m by (intro low) (simp add: metas_def)
  moreover have "head_off (ys @ ?x # zs) = head_off (ys @ ?x' # zs)" by (cases ys) (simp_all add: head_off_def)
  ultimately have "metas H (set_data d2 c) (ys @ ?x' # zs)"
    using m ml' lo' l hc unfolding metas_def by simp (simp add: set_data_def)
  then show ?thesis using ow by blast
qed

subsection \<open>The abstract operations\<close>

text \<open>
  What the operations do to the list of entries: \<open>pos\<close> is where a new entry is stored, the end of the
  file.
\<close>

definition before_match :: "u32 \<Rightarrow> int \<Rightarrow> meta_item list \<Rightarrow> meta_item list" where
  "before_match tag i es = take (length es - length (snd (seek tag i 0 es))) es"

definition meta_written :: "nat \<Rightarrow> u32 \<Rightarrow> int \<Rightarrow> bytes \<Rightarrow> u8 \<Rightarrow> meta_item list \<Rightarrow> meta_item list" where
  "meta_written pos tag i input flags es =
     (case snd (seek tag i 0 es) of
        [] \<Rightarrow> es @ [(pos, tag, flags, input)]
      | (p, t, f, content) # zs \<Rightarrow>
          if length input \<le> length content then before_match tag i es @ (p, t, f, input) # zs
          else before_match tag i es @ [(pos, tag, flags, input)])"

definition meta_deleted :: "u32 \<Rightarrow> int \<Rightarrow> meta_item list \<Rightarrow> meta_item list" where
  "meta_deleted tag i es = before_match tag i es @ tl (snd (seek tag i 0 es))"

definition meta_result :: "meta_item list \<Rightarrow> bytes \<Rightarrow> u32 \<Rightarrow> u8 \<Rightarrow> error_condition option \<times> bytes \<times> u32 \<times> u8" where
  "meta_result rest output tag flags =
     (case rest of
        [] \<Rightarrow> (Some (Chd_Error METADATA_NOT_FOUND), output, tag, flags)
      | (p, t, f, content) # _ \<Rightarrow> (None, content, t, f))"

lemma seek_before:
  assumes "seek tag i 0 es = (q, rest)"
  shows "es = before_match tag i es @ rest" "q = last_off (before_match tag i es)"
proof -
  obtain ys where "es = ys @ rest" "q = (if ys = [] then 0 else fst (last ys))" using seek_split [OF assms] by blast
  then show "es = before_match tag i es @ rest" "q = last_off (before_match tag i es)"
    using assms by (simp_all add: before_match_def last_off_def)
qed

lemma without_entry:
  assumes "metas H c (ys @ x # zs)"
  shows "laid_out H (ys @ zs)" "meta_list (file_data c) zs"
proof -
  have "item_end x \<ge> (if ys = [] then H else item_end (last ys))"
    using assms laid_out_bound [of H "ys @ x # zs" x] laid_out_before [of H ys x zs "last ys"]
    by (cases x) (auto simp: metas_def item_end_def)
  moreover have "laid_out (item_end x) zs" using assms by (simp add: metas_def laid_out_append)
  moreover have "laid_out b xs \<Longrightarrow> a \<le> b \<Longrightarrow> laid_out a xs" for a b xs by (cases xs) auto
  ultimately show "laid_out H (ys @ zs)" using assms by (auto simp: metas_def laid_out_append)
  show "meta_list (file_data c) zs"
    using assms meta_list_suffix [of "file_data c" "ys @ [x]" zs] by (simp add: metas_def)
qed

lemma write_metadata_list:
  assumes m: "metas H c es"
    and len: "1 \<le> length input" "length input < 2 ^ 24" "length (file_data c) + 16 + length input < 2 ^ 64"
  shows "\<exists>c'. write_metadata c tag idx input flags = Some (None, c') \<and>
    metas H c' (meta_written (length (file_data c)) tag (s32 idx) input flags es)"
proof -
  obtain q rest where s: "seek tag (s32 idx) 0 es = (q, rest)" by fastforce
  define ys where "ys = before_match tag (s32 idx) es"
  have es: "es = ys @ rest" "q = last_off ys" using seek_before [OF s] by (simp_all add: ys_def)
  obtain r where r: "metadata_find c tag (s32 idx) no_entry False = Some r" "found (q, rest) r"
    using metadata_find_first [OF m, of tag "s32 idx" no_entry] s by auto
  have sz: "\<not> (length input < 1 \<or> length input \<ge> 16 * 1024 * 1024)" using len by (auto simp: Suc_le_eq)
  let ?new = "(length (file_data c), tag, flags, input)"
  show ?thesis
  proof (cases rest)
    case Nil
    have f: "fst r = Some (Chd_Error METADATA_NOT_FOUND)" "me_prev (snd r) = last_off ys"
      using r(2) Nil es by (simp_all add: found_def)
    obtain c1 where a: "append_metadata c tag input flags (last_off ys) = (None, c1)" "metas H c1 (ys @ [?new])"
      using append_metadata_list [of H c ys "[]" input tag flags] m es Nil len by auto
    obtain c2 where "metadata_update_hash c1 = Some (None, c2)" "metas H c2 (ys @ [?new])"
      using update_hash_list [OF a(2)] by blast
    then show ?thesis using r(1) f a(1) sz s Nil es
      by (cases r) (simp add: write_metadata_def meta_written_def Let_def)
  next
    case (Cons x zs)
    obtain p t f content where x: "x = (p, t, f, content)" by (cases x)
    have found: "r = (None, entry_of x (last_off ys) (head_off zs))" using r(2) Cons es by (simp add: found_def)
    have m': "metas H c (ys @ x # zs)" using m es Cons by simp
    show ?thesis
    proof (cases "length input \<le> length content")
      case True
      obtain c1 where a: "overwrite_metadata c (entry_of x (last_off ys) (head_off zs)) input = (None, c1)"
          "metas H c1 (ys @ (p, t, f, input) # zs)"
        using overwrite_metadata_list [of H c ys p t f content zs input "last_off ys"] m' True x by auto
      obtain c2 where "metadata_update_hash c1 = Some (None, c2)" "metas H c2 (ys @ (p, t, f, input) # zs)"
        using update_hash_list [OF a(2)] by blast
      then show ?thesis using r(1) found a(1) sz s Cons True x
        by (simp add: write_metadata_def meta_written_def Let_def ys_def [symmetric] entry_of_def)
    next
      case False
      obtain c1 where u: "metadata_set_previous_next (last_off ys) (head_off zs) c = (None, c1)" "metas H c1 (ys @ zs)"
          "length (file_data c1) = length (file_data c)"
        using set_link [OF m' without_entry [OF m']] by blast
      obtain c2 where a: "append_metadata c1 tag input flags (last_off ys) = (None, c2)" "metas H c2 (ys @ [?new])"
        using append_metadata_list [OF u(2), of input tag flags] u(3) len by auto
      obtain c3 where "metadata_update_hash c2 = Some (None, c3)" "metas H c3 (ys @ [?new])"
        using update_hash_list [OF a(2)] by blast
      then show ?thesis using r(1) found u(1) a(1) sz s Cons False x
        by (simp add: write_metadata_def meta_written_def Let_def ys_def [symmetric] entry_of_def)
    qed
  qed
qed

lemma read_metadata_list:
  assumes m: "metas H c es"
  shows "read_metadata_full c tag idx output rtag rflags = Some (meta_result (snd (seek tag (s32 idx) 0 es)) output rtag rflags)"
proof -
  obtain q rest where s: "seek tag (s32 idx) 0 es = (q, rest)" by fastforce
  have es: "es = before_match tag (s32 idx) es @ rest" using seek_before(1) [OF s] .
  obtain r where r: "metadata_find c tag (s32 idx) no_entry False = Some r" "found (q, rest) r"
    using metadata_find_first [OF m, of tag "s32 idx" no_entry] s by auto
  show ?thesis
  proof (cases rest)
    case Nil
    then show ?thesis using r s by (cases r) (auto simp: read_metadata_full_def found_def meta_result_def)
  next
    case (Cons x zs)
    obtain p t f content where x: "x = (p, t, f, content)" by (cases x)
    have "length (resize (length content) output) = length content" by (simp add: resize_def)
    then have "file_read c (w64 (p + METADATA_HEADER_SIZE)) (resize (length content) output) (length content) = (None, content)"
      using read_content [of H c "before_match tag (s32 idx) es" p t f content zs] m es Cons x by simp
    then show ?thesis using r s Cons x by (simp add: read_metadata_full_def found_def meta_result_def entry_of_def)
  qed
qed

lemma delete_metadata_list:
  assumes m: "metas H c es" and "snd (seek tag (s32 idx) 0 es) \<noteq> []"
  shows "\<exists>c'. delete_metadata c tag idx = Some (None, c') \<and> metas H c' (meta_deleted tag (s32 idx) es)"
proof -
  obtain q x zs where s: "seek tag (s32 idx) 0 es = (q, x # zs)"
    using assms(2) by (metis neq_Nil_conv prod.collapse)
  define ys where "ys = before_match tag (s32 idx) es"
  have es: "es = ys @ x # zs" "q = last_off ys" using seek_before [OF s] by (simp_all add: ys_def)
  have "metadata_find c tag (s32 idx) no_entry False = Some (None, entry_of x (last_off ys) (head_off zs))"
    using metadata_find_first [OF m, of tag "s32 idx" no_entry] s es by (auto simp: found_def)
  moreover obtain c' where "metadata_set_previous_next (last_off ys) (head_off zs) c = (None, c')" "metas H c' (ys @ zs)"
    using set_link [of H c ys "x # zs" zs] m es without_entry [of H c ys x zs] by auto
  ultimately show ?thesis using s
    by (cases x) (simp add: delete_metadata_def meta_deleted_def ys_def [symmetric] entry_of_def)
qed

text \<open>An entry whose link leads back to it.\<close>

lemma metadata_loop_cycle:
  assumes "0 < p" "file_read c p (replicate METADATA_HEADER_SIZE 0) METADATA_HEADER_SIZE = (None, raw)"
    "unat (get_u64be (drop 8 raw)) = p" "tag \<noteq> CHDMETATAG_WILDCARD" "get_u32be raw \<noteq> tag"
  shows "me_offset e = p \<Longrightarrow> metadata_loop c tag i e = None"
proof -
  have no: "c' = c \<longrightarrow> t = tag \<longrightarrow> me_offset e \<noteq> p" if "metadata_loop c' t i e = Some r" for c' t i e r
    using that
  proof (rule metadata_loop.raw_induct [where P = "\<lambda>c' t i e r. c' = c \<longrightarrow> t = tag \<longrightarrow> me_offset e \<noteq> p", rotated 1])
    fix f :: "chd_file \<Rightarrow> u32 \<Rightarrow> int \<Rightarrow> metadata_entry \<Rightarrow> (error_condition option \<times> metadata_entry) option"
    fix c' t i e r
    assume IH: "\<And>c' t i e r. f c' t i e = Some r \<Longrightarrow> c' = c \<longrightarrow> t = tag \<longrightarrow> me_offset e \<noteq> p"
      and body: "(if me_offset e = 0 then Some (Some (Chd_Error METADATA_NOT_FOUND), e)
        else case file_read c' (me_offset e) (replicate METADATA_HEADER_SIZE 0) METADATA_HEADER_SIZE of
          (None, raw) \<Rightarrow>
            let e1 = parse_meta_header raw e; matches = (t = CHDMETATAG_WILDCARD \<or> me_metatag e1 = t) in
            if matches \<and> i = 0 then Some (None, e1)
            else f c' t (if matches then i - 1 else i) (e1\<lparr>me_prev := me_offset e1, me_offset := me_next e1\<rparr>)
        | (Some err, _) \<Rightarrow> Some (Some err, e)) = Some r"
    show "c' = c \<longrightarrow> t = tag \<longrightarrow> me_offset e \<noteq> p"
    proof (intro impI notI)
      assume at: "c' = c" "t = tag" "me_offset e = p"
      then have "f c tag i ((parse_meta_header raw e)\<lparr>me_prev := p, me_offset := p\<rparr>) = Some r"
        using body assms by (simp add: parse_meta_header_def)
      from IH [OF this] show False by simp
    qed
  qed
  assume "me_offset e = p"
  then show "metadata_loop c tag i e = None" using no [of c tag i e] by (cases "metadata_loop c tag i e") auto
qed

text \<open>A file with two entries, and one whose only entry is its own successor.\<close>

definition sample_meta :: chd_file where
  "sample_meta = chd_closed
     \<lparr>m_file := Some \<lparr>f_data = [0, 0, 0, 0, 0, 0, 0, 28] @ replicate 20 0 @
          [0, 0, 0, 1, 1, 0, 0, 1, 0, 0, 0, 0, 0, 0, 0, 45, 7] @ [0, 0, 0, 2, 0, 0, 0, 2, 0, 0, 0, 0, 0, 0, 0, 0, 8, 9],
        f_read_fault = \<lambda>_ _. None, f_write_fault = \<lambda>_ _. None\<rparr>,
      m_metaoffset := 28, m_sha1_offset := 8\<rparr>"

definition sample_items :: "meta_item list" where
  "sample_items = [(28, 1, 1, [7]), (45, 2, 0, [8, 9])]"

definition sample_cycle :: chd_file where
  "sample_cycle = sample_meta
     \<lparr>m_file := Some \<lparr>f_data = [9, 0, 0, 0, 2, 0, 0, 0, 0, 0, 0, 0, 0, 0, 0, 0, 1],
        f_read_fault = \<lambda>_ _. None, f_write_fault = \<lambda>_ _. None\<rparr>, m_metaoffset := 1\<rparr>"

lemma sample_meta_file: "healthy sample_meta" "file_data sample_meta = [0, 0, 0, 0, 0, 0, 0, 28] @ replicate 20 0 @
    [0, 0, 0, 1, 1, 0, 0, 1, 0, 0, 0, 0, 0, 0, 0, 45, 7] @ [0, 0, 0, 2, 0, 0, 0, 2, 0, 0, 0, 0, 0, 0, 0, 0, 8, 9]"
  "healthy sample_cycle" "file_data sample_cycle = [9, 0, 0, 0, 2, 0, 0, 0, 0, 0, 0, 0, 0, 0, 0, 0, 1]"
  by (simp_all add: sample_meta_def sample_cycle_def healthy_def no_faults_def file_data_def)

lemma sample_headers:
  "meta_header 1 1 1 45 = [0, 0, 0, 1, 1, 0, 0, 1, 0, 0, 0, 0, 0, 0, 0, 45]"
  "meta_header 2 0 2 0 = [0, 0, 0, 2, 0, 0, 0, 2, 0, 0, 0, 0, 0, 0, 0, 0]"
  by code_simp+

lemma sample_metas: "metas 28 sample_meta sample_items"
proof -
  have "meta_list (file_data sample_meta) sample_items"
    unfolding sample_meta_file sample_items_def
    by (simp add: meta_at_def head_off_def sample_headers [unfolded One_nat_def numeral_2_eq_2]) (simp add: slice_def eval_nat_numeral)
  moreover have "slice 0 8 (file_data sample_meta) = put_u64be 28 (replicate 8 0)"
    unfolding sample_meta_file by code_simp
  ultimately show ?thesis
    unfolding metas_def
    by (simp add: sample_meta_file sample_items_def head_off_def item_end_def) (simp add: sample_meta_def chd_closed_def)
qed

text \<open>Two files with the same checksummed entries in opposite orders.\<close>

definition sample_file :: "bytes \<Rightarrow> chd_file" where
  "sample_file entries = sample_meta
     \<lparr>m_file := Some \<lparr>f_data = [0, 0, 0, 0, 0, 0, 0, 28] @ replicate 20 0 @ entries,
        f_read_fault = \<lambda>_ _. None, f_write_fault = \<lambda>_ _. None\<rparr>\<rparr>"

definition sample_forth :: chd_file where
  "sample_forth = sample_file
     ([0, 0, 0, 1, 1, 0, 0, 1, 0, 0, 0, 0, 0, 0, 0, 45, 7] @ [0, 0, 0, 2, 1, 0, 0, 2, 0, 0, 0, 0, 0, 0, 0, 0, 8, 9])"

definition sample_back :: chd_file where
  "sample_back = sample_file
     ([0, 0, 0, 2, 1, 0, 0, 2, 0, 0, 0, 0, 0, 0, 0, 46, 8, 9] @ [0, 0, 0, 1, 1, 0, 0, 1, 0, 0, 0, 0, 0, 0, 0, 0, 7])"

lemma sample_order_headers:
  "meta_header 2 1 2 0 = [0, 0, 0, 2, 1, 0, 0, 2, 0, 0, 0, 0, 0, 0, 0, 0]"
  "meta_header 2 1 2 46 = [0, 0, 0, 2, 1, 0, 0, 2, 0, 0, 0, 0, 0, 0, 0, 46]"
  "meta_header 1 1 1 0 = [0, 0, 0, 1, 1, 0, 0, 1, 0, 0, 0, 0, 0, 0, 0, 0]"
  by code_simp+

lemma sample_file_simps: "healthy (sample_file d)" "file_data (sample_file d) = [0, 0, 0, 0, 0, 0, 0, 28] @ replicate 20 0 @ d"
    "m_metaoffset (sample_file d) = 28" "m_version (sample_file d) = 5"
  by (simp_all add: sample_file_def sample_meta_def chd_closed_def HEADER_VERSION_def healthy_def no_faults_def file_data_def)

lemma sample_order_link: "slice 0 8 (file_data (sample_file d)) = put_u64be 28 (replicate 8 0)"
proof -
  have "put_u64be 28 (replicate 8 0) = [0, 0, 0, 0, 0, 0, 0, 28]" by code_simp
  then show ?thesis unfolding sample_file_simps by (simp add: slice_def eval_nat_numeral)
qed

lemma sample_order_metas:
  "metas 28 sample_forth [(28, 1, 1, [7]), (45, 2, 1, [8, 9])]"
  "metas 28 sample_back [(28, 2, 1, [8, 9]), (46, 1, 1, [7])]"
proof -
  have "meta_list (file_data sample_forth) [(28, 1, 1, [7]), (45, 2, 1, [8, 9])]"
    unfolding sample_forth_def sample_file_simps
    by (simp add: meta_at_def head_off_def sample_headers [unfolded One_nat_def numeral_2_eq_2] sample_order_headers [unfolded One_nat_def numeral_2_eq_2])
      (simp add: slice_def eval_nat_numeral)
  then show "metas 28 sample_forth [(28, 1, 1, [7]), (45, 2, 1, [8, 9])]"
    unfolding metas_def
    using sample_order_link [of "drop 28 (file_data sample_forth)"]
    by (simp add: sample_forth_def sample_file_simps head_off_def item_end_def) (simp add: sample_file_def sample_meta_def chd_closed_def)
  have "meta_list (file_data sample_back) [(28, 2, 1, [8, 9]), (46, 1, 1, [7])]"
    unfolding sample_back_def sample_file_simps
    by (simp add: meta_at_def head_off_def sample_headers [unfolded One_nat_def numeral_2_eq_2] sample_order_headers [unfolded One_nat_def numeral_2_eq_2])
      (simp add: slice_def eval_nat_numeral)
  then show "metas 28 sample_back [(28, 2, 1, [8, 9]), (46, 1, 1, [7])]"
    unfolding metas_def
    using sample_order_link [of "drop 28 (file_data sample_back)"]
    by (simp add: sample_back_def sample_file_simps head_off_def item_end_def) (simp add: sample_file_def sample_meta_def chd_closed_def)
qed

subsection \<open>Properties\<close>

text \<open>
  C8: Writing metadata acts on the list of entries as specified: an entry that is not there is appended, one
  whose contents fit is changed in place with its flags kept, and one that has to grow is unlinked and
  appended as the last entry of the list that precedes it. The list in the file stays well formed.
\<close>

theorem write_metadata_refines:
  assumes "metas H c es" "1 \<le> length input" "length input < 2 ^ 24" "length (file_data c) + 16 + length input < 2 ^ 64"
  shows "\<exists>c'. write_metadata c tag idx input flags = Some (None, c') \<and>
    metas H c' (meta_written (length (file_data c)) tag (s32 idx) input flags es)"
  by (rule write_metadata_list [OF assms])

theorem write_metadata_refines_witness:
  "\<exists>c'. write_metadata sample_meta 3 0 [5] 1 = Some (None, c') \<and> metas 28 c' (sample_items @ [(63, 3, 1, [5])])"
  using write_metadata_refines [OF sample_metas, of "[5]" 3 0 1]
  by (simp add: sample_meta_file meta_written_def sample_items_def tag_matches_def CHDMETATAG_WILDCARD_def)

text \<open>
  C23: Reading metadata returns the contents, tag and flags of the entry with the given number among those
  with the given tag, or the error that there is none.
\<close>

theorem read_metadata_refines:
  assumes "metas H c es"
  shows "read_metadata_full c tag idx output rtag rflags = Some (meta_result (snd (seek tag (s32 idx) 0 es)) output rtag rflags)"
  by (rule read_metadata_list [OF assms])

theorem read_metadata_refines_witness:
  "read_metadata_full sample_meta 2 0 [] 0 0 = Some (None, [8, 9], 2, 0)"
  using read_metadata_refines [OF sample_metas, of 2 0 "[]" 0 0]
  by (simp add: sample_items_def tag_matches_def CHDMETATAG_WILDCARD_def meta_result_def s32_def w32_def)

text \<open>
  C24: Deleting metadata removes the entry found and keeps the others.
\<close>

theorem delete_metadata_refines:
  assumes "metas H c es" "snd (seek tag (s32 idx) 0 es) \<noteq> []"
  shows "\<exists>c'. delete_metadata c tag idx = Some (None, c') \<and> metas H c' (meta_deleted tag (s32 idx) es)"
  by (rule delete_metadata_list [OF assms])

theorem delete_metadata_refines_witness:
  "\<exists>c'. delete_metadata sample_meta 1 0 = Some (None, c') \<and> metas 28 c' [(45, 2, 0, [8, 9])]"
  using delete_metadata_refines [OF sample_metas, of 1 0]
  by (simp add: sample_items_def tag_matches_def CHDMETATAG_WILDCARD_def meta_deleted_def before_match_def s32_def w32_def)

text \<open>
  C34: An entry that has to grow takes the place of every entry behind it: the entries that followed it are
  no longer in the list.
\<close>

theorem write_metadata_drops_rest:
  assumes "metas H c (ys @ (p, tag, f, content) # zs)" "\<not> (\<exists>y \<in> set ys. tag_matches tag y)"
    "length content < length input" "length input < 2 ^ 24" "length (file_data c) + 16 + length input < 2 ^ 64"
  shows "\<exists>c'. write_metadata c tag 0 input flags = Some (None, c') \<and>
    metas H c' (ys @ [(length (file_data c), tag, flags, input)])"
proof -
  have "seek tag 0 prev (as @ (p, tag, f, content) # zs) = (if as = [] then prev else fst (last as), (p, tag, f, content) # zs)"
    if "set as \<subseteq> set ys" for prev as
    using that assms(2) by (induction as arbitrary: prev) (auto simp: tag_matches_def)
  from this [of ys 0] have "snd (seek tag 0 0 (ys @ (p, tag, f, content) # zs)) = (p, tag, f, content) # zs" by simp
  moreover have "s32 0 = 0" by (simp add: s32_def w32_def)
  ultimately show ?thesis
    using write_metadata_list [OF assms(1) _ assms(4,5), of tag 0 flags] assms(3)
    by (simp add: meta_written_def before_match_def)
qed

theorem write_metadata_drops_rest_witness:
  "\<exists>c'. write_metadata sample_meta 1 0 [5, 6] 1 = Some (None, c') \<and> metas 28 c' [(63, 1, 1, [5, 6])]"
  using write_metadata_drops_rest [of 28 sample_meta "[]" 28 1 1 "[7]" "[(45, 2, 0, [8, 9])]" "[5, 6]" 1] sample_metas
  by (simp add: sample_items_def sample_meta_file)

text \<open>
  C22: The overall digest is the SHA-1 of the raw data's digest and the sorted digests of the checksummed
  entries, so files whose checksummed entries are the same in any order have the same overall digest.
\<close>

theorem overall_sha1_order:
  assumes "metas H c es" "metas H' c' es'" "4 \<le> m_version c" "4 \<le> m_version c'"
    "mset (checked_hashes es) = mset (checked_hashes es')"
  shows "compute_overall_sha1 c raw = Some (Inr (fips_sha1 (raw @ concat (sort_hashes (checked_hashes es'))))) \<and>
    compute_overall_sha1 c' raw = compute_overall_sha1 c raw"
  using overall_sha1_list [OF assms(1,3)] overall_sha1_list [OF assms(2,4)] sort_hashes_mset [OF assms(5)] by simp

theorem overall_sha1_order_witness:
  "compute_overall_sha1 sample_back [1] = compute_overall_sha1 sample_forth [1] \<and> file_data sample_back \<noteq> file_data sample_forth"
proof
  show "compute_overall_sha1 sample_back [1] = compute_overall_sha1 sample_forth [1]"
    using overall_sha1_order [OF sample_order_metas(1,2), of "[1]"]
    by (simp add: sample_forth_def sample_back_def sample_file_simps checked_hashes_def CHD_MDFLAGS_CHECKSUM_def add_mset_commute)
  show "file_data sample_back \<noteq> file_data sample_forth" by (simp add: sample_forth_def sample_back_def sample_file_simps)
qed

text \<open>
  C35: A metadata entry whose link leads back to itself is searched for ever when the tag looked for is
  another one.
\<close>

theorem metadata_cycle_diverges:
  assumes "0 < m_metaoffset c"
    "file_read c (m_metaoffset c) (replicate METADATA_HEADER_SIZE 0) METADATA_HEADER_SIZE = (None, raw)"
    "unat (get_u64be (drop 8 raw)) = m_metaoffset c" "tag \<noteq> CHDMETATAG_WILDCARD" "get_u32be raw \<noteq> tag"
  shows "read_metadata_full c tag idx output rtag rflags = None"
  using metadata_loop_cycle [OF assms, of "no_entry\<lparr>me_offset := m_metaoffset c, me_prev := 0\<rparr>" "s32 idx"]
  by (simp add: read_metadata_full_def metadata_find_def)

theorem metadata_cycle_diverges_witness: "read_metadata_full sample_cycle 1 0 [] 0 0 = None"
proof (rule metadata_cycle_diverges)
  have m: "m_metaoffset sample_cycle = 1" by (simp add: sample_cycle_def)
  show "0 < m_metaoffset sample_cycle" using m by simp
  show "file_read sample_cycle (m_metaoffset sample_cycle) (replicate METADATA_HEADER_SIZE 0) METADATA_HEADER_SIZE =
      (None, [0, 0, 0, 2, 0, 0, 0, 0, 0, 0, 0, 0, 0, 0, 0, 1])"
    using sample_meta_file(3) unfolding m by (simp add: file_read_healthy sample_meta_file METADATA_HEADER_SIZE_def slice_def overwrite_def)
  show "unat (get_u64be (drop 8 [0, 0, 0, 2, 0, 0, 0, 0, 0, 0, 0, 0, 0, 0, 0, 1])) = m_metaoffset sample_cycle"
    unfolding m by (simp add: get_u64be_def)
qed (simp_all add: CHDMETATAG_WILDCARD_def get_u32be_def)

end
