(* ===== verification/Chd_Map.thy ===== *)
theory Chd_Map
  imports Chd_Hunk Huffman_8bit
begin

text \<open>
  The compressed hunk map of a version 5 CHD: \<open>compress_v5_map\<close> and \<open>decompress_v5_map\<close> of
  \<^verbatim>\<open>chd.cpp\<close>. The types of the entries are promoted to pseudo types, run-length coded and coded
  with a Huffman tree of 16 codes; behind them come the lengths, checksums and references the types
  leave open, in fields as wide as the largest value needs.
\<close>

subsection \<open>Entries and pseudo types\<close>

definition COMPRESSION_RLE_SMALL :: nat where "COMPRESSION_RLE_SMALL = 7"
definition COMPRESSION_RLE_LARGE :: nat where "COMPRESSION_RLE_LARGE = 8"
definition COMPRESSION_SELF_0 :: nat where "COMPRESSION_SELF_0 = 9"
definition COMPRESSION_SELF_1 :: nat where "COMPRESSION_SELF_1 = 10"
definition COMPRESSION_PARENT_SELF :: nat where "COMPRESSION_PARENT_SELF = 11"
definition COMPRESSION_PARENT_0 :: nat where "COMPRESSION_PARENT_0 = 12"
definition COMPRESSION_PARENT_1 :: nat where "COMPRESSION_PARENT_1 = 13"

lemmas pseudo_types = COMPRESSION_RLE_SMALL_def COMPRESSION_RLE_LARGE_def COMPRESSION_SELF_0_def COMPRESSION_SELF_1_def
  COMPRESSION_PARENT_SELF_def COMPRESSION_PARENT_0_def COMPRESSION_PARENT_1_def

definition e_length :: "bytes \<Rightarrow> nat" where "e_length rawmap = unat (get_u24be (drop 1 rawmap))"
definition e_offset :: "bytes \<Rightarrow> nat" where "e_offset rawmap = unat (get_u48be (drop 4 rawmap))"
definition e_crc :: "bytes \<Rightarrow> u16" where "e_crc rawmap = get_u16be (drop 10 rawmap)"

text \<open>The entries of the first \<open>n\<close> hunks; \<open>hunknum * 12\<close> is computed in 32 bits.\<close>

definition raw_entry :: "chd_file \<Rightarrow> nat \<Rightarrow> bytes" where
  "raw_entry c hunknum = slice (w32 (hunknum * 12)) 12 (m_rawmap c)"

definition map_in_range :: "chd_file \<Rightarrow> bool" where
  "map_in_range c \<longleftrightarrow> (\<forall>hunknum < m_hunkcount c. w32 (hunknum * 12) + 12 \<le> length (m_rawmap c)) \<and>
     w32 (m_hunkcount c * 12) \<le> length (m_rawmap c)"

subsection \<open>Promotion of references\<close>

record promotion =
  max_self :: nat
  last_self :: nat
  max_parent :: nat
  last_parent :: nat
  max_complen :: nat

definition promote :: "nat \<Rightarrow> nat \<Rightarrow> nat \<Rightarrow> bytes \<Rightarrow> promotion \<Rightarrow> nat \<times> promotion" where
  "promote hunkbytes unitbytes hunknum rawmap st =
     (let curcomp = unat (rawmap ! 0) in
      if curcomp = 5 then
        let refhunk = w32 (e_offset rawmap) in
        if refhunk = last_self st then (COMPRESSION_SELF_0, st\<lparr>last_self := refhunk\<rparr>)
        else if refhunk = w32 (last_self st + 1) then (COMPRESSION_SELF_1, st\<lparr>last_self := refhunk\<rparr>)
        else (curcomp, st\<lparr>max_self := max (max_self st) refhunk, last_self := refhunk\<rparr>)
      else if curcomp = 6 then
        let refunit = w32 (e_offset rawmap) in
        if refunit = hunknum * hunkbytes div unitbytes then (COMPRESSION_PARENT_SELF, st\<lparr>last_parent := refunit\<rparr>)
        else if refunit = last_parent st then (COMPRESSION_PARENT_0, st\<lparr>last_parent := refunit\<rparr>)
        else if refunit = w64 (last_parent st + hunkbytes div unitbytes) then (COMPRESSION_PARENT_1, st\<lparr>last_parent := refunit\<rparr>)
        else (curcomp, st\<lparr>max_parent := max (max_parent st) refunit, last_parent := refunit\<rparr>)
      else (curcomp, st\<lparr>max_complen := max (max_complen st) (e_length rawmap)\<rparr>))"

subsection \<open>Run-length coding of the types\<close>

text \<open>The symbols stored for \<open>count\<close> pending repeats.\<close>

function flush_types :: "nat \<Rightarrow> nat \<Rightarrow> nat list" where
  "flush_types lastcomp k =
     (if k = 0 then []
      else if k < 3 then lastcomp # flush_types lastcomp (k - 1)
      else if k \<le> 3 + 15 then [COMPRESSION_RLE_SMALL, k - 3]
      else let this_count = min k (3 + 16 + 255) in
           COMPRESSION_RLE_LARGE # (this_count - 3 - 16) div 16 # (this_count - 3 - 16) mod 16
           # flush_types lastcomp (k - this_count))"
  by pat_completeness auto
termination by (relation "measure snd") auto

declare flush_types.simps [simp del]

text \<open>
  The loop over the hunks: promotion, then run-length coding from the previous type and its
  pending repeats. The result is the symbols and the final promotion state.
\<close>

primrec types_loop ::
    "nat \<Rightarrow> nat \<Rightarrow> nat \<Rightarrow> bytes list \<Rightarrow> promotion \<Rightarrow> nat \<Rightarrow> nat \<Rightarrow> nat list \<times> promotion" where
  "types_loop hunkbytes unitbytes hunknum [] st lastcomp k = ([], st)"
| "types_loop hunkbytes unitbytes hunknum (rawmap # entries) st lastcomp k =
     (let (curcomp, st') = promote hunkbytes unitbytes hunknum rawmap st;
          k' = (if curcomp = lastcomp then k + 1 else k);
          (flushed, k'', lastcomp') =
            (if curcomp \<noteq> lastcomp \<or> entries = [] then
               (flush_types lastcomp k' @ (if curcomp \<noteq> lastcomp then [curcomp] else []), 0, curcomp)
             else ([], k', lastcomp));
          (rest, st'') = types_loop hunkbytes unitbytes (Suc hunknum) entries st' lastcomp' k''
      in (flushed @ rest, st''))"

subsection \<open>Compression\<close>

text \<open>One hunk of the second pass: the next type from the symbols.\<close>

fun next_type :: "nat list \<Rightarrow> nat \<Rightarrow> nat \<Rightarrow> (nat \<times> nat \<times> nat list) res" where
  "next_type src lastcomp k =
     (if k = 0 then
        (case src of
           [] \<Rightarrow> Inl Bad_Index
         | v # src1 \<Rightarrow>
             if v = COMPRESSION_RLE_SMALL then
               (case src1 of a # src2 \<Rightarrow> Inr (lastcomp, 2 + a, src2) | _ \<Rightarrow> Inl Bad_Index)
             else if v = COMPRESSION_RLE_LARGE then
               (case src1 of a # b # src2 \<Rightarrow> Inr (lastcomp, 2 + 16 + a * 16 + b, src2) | _ \<Rightarrow> Inl Bad_Index)
             else Inr (v, 0, src1))
      else Inr (lastcomp, k - 1, src))"

declare next_type.simps [simp del]

text \<open>The fields behind the types. The widths are those of the largest values, which the code asserts.\<close>

definition write_extra :: "nat \<Rightarrow> nat \<Rightarrow> nat \<Rightarrow> nat \<Rightarrow> bytes \<Rightarrow> bitstream_out \<Rightarrow> bitstream_out res" where
  "write_extra lengthbits selfbits parentbits comptype rawmap bitbuf =
     (if comptype < 4 then
        if \<not> e_length rawmap < 2 ^ lengthbits then Inl Assert_Failed
        else Inr (bs_write (ucast (e_crc rawmap)) 16 (bs_write (of_nat (e_length rawmap)) (int lengthbits) bitbuf))
      else if comptype = 4 then Inr (bs_write (ucast (e_crc rawmap)) 16 bitbuf)
      else if comptype = 5 then
        if \<not> e_offset rawmap < 2 ^ selfbits then Inl Assert_Failed
        else Inr (bs_write (of_nat (e_offset rawmap)) (int selfbits) bitbuf)
      else if comptype = 6 then
        if \<not> e_offset rawmap < 2 ^ parentbits then Inl Assert_Failed
        else Inr (bs_write (of_nat (e_offset rawmap)) (int parentbits) bitbuf)
      else Inr bitbuf)"

primrec extra_loop ::
    "nat \<Rightarrow> nat \<Rightarrow> nat \<Rightarrow> bytes list \<Rightarrow> nat list \<Rightarrow> nat \<Rightarrow> nat \<Rightarrow> nat \<Rightarrow> bitstream_out \<Rightarrow> (nat \<times> bitstream_out) res" where
  "extra_loop lengthbits selfbits parentbits [] src lastcomp k firstoffs bitbuf = Inr (firstoffs, bitbuf)"
| "extra_loop lengthbits selfbits parentbits (rawmap # entries) src lastcomp k firstoffs bitbuf =
     (case next_type src lastcomp k of
        Inl u \<Rightarrow> Inl u
      | Inr (lastcomp', k', src') \<Rightarrow>
          (case write_extra lengthbits selfbits parentbits lastcomp' rawmap bitbuf of
             Inl u \<Rightarrow> Inl u
           | Inr bitbuf' \<Rightarrow>
               extra_loop lengthbits selfbits parentbits entries src' lastcomp' k'
                 (if lastcomp' \<le> 4 \<and> firstoffs = 0 then e_offset rawmap else firstoffs) bitbuf'))"

text \<open>
  \<open>nbits_needed\<close> is an \<open>int\<close> computed in 32 bits, the vector size the quotient by eight plus one.
  A negative size throws \<^verbatim>\<open>std::length_error\<close>, which nothing catches.
\<close>

definition nbits_needed :: "nat \<Rightarrow> nat \<Rightarrow> nat \<Rightarrow> nat \<Rightarrow> int" where
  "nbits_needed lengthbits selfbits parentbits hunkcount =
     s32 (8 * 16 + (12 + max (lengthbits + 16) (max selfbits parentbits)) * hunkcount)"

definition compressed_size :: "int \<Rightarrow> int" where
  "compressed_size nbits = (if nbits < 0 then - ((- nbits) div 8) + 1 else nbits div 8 + 1)"

definition map_header :: "nat \<Rightarrow> nat \<Rightarrow> u16 \<Rightarrow> nat \<Rightarrow> nat \<Rightarrow> nat \<Rightarrow> bytes \<Rightarrow> bytes" where
  "map_header complen firstoffs mapcrc lengthbits selfbits parentbits buf =
     (let b1 = at_off 0 (put_u32be (of_nat complen)) buf;
          b2 = at_off 4 (put_u48be (of_nat firstoffs)) b1;
          b3 = at_off 10 (put_u16be mapcrc) b2
      in b3[12 := of_nat lengthbits, 13 := of_nat selfbits, 14 := of_nat parentbits, 15 := 0])"

definition write_map :: "chd_file \<Rightarrow> bytes \<Rightarrow> nat \<Rightarrow> (error_condition option \<times> chd_file) res" where
  "write_map c buf complen =
     (if length buf < complen + 16 then Inl Bad_Index
      else case file_append c (take (complen + 16) buf) 0 of
             (Inl e, c1) \<Rightarrow> Inr (Some e, c1)
           | (Inr offset, c1) \<Rightarrow>
               Inr (file_write (c1\<lparr>m_mapoffset := offset\<rparr>) (m_mapoffset_offset c1)
                      (put_u64be (of_nat offset) (replicate 8 0))))"

definition start_promotion :: promotion where
  "start_promotion = \<lparr>max_self = 0, last_self = 0, max_parent = 0, last_parent = 0, max_complen = 0\<rparr>"

definition encode_map ::
    "chd_file \<Rightarrow> u16 \<Rightarrow> bytes list \<Rightarrow> nat list \<Rightarrow> promotion \<Rightarrow> huffman_context \<Rightarrow> (error_condition option \<times> chd_file) res" where
  "encode_map c mapcrc entries symbols st encoder =
     (let lengthbits = bits_for_value (max_complen st);
          selfbits = bits_for_value (max_self st);
          parentbits = bits_for_value (max_parent st);
          size = compressed_size (nbits_needed lengthbits selfbits parentbits (m_hunkcount c))
      in if size < 0 then Inl Uncaught_Exception
         else if size \<le> 16 then Inl Bad_Index
         else
           let buf = replicate (nat size) 0;
               (err, bitbuf) = export_tree_rle encoder (mk_bitstream_out (drop 16 buf) (of_nat (nat size - 16)))
           in if err \<noteq> None then Inr (Some (Chd_Error COMPRESSION_ERROR), c)
              else case extra_loop lengthbits selfbits parentbits entries symbols 0 0 0 (fold (encode_one encoder) symbols bitbuf) of
                     Inl u \<Rightarrow> Inl u
                   | Inr (firstoffs, bitbuf') \<Rightarrow>
                       let (complen, bitbuf'') = out_flush bitbuf'
                       in if out_overflow bitbuf'' then Inl Assert_Failed
                          else write_map c (map_header (unat complen) firstoffs mapcrc lengthbits selfbits parentbits
                                              (take 16 buf @ o_write bitbuf'')) (unat complen))"

text \<open>
  \<open>compress_v5_map\<close>. More symbols than hunks are a store outside of \<open>compression_rle\<close>, a symbol of
  sixteen or more one outside the histogram; the check for a unit size of zero is the division of the parent references.
\<close>

definition compress_v5_map :: "chd_file \<Rightarrow> (error_condition option \<times> chd_file) res" where
  "compress_v5_map c =
     (if \<not> map_in_range c then Inl Bad_Index
      else
        let mapcrc = crc16_simple (take (w32 (m_hunkcount c * 12)) (m_rawmap c));
            entries = map (raw_entry c) [0..<m_hunkcount c]
        in if m_unitbytes c = 0 \<and> (\<exists>rawmap \<in> set entries. rawmap ! 0 = 6) then Inl Div_By_Zero
           else
             let (symbols, st) = types_loop (m_hunkbytes c) (m_unitbytes c) 0 entries start_promotion 0 0
             in if m_hunkcount c < length symbols \<or> (\<exists>s \<in> set symbols. 16 \<le> s) then Inl Bad_Index
                else case compute_tree_from_histo (fold histo_one symbols (projr (huffman_encoder 16 8))) of
                       None \<Rightarrow> Inl Infinite_Loop
                     | Some (Inl Out_Of_Bounds) \<Rightarrow> Inl Bad_Index
                     | Some (Inl Division_By_Zero) \<Rightarrow> Inl Div_By_Zero
                     | Some (Inl (Huff_Error e)) \<Rightarrow> Inr (Some (Chd_Error COMPRESSION_ERROR), c)
                     | Some (Inr encoder) \<Rightarrow> encode_map c mapcrc entries symbols st encoder)"

subsection \<open>Decompression\<close>

text \<open>The types, one per hunk, from the last type and the repeats left.\<close>

primrec decode_types :: "huffman_context \<Rightarrow> nat \<Rightarrow> nat \<Rightarrow> nat \<Rightarrow> bitstream_in \<Rightarrow> nat list \<times> bitstream_in" where
  "decode_types decoder 0 lastcomp repcount bitbuf = ([], bitbuf)"
| "decode_types decoder (Suc n) lastcomp repcount bitbuf =
     (if repcount > 0 then
        let (rest, bitbuf') = decode_types decoder n lastcomp (repcount - 1) bitbuf in (lastcomp # rest, bitbuf')
      else
        let (v, bitbuf1) = decode_one decoder bitbuf; val = v mod 256 in
        if val = COMPRESSION_RLE_SMALL then
          let (a, bitbuf2) = decode_one decoder bitbuf1;
              (rest, bitbuf') = decode_types decoder n lastcomp (2 + a) bitbuf2
          in (lastcomp # rest, bitbuf')
        else if val = COMPRESSION_RLE_LARGE then
          let (a, bitbuf2) = decode_one decoder bitbuf1;
              (b, bitbuf3) = decode_one decoder bitbuf2;
              (rest, bitbuf') = decode_types decoder n lastcomp (2 + 16 + a * 16 + b) bitbuf3
          in (lastcomp # rest, bitbuf')
        else
          let (rest, bitbuf') = decode_types decoder n val 0 bitbuf1 in (val # rest, bitbuf'))"

record demotion =
  cur_offset :: nat
  d_self :: nat
  d_parent :: nat

text \<open>
  The fields of one entry: type, length, offset and checksum. A field of more than 32 bits, and a
  division by a unit size of zero, are undefined.
\<close>

definition read_extra ::
    "nat \<Rightarrow> nat \<Rightarrow> nat \<Rightarrow> nat \<Rightarrow> nat \<Rightarrow> nat \<Rightarrow> nat \<Rightarrow> demotion \<Rightarrow> bitstream_in \<Rightarrow>
      ((nat \<times> nat \<times> nat \<times> u16) \<times> demotion \<times> bitstream_in) res" where
  "read_extra hunkbytes unitbytes lengthbits selfbits parentbits hunknum comptype st bitbuf =
     (if comptype < 4 then
        if 32 < lengthbits then Inl Bad_Shift
        else
          let (len, bitbuf1) = bs_read (int lengthbits) bitbuf;
              (crc, bitbuf2) = bs_read 16 bitbuf1
          in Inr ((comptype, unat len, cur_offset st, ucast crc), st\<lparr>cur_offset := w64 (cur_offset st + unat len)\<rparr>, bitbuf2)
      else if comptype = 4 then
        let (crc, bitbuf1) = bs_read 16 bitbuf
        in Inr ((comptype, hunkbytes, cur_offset st, ucast crc), st\<lparr>cur_offset := w64 (cur_offset st + hunkbytes)\<rparr>, bitbuf1)
      else if comptype = 5 then
        if 32 < selfbits then Inl Bad_Shift
        else let (v, bitbuf1) = bs_read (int selfbits) bitbuf
             in Inr ((comptype, 0, unat v, 0), st\<lparr>d_self := unat v\<rparr>, bitbuf1)
      else if comptype = 6 then
        if 32 < parentbits then Inl Bad_Shift
        else let (v, bitbuf1) = bs_read (int parentbits) bitbuf
             in Inr ((comptype, 0, unat v, 0), st\<lparr>d_parent := unat v\<rparr>, bitbuf1)
      else if comptype = COMPRESSION_SELF_1 then
        let s = w32 (d_self st + 1) in Inr ((5, 0, s, 0), st\<lparr>d_self := s\<rparr>, bitbuf)
      else if comptype = COMPRESSION_SELF_0 then Inr ((5, 0, d_self st, 0), st, bitbuf)
      else if comptype = COMPRESSION_PARENT_SELF then
        if unitbytes = 0 then Inl Div_By_Zero
        else let p = hunknum * hunkbytes div unitbytes in Inr ((6, 0, p, 0), st\<lparr>d_parent := p\<rparr>, bitbuf)
      else if comptype = COMPRESSION_PARENT_1 then
        if unitbytes = 0 then Inl Div_By_Zero
        else let p = w64 (d_parent st + hunkbytes div unitbytes) in Inr ((6, 0, p, 0), st\<lparr>d_parent := p\<rparr>, bitbuf)
      else if comptype = COMPRESSION_PARENT_0 then Inr ((6, 0, d_parent st, 0), st, bitbuf)
      else Inr ((comptype, 0, cur_offset st, 0), st, bitbuf))"

text \<open>
  The first pass stores the types in the entries of the map, the second reads them from there and
  completes the entries.
\<close>

primrec store_types :: "nat \<Rightarrow> nat list \<Rightarrow> bytes \<Rightarrow> bytes" where
  "store_types hunknum [] rawmap = rawmap"
| "store_types hunknum (comptype # types) rawmap =
     store_types (Suc hunknum) types (rawmap[w32 (hunknum * 12) := of_nat comptype])"

primrec entries_loop ::
    "nat \<Rightarrow> nat \<Rightarrow> nat \<Rightarrow> nat \<Rightarrow> nat \<Rightarrow> nat list \<Rightarrow> demotion \<Rightarrow> bitstream_in \<Rightarrow> bytes \<Rightarrow> bytes res" where
  "entries_loop hunkbytes unitbytes lengthbits selfbits parentbits [] st bitbuf rawmap = Inr rawmap"
| "entries_loop hunkbytes unitbytes lengthbits selfbits parentbits (hunknum # hunks) st bitbuf rawmap =
     (case read_extra hunkbytes unitbytes lengthbits selfbits parentbits hunknum (unat (rawmap ! w32 (hunknum * 12))) st bitbuf of
        Inl u \<Rightarrow> Inl u
      | Inr ((comptype, len, offset, crc), st', bitbuf') \<Rightarrow>
          entries_loop hunkbytes unitbytes lengthbits selfbits parentbits hunks st' bitbuf'
            (at_off (w32 (hunknum * 12)) (put_map_entry (of_nat comptype) len offset crc) rawmap))"

text \<open>
  \<open>decompress_v5_map\<close>; an error is thrown to the caller. \<open>decoder0\<close> is the decoder as its memory
  happens to be.
\<close>

definition decompress_v5_map :: "huffman_context \<Rightarrow> chd_file \<Rightarrow> (error_condition option \<times> chd_file) res" where
  "decompress_v5_map decoder0 c =
     (if m_mapoffset c = 0 then Inr (None, c\<lparr>m_rawmap := replicate (length (m_rawmap c)) 0xff\<rparr>)
      else
        case file_read c (m_mapoffset c) (replicate 16 0) 16 of
          (Some e, _) \<Rightarrow> Inr (Some e, c)
        | (None, rawbuf) \<Rightarrow>
            let mapbytes = unat (get_u32be rawbuf);
                firstoffs = unat (get_u48be (drop 4 rawbuf));
                mapcrc = get_u16be (drop 10 rawbuf);
                lengthbits = unat (rawbuf ! 12);
                selfbits = unat (rawbuf ! 13);
                parentbits = unat (rawbuf ! 14)
            in case file_read c (w64 (m_mapoffset c + 16)) (replicate mapbytes 0) mapbytes of
                 (Some e, _) \<Rightarrow> Inr (Some e, c)
               | (None, buf) \<Rightarrow>
                   (case import_tree_rle decoder0 (mk_bitstream_in buf (of_nat mapbytes)) of
                      (Inl Out_Of_Bounds, _) \<Rightarrow> Inl Bad_Index
                    | (Inl _, _) \<Rightarrow> Inr (Some (Chd_Error DECOMPRESSION_ERROR), c)
                    | (Inr decoder, bitbuf) \<Rightarrow>
                        if \<not> map_in_range c then Inl Bad_Index
                        else
                          let (types, bitbuf') = decode_types decoder (m_hunkcount c) 0 0 bitbuf
                          in case entries_loop (m_hunkbytes c) (m_unitbytes c) lengthbits selfbits parentbits [0..<m_hunkcount c]
                                    \<lparr>cur_offset = firstoffs, d_self = 0, d_parent = 0\<rparr> bitbuf' (store_types 0 types (m_rawmap c)) of
                               Inl u \<Rightarrow> Inl u
                             | Inr rawmap \<Rightarrow>
                                 if crc16_simple (take (w32 (m_hunkcount c * 12)) rawmap) \<noteq> mapcrc
                                 then Inr (Some (Chd_Error DECOMPRESSION_ERROR), c\<lparr>m_rawmap := rawmap\<rparr>)
                                 else Inr (None, c\<lparr>m_rawmap := rawmap\<rparr>)))"

end
