(* ===== verification/Chd_Map_Code.thy ===== *)
theory Chd_Map_Code
  imports Chd_Map Chd_Chain
begin

text \<open>
  The layers of the compressed map, one by one: the run-length code of the types, the Huffman code
  of the symbols, the fields behind the types, the promotion of references, the bits as a whole.
\<close>

subsection \<open>The run-length code\<close>

text \<open>
  \<open>produces src l k ts src'\<close>: from the previous type \<open>l\<close> and \<open>k\<close> repeats left, the symbols \<open>src\<close>
  give the types \<open>ts\<close>, with \<open>src'\<close> and no repeats left over.
\<close>

primrec produces :: "nat list \<Rightarrow> nat \<Rightarrow> nat \<Rightarrow> nat list \<Rightarrow> nat list \<Rightarrow> bool" where
  "produces src l k [] src' \<longleftrightarrow> src' = src \<and> k = 0"
| "produces src l k (t # ts) src' \<longleftrightarrow> (\<exists>k1 src1. next_type src l k = Inr (t, k1, src1) \<and> produces src1 t k1 ts src')"

lemma produces_append:
  "produces src l k ts src' \<Longrightarrow> produces src' (List.last (l # ts)) 0 us src'' \<Longrightarrow> produces src l k (ts @ us) src''"
  by (induction ts arbitrary: src l k) auto

lemma produces_repeats: "produces src l k (replicate k l) src"
  by (induction k) (auto simp: next_type.simps)

definition plain :: "nat \<Rightarrow> bool" where
  "plain t \<longleftrightarrow> t \<noteq> COMPRESSION_RLE_SMALL \<and> t \<noteq> COMPRESSION_RLE_LARGE"

lemma last_replicate_same: "List.last (l # replicate k l) = l"
  by (cases k) auto

lemma next_type_large: "next_type (COMPRESSION_RLE_LARGE # a # b # rest) l 0 = Inr (l, 2 + 16 + a * 16 + b, rest)"
  by (simp add: next_type.simps pseudo_types)

lemma produces_flush:
  assumes "plain l"
  shows "produces (flush_types l k @ rest) l 0 (replicate k l) rest"
  using assms
proof (induction l k arbitrary: rest rule: flush_types.induct)
  case (1 l k)
  consider "k = 0" | "0 < k" "k < 3" | "3 \<le> k" "k \<le> 18" | "18 < k" by linarith
  then show ?case
  proof cases
    case 2
    then have "flush_types l k = l # flush_types l (k - 1)" "replicate k l = l # replicate (k - 1) l"
      by (simp add: flush_types.simps, cases k) auto
    with 1(1) [OF _ _ 1(3), of rest] 2 1(3) show ?thesis by (simp add: next_type.simps plain_def)
  next
    case 3
    then have "flush_types l k = [COMPRESSION_RLE_SMALL, k - 3]" "replicate k l = l # replicate (2 + (k - 3)) l"
      by (simp add: flush_types.simps) (use 3 in \<open>simp flip: replicate_Suc\<close>)
    then show ?thesis using produces_repeats [of rest l "2 + (k - 3)"] by (auto simp: next_type.simps)
  next
    case 4
    define c where "c = min k 274"
    have c: "19 \<le> c" "c \<le> k" using 4 by (auto simp: c_def)
    have fl: "flush_types l k = COMPRESSION_RLE_LARGE # (c - 19) div 16 # (c - 19) mod 16 # flush_types l (k - c)"
      using 4 by (subst flush_types.simps) (simp add: c_def Let_def)
    have sum: "2 + 16 + (c - 19) div 16 * 16 + (c - 19) mod 16 = c - 1"
      using c div_mult_mod_eq [of "c - 19" 16] by linarith
    have "replicate c l = l # replicate (c - 1) l" using c by (cases c) auto
    then have "produces (flush_types l k @ rest) l 0 (replicate c l) (flush_types l (k - c) @ rest)"
      using produces_repeats [of "flush_types l (k - c) @ rest" l "c - 1"]
      by (simp only: fl append_Cons produces.simps next_type_large sum) blast
    moreover have "produces (flush_types l (k - c) @ rest) l 0 (replicate (k - c) l) rest"
      using 1(2) [OF _ _ _ _ 1(3), of c rest] 4 by (simp add: c_def)
    ultimately have "produces (flush_types l k @ rest) l 0 (replicate c l @ replicate (k - c) l) rest"
      using produces_append last_replicate_same by metis
    then show ?thesis using c by (simp flip: replicate_add)
  qed (simp add: flush_types.simps)
qed

text \<open>The run-length code of a list of types, and that the loop over the hunks computes it.\<close>

primrec rle_types :: "nat \<Rightarrow> nat \<Rightarrow> nat list \<Rightarrow> nat list" where
  "rle_types l k [] = []"
| "rle_types l k (t # ts) =
     (if t \<noteq> l then flush_types l k @ t # rle_types t 0 ts
      else if ts = [] then flush_types l (k + 1)
      else rle_types l (k + 1) ts)"

lemma produces_rle:
  "plain l \<Longrightarrow> \<forall>t \<in> set ts. plain t \<Longrightarrow> ts \<noteq> [] \<or> k = 0 \<Longrightarrow> produces (rle_types l k ts @ rest) l 0 (replicate k l @ ts) rest"
proof (induction ts arbitrary: l k)
  case (Cons t ts)
  show ?case
  proof (cases "t = l")
    case False
    have "produces (flush_types l k @ t # rle_types t 0 ts @ rest) l 0 (replicate k l) (t # rle_types t 0 ts @ rest)"
      by (rule produces_flush [OF Cons.prems(1)])
    moreover have "produces (t # rle_types t 0 ts @ rest) l 0 (t # ts) rest"
      using Cons.IH [of t 0] Cons.prems(2) by (simp add: next_type.simps plain_def)
    ultimately show ?thesis using produces_append last_replicate_same False by fastforce
  next
    case True
    have eq: "replicate k l @ t # ts = replicate (k + 1) l @ ts" using True by (simp add: replicate_app_Cons_same)
    show ?thesis
    proof (cases "ts = []")
      case ts: True
      have "rle_types l k (t # ts) = flush_types l (k + 1)" using True ts by simp
      with produces_flush [OF Cons.prems(1), of "k + 1" rest] ts eq show ?thesis by (simp only: append_Nil2)
    next
      case ts: False
      have "rle_types l k (t # ts) = rle_types l (k + 1) ts" using True ts by simp
      moreover have "produces (rle_types l (k + 1) ts @ rest) l 0 (replicate (k + 1) l @ ts) rest"
        using Cons.prems ts by (intro Cons.IH) auto
      ultimately show ?thesis by (simp only: eq)
    qed
  qed
qed simp

primrec promote_all :: "nat \<Rightarrow> nat \<Rightarrow> nat \<Rightarrow> bytes list \<Rightarrow> promotion \<Rightarrow> nat list \<times> promotion" where
  "promote_all hunkbytes unitbytes hunknum [] st = ([], st)"
| "promote_all hunkbytes unitbytes hunknum (e # es) st =
     (let (t, st1) = promote hunkbytes unitbytes hunknum e st; (ts, st2) = promote_all hunkbytes unitbytes (Suc hunknum) es st1
      in (t # ts, st2))"

lemma length_promote_all [simp]: "length (fst (promote_all hb ub h es st)) = length es"
  by (induction es arbitrary: h st) (auto simp: split_beta Let_def)

lemma promote_all_Nil [simp]: "fst (promote_all hb ub h es st) = [] \<longleftrightarrow> es = []"
  by (metis length_0_conv length_promote_all)

lemma types_loop_rle:
  "types_loop hb ub h es st l k = (rle_types l k (fst (promote_all hb ub h es st)), snd (promote_all hb ub h es st))"
proof (induction es arbitrary: h st l k)
  case (Cons e es)
  obtain t st1 where p: "promote hb ub h e st = (t, st1)" by fastforce
  show ?case by (simp add: p Cons split_beta Let_def)
qed simp

lemma flush_types_bounds:
  shows "length (flush_types l k) \<le> k" "l < 16 \<Longrightarrow> \<forall>s \<in> set (flush_types l k). s < 16"
proof (atomize (full), induction l k rule: flush_types.induct)
  case (1 l k)
  consider "k = 0" | "0 < k" "k < 3" | "3 \<le> k" "k \<le> 18" | "18 < k" by linarith
  then show ?case
  proof cases
    case 2
    then have "flush_types l k = l # flush_types l (k - 1)" by (simp add: flush_types.simps)
    with 1(1) 2 show ?thesis by auto
  next
    case 3
    then have "flush_types l k = [COMPRESSION_RLE_SMALL, k - 3]" by (simp add: flush_types.simps)
    with 3 show ?thesis by (auto simp: pseudo_types)
  next
    case 4
    define c where "c = min k 274"
    have fl: "flush_types l k = COMPRESSION_RLE_LARGE # (c - 19) div 16 # (c - 19) mod 16 # flush_types l (k - c)"
      using 4 by (subst flush_types.simps) (simp add: c_def Let_def)
    have "(c - 19) div 16 < 16" "19 \<le> c" "c \<le> k" using 4 by (auto simp: c_def)
    moreover have "length (flush_types l (k - c)) \<le> k - c \<and> (l < 16 \<longrightarrow> (\<forall>s \<in> set (flush_types l (k - c)). s < 16))"
      using 1(2) [of c] 4 by (simp add: c_def)
    ultimately show ?thesis unfolding fl by (auto simp: pseudo_types)
  qed (simp add: flush_types.simps)
qed

lemma length_rle_types: "length (rle_types l k ts) \<le> k + length ts"
proof (induction ts arbitrary: l k)
  case (Cons t ts)
  from flush_types_bounds(1) [of l k] flush_types_bounds(1) [of l "k + 1"] Cons.IH [of t 0] Cons.IH [of l "k + 1"]
  show ?case by simp
qed simp

lemma rle_types_symbols: "l < 16 \<Longrightarrow> \<forall>t \<in> set ts. t < 16 \<Longrightarrow> s \<in> set (rle_types l k ts) \<Longrightarrow> s < 16"
proof (induction ts arbitrary: l k)
  case (Cons t ts)
  consider "s \<in> set (flush_types l k)" | "s \<in> set (flush_types l (k + 1))" | "s = t"
    | "s \<in> set (rle_types t 0 ts)" | "s \<in> set (rle_types l (k + 1) ts)"
    using Cons.prems(3) by (auto split: if_splits)
  then show ?case
    using flush_types_bounds(2) [OF Cons.prems(1)] Cons.IH [of t 0] Cons.IH [of l "k + 1"] Cons.prems(1,2) by cases auto
qed simp

subsection \<open>The symbols as bits\<close>

lemma decode_types_at:
  assumes "produces src l k ts src'" "in_at lim s (concat (map (code_bits enc) src) @ rest)"
    "\<forall>i \<in> set src. symbol_ok enc dec i \<and> i < 16"
  shows "\<exists>s'. decode_types dec (length ts) l k s = (ts, s') \<and> in_at lim s' (concat (map (code_bits enc) src') @ rest)"
  using assms
proof (induction ts arbitrary: src l k s)
  case (Cons t ts)
  let ?bits = "\<lambda>xs. concat (map (code_bits enc) xs) @ rest"
  obtain k1 src1 where n: "next_type src l k = Inr (t, k1, src1)" "produces src1 t k1 ts src'" using Cons.prems(1) by auto
  have dec: "\<exists>s1. decode_one dec s = (v, s1) \<and> in_at lim s1 (?bits xs)" if "in_at lim s (?bits (v # xs))" "symbol_ok enc dec v" for v xs s
    using huff.rd_at [of enc dec v lim s "?bits xs"] that by (auto simp: prod_eq_iff)
  show ?case
  proof (cases "k = 0")
    case False
    then have "t = l" "k1 = k - 1" "src1 = src" using n(1) by (auto simp: next_type.simps)
    with Cons.IH [of src l "k - 1" s] n(2) Cons.prems(2,3) False show ?thesis by auto
  next
    case True
    then obtain v src0 where src: "src = v # src0" using n(1) by (cases src) (auto simp: next_type.simps)
    obtain s1 where s1: "decode_one dec s = (v, s1)" "in_at lim s1 (?bits src0)"
      using dec [of s v src0] Cons.prems(2,3) by (auto simp: src)
    have v: "v mod 256 = v" using Cons.prems(3) by (simp add: src)
    consider (small) a src2 where "v = COMPRESSION_RLE_SMALL" "src0 = a # src2" "t = l" "k1 = 2 + a" "src1 = src2"
      | (large) a b src2 where "v = COMPRESSION_RLE_LARGE" "src0 = a # b # src2" "t = l" "k1 = 2 + 16 + a * 16 + b" "src1 = src2"
      | (lit) "plain v" "t = v" "k1 = 0" "src1 = src0"
      using n(1) True by (auto simp: src next_type.simps plain_def split: if_splits list.splits)
    then show ?thesis
    proof cases
      case small
      obtain s2 where s2: "decode_one dec s1 = (a, s2)" "in_at lim s2 (?bits src2)"
        using dec [of s1 a src2] s1(2) Cons.prems(3) by (auto simp: src small(2))
      obtain s' where "decode_types dec (length ts) l (2 + a) s2 = (ts, s')" "in_at lim s' (?bits src')"
        using Cons.IH [of src2 l "2 + a" s2] n(2) s2(2) Cons.prems(3) small src by auto
      then show ?thesis using s1(1) s2(1) True v small by simp
    next
      case large
      obtain s2 where s2: "decode_one dec s1 = (a, s2)" "in_at lim s2 (?bits (b # src2))"
        using dec [of s1 a "b # src2"] s1(2) Cons.prems(3) by (auto simp: src large(2))
      obtain s3 where s3: "decode_one dec s2 = (b, s3)" "in_at lim s3 (?bits src2)"
        using dec [of s2 b src2] s2(2) Cons.prems(3) by (auto simp: src large(2))
      obtain s' where "decode_types dec (length ts) l (2 + 16 + a * 16 + b) s3 = (ts, s')" "in_at lim s' (?bits src')"
        using Cons.IH [of src2 l "2 + 16 + a * 16 + b" s3] n(2) s3(2) Cons.prems(3) large src by auto
      then show ?thesis using s1(1) s2(1) s3(1) True v large by (simp add: pseudo_types)
    next
      case lit
      obtain s' where "decode_types dec (length ts) v 0 s1 = (ts, s')" "in_at lim s' (?bits src')"
        using Cons.IH [of src0 v 0 s1] n(2) s1(2) Cons.prems(3) lit src by auto
      then show ?thesis using s1(1) True v lit by (simp add: plain_def)
    qed
  qed
qed auto

subsection \<open>The fields behind the types\<close>

definition extra_fields :: "nat \<Rightarrow> nat \<Rightarrow> nat \<Rightarrow> nat \<times> bytes \<Rightarrow> (u32 \<times> nat) list" where
  "extra_fields lb sb pb = (\<lambda>(t, e).
     if t < 4 then [(of_nat (e_length e), lb), (ucast (e_crc e), 16)]
     else if t = 4 then [(ucast (e_crc e), 16)]
     else if t = 5 then [(of_nat (e_offset e), sb)]
     else if t = 6 then [(of_nat (e_offset e), pb)]
     else [])"

definition fields_bits :: "(u32 \<times> nat) list \<Rightarrow> bool list" where
  "fields_bits fs = concat (map (\<lambda>(v, n). wbits v n) fs)"

lemma fields_bits_simps [simp]:
  "fields_bits [] = []" "fields_bits ((v, n) # fs) = wbits v n @ fields_bits fs" "fields_bits (fs @ gs) = fields_bits fs @ fields_bits gs"
  by (simp_all add: fields_bits_def)

definition first_data :: "nat \<Rightarrow> (nat \<times> bytes) list \<Rightarrow> nat" where
  "first_data = foldl (\<lambda>fo (t, e). if t \<le> 4 \<and> fo = 0 then e_offset e else fo)"

text \<open>The asserts of the second pass, and what it writes when they hold.\<close>

definition extra_fits :: "nat \<Rightarrow> nat \<Rightarrow> nat \<Rightarrow> nat \<times> bytes \<Rightarrow> bool" where
  "extra_fits lb sb pb = (\<lambda>(t, e).
     (t < 4 \<longrightarrow> e_length e < 2 ^ lb) \<and> (t = 5 \<longrightarrow> e_offset e < 2 ^ sb) \<and> (t = 6 \<longrightarrow> e_offset e < 2 ^ pb))"

definition write_fields :: "(u32 \<times> nat) list \<Rightarrow> bitstream_out \<Rightarrow> bitstream_out" where
  "write_fields = fold (\<lambda>(v, n). bs_write v (int n))"

lemma write_extra_fits:
  "extra_fits lb sb pb (t, e) \<Longrightarrow> write_extra lb sb pb t e bitbuf = Inr (write_fields (extra_fields lb sb pb (t, e)) bitbuf)"
  by (simp add: extra_fits_def write_extra_def extra_fields_def write_fields_def)

lemma extra_loop_produced:
  assumes "produces src l k ts src'" "length ts = length es" "\<forall>te \<in> set (zip ts es). extra_fits lb sb pb te"
  shows "extra_loop lb sb pb es src l k fo bitbuf =
    Inr (first_data fo (zip ts es), write_fields (concat (map (extra_fields lb sb pb) (zip ts es))) bitbuf)"
  using assms
proof (induction ts arbitrary: es src l k fo bitbuf)
  case (Cons t ts)
  then obtain e es' where es: "es = e # es'" by (cases es) auto
  obtain k' src1 where n: "next_type src l k = Inr (t, k', src1)" "produces src1 t k' ts src'" using Cons.prems(1) by auto
  have "extra_loop lb sb pb es' src1 t k' fo' bitbuf' =
      Inr (first_data fo' (zip ts es'), write_fields (concat (map (extra_fields lb sb pb) (zip ts es'))) bitbuf')" for fo' bitbuf'
    using Cons.prems es by (intro Cons.IH [OF n(2)]) auto
  then show ?case
    using Cons.prems(3) n(1) by (simp add: es write_extra_fits) (simp add: first_data_def write_fields_def)
qed (simp add: first_data_def write_fields_def)

lemma length_extra_fields:
  "length (fields_bits (extra_fields lb sb pb te)) \<le> max (lb + 16) (max sb pb)"
  by (cases te) (auto simp: extra_fields_def)

lemma length_all_extra: "length (fields_bits (concat (map (extra_fields lb sb pb) tes))) \<le> max (lb + 16) (max sb pb) * length tes"
proof (induction tes)
  case (Cons te tes)
  with length_extra_fields [of lb sb pb te] show ?case by (simp add: fields_bits_def)
qed simp

subsection \<open>Promotion is undone\<close>

text \<open>
  The maps the compressor writes: data entries follow each other in the file from \<open>co\<close> on, an
  uncompressed one has the length of a hunk, references have no length and no checksum and fit 32
  bits.
\<close>

definition is_data :: "bytes \<Rightarrow> bool" where
  "is_data e \<longleftrightarrow> unat (e ! 0) \<le> 4"

definition entry_ok :: "nat \<Rightarrow> nat \<Rightarrow> bytes \<Rightarrow> bool" where
  "entry_ok hunkbytes co e \<longleftrightarrow>
     length e = 12 \<and> unat (e ! 0) \<le> 6 \<and>
     (is_data e \<longrightarrow> e_offset e = co \<and> (unat (e ! 0) = 4 \<longrightarrow> e_length e = hunkbytes)) \<and>
     (\<not> is_data e \<longrightarrow> e_length e = 0 \<and> e_crc e = 0 \<and> e_offset e < 2 ^ 32)"

primrec map_ok :: "nat \<Rightarrow> nat \<Rightarrow> bytes list \<Rightarrow> bool" where
  "map_ok hunkbytes co [] \<longleftrightarrow> True"
| "map_ok hunkbytes co (e # es) \<longleftrightarrow>
     entry_ok hunkbytes co e \<and> map_ok hunkbytes (if is_data e then co + e_length e else co) es"

lemma take_bit_less: "take_bit n w = w \<Longrightarrow> unat (w :: 'a::len word) < 2 ^ n"
  by (metis take_bit_nat_less_exp unsigned_take_bit_eq)

lemma take_bit_byte: "k + 8 \<le> n \<Longrightarrow> take_bit n (push_bit k (ucast (b :: u8)) :: 'a::len word) = push_bit k (ucast b)"
  by (rule bit_word_eqI) (auto simp: bit_simps dest: bit_imp_le_length)

lemma take_bit_byte0: "8 \<le> n \<Longrightarrow> take_bit n (ucast (b :: u8) :: 'a::len word) = ucast b"
  using take_bit_byte [of 0 n b] by simp

lemma e_length_less: "e_length e < 2 ^ 24"
  unfolding e_length_def
  by (rule take_bit_less) (simp only: get_u24be_def take_bit_or, simp add: take_bit_byte take_bit_byte0)

lemma e_offset_less: "e_offset e < 2 ^ 48"
  unfolding e_offset_def
  by (rule take_bit_less) (simp only: get_u48be_def take_bit_or, simp add: take_bit_byte take_bit_byte0)

text \<open>The bytes of a joined word, one at a time.\<close>

lemma byte_same: "k + 8 \<le> LENGTH('a) \<Longrightarrow> (ucast (drop_bit k (push_bit k (ucast (b :: u8)) :: 'a::len word)) :: u8) = b"
  by (rule bit_word_eqI) (auto simp: bit_simps)

lemma byte_other:
  "j + 8 \<le> k \<or> k + 8 \<le> j \<Longrightarrow> (ucast (drop_bit k (push_bit j (ucast (b :: u8)) :: 'a::len word)) :: u8) = 0"
  by (rule bit_word_eqI) (auto simp: bit_simps dest: bit_imp_le_length)

lemma byte_join_or:
  "(ucast (drop_bit k (x OR y :: 'a::len word)) :: u8) = ucast (drop_bit k x) OR ucast (drop_bit k y)"
  by (rule bit_word_eqI) (auto simp: bit_simps)

lemma byte_low:
  "8 \<le> k \<Longrightarrow> (ucast (drop_bit k (ucast (b :: u8) :: 'a::len word)) :: u8) = 0"
  "8 \<le> j \<Longrightarrow> (ucast (push_bit j (ucast b) :: 'a::len word) :: u8) = 0"
  "8 \<le> LENGTH('a) \<Longrightarrow> (ucast (ucast b :: 'a::len word) :: u8) = b"
  "(ucast (x OR y :: 'a::len word) :: u8) = ucast x OR ucast y"
  by (rule bit_word_eqI; auto simp: bit_simps dest: bit_imp_le_length)+

lemmas byte_of = byte_join_or byte_same byte_other byte_low

lemma put_get_u16be: "put_u16be (get_u16be e) buf = take 2 e @ drop 2 buf" if "2 \<le> length buf" "2 \<le> length e"
proof -
  have e: "take 2 e = [e ! 0, e ! 1]" using that(2) by (cases e; cases "tl e") auto
  show ?thesis unfolding put_u16be_front [OF that(1)] e get_u16be_def by (simp add: byte_of)
qed

lemma take_nth_list: "n \<le> length e \<Longrightarrow> take n e = map (\<lambda>i. e ! i) [0..<n]"
  by (rule nth_equalityI) auto

lemma put_get_u24be: "put_u24be (get_u24be e) buf = take 3 e @ drop 3 buf" if "3 \<le> length buf" "3 \<le> length e"
  unfolding put_u24be_front [OF that(1)] take_nth_list [OF that(2)] get_u24be_def
  by (simp add: byte_of upt_conv_Cons numeral_2_eq_2)

lemma put_get_u48be: "put_u48be (get_u48be e) buf = take 6 e @ drop 6 buf" if "6 \<le> length buf" "6 \<le> length e"
  unfolding put_u48be_front [OF that(1)] take_nth_list [OF that(2)] get_u48be_def
  by (simp add: byte_of upt_conv_Cons) (simp add: eval_nat_numeral)

text \<open>An entry is rebuilt from its type and its fields.\<close>

lemma rebuild_entry:
  assumes "length e = 12" "12 \<le> length buf"
  shows "put_map_entry (e ! 0) (e_length e) (e_offset e) (e_crc e) buf = e @ drop 12 buf"
proof -
  have f: "of_nat (e_length e) = get_u24be (drop 1 e)" "of_nat (e_offset e) = get_u48be (drop 4 e)" "e_crc e = get_u16be (drop 10 e)"
    by (simp_all add: e_length_def e_offset_def e_crc_def)
  have a: "buf[0 := e ! 0] = take 1 e @ drop 1 buf" using assms by (cases e; cases buf) auto
  have step: "at_off i f (take i e @ drop i buf) = take (i + k) e @ drop (i + k) buf"
    if "f (drop i buf) = take k (drop i e) @ drop k (drop i buf)" "i + k \<le> 12" for i k f
    using that assms by (simp add: at_off_def take_add add.commute)
  have b: "at_off 1 (put_u24be (get_u24be (drop 1 e))) (take 1 e @ drop 1 buf) = take 4 e @ drop 4 buf"
    using step [of "put_u24be (get_u24be (drop 1 e))" 1 3] put_get_u24be [of "drop 1 buf" "drop 1 e"] assms by simp
  have c: "at_off 4 (put_u48be (get_u48be (drop 4 e))) (take 4 e @ drop 4 buf) = take 10 e @ drop 10 buf"
    using step [of "put_u48be (get_u48be (drop 4 e))" 4 6] put_get_u48be [of "drop 4 buf" "drop 4 e"] assms by simp
  have d: "at_off 10 (put_u16be (get_u16be (drop 10 e))) (take 10 e @ drop 10 buf) = e @ drop 12 buf"
    using step [of "put_u16be (get_u16be (drop 10 e))" 10 2] put_get_u16be [of "drop 10 buf" "drop 10 e"] assms by simp
  show ?thesis by (simp only: put_map_entry_def f a b c d)
qed

text \<open>The widths: every field fits.\<close>

definition promotion_le :: "promotion \<Rightarrow> promotion \<Rightarrow> bool" where
  "promotion_le st st' \<longleftrightarrow> max_self st \<le> max_self st' \<and> max_parent st \<le> max_parent st' \<and> max_complen st \<le> max_complen st'"

lemma promote_le: "promotion_le st (snd (promote hb ub h e st))"
  by (simp add: promote_def promotion_le_def Let_def)

lemma promotion_le_trans: "promotion_le a b \<Longrightarrow> promotion_le b c \<Longrightarrow> promotion_le a c"
  by (auto simp: promotion_le_def)

lemma promote_all_le: "promotion_le st (snd (promote_all hb ub h es st))"
proof (induction es arbitrary: h st)
  case (Cons e es)
  obtain t st1 where p: "promote hb ub h e st = (t, st1)" by fastforce
  with promote_le [of st hb ub h e] Cons [of st1 "Suc h"] show ?case
    by (auto simp: split_beta Let_def intro: promotion_le_trans)
qed (simp add: promotion_le_def)

definition fits :: "nat \<Rightarrow> nat \<Rightarrow> nat \<Rightarrow> promotion \<Rightarrow> bool" where
  "fits lb sb pb st \<longleftrightarrow> max_complen st < 2 ^ lb \<and> max_self st < 2 ^ sb \<and> max_parent st < 2 ^ pb \<and> lb \<le> 25 \<and> sb \<le> 25 \<and> pb \<le> 25"

lemma fits_le: "promotion_le st st' \<Longrightarrow> fits lb sb pb st' \<Longrightarrow> fits lb sb pb st"
  by (auto simp: promotion_le_def fits_def)

lemma promote_extra_fits:
  assumes "promote hb ub h e st = (t, st')" "fits lb sb pb st'" "unat (e ! 0) \<le> 6" "\<not> is_data e \<longrightarrow> e_offset e < 2 ^ 32"
  shows "extra_fits lb sb pb (t, e)"
proof -
  have w: "w32 (e_offset e) = e_offset e" if "5 \<le> unat (e ! 0)" using assms(4) that by (simp add: is_data_def w32_small)
  have t: "t < 4 \<longrightarrow> e_length e \<le> max_complen st'" "t = 5 \<longrightarrow> e_offset e \<le> max_self st'" "t = 6 \<longrightarrow> e_offset e \<le> max_parent st'"
    using assms(1,3) w by (auto simp: promote_def Let_def pseudo_types split: if_splits)
  then show ?thesis using assms(2) by (auto simp: extra_fits_def fits_def)
qed

lemma promote_all_extra_fits:
  assumes "fits lb sb pb (snd (promote_all hb ub h es st))" "\<forall>e \<in> set es. unat (e ! 0) \<le> 6 \<and> (\<not> is_data e \<longrightarrow> e_offset e < 2 ^ 32)"
  shows "\<forall>te \<in> set (zip (fst (promote_all hb ub h es st)) es). extra_fits lb sb pb te"
  using assms
proof (induction es arbitrary: h st)
  case (Cons e es)
  obtain t st1 where p: "promote hb ub h e st = (t, st1)" by fastforce
  have f: "fits lb sb pb (snd (promote_all hb ub (Suc h) es st1))" using Cons.prems(1) p by (simp add: split_beta Let_def)
  then have "fits lb sb pb st1" using fits_le [OF promote_all_le] by blast
  then have "extra_fits lb sb pb (t, e)" using promote_extra_fits [OF p] Cons.prems(2) by simp
  with Cons.IH [OF f] Cons.prems(2) p show ?case by (simp add: split_beta Let_def)
qed simp

text \<open>One entry: what the compressor promoted, the decompressor demotes to the same fields.\<close>

definition matched :: "promotion \<Rightarrow> demotion \<Rightarrow> bool" where
  "matched st d \<longleftrightarrow> d_self d = last_self st \<and> d_parent d = last_parent st"

lemma read_fld:
  assumes "in_at lim s (wbits (of_nat v) n @ rest)" "n \<le> 25" "v < 2 ^ n"
  shows "\<exists>s'. bs_read (int n) s = (of_nat v, s') \<and> unat (of_nat v :: u32) = v \<and> in_at lim s' rest"
proof -
  have "(2 :: nat) ^ n \<le> 2 ^ 25" using assms(2) by (intro power_increasing) auto
  then have "take_bit n (of_nat v :: u32) = of_nat v" "unat (of_nat v :: u32) = v"
    using assms(3) by (simp_all add: take_bit_of_nat_word unat_of_nat_small)
  with bs_read_at [OF assms(1,2)] show ?thesis by (metis prod.collapse)
qed

lemma read_crc:
  assumes "in_at lim s (wbits (ucast (v :: u16)) 16 @ rest)"
  shows "\<exists>s'. bs_read 16 s = (ucast v, s') \<and> (ucast (ucast v :: u32) :: u16) = v \<and> in_at lim s' rest"
proof -
  have "take_bit 16 (ucast v :: u32) = ucast v" "(ucast (ucast v :: u32) :: u16) = v"
    by (rule bit_word_eqI; auto simp: bit_simps dest: bit_imp_le_length)+
  moreover have "fst (bs_read 16 s) = take_bit 16 (ucast v) \<and> in_at lim (snd (bs_read 16 s)) rest"
    using bs_read_at [OF assms] by simp
  ultimately show ?thesis by (metis prod.collapse)
qed

lemma unat_eq_of_nat: "unat (x :: u8) = n \<Longrightarrow> of_nat n = x"
  by auto

lemma promote_self:
  assumes "promote hb ub h e st = (t, st')" "unat (e ! 0) = 5" "w32 (e_offset e) = e_offset e"
  shows "t = COMPRESSION_SELF_0 \<and> e_offset e = last_self st \<and> st' = st\<lparr>last_self := e_offset e\<rparr> \<or>
    t = COMPRESSION_SELF_1 \<and> e_offset e = w32 (last_self st + 1) \<and> st' = st\<lparr>last_self := e_offset e\<rparr> \<or>
    t = 5 \<and> last_self st' = e_offset e \<and> last_parent st' = last_parent st \<and> e_offset e \<le> max_self st'"
proof -
  have "promote hb ub h e st =
      (if e_offset e = last_self st then (COMPRESSION_SELF_0, st\<lparr>last_self := e_offset e\<rparr>)
       else if e_offset e = w32 (last_self st + 1) then (COMPRESSION_SELF_1, st\<lparr>last_self := e_offset e\<rparr>)
       else (5, st\<lparr>max_self := max (max_self st) (e_offset e), last_self := e_offset e\<rparr>))"
    using assms(2,3) by (simp add: promote_def Let_def)
  then show ?thesis
    using assms(1) by (cases "e_offset e = last_self st"; cases "e_offset e = w32 (last_self st + 1)") auto
qed

lemma promote_parent:
  assumes "promote hb ub h e st = (t, st')" "unat (e ! 0) = 6" "w32 (e_offset e) = e_offset e"
  shows "t = COMPRESSION_PARENT_SELF \<and> e_offset e = h * hb div ub \<and> st' = st\<lparr>last_parent := e_offset e\<rparr> \<or>
    t = COMPRESSION_PARENT_0 \<and> e_offset e = last_parent st \<and> st' = st\<lparr>last_parent := e_offset e\<rparr> \<or>
    t = COMPRESSION_PARENT_1 \<and> e_offset e = w64 (last_parent st + hb div ub) \<and> st' = st\<lparr>last_parent := e_offset e\<rparr> \<or>
    t = 6 \<and> last_parent st' = e_offset e \<and> last_self st' = last_self st \<and> e_offset e \<le> max_parent st'"
proof -
  have "promote hb ub h e st =
      (if e_offset e = h * hb div ub then (COMPRESSION_PARENT_SELF, st\<lparr>last_parent := e_offset e\<rparr>)
       else if e_offset e = last_parent st then (COMPRESSION_PARENT_0, st\<lparr>last_parent := e_offset e\<rparr>)
       else if e_offset e = w64 (last_parent st + hb div ub) then (COMPRESSION_PARENT_1, st\<lparr>last_parent := e_offset e\<rparr>)
       else (6, st\<lparr>max_parent := max (max_parent st) (e_offset e), last_parent := e_offset e\<rparr>))"
    using assms(2,3) by (simp add: promote_def Let_def)
  then show ?thesis
    using assms(1)
    by (cases "e_offset e = h * hb div ub"; cases "e_offset e = last_parent st"; cases "e_offset e = w64 (last_parent st + hb div ub)") auto
qed

lemma read_extra_entry:
  assumes ok: "entry_ok hb co e" and co: "is_data e \<longrightarrow> cur_offset d = co \<and> co + e_length e < 2 ^ 64"
    and pr: "promote hb ub h e st = (t, st')" and m: "matched st d" and fit: "fits lb sb pb st'"
    and ub: "ub \<noteq> 0" and at: "in_at lim s (fields_bits (extra_fields lb sb pb (t, e)) @ rest)"
  shows "\<exists>d' s'. read_extra hb ub lb sb pb h t d s = Inr ((unat (e ! 0), e_length e, e_offset e, e_crc e), d', s') \<and>
    matched st' d' \<and> cur_offset d' = (if is_data e then co + e_length e else cur_offset d) \<and> in_at lim s' rest"
proof -
  define c where "c = unat (e ! 0)"
  have cc: "c \<le> 6" using ok by (simp add: entry_ok_def c_def)
  consider "c < 4" | "c = 4" | "c = 5" | "c = 6" using cc by linarith
  then show ?thesis
  proof cases
    case 1
    then have t: "t = c" "st' = st\<lparr>max_complen := max (max_complen st) (e_length e)\<rparr>" "is_data e"
      using pr by (auto simp: promote_def c_def is_data_def Let_def)
    have "e_length e < 2 ^ lb" "lb \<le> 25" using fit t(2) by (auto simp: fits_def)
    moreover have "in_at lim s (wbits (of_nat (e_length e)) lb @ wbits (ucast (e_crc e)) 16 @ rest)"
      using at 1 t(1) by (simp add: extra_fields_def)
    ultimately obtain s1 where s1: "bs_read (int lb) s = (of_nat (e_length e), s1)" "unat (of_nat (e_length e) :: u32) = e_length e"
        "in_at lim s1 (wbits (ucast (e_crc e)) 16 @ rest)"
      using read_fld by blast
    obtain s2 where s2: "bs_read 16 s1 = (ucast (e_crc e), s2)" "(ucast (ucast (e_crc e) :: u32) :: u16) = e_crc e" "in_at lim s2 rest"
      using read_crc [OF s1(3)] by blast
    show ?thesis
      using 1 t s1 s2 co ok m \<open>lb \<le> 25\<close> by (simp add: read_extra_def entry_ok_def matched_def w64_small c_def)
  next
    case 2
    then have t: "t = 4" "last_self st' = last_self st" "last_parent st' = last_parent st" "is_data e"
      using pr by (auto simp: promote_def c_def is_data_def Let_def)
    obtain s1 where s1: "bs_read 16 s = (ucast (e_crc e), s1)" "(ucast (ucast (e_crc e) :: u32) :: u16) = e_crc e" "in_at lim s1 rest"
      using read_crc [of lim s "e_crc e" rest] at t(1) by (auto simp: extra_fields_def)
    show ?thesis
      using 2 t s1 co ok m by (simp add: read_extra_def entry_ok_def matched_def w64_small c_def)
  next
    case 3
    then have nd: "\<not> is_data e" by (simp add: is_data_def c_def)
    then have e: "e_length e = 0" "e_crc e = 0" "w32 (e_offset e) = e_offset e" using ok by (auto simp: entry_ok_def w32_small)
    consider "t = COMPRESSION_SELF_0" "e_offset e = last_self st" "st' = st\<lparr>last_self := e_offset e\<rparr>"
      | "t = COMPRESSION_SELF_1" "e_offset e = w32 (last_self st + 1)" "st' = st\<lparr>last_self := e_offset e\<rparr>"
      | "t = 5" "last_self st' = e_offset e" "last_parent st' = last_parent st" "e_offset e \<le> max_self st'"
      using promote_self [OF pr] 3 e(3) c_def by metis
    then show ?thesis
    proof cases
      case 3
      have "e_offset e < 2 ^ sb" "sb \<le> 25" using fit 3(4) by (auto simp: fits_def)
      moreover have "in_at lim s (wbits (of_nat (e_offset e)) sb @ rest)" using at 3(1) by (simp add: extra_fields_def)
      ultimately obtain s1 where "bs_read (int sb) s = (of_nat (e_offset e), s1)" "unat (of_nat (e_offset e) :: u32) = e_offset e" "in_at lim s1 rest"
        using read_fld by blast
      then show ?thesis using 3 \<open>c = 5\<close> nd e m \<open>sb \<le> 25\<close> by (simp add: read_extra_def matched_def c_def)
    qed (use \<open>c = 5\<close> nd e m at in \<open>simp_all add: read_extra_def matched_def pseudo_types extra_fields_def c_def Let_def\<close>)
  next
    case 4
    then have nd: "\<not> is_data e" by (simp add: is_data_def c_def)
    then have e: "e_length e = 0" "e_crc e = 0" "w32 (e_offset e) = e_offset e" using ok by (auto simp: entry_ok_def w32_small)
    consider "t = COMPRESSION_PARENT_SELF" "e_offset e = h * hb div ub" "st' = st\<lparr>last_parent := e_offset e\<rparr>"
      | "t = COMPRESSION_PARENT_0" "e_offset e = last_parent st" "st' = st\<lparr>last_parent := e_offset e\<rparr>"
      | "t = COMPRESSION_PARENT_1" "e_offset e = w64 (last_parent st + hb div ub)" "st' = st\<lparr>last_parent := e_offset e\<rparr>"
      | "t = 6" "last_parent st' = e_offset e" "last_self st' = last_self st" "e_offset e \<le> max_parent st'"
      using promote_parent [OF pr] 4 e(3) c_def by metis
    then show ?thesis
    proof cases
      case 4
      have "e_offset e < 2 ^ pb" "pb \<le> 25" using fit 4(4) by (auto simp: fits_def)
      moreover have "in_at lim s (wbits (of_nat (e_offset e)) pb @ rest)" using at 4(1) by (simp add: extra_fields_def)
      ultimately obtain s1 where "bs_read (int pb) s = (of_nat (e_offset e), s1)" "unat (of_nat (e_offset e) :: u32) = e_offset e" "in_at lim s1 rest"
        using read_fld by blast
      then show ?thesis using 4 \<open>c = 6\<close> nd e m \<open>pb \<le> 25\<close> by (simp add: read_extra_def matched_def c_def)
    qed (use \<open>c = 6\<close> nd e m at ub in \<open>simp_all add: read_extra_def matched_def pseudo_types extra_fields_def c_def Let_def\<close>)
  qed
qed

subsection \<open>The map in memory\<close>

lemma store_types_length [simp]: "length (store_types h ts rawmap) = length rawmap"
  by (induction ts arbitrary: h rawmap) auto

lemma store_types_before:
  "12 * (h + length ts) < 2 ^ 32 \<Longrightarrow> i < 12 * h \<Longrightarrow> store_types h ts rawmap ! i = rawmap ! i"
  by (induction ts arbitrary: h rawmap) (simp_all add: w32_small mult.commute)

lemma store_types_nth:
  assumes "12 * (h + length ts) \<le> length rawmap" "12 * (h + length ts) < 2 ^ 32" "j < length ts"
  shows "store_types h ts rawmap ! (12 * (h + j)) = of_nat (ts ! j)"
  using assms
proof (induction ts arbitrary: h rawmap j)
  case (Cons t ts)
  have w: "w32 (h * 12) = 12 * h" using Cons.prems(2) by (simp add: w32_small)
  let ?r = "rawmap[12 * h := of_nat t]"
  show ?case
  proof (cases j)
    case 0
    then show ?thesis using store_types_before [of "Suc h" ts "12 * h" ?r] Cons.prems by (simp add: w)
  next
    case (Suc k)
    then show ?thesis using Cons.IH [of "Suc h" ?r k] Cons.prems by (simp add: w)
  qed
qed simp

lemma promote_small: "unat (e ! 0) \<le> 6 \<Longrightarrow> fst (promote hb ub h e st) < 16 \<and> plain (fst (promote hb ub h e st))"
  by (simp add: promote_def Let_def pseudo_types plain_def)

lemma entries_loop_ok:
  assumes "map_ok hb co es" "promote_all hb ub h es st = (ts, stf)" "matched st d" "fits lb sb pb stf" "ub \<noteq> 0"
    "(\<exists>e \<in> set es. is_data e) \<longrightarrow> cur_offset d = co"
    "in_at lim s (fields_bits (concat (map (extra_fields lb sb pb) (zip ts es))) @ rest)"
    "length pre = 12 * h" "length R = 12 * length es" "\<forall>j < length es. R ! (12 * j) = of_nat (ts ! j)"
    "12 * (h + length es) < 2 ^ 32"
  shows "entries_loop hb ub lb sb pb [h..<h + length es] d s (pre @ R) = Inr (pre @ concat es)"
  using assms
proof (induction es arbitrary: co h st ts d s pre R)
  case (Cons e es)
  obtain t st1 ts1 where p: "promote hb ub h e st = (t, st1)" "promote_all hb ub (Suc h) es st1 = (ts1, stf)" "ts = t # ts1"
    using Cons.prems(2) by (auto simp: split_beta Let_def) (metis prod.collapse)
  have ok: "entry_ok hb co e" "map_ok hb (if is_data e then co + e_length e else co) es" using Cons.prems(1) by auto
  have le: "length e = 12" "unat (e ! 0) \<le> 6" using ok(1) by (auto simp: entry_ok_def)
  have w: "w32 (h * 12) = 12 * h" using Cons.prems(11) by (simp add: w32_small)
  have "t < 16" using promote_small [OF le(2), of hb ub h st] p(1) by simp
  moreover have "R ! 0 = of_nat t" using Cons.prems(10) [rule_format, of 0] p(3) by simp
  ultimately have ty: "unat ((pre @ R) ! (12 * h)) = t" using Cons.prems(8) by (simp add: nth_append unat_of_nat_small)
  have fit: "fits lb sb pb st1" using fits_le [OF _ Cons.prems(4)] promote_all_le [of st1 hb ub "Suc h" es] p(2) by simp
  have cof: "is_data e \<longrightarrow> cur_offset d = co \<and> co + e_length e < 2 ^ 64"
    using Cons.prems(6) ok(1) e_offset_less [of e] e_length_less [of e] by (auto simp: entry_ok_def)
  have at: "in_at lim s (fields_bits (extra_fields lb sb pb (t, e)) @ fields_bits (concat (map (extra_fields lb sb pb) (zip ts1 es))) @ rest)"
    using Cons.prems(7) p(3) by simp
  obtain d' s' where r: "read_extra hb ub lb sb pb h t d s = Inr ((unat (e ! 0), e_length e, e_offset e, e_crc e), d', s')"
      "matched st1 d'" "cur_offset d' = (if is_data e then co + e_length e else cur_offset d)"
      "in_at lim s' (fields_bits (concat (map (extra_fields lb sb pb) (zip ts1 es))) @ rest)"
    using read_extra_entry [OF ok(1) cof p(1) Cons.prems(3) fit Cons.prems(5) at] by blast
  have new: "at_off (12 * h) (put_map_entry (of_nat (unat (e ! 0))) (e_length e) (e_offset e) (e_crc e)) (pre @ R) = (pre @ e) @ drop 12 R"
    using rebuild_entry [OF le(1), of R] Cons.prems(8,9) by (simp add: at_off_def)
  have rest: "entries_loop hb ub lb sb pb [Suc h..<Suc h + length es] d' s' ((pre @ e) @ drop 12 R) = Inr ((pre @ e) @ concat es)"
  proof (rule Cons.IH [OF ok(2) p(2) r(2) Cons.prems(4,5) _ r(4)])
    show "\<forall>j < length es. drop 12 R ! (12 * j) = of_nat (ts1 ! j)"
    proof (intro allI impI)
      fix j assume "j < length es"
      then show "drop 12 R ! (12 * j) = of_nat (ts1 ! j)"
        using Cons.prems(9) Cons.prems(10) [rule_format, of "Suc j"] p(3) by simp
    qed
  qed (use Cons.prems le r(3) in auto)
  have up: "[h..<h + length (e # es)] = h # [Suc h..<Suc h + length es]" by (simp add: upt_conv_Cons del: upt_Suc)
  show ?case unfolding up by (simp only: entries_loop.simps w ty r(1) sum.case prod.case new rest [unfolded append_assoc] concat.simps append_assoc)
qed simp

lemma produced_types:
  assumes "map_ok hb co es"
  shows "\<forall>t \<in> set (fst (promote_all hb ub h es st)). t < 16 \<and> plain t"
  using assms
proof (induction es arbitrary: co h st)
  case (Cons e es)
  obtain t st1 where p: "promote hb ub h e st = (t, st1)" by fastforce
  have "unat (e ! 0) \<le> 6" using Cons.prems by (simp add: entry_ok_def)
  with promote_small [of e hb ub h st] Cons p show ?case by (auto simp: split_beta Let_def)
qed simp

lemma first_data_start:
  assumes "map_ok hb co es" "0 < co" "length ts = length es" "\<forall>j < length es. ts ! j \<le> 4 \<longleftrightarrow> is_data (es ! j)"
  shows "(\<exists>e \<in> set es. is_data e) \<longrightarrow> first_data 0 (zip ts es) = co" "first_data 0 (zip ts es) < 2 ^ 48"
proof -
  have keep: "fo \<noteq> 0 \<Longrightarrow> first_data fo xs = fo" for fo xs by (induction xs) (auto simp: first_data_def)
  have "((\<exists>e \<in> set es. is_data e) \<longrightarrow> first_data 0 (zip ts es) = co) \<and> first_data 0 (zip ts es) < 2 ^ 48"
    using assms
  proof (induction es arbitrary: ts)
    case (Cons e es)
    then obtain t ts1 where ts: "ts = t # ts1" by (cases ts) auto
    show ?case
    proof (cases "is_data e")
      case True
      then have "e_offset e = co" "t \<le> 4" using Cons.prems(1) Cons.prems(4) [rule_format, of 0] by (auto simp: entry_ok_def ts)
      then have "first_data 0 (zip ts (e # es)) = co"
        using keep [of co "zip ts1 es"] Cons.prems(2) by (simp add: ts first_data_def)
      then show ?thesis using e_offset_less [of e] \<open>e_offset e = co\<close> by simp
    next
      case False
      then have nt: "\<not> t \<le> 4" using Cons.prems(4) [rule_format, of 0] by (simp add: ts)
      have "\<forall>j < length es. ts1 ! j \<le> 4 \<longleftrightarrow> is_data (es ! j)"
        using Cons.prems(4) by (auto simp: ts)
      then have "((\<exists>e \<in> set es. is_data e) \<longrightarrow> first_data 0 (zip ts1 es) = co) \<and> first_data 0 (zip ts1 es) < 2 ^ 48"
        using Cons.prems False ts by (intro Cons.IH) auto
      then show ?thesis using nt False by (simp add: ts first_data_def)
    qed
  qed (simp add: first_data_def)
  then show "(\<exists>e \<in> set es. is_data e) \<longrightarrow> first_data 0 (zip ts es) = co" "first_data 0 (zip ts es) < 2 ^ 48" by auto
qed

lemma promoted_data:
  assumes "\<forall>e \<in> set es. unat (e ! 0) \<le> 6" "j < length es"
  shows "fst (promote_all hb ub h es st) ! j \<le> 4 \<longleftrightarrow> is_data (es ! j)"
  using assms
proof (induction es arbitrary: h st j)
  case (Cons e es)
  obtain t st1 where p: "promote hb ub h e st = (t, st1)" by fastforce
  have "t \<le> 4 \<longleftrightarrow> is_data e" using p Cons.prems(1) by (auto simp: promote_def Let_def is_data_def pseudo_types split: if_splits)
  with Cons p show ?case by (cases j) (auto simp: split_beta Let_def)
qed simp

subsection \<open>The map in the file\<close>

lemma map_header_laws:
  fixes complen fo lb sb pb :: nat and crc :: u16 and buf :: bytes
  assumes "16 \<le> length buf"
  defines "hdr \<equiv> map_header complen fo crc lb sb pb buf"
  shows "length hdr = length buf" "get_u32be hdr = of_nat complen" "get_u48be (drop 4 hdr) = take_bit 48 (of_nat fo)"
    "get_u16be (drop 10 hdr) = crc" "hdr ! 12 = of_nat lb" "hdr ! 13 = of_nat sb" "hdr ! 14 = of_nat pb" "drop 16 hdr = drop 16 buf"
proof -
  let ?a = "at_off 0 (put_u32be (of_nat complen)) buf"
  let ?b = "at_off 4 (put_u48be (of_nat fo)) ?a"
  let ?c = "at_off 10 (put_u16be crc) ?b"
  have len: "length ?a = length buf" "length ?b = length buf" "length ?c = length buf"
    by (simp_all add: f32be.length_at f48be.length_at f16be.length_at)
  have hdr: "hdr = ?c[12 := of_nat lb, 13 := of_nat sb, 14 := of_nat pb, 15 := 0]" by (simp add: hdr_def map_header_def Let_def)
  show "length hdr = length buf" using len by (simp add: hdr)
  have t12: "take 12 hdr = take 12 ?c" by (simp add: hdr)
  have loc: "take k (drop i hdr) = take k (drop i ?c)" if "i + k \<le> 12" for i k
    using arg_cong [OF t12, of "\<lambda>xs. take k (drop i xs)"] that by (simp add: drop_take min_def split: if_splits)
  have "get_u32be hdr = get_u32be (drop 0 ?c)" using loc [of 0 4] by (intro get_u32be_local) simp
  also have "\<dots> = get_u32be (drop 0 ?b)" using assms(1) len by (intro f32be.get_at_before) simp_all
  also have "\<dots> = get_u32be (drop 0 ?a)" using assms(1) len by (intro f32be.get_at_before) simp_all
  also have "\<dots> = of_nat complen" using f32be.get_at_same [of 0 buf "of_nat complen"] assms(1) by (simp add: take_bit_word_all)
  finally show "get_u32be hdr = of_nat complen" .
  have "get_u48be (drop 4 hdr) = get_u48be (drop 4 ?c)" using loc [of 4 6] by (intro get_u48be_local) simp
  also have "\<dots> = get_u48be (drop 4 ?b)" using assms(1) len by (intro f48be.get_at_before) simp_all
  also have "\<dots> = take_bit 48 (of_nat fo)" using f48be.get_at_same [of 4 ?a "of_nat fo"] assms(1) len by simp
  finally show "get_u48be (drop 4 hdr) = take_bit 48 (of_nat fo)" .
  have "get_u16be (drop 10 hdr) = get_u16be (drop 10 ?c)" using loc [of 10 2] by (intro get_u16be_local) simp
  also have "\<dots> = crc" using f16be.get_at_same [of 10 ?b crc] assms(1) len by (simp add: take_bit_word_all)
  finally show "get_u16be (drop 10 hdr) = crc" .
  show "hdr ! 12 = of_nat lb" "hdr ! 13 = of_nat sb" "hdr ! 14 = of_nat pb" using assms(1) len by (simp_all add: hdr)
  have "drop 16 hdr = drop 16 ?c" by (simp add: hdr)
  also have "\<dots> = drop 16 buf"
    using assms(1) len f16be.at_tail [of 10 16 ?b crc] f48be.at_tail [of 4 16 ?a] f32be.at_tail [of 0 16 buf] by simp
  finally show "drop 16 hdr = drop 16 buf" .
qed

lemma bits_for_value_le: "v < 2 ^ k \<Longrightarrow> bits_for_value v \<le> k"
  using bits_for_value_bound(2) [of v] power_less_imp_less_exp [of "2 :: nat" "bits_for_value v - 1" k]
  by (cases "v = 0") (simp add: bits_for_value.simps, fastforce)

text \<open>The tree of the symbols.\<close>

lemma symbol_tree:
  assumes "\<forall>s \<in> set syms. s < 16" "length syms < 2 ^ 31"
  obtains enc1 enc where "compute_tree_from_histo (fold histo_one syms (projr (huffman_encoder 16 8))) = Some (Inr enc)"
    "assign_canonical_codes enc1 = Inr enc" "sized enc1" "m_numcodes enc1 = 16" "m_maxbits enc1 = 8" "kraft 8 (codes enc1) \<le> 2 ^ 8"
    "length (codes enc) = 16" "m_maxbits enc = 8" "\<forall>nd \<in> set (codes enc). n_numbits nd \<le> 8"
    "\<And>s. s \<in> set syms \<Longrightarrow> 0 < n_numbits (m_huffnode enc ! s) \<and> n_numbits (m_huffnode enc ! s) \<le> 8"
proof -
  define ctx0 where "ctx0 = projr (huffman_encoder 16 8)"
  define ctx where "ctx = fold histo_one syms ctx0"
  have c0: "m_datahisto ctx0 = replicate 16 0" "m_huffnode ctx0 = replicate 32 node_null" "m_numcodes ctx0 = 16" "m_maxbits ctx0 = 8"
    by (simp_all add: ctx0_def huffman_encoder_def huffman_context_base_def del: replicate.simps)
  have "\<forall>d \<in> set syms. d < length (m_datahisto ctx0)" "sum_list (m_datahisto ctx0) + length syms < 2 ^ 32"
    using assms by (auto simp: c0 sum_list_replicate simp del: replicate.simps)
  note h = histo_fold [OF this, folded ctx_def]
  have shape: "encoder_shape ctx" using h assms(2) by (simp add: encoder_shape_def c0 sum_list_replicate del: replicate.simps)
  have M: "m_numcodes ctx \<le> 2 ^ m_maxbits ctx" "1 \<le> m_maxbits ctx" "m_maxbits ctx \<le> 24" using h by (simp_all add: c0)
  obtain enc1 enc mb where s: "compute_tree_from_histo ctx = Some (Inr enc)" "mb \<le> m_maxbits ctx" "built ctx mb enc1"
      "assign_canonical_codes enc1 = Inr enc"
    using compute_tree_built [OF shape M] by blast
  note b = builtD [OF s(3)]
  note lens = compute_tree_lengths [OF shape M s]
  have n: "m_numcodes enc1 \<le> length (m_huffnode enc1)" "m_numcodes enc1 < 2 ^ 32" "m_maxbits enc1 \<le> 32"
    using b(1,2,4) h by (simp_all add: c0)
  note f = assign_canonical_codes_fields [OF s(4) n]
  have e1: "sized enc1" "m_numcodes enc1 = 16" "m_maxbits enc1 = 8" using b(1,2,4) h by (simp_all add: sized_def c0)
  have kr: "kraft 8 (codes enc1) \<le> 2 ^ 8" using lens kraft_map [OF f(1)] h by (simp add: c0)
  have e: "length (codes enc) = 16" "m_maxbits enc = 8" "\<forall>nd \<in> set (codes enc). n_numbits nd \<le> 8"
    using f(2,4) e1 n by (simp_all add: codes_def)
  have "0 < n_numbits (m_huffnode enc ! x) \<and> n_numbits (m_huffnode enc ! x) \<le> 8" if x: "x \<in> set syms" for x
  proof -
    have "x < 16" "count_list syms x \<noteq> 0" using assms(1) x by (auto simp: count_list_0_iff)
    then show ?thesis using lens h(2) [of x] h by (simp add: c0 del: replicate.simps)
  qed
  from that [OF s(1) [unfolded ctx_def ctx0_def] s(4) e1 kr e this] show ?thesis .
qed

text \<open>
  The size of the output: 12 bits and the widest field for each hunk. The tree, which is not
  counted, is covered by the slack of the types once there are 32 hunks.
\<close>

lemma encoded_size:
  assumes "32 \<le> n" "n * 68 + 128 < 2 ^ 31" "mx \<le> 40" "mx = max (lb + 16) (max sb pb)"
    and "tb \<le> 128" "sb' \<le> 8 * n" "xb \<le> mx * n"
  defines "sz \<equiv> compressed_size (nbits_needed lb sb pb n)"
  shows "16 < sz" "tb + sb' + xb \<le> 8 * (nat sz - 16)" "nat sz - 16 < 2 ^ 30"
proof -
  define y where "y = mx * n"
  have "y \<le> 40 * n" unfolding y_def using assms(3) by (rule mult_le_mono1)
  moreover have eq: "(12 + mx) * n = 12 * n + y" by (simp add: distrib_right y_def)
  ultimately have small: "8 * 16 + (12 + mx) * n < 2 ^ 31" using assms(2) by linarith
  then have nb: "nbits_needed lb sb pb n = int (128 + (12 * n + y))"
    by (simp add: nbits_needed_def s32_def w32_small assms(4) [symmetric] eq)
  then have sz: "nat sz = (128 + (12 * n + y)) div 8 + 1" "0 \<le> sz"
    by (simp_all add: sz_def compressed_size_def nat_add_distrib nat_div_distrib)
  have "128 + 12 * n + y < 8 * nat sz" "8 * nat sz \<le> 136 + 12 * n + y" using sz(1) by linarith+
  then show "16 < sz" "tb + sb' + xb \<le> 8 * (nat sz - 16)" "nat sz - 16 < 2 ^ 30"
    using sz(2) small eq assms(1,5-7) by (linarith | simp add: y_def)+
qed

lemma promote_all_max:
  assumes "\<forall>e \<in> set es. \<not> is_data e \<longrightarrow> e_offset e < K" "max_self st < K" "max_parent st < K" "max_complen st < 2 ^ 24"
  shows "max_self (snd (promote_all hb ub h es st)) < K \<and> max_parent (snd (promote_all hb ub h es st)) < K \<and>
    max_complen (snd (promote_all hb ub h es st)) < 2 ^ 24"
  using assms
proof (induction es arbitrary: h st)
  case (Cons e es)
  obtain t st1 where p: "promote hb ub h e st = (t, st1)" by fastforce
  have w: "w32 (e_offset e) \<le> e_offset e" by (simp add: w32_def)
  have lt: "w32 (e_offset e) < K" if "unat (e ! 0) = 5 \<or> unat (e ! 0) = 6"
    using Cons.prems(1) that w by (fastforce simp: is_data_def)
  have "max_self st1 < K \<and> max_parent st1 < K \<and> max_complen st1 < 2 ^ 24"
    using Cons.prems(2-4) p lt e_length_less [of e]
    unfolding promote_def Let_def by (auto split: if_splits)
  with Cons p show ?case by (simp add: split_beta Let_def)
qed simp

lemma raw_entries:
  assumes "length (m_rawmap c) = 12 * m_hunkcount c" "12 * m_hunkcount c < 2 ^ 32"
  shows "map_in_range c" "concat (map (raw_entry c) [0..<m_hunkcount c]) = m_rawmap c"
    "take (w32 (m_hunkcount c * 12)) (m_rawmap c) = m_rawmap c"
proof -
  have w: "w32 (h * 12) = 12 * h" if "h \<le> m_hunkcount c" for h using that assms(2) by (simp add: w32_small)
  then show "map_in_range c" using assms(1) by (auto simp: map_in_range_def)
  have "concat (map (raw_entry c) [0..<n]) = take (12 * n) (m_rawmap c)" if "n \<le> m_hunkcount c" for n
    using that
  proof (induction n)
    case (Suc n)
    have "take (12 * Suc n) (m_rawmap c) = take (12 * n) (m_rawmap c) @ take 12 (drop (12 * n) (m_rawmap c))"
      using take_add [of "12 * n" 12 "m_rawmap c"] by (simp only: mult_Suc_right add.commute)
    with Suc show ?case by (simp add: raw_entry_def w slice_def)
  qed simp
  then show "concat (map (raw_entry c) [0..<m_hunkcount c]) = m_rawmap c" using assms(1) by simp
  show "take (w32 (m_hunkcount c * 12)) (m_rawmap c) = m_rawmap c" using w [of "m_hunkcount c"] assms(1) by simp
qed

text \<open>The bits of a compressed map, and the two passes over them.\<close>

definition map_bits :: "huffman_context \<Rightarrow> nat list \<Rightarrow> nat \<Rightarrow> nat \<Rightarrow> nat \<Rightarrow> (nat \<times> bytes) list \<Rightarrow> bool list" where
  "map_bits enc syms lb sb pb tes =
     tree_bits 4 (map n_numbits (codes enc)) @ concat (map (code_bits enc) syms)
     @ fields_bits (concat (map (extra_fields lb sb pb) tes))"

lemma map_bits_written:
  assumes enc: "length (codes enc) = 16" "m_maxbits enc = 8" "\<forall>nd \<in> set (codes enc). n_numbits nd \<le> 8"
      "\<And>s. s \<in> set syms \<Longrightarrow> n_numbits (m_huffnode enc ! s) \<le> 8"
    and w: "lb \<le> 24" "sb \<le> 25" "pb \<le> 25" and n: "length syms \<le> n" "length tes = n" "32 \<le> n" "n * 68 + 128 < 2 ^ 31"
  defines "sz \<equiv> nat (compressed_size (nbits_needed lb sb pb n))"
  defines "s1 \<equiv> mk_bitstream_out (replicate (sz - 16) 0) (of_nat (sz - 16))"
  defines "s2 \<equiv> fold (encode_one enc) syms (snd (export_tree_rle enc s1))"
  defines "s3 \<equiv> write_fields (concat (map (extra_fields lb sb pb) tes)) s2"
  shows "out_rep s3 (sz - 16) (map_bits enc syms lb sb pb tes)" "length (map_bits enc syms lb sb pb tes) \<le> 8 * (sz - 16)"
    "16 < sz" "sz - 16 < 2 ^ 30" "fst (export_tree_rle enc s1) = None" "0 \<le> compressed_size (nbits_needed lb sb pb n)"
proof -
  define N where "N = sz - 16"
  define syb where "syb = concat (map (code_bits enc) syms)"
  define fs where "fs = concat (map (extra_fields lb sb pb) tes)"
  define tb where "tb = tree_bits 4 (map n_numbits (codes enc))"
  have "length syb = (\<Sum>i\<leftarrow>syms. n_numbits (m_huffnode enc ! i))"
    by (simp add: syb_def length_concat comp_def code_bits_def)
  also have "\<dots> \<le> (\<Sum>i\<leftarrow>syms. 8)" using enc(4) by (intro sum_list_mono)
  finally have len: "length tb \<le> 128" "length syb \<le> 8 * n" "length (fields_bits fs) \<le> max (lb + 16) (max sb pb) * n"
    using length_tree_bits [of 4 "map n_numbits (codes enc)"] enc(1) n(1,2) length_all_extra [of lb sb pb tes]
    by (auto simp: tb_def fs_def sum_list_triv)
  have mx: "max (lb + 16) (max sb pb) \<le> 40" using w by simp
  note es = encoded_size [OF n(3,4) mx refl len, folded sz_def]
  show "16 < sz" "0 \<le> compressed_size (nbits_needed lb sb pb n)" using es(1) by (auto simp: sz_def)
  show N30: "sz - 16 < 2 ^ 30" using es(3) by (simp add: sz_def)
  have bits: "length tb + length syb + length (fields_bits fs) \<le> 8 * N" using es(2) by (simp add: N_def sz_def)
  then show "length (map_bits enc syms lb sb pb tes) \<le> 8 * (sz - 16)"
    by (simp add: map_bits_def tb_def syb_def fs_def N_def)
  have "out_rep s1 N []" using mk_bitstream_out_rep [of "replicate N (0 :: u8)"] N30 by (simp add: s1_def N_def del: replicate.simps)
  then have r1: "out_rep (snd (export_tree_rle enc s1)) N tb"
    using export_tree_rle_rep [of s1 N "[]" enc] enc(1,2) by (simp add: tb_def tree_width_def)
  then have "\<not> out_overflow (snd (export_tree_rle enc s1))" using out_overflow_iff [OF r1] bits by simp
  then show "fst (export_tree_rle enc s1) = None" by (auto simp: export_tree_rle_def Let_def split: prod.splits)
  have "\<forall>i \<in> set syms. n_numbits (m_huffnode enc ! i) \<le> 32" using enc(4) by (fastforce intro: order.trans)
  then have r2: "out_rep s2 N (tb @ syb)"
    using huff_out.write_all_rep [OF _ r1, of syms enc] bits N30 by (simp add: s2_def syb_def N_def)
  have "\<forall>x \<in> set fs. case x of (v, k) \<Rightarrow> k \<le> 25" using w by (auto simp: fs_def extra_fields_def split: if_splits)
  then have "out_rep s3 N ((tb @ syb) @ fields_bits fs)"
    using field.write_all_rep [OF _ r2, of fs] bits N30
    by (simp add: s3_def write_fields_def fs_def [symmetric] fields_bits_def N_def)
  then show "out_rep s3 (sz - 16) (map_bits enc syms lb sb pb tes)" by (simp add: map_bits_def tb_def syb_def fs_def N_def)
qed

end
