(* ===== verification/Chd_Map_Laws.thy ===== *)
theory Chd_Map_Laws
  imports Chd_Map_Code
begin

text \<open>
  The compressed map is an exact representation of the map: what \<open>compress_v5_map\<close> leaves in the
  file, and that \<open>decompress_v5_map\<close> rebuilds every entry from it.
\<close>

text \<open>
  A map ready to be written: what the compressor leaves when the last hunk is done. The hypotheses
  on the number of hunks bound the size of the output (see \<open>encoded_size\<close>).
\<close>

definition map_ready :: "nat \<Rightarrow> chd_file \<Rightarrow> bool" where
  "map_ready co c \<longleftrightarrow>
     healthy c \<and> length (m_rawmap c) = 12 * m_hunkcount c \<and> m_unitbytes c \<noteq> 0 \<and>
     32 \<le> m_hunkcount c \<and> m_hunkcount c * 68 + 128 < 2 ^ 31 \<and>
     0 < co \<and> map_ok (m_hunkbytes c) co (map (raw_entry c) [0..<m_hunkcount c]) \<and>
     (\<forall>e \<in> set (map (raw_entry c) [0..<m_hunkcount c]). \<not> is_data e \<longrightarrow> e_offset e < 2 ^ 25) \<and>
     m_mapoffset_offset c + 8 \<le> length (file_data c) \<and> length (file_data c) < 2 ^ 63"

text \<open>The compressed form of a map in a file: its header and bits at the map offset.\<close>

definition map_stored :: "nat \<Rightarrow> bytes list \<Rightarrow> huffman_context \<Rightarrow> nat list \<Rightarrow> promotion \<Rightarrow> bytes \<Rightarrow> bytes \<Rightarrow> chd_file \<Rightarrow> bool" where
  "map_stored fo es enc ts st hdr payload c \<longleftrightarrow>
     healthy c \<and> 0 < m_mapoffset c \<and> m_mapoffset c + 16 < 2 ^ 64 \<and>
     slice (m_mapoffset c) 16 (file_data c) = hdr \<and> slice (m_mapoffset c + 16) (length payload) (file_data c) = payload \<and>
     m_mapoffset c + 16 + length payload \<le> length (file_data c) \<and> length hdr = 16 \<and> length payload < 2 ^ 32 \<and>
     get_u32be hdr = of_nat (length payload) \<and> unat (get_u48be (drop 4 hdr)) = fo \<and>
     get_u16be (drop 10 hdr) = crc16_simple (concat es) \<and>
     unat (hdr ! 12) = bits_for_value (max_complen st) \<and> unat (hdr ! 13) = bits_for_value (max_self st) \<and>
     unat (hdr ! 14) = bits_for_value (max_parent st) \<and>
     (\<exists>lim. in_at lim (mk_bitstream_in payload (of_nat (length payload)))
       (map_bits enc (rle_types 0 0 ts) (bits_for_value (max_complen st)) (bits_for_value (max_self st))
          (bits_for_value (max_parent st)) (zip ts es)))"

lemma decompress_stored:
  assumes st: "map_stored fo es enc ts st hdr payload c"
    and c: "m_hunkcount c = length es" "length (m_rawmap c) = 12 * length es" "m_unitbytes c \<noteq> 0" "12 * length es < 2 ^ 32"
    and es: "map_ok (m_hunkbytes c) co es" "(\<exists>e \<in> set es. is_data e) \<longrightarrow> fo = co"
    and ts: "promote_all (m_hunkbytes c) (m_unitbytes c) 0 es start_promotion = (ts, st)"
    and fit: "fits (bits_for_value (max_complen st)) (bits_for_value (max_self st)) (bits_for_value (max_parent st)) st"
    and enc: "assign_canonical_codes enc1 = Inr enc" "sized enc1" "m_numcodes enc1 = 16" "m_maxbits enc1 = 8" "kraft 8 (codes enc1) \<le> 2 ^ 8"
      "\<And>s. s \<in> set (rle_types 0 0 ts) \<Longrightarrow> 0 < n_numbits (m_huffnode enc ! s)"
    and dec: "m_numcodes decoder0 = 16" "m_maxbits decoder0 = 8" "16 \<le> length (m_huffnode decoder0)" "length (m_lookup decoder0) = 2 ^ 8"
  shows "decompress_v5_map decoder0 c = Inr (None, c\<lparr>m_rawmap := concat es\<rparr>)"
proof -
  define lb sb pb where w: "lb = bits_for_value (max_complen st)" "sb = bits_for_value (max_self st)" "pb = bits_for_value (max_parent st)"
  have h: "healthy c" and mo: "0 < m_mapoffset c" "m_mapoffset c + 16 < 2 ^ 64" using st by (simp_all add: map_stored_def)
  have r1: "file_read c (m_mapoffset c) (replicate 16 0) 16 = (None, hdr)"
    using st file_read_healthy [OF h] by (auto simp: map_stored_def overwrite_def)
  have r2: "file_read c (w64 (m_mapoffset c + 16)) (replicate (length payload) 0) (length payload) = (None, payload)"
    using st file_read_healthy [OF h] mo(2) by (auto simp: map_stored_def overwrite_def w64_small)
  have len: "unat (of_nat (length payload) :: u32) = length payload" using st by (simp add: map_stored_def unat_of_nat_small)
  have d: "m_maxbits decoder0 = m_maxbits enc1" "m_numcodes decoder0 = m_numcodes enc1" "m_numcodes enc1 \<le> length (m_huffnode decoder0)"
      "length (m_lookup decoder0) = 2 ^ m_maxbits enc1" "m_numcodes enc1 \<le> 2 ^ 11" "kraft (m_maxbits enc1) (codes enc1) \<le> 2 ^ m_maxbits enc1"
    using dec enc by simp_all
  have "tree_width (m_maxbits enc1) = 4" using enc(4) by (simp add: tree_width_def)
  then obtain lim where at: "in_at lim (mk_bitstream_in payload (of_nat (length payload))) (tree_bits (tree_width (m_maxbits enc1)) (map n_numbits (codes enc)) @
      concat (map (code_bits enc) (rle_types 0 0 ts)) @ fields_bits (concat (map (extra_fields lb sb pb) (zip ts es))))"
    using st by (auto simp: map_stored_def map_bits_def w)
  obtain dec' s1 where i: "import_tree_rle decoder0 (mk_bitstream_in payload (of_nat (length payload))) = (Inr dec', s1)"
      "in_at lim s1 (concat (map (code_bits enc) (rle_types 0 0 ts)) @ fields_bits (concat (map (extra_fields lb sb pb) (zip ts es))))"
      "coders_match enc dec'" "m_numcodes dec' = 16"
    using export_encode_import [OF enc(1,2) d at] enc(3) by metis
  have lts: "length ts = length es" using length_promote_all [of "m_hunkbytes c" "m_unitbytes c" 0 es start_promotion] ts by simp
  have pt: "\<forall>t \<in> set ts. t < 16 \<and> plain t" using produced_types [OF es(1), of "m_unitbytes c" 0 start_promotion] ts by simp
  have pl: "plain 0" by (simp add: plain_def pseudo_types)
  have prod: "produces (rle_types 0 0 ts) 0 0 ts []" using produces_rle [of 0 ts 0 "[]"] pl pt by simp
  have "s < 16" if "s \<in> set (rle_types 0 0 ts)" for s using rle_types_symbols [of 0 ts s 0] pt that by simp
  then have sym: "\<forall>s \<in> set (rle_types 0 0 ts). symbol_ok enc dec' s \<and> s < 16"
    using i(3,4) enc(6) by (simp add: symbol_ok_def)
  obtain s2 where t: "decode_types dec' (length ts) 0 0 s1 = (ts, s2)" "in_at lim s2 (fields_bits (concat (map (extra_fields lb sb pb) (zip ts es))) @ [])"
    using decode_types_at [OF prod i(2) sym] by auto
  have cur: "(\<exists>e \<in> set es. is_data e) \<longrightarrow> cur_offset \<lparr>cur_offset = fo, d_self = 0, d_parent = 0\<rparr> = co" using es(2) by simp
  have R: "\<forall>j < length es. store_types 0 ts (m_rawmap c) ! (12 * j) = of_nat (ts ! j)"
    using store_types_nth [of 0 ts "m_rawmap c"] c lts by simp
  have "entries_loop (m_hunkbytes c) (m_unitbytes c) lb sb pb [0..<0 + length es] \<lparr>cur_offset = fo, d_self = 0, d_parent = 0\<rparr> s2
      ([] @ store_types 0 ts (m_rawmap c)) = Inr ([] @ concat es)"
    by (rule entries_loop_ok [OF es(1) ts _ fit [folded w] c(3) cur t(2) _ _ R])
      (use c in \<open>simp_all add: matched_def start_promotion_def\<close>)
  then have loop: "entries_loop (m_hunkbytes c) (m_unitbytes c) lb sb pb [0..<length es] \<lparr>cur_offset = fo, d_self = 0, d_parent = 0\<rparr> s2
      (store_types 0 ts (m_rawmap c)) = Inr (concat es)" by simp
  have "length (concat es) = 12 * length es" using es(1)
    by (induction es arbitrary: co) (auto simp: entry_ok_def)
  then have crc: "take (w32 (length es * 12)) (concat es) = concat es" using c(4) by (simp add: w32_small mult.commute)
  have range: "map_in_range c" using raw_entries(1) [of c] c by simp
  have fo: "get_u32be hdr = of_nat (length payload)" "unat (get_u48be (drop 4 hdr)) = fo" "get_u16be (drop 10 hdr) = crc16_simple (concat es)"
      "unat (hdr ! 12) = lb" "unat (hdr ! 13) = sb" "unat (hdr ! 14) = pb" using st by (simp_all add: map_stored_def w)
  show ?thesis
    unfolding decompress_v5_map_def r1 prod.case option.case Let_def fo len r2 i(1) sum.case c(1) lts [symmetric] t(1)
    using mo(1) range loop crc lts by simp
qed

lemma write_map_healthy:
  assumes "healthy c" "complen + 16 \<le> length buf" "m_mapoffset_offset c + 8 \<le> length (file_data c)"
  shows "write_map c buf complen = Inr (None,
    set_data (pwrite (m_mapoffset_offset c) (put_u64be (of_nat (length (file_data c))) (replicate 8 0))
      (file_data c @ take (complen + 16) buf)) (c\<lparr>m_mapoffset := length (file_data c)\<rparr>))"
proof -
  have "healthy (c\<lparr>m_mapoffset := k\<rparr>)" for k using assms(1) by (simp add: healthy_def)
  moreover have "set_data d c\<lparr>m_mapoffset := k\<rparr> = set_data d (c\<lparr>m_mapoffset := k\<rparr>)" "m_mapoffset_offset (set_data d c) = m_mapoffset_offset c" for d k
    by (simp_all add: set_data_def)
  moreover have "align_up 0 n = n" for n by (simp add: align_up_def)
  ultimately show ?thesis
    using assms by (simp add: write_map_def file_append_healthy file_write_healthy)
qed

lemma appended_map:
  fixes data hdr payload :: bytes and v :: u64
  assumes "mo + 8 \<le> length data" "length hdr = 16"
  defines "d \<equiv> pwrite mo (put_u64be v (replicate 8 0)) (data @ hdr @ payload)"
  shows "slice (length data) 16 d = hdr" "slice (length data + 16) (length payload) d = payload"
    "length d = length data + 16 + length payload"
proof -
  have len: "length (put_u64be v (replicate 8 0)) = 8" by simp
  then have "put_u64be v (replicate 8 0) \<noteq> []" by (metis list.size(3) zero_neq_numeral)
  with len show "length d = length data + 16 + length payload" using assms(1,2) by (simp add: d_def)
  have "slice i k d = slice i k (data @ hdr @ payload)" if "length data \<le> i" for i k
    unfolding d_def using assms(1) that len by (intro slice_pwrite_after) auto
  then show "slice (length data) 16 d = hdr" "slice (length data + 16) (length payload) d = payload"
    using assms(2) by (simp_all add: slice_def)
qed

lemma header_front:
  assumes "16 \<le> length buf"
  shows "length (take 16 buf) = 16" "get_u32be (take 16 buf) = get_u32be buf" "get_u48be (drop 4 (take 16 buf)) = get_u48be (drop 4 buf)"
    "get_u16be (drop 10 (take 16 buf)) = get_u16be (drop 10 buf)"
proof -
  have loc: "take k (drop i (take 16 buf)) = take k (drop i buf)" if "i + k \<le> 16" for i k
    using that by (simp add: drop_take min_def)
  show "get_u32be (take 16 buf) = get_u32be buf" "get_u48be (drop 4 (take 16 buf)) = get_u48be (drop 4 buf)"
    "get_u16be (drop 10 (take 16 buf)) = get_u16be (drop 10 buf)"
    using loc [of 0 4] by (simp_all add: get_u32be_local [of "take 16 buf"] get_u48be_local [OF loc] get_u16be_local [OF loc])
qed (use assms in simp)

text \<open>The encoder, when the output buffer is large enough.\<close>

lemma encode_map_stored:
  assumes c: "healthy c" "m_mapoffset_offset c + 8 \<le> length (file_data c)" "length (file_data c) < 2 ^ 63" "m_hunkcount c = n"
    and n: "length es = n" "length ts = n" "length syms \<le> n" "32 \<le> n" "n * 68 + 128 < 2 ^ 31" "syms = rle_types 0 0 ts"
    and enc: "length (codes enc) = 16" "m_maxbits enc = 8" "\<forall>nd \<in> set (codes enc). n_numbits nd \<le> 8"
      "\<And>s. s \<in> set syms \<Longrightarrow> n_numbits (m_huffnode enc ! s) \<le> 8"
    and w: "lb = bits_for_value (max_complen st)" "sb = bits_for_value (max_self st)" "pb = bits_for_value (max_parent st)"
    and wb: "lb \<le> 24" "sb \<le> 25" "pb \<le> 25"
    and prod: "produces syms 0 0 ts []" and xf: "\<forall>te \<in> set (zip ts es). extra_fits lb sb pb te"
    and fo: "fo = first_data 0 (zip ts es)" "fo < 2 ^ 48"
  obtains d hdr payload where
    "encode_map c (crc16_simple (concat es)) es syms st enc = Inr (None, set_data d (c\<lparr>m_mapoffset := length (file_data c)\<rparr>))"
    "map_stored fo es enc ts st hdr payload (set_data d (c\<lparr>m_mapoffset := length (file_data c)\<rparr>))"
proof -
  define sz where "sz = nat (compressed_size (nbits_needed lb sb pb n))"
  define s1 where "s1 = mk_bitstream_out (replicate (sz - 16) 0) (of_nat (sz - 16))"
  define s2 where "s2 = fold (encode_one enc) syms (snd (export_tree_rle enc s1))"
  define s3 where "s3 = write_fields (concat (map (extra_fields lb sb pb) (zip ts es))) s2"
  have "length (zip ts es) = n" using n(1,2) by simp
  then have rep: "out_rep s3 (sz - 16) (map_bits enc syms lb sb pb (zip ts es))"
      "length (map_bits enc syms lb sb pb (zip ts es)) \<le> 8 * (sz - 16)" "16 < sz" "sz - 16 < 2 ^ 30"
      "fst (export_tree_rle enc s1) = None" "0 \<le> compressed_size (nbits_needed lb sb pb n)"
    using map_bits_written [OF enc wb n(3) _ n(4,5)] by (simp_all only: s3_def s2_def s1_def sz_def)
  define m where "m = unat (fst (out_flush s3))"
  define out where "out = o_write (snd (out_flush s3))"
  have fl: "\<exists>lim. in_at lim (mk_bitstream_in (take m out) (of_nat m)) (map_bits enc syms lb sb pb (zip ts es))" "m \<le> sz - 16" "length (take m out) = m"
    using flushed_take_in_at [OF rep(1) _ rep(2)] rep(2,4) by (auto simp: m_def out_def)
  define buf where "buf = map_header m fo (crc16_simple (concat es)) lb sb pb (replicate 16 0 @ out)"
  have hl: "16 \<le> length (replicate 16 (0 :: u8) @ out)" by simp
  note hdr = map_header_laws [OF hl, of m fo "crc16_simple (concat es)" lb sb pb, folded buf_def]
  have nov: "out_overflow (snd (out_flush s3)) = False" using flushed_in_at(2) [OF rep(1) _ rep(2)] rep(2,4) by simp
  have ol: "length out = sz - 16" using flushed_in_at [OF rep(1) _ rep(2)] rep(2,4) by (simp add: out_def)
  have enough: "m + 16 \<le> length buf" using hdr(1) ol fl(2) by simp
  have split: "take (m + 16) buf = take 16 buf @ take m out" using hdr(8) take_add [of 16 m buf] by (simp add: add.commute)
  define d where "d = pwrite (m_mapoffset_offset c) (put_u64be (of_nat (length (file_data c))) (replicate 8 0)) (file_data c @ take (m + 16) buf)"
  have "encode_map c (crc16_simple (concat es)) es syms st enc = write_map c buf m"
  proof -
    have b: "take 16 (replicate sz (0 :: u8)) = replicate 16 0" "drop 16 (replicate sz (0 :: u8)) = replicate (sz - 16) 0" using rep(3) by simp_all
    have e: "export_tree_rle enc s1 = (None, snd (export_tree_rle enc s1))" using rep(5) by (metis prod.collapse)
    have x: "extra_loop lb sb pb es syms 0 0 0 s2 = Inr (fo, s3)"
      using extra_loop_produced [OF prod _ xf, of 0 s2] n(1,2) by (simp add: s3_def fo(1))
    have f: "out_flush s3 = (fst (out_flush s3), snd (out_flush s3))" by simp
    have "\<not> compressed_size (nbits_needed lb sb pb n) < 0" "\<not> compressed_size (nbits_needed lb sb pb n) \<le> 16" using rep(3,6) by (auto simp: sz_def)
    then show ?thesis
      unfolding encode_map_def Let_def w [symmetric] c(4) sz_def [symmetric] b s1_def [symmetric]
      by (subst e, simp only: prod.case if_False not_True_eq_False simp_thms s2_def [symmetric] x sum.case)
        (subst f, simp only: prod.case nov if_False m_def [symmetric] out_def [symmetric] buf_def)
  qed
  moreover have "map_stored fo es enc ts st (take 16 buf) (take m out) (set_data d (c\<lparr>m_mapoffset := length (file_data c)\<rparr>))"
  proof -
    have "take_bit 48 (of_nat fo :: u64) = of_nat fo" "unat (of_nat fo :: u64) = fo"
      using fo(2) by (simp_all add: take_bit_of_nat_word unat_of_nat_small)
    moreover have "unat (of_nat lb :: u8) = lb" "unat (of_nat sb :: u8) = sb" "unat (of_nat pb :: u8) = pb"
      using wb by (simp_all add: unat_of_nat_small)
    moreover have "healthy (c\<lparr>m_mapoffset := length (file_data c)\<rparr>)" using c(1) by (simp add: healthy_def)
    moreover have "file_data c \<noteq> []" using c(2) by auto
    moreover have b16: "16 \<le> length buf" using hdr(1) by simp
    moreover note appended_map [OF c(2) header_front(1) [OF b16], where payload = "take m out" and v = "of_nat (length (file_data c))"]
    ultimately show ?thesis
      unfolding map_stored_def using hdr fl rep(4) c(2,3) header_front [OF b16]
      by (simp add: split d_def w [symmetric] n(6) [symmetric])
  qed
  ultimately show ?thesis using write_map_healthy [OF c(1) enough c(2)] that by (simp add: d_def)
qed

lemma compress_stored:
  assumes rdy: "map_ready co c"
  defines "es \<equiv> map (raw_entry c) [0..<m_hunkcount c]"
  obtains enc1 enc ts st hdr payload fo c' where "compress_v5_map c = Inr (None, c')" "map_stored fo es enc ts st hdr payload c'"
    "\<exists>d. c' = set_data d (c\<lparr>m_mapoffset := length (file_data c)\<rparr>)"
    "promote_all (m_hunkbytes c) (m_unitbytes c) 0 es start_promotion = (ts, st)"
    "(\<exists>e \<in> set es. is_data e) \<longrightarrow> fo = co"
    "fits (bits_for_value (max_complen st)) (bits_for_value (max_self st)) (bits_for_value (max_parent st)) st"
    "assign_canonical_codes enc1 = Inr enc" "sized enc1" "m_numcodes enc1 = 16" "m_maxbits enc1 = 8" "kraft 8 (codes enc1) \<le> 2 ^ 8"
    "\<And>s. s \<in> set (rle_types 0 0 ts) \<Longrightarrow> 0 < n_numbits (m_huffnode enc ! s)"
proof -
  define n where "n = m_hunkcount c"
  have c: "healthy c" "length (m_rawmap c) = 12 * n" "m_unitbytes c \<noteq> 0" "32 \<le> n" "n * 68 + 128 < 2 ^ 31" "0 < co"
      "map_ok (m_hunkbytes c) co es" "\<forall>e \<in> set es. \<not> is_data e \<longrightarrow> e_offset e < 2 ^ 25"
      "m_mapoffset_offset c + 8 \<le> length (file_data c)" "length (file_data c) < 2 ^ 63" "length es = n"
    using rdy by (simp_all add: map_ready_def n_def es_def)
  have raw: "map_in_range c" "concat es = m_rawmap c" "take (w32 (m_hunkcount c * 12)) (m_rawmap c) = m_rawmap c"
    unfolding es_def using raw_entries [of c] c(2,5) by (simp_all add: n_def)
  obtain ts st where ts: "promote_all (m_hunkbytes c) (m_unitbytes c) 0 es start_promotion = (ts, st)" by fastforce
  define syms where "syms = rle_types 0 0 ts"
  have loop: "types_loop (m_hunkbytes c) (m_unitbytes c) 0 es start_promotion 0 0 = (syms, st)"
    by (simp add: types_loop_rle ts syms_def)
  have lts: "length ts = n" using length_promote_all [of "m_hunkbytes c" "m_unitbytes c" 0 es start_promotion] ts c(11) by simp
  have pt: "\<forall>t \<in> set ts. t < 16 \<and> plain t" using produced_types [OF c(7), of "m_unitbytes c" 0 start_promotion] ts by simp
  have s16: "\<forall>s \<in> set syms. s < 16" using rle_types_symbols [of 0 ts _ 0] pt by (auto simp: syms_def)
  have ls: "length syms \<le> n" using length_rle_types [of 0 0 ts] lts by (simp add: syms_def)
  have l31: "length syms < 2 ^ 31" using ls c(5) by simp
  obtain enc1 enc where enc:
      "compute_tree_from_histo (fold histo_one syms (projr (huffman_encoder 16 8))) = Some (Inr enc)"
      "assign_canonical_codes enc1 = Inr enc" "sized enc1" "m_numcodes enc1 = 16" "m_maxbits enc1 = 8" "kraft 8 (codes enc1) \<le> 2 ^ 8"
      "length (codes enc) = 16" "m_maxbits enc = 8" "\<forall>nd \<in> set (codes enc). n_numbits nd \<le> 8"
      "\<And>s. s \<in> set syms \<Longrightarrow> 0 < n_numbits (m_huffnode enc ! s) \<and> n_numbits (m_huffnode enc ! s) \<le> 8"
    by (rule symbol_tree [OF s16 l31]) metis
  have nb: "n_numbits (m_huffnode enc ! s) \<le> 8" if "s \<in> set syms" for s using enc(10) [OF that] by simp
  define lb sb pb where w: "lb = bits_for_value (max_complen st)" "sb = bits_for_value (max_self st)" "pb = bits_for_value (max_parent st)"
  have mx: "max_self st < 2 ^ 25 \<and> max_parent st < 2 ^ 25 \<and> max_complen st < 2 ^ 24"
    using promote_all_max [OF c(8), of start_promotion "m_hunkbytes c" "m_unitbytes c" 0] ts by (simp add: start_promotion_def)
  have wb: "lb \<le> 24" "sb \<le> 25" "pb \<le> 25" using mx bits_for_value_le by (simp_all add: w)
  have fit: "fits lb sb pb st" using wb bits_for_value_bound(1) by (simp add: fits_def w)
  have prod: "produces syms 0 0 ts []" using produces_rle [of 0 ts 0 "[]"] pt by (simp add: plain_def pseudo_types syms_def)
  define fo where "fo = first_data 0 (zip ts es)"
  have e6: "\<forall>e \<in> set es. unat (e ! 0) \<le> 6" using c(7) by (induction es arbitrary: co) (auto simp: entry_ok_def)
  have "\<forall>e \<in> set es. \<not> is_data e \<longrightarrow> e_offset e < 2 ^ 32" using c(8) by fastforce
  then have xf: "\<forall>te \<in> set (zip ts es). extra_fits lb sb pb te"
    using promote_all_extra_fits [of lb sb pb "m_hunkbytes c" "m_unitbytes c" 0 es start_promotion] fit e6 ts by simp
  from e6 have dt: "\<forall>j < length es. ts ! j \<le> 4 \<longleftrightarrow> is_data (es ! j)" using promoted_data [of es _ "m_hunkbytes c" "m_unitbytes c" 0 start_promotion] ts by simp
  have fo: "(\<exists>e \<in> set es. is_data e) \<longrightarrow> fo = co" "fo < 2 ^ 48"
    using first_data_start [OF c(7,6) _ dt] lts c(11) by (simp_all add: fo_def)
  obtain d hdr payload where em:
      "encode_map c (crc16_simple (concat es)) es syms st enc = Inr (None, set_data d (c\<lparr>m_mapoffset := length (file_data c)\<rparr>))"
      "map_stored fo es enc ts st hdr payload (set_data d (c\<lparr>m_mapoffset := length (file_data c)\<rparr>))"
    by (rule encode_map_stored [OF c(1,9,10) n_def [symmetric] c(11) lts ls c(4,5) syms_def enc(7-9) nb w wb prod xf fo_def fo(2)])
  have "compress_v5_map c = Inr (None, set_data d (c\<lparr>m_mapoffset := length (file_data c)\<rparr>))"
    unfolding compress_v5_map_def Let_def raw(3) es_def [symmetric] loop prod.case enc(1) option.case sum.case
      em(1) [unfolded raw(2)]
    using raw(1) c(3) ls s16 unfolding n_def by (auto simp: not_less)
  then show ?thesis
    by (rule that [OF _ em(2) _ ts fo(1) fit [unfolded w] enc(2-6)]) (use enc(10) in \<open>auto simp: syms_def\<close>)
qed

subsection \<open>Properties\<close>

text \<open>
  C4: The compressed map of a version 5 CHD loses nothing. \<open>compress_v5_map\<close> of a well-formed map
  of at least 32 hunks succeeds, and \<open>decompress_v5_map\<close> on the file it leaves restores every byte
  of the map, whatever the map memory and the decoder held before.
\<close>

theorem map_roundtrip:
  assumes "map_ready co c" "length junk = length (m_rawmap c)"
    and dec: "m_numcodes decoder0 = 16" "m_maxbits decoder0 = 8" "16 \<le> length (m_huffnode decoder0)" "length (m_lookup decoder0) = 2 ^ 8"
  shows "\<exists>c'. compress_v5_map c = Inr (None, c') \<and> m_rawmap c' = m_rawmap c \<and> m_mapoffset c' = length (file_data c) \<and>
    decompress_v5_map decoder0 (c'\<lparr>m_rawmap := junk\<rparr>) = Inr (None, c')"
proof -
  define es where "es = map (raw_entry c) [0..<m_hunkcount c]"
  obtain enc1 enc ts st hdr payload fo c' where s: "compress_v5_map c = Inr (None, c')" "map_stored fo es enc ts st hdr payload c'"
    "\<exists>d. c' = set_data d (c\<lparr>m_mapoffset := length (file_data c)\<rparr>)"
    "promote_all (m_hunkbytes c) (m_unitbytes c) 0 es start_promotion = (ts, st)"
    "(\<exists>e \<in> set es. is_data e) \<longrightarrow> fo = co"
    "fits (bits_for_value (max_complen st)) (bits_for_value (max_self st)) (bits_for_value (max_parent st)) st"
    "assign_canonical_codes enc1 = Inr enc" "sized enc1" "m_numcodes enc1 = 16" "m_maxbits enc1 = 8" "kraft 8 (codes enc1) \<le> 2 ^ 8"
    "\<And>s. s \<in> set (rle_types 0 0 ts) \<Longrightarrow> 0 < n_numbits (m_huffnode enc ! s)"
    by (rule compress_stored [OF assms(1), folded es_def]) (rule that; assumption?)
  obtain d where c': "c' = set_data d (c\<lparr>m_mapoffset := length (file_data c)\<rparr>)" using s(3) by blast
  have f: "m_hunkcount c' = m_hunkcount c" "m_hunkbytes c' = m_hunkbytes c" "m_unitbytes c' = m_unitbytes c" "m_rawmap c' = m_rawmap c"
      "m_mapoffset c' = length (file_data c)" by (simp_all add: c' set_data_def)
  have r: "length (m_rawmap c) = 12 * m_hunkcount c" "12 * m_hunkcount c < 2 ^ 32" "m_unitbytes c \<noteq> 0" "map_ok (m_hunkbytes c) co es"
    using assms(1) by (simp_all add: map_ready_def es_def)
  have "map_stored fo es enc ts st hdr payload (c'\<lparr>m_rawmap := junk\<rparr>)"
    using s(2) by (simp add: map_stored_def healthy_def file_data_def)
  from decompress_stored [OF this _ _ _ _ _ s(5) _ s(6-11) s(12) dec]
  have "decompress_v5_map decoder0 (c'\<lparr>m_rawmap := junk\<rparr>) = Inr (None, c'\<lparr>m_rawmap := concat es\<rparr>)"
    using f r s(4) assms(2) by (simp add: es_def)
  moreover have "c'\<lparr>m_rawmap := concat es\<rparr> = c'" using raw_entries(2) [OF r(1,2)] f(4) by (simp add: es_def)
  ultimately show ?thesis using s(1) f by auto
qed

text \<open>A map of 32 hunks: two hunks of data and thirty copies of the second.\<close>

definition sample_entries :: "bytes list" where
  "sample_entries = [0, 0, 0, 100, 0, 0, 0, 0, 0, 124, 0, 7] # [1, 0, 0, 50, 0, 0, 0, 0, 0, 224, 1, 2]
     # replicate 30 [5, 0, 0, 0, 0, 0, 0, 0, 0, 1, 0, 0]"

definition sample_mapped :: "bytes list \<Rightarrow> chd_file" where
  "sample_mapped es = chd_closed
     \<lparr>m_file := Some \<lparr>f_data = replicate 124 0, f_read_fault = \<lambda>_ _. None, f_write_fault = \<lambda>_ _. None\<rparr>,
      m_hunkbytes := 4096, m_unitbytes := 512, m_hunkcount := length es, m_mapentrybytes := 12, m_mapoffset_offset := 40,
      m_rawmap := concat es\<rparr>"

lemma map_ok_replicate: "entry_ok hb co e \<Longrightarrow> \<not> is_data e \<Longrightarrow> map_ok hb co (replicate k e)"
  by (induction k) auto

lemma raw_entry_sample:
  assumes "\<forall>e \<in> set es. length e = 12" "length es \<le> 32"
  shows "map (raw_entry (sample_mapped es)) [0..<length es] = es"
proof (rule nth_equalityI)
  fix i assume "i < length (map (raw_entry (sample_mapped es)) [0..<length es])"
  then have i: "i < length es" by simp
  have "take 12 (drop (12 * i) (concat es)) = es ! i" using assms(1) i
    by (induction es arbitrary: i) (auto simp: nth_Cons split: nat.splits)
  then show "map (raw_entry (sample_mapped es)) [0..<length es] ! i = es ! i"
    using i assms(2) by (simp add: raw_entry_def sample_mapped_def slice_def w32_small mult.commute)
qed simp

lemma sample_map_ready: "map_ready 124 (sample_mapped sample_entries)"
proof -
  let ?r = "[5, 0, 0, 0, 0, 0, 0, 0, 0, 1, 0, 0] :: bytes"
  note parts = entry_ok_def is_data_def e_offset_def e_length_def e_crc_def get_u16be_def get_u24be_def get_u48be_def nth_Cons'
  have f: "e_offset ?r = 1" by (simp add: parts)
  have "entry_ok 4096 124 (sample_entries ! 0)" "entry_ok 4096 224 (sample_entries ! 1)" "entry_ok 4096 274 ?r"
      "e_length (sample_entries ! 0) = 100" "e_length (sample_entries ! 1) = 50"
    by (simp_all add: sample_entries_def parts)
  moreover have "is_data (sample_entries ! 0)" "is_data (sample_entries ! 1)" "\<not> is_data ?r"
    by (simp_all add: is_data_def sample_entries_def)
  ultimately have ok: "map_ok 4096 124 sample_entries"
    using map_ok_replicate [of 4096 274 ?r 30] by (simp add: sample_entries_def del: replicate.simps)
  have refs: "\<forall>e \<in> set sample_entries. \<not> is_data e \<longrightarrow> e_offset e < 2 ^ 25"
    using f by (auto simp: sample_entries_def is_data_def)
  have len: "\<forall>e \<in> set sample_entries. length e = 12" "length sample_entries = 32" by (auto simp: sample_entries_def)
  have cl: "length (concat es) = 12 * length es" if "\<forall>e \<in> set es. length e = 12" for es :: "bytes list"
    using that by (induction es) auto
  have h: "healthy (sample_mapped sample_entries)" by (simp add: healthy_def sample_mapped_def no_faults_def)
  have m: "m_hunkcount (sample_mapped sample_entries) = length sample_entries" by (simp add: sample_mapped_def)
  show ?thesis
    unfolding map_ready_def m raw_entry_sample [OF len(1) eq_imp_le [OF len(2)]]
    using h ok refs cl [OF len(1)] len(2) by (simp add: sample_mapped_def file_data_def del: replicate.simps)
qed

theorem map_roundtrip_witness:
  "\<exists>c'. compress_v5_map (sample_mapped sample_entries) = Inr (None, c') \<and>
     m_rawmap c' = concat sample_entries \<and> m_mapoffset c' = 124 \<and>
     decompress_v5_map (projr (huffman_decoder 16 8)) (c'\<lparr>m_rawmap := replicate 384 0xff\<rparr>) = Inr (None, c')"
proof -
  have "length (concat sample_entries) = 384"
    using sample_map_ready by (simp add: map_ready_def sample_mapped_def sample_entries_def del: replicate.simps)
  then show ?thesis
    using map_roundtrip [OF sample_map_ready, of "replicate 384 0xff" "projr (huffman_decoder 16 8)"]
    by (simp add: sample_mapped_def file_data_def huffman_decoder_def huffman_context_base_def del: replicate.simps)
qed

text \<open>
  The map of one hunk. Its symbols are the type of the hunk alone, whose code takes one bit; the tree
  takes 20 bits at least.
\<close>

lemma one_symbol_tree:
  assumes t: "t < 16"
  obtains enc where "compute_tree_from_histo (fold histo_one [t] (projr (huffman_encoder 16 8))) = Some (Inr enc)"
    "map n_numbits (codes enc) = (replicate 16 0)[t := 1]" "m_maxbits enc = 8" "m_numcodes enc = 16"
proof -
  define ctx where "ctx = fold histo_one [t] (projr (huffman_encoder 16 8))"
  have h: "m_datahisto ctx = (replicate 16 0)[t := 1]" "length (m_huffnode ctx) = 32" "m_numcodes ctx = 16" "m_maxbits ctx = 8"
    using t by (simp_all add: ctx_def histo_one_def huffman_encoder_def huffman_context_base_def w32_def del: replicate.simps)
  have shape: "encoder_shape ctx"
    using t by (simp add: encoder_shape_def h sum_list_update sum_list_replicate del: replicate.simps)
  have M: "m_numcodes ctx \<le> 2 ^ m_maxbits ctx" "1 \<le> m_maxbits ctx" "m_maxbits ctx \<le> 24" by (simp_all add: h)
  obtain enc1 enc mb where s: "compute_tree_from_histo ctx = Some (Inr enc)" "mb \<le> m_maxbits ctx" "built ctx mb enc1"
      "assign_canonical_codes enc1 = Inr enc"
    using compute_tree_built [OF shape M] by blast
  note b = builtD [OF s(3)]
  have "m_numcodes enc1 \<le> length (m_huffnode enc1)" "m_numcodes enc1 < 2 ^ 32" "m_maxbits enc1 \<le> 32"
    using b(1,2,4) h by simp_all
  note f = assign_canonical_codes_fields [OF s(4) this]
  have e: "m_maxbits enc = 8" "m_numcodes enc = 16" "length (codes enc) = 16" using f(2) b(1,2,4) h by (simp_all add: codes_def)
  note lens = compute_tree_lengths [OF shape M s]
  define L where "L = n_numbits (m_huffnode enc ! t)"
  have nb: "n_numbits (m_huffnode enc ! c) = (if c = t then L else 0)" if "c < 16" for c
    using lens that t by (auto simp: h L_def simp del: replicate.simps)
  have pos: "0 < L" using lens t by (auto simp: h L_def simp del: replicate.simps)
  have map: "map n_numbits (codes enc) = (replicate 16 0)[t := L]"
    using e nb t by (intro nth_equalityI) (auto simp: codes_def nth_list_update simp del: replicate.simps)
  have "kraft 8 (codes enc1) = kraft 8 (codes enc)" by (rule kraft_map [OF f(1) [symmetric]])
  also have "\<dots> = (\<Sum>l\<leftarrow>map n_numbits (codes enc). if 0 < l then 2 ^ (8 - l) else 0)" by (simp add: kraft_def comp_def)
  also have "\<dots> = 2 ^ (8 - L)" unfolding map using t pos by (simp add: map_update sum_list_update sum_list_replicate del: replicate.simps)
  finally have k: "kraft 8 (codes enc1) = 2 ^ (8 - L)" .
  have "kraft 8 (codes enc1) \<in> {0, 2 ^ (8 - 1), 2 ^ 8}" using s(2) by (intro b(7)) (simp_all add: h)
  then have "L = 1" using pos unfolding k by (cases "L \<le> 8") (auto simp: le_Suc_eq numeral_eq_Suc)
  then show ?thesis using that s(1) map e by (simp add: ctx_def)
qed

lemma one_symbol_tree_bits:
  "list_all (\<lambda>t. 20 \<le> length (tree_bits 4 ((replicate 16 0)[t := 1])) \<and> length (tree_bits 4 ((replicate 16 0)[t := 1])) \<le> 32) [0..<5]"
  "length (tree_bits 4 ((replicate 16 0)[4 := 1])) = 32"
  by code_simp+

lemma one_entry_buffer:
  assumes "lb \<le> 24"
  shows "nat (compressed_size (nbits_needed lb 0 0 1)) = 16 + ((28 + lb) div 8 + 1)" "\<not> compressed_size (nbits_needed lb 0 0 1) < 0"
    "\<not> compressed_size (nbits_needed lb 0 0 1) \<le> 16"
  using assms by (simp_all add: compressed_size_def nbits_needed_def s32_def w32_def nat_add_distrib nat_div_distrib)

text \<open>
  C36: The output buffer of \<open>compress_v5_map\<close> is computed without the bits of the Huffman tree. For
  the map of every compressed CHD of a single hunk that holds data of its own (an uncompressed one of
  less than \<open>2 ^ 19\<close> bytes) the bits do not fit and the assert on the overflow of the buffer fails: such
  a CHD cannot be finished.
\<close>

theorem small_map_aborts:
  assumes "m_hunkcount c = 1" "12 \<le> length (m_rawmap c)" "unat (raw_entry c 0 ! 0) \<le> 4"
    "unat (raw_entry c 0 ! 0) = 4 \<longrightarrow> e_length (raw_entry c 0) < 2 ^ 19"
  shows "compress_v5_map c = Inl Assert_Failed"
proof -
  define e where "e = raw_entry c 0"
  define t where "t = unat (e ! 0)"
  define lb where "lb = bits_for_value (e_length e)"
  define st where "st = start_promotion\<lparr>max_complen := e_length e\<rparr>"
  have t: "t \<le> 4" "t < 16" "t \<in> set [0..<5]" using assms(3) by (auto simp: t_def e_def)
  have lb: "lb \<le> 24" "t = 4 \<Longrightarrow> lb \<le> 19" "e_length e < 2 ^ lb"
    using bits_for_value_le e_length_less [of e] assms(4) bits_for_value_bound(1) [of "e_length e"] by (auto simp: lb_def t_def e_def)
  obtain enc where enc: "compute_tree_from_histo (fold histo_one [t] (projr (huffman_encoder 16 8))) = Some (Inr enc)"
      "map n_numbits (codes enc) = (replicate 16 0)[t := 1]" "m_maxbits enc = 8" "m_numcodes enc = 16"
    using one_symbol_tree [OF t(2)] by blast
  have len: "length (codes enc) = 16" using arg_cong [OF enc(2), of length] by (simp del: replicate.simps)
  have "n_numbits (codes enc ! t) = 1" using arg_cong [OF enc(2), of "\<lambda>xs. xs ! t"] len t(2) by (simp del: replicate.simps)
  then have nb: "n_numbits (m_huffnode enc ! t) = 1" using enc(4) t(2) by (simp add: codes_def)
  have w: "bits_for_value (max_complen st) = lb" "bits_for_value (max_self st) = 0" "bits_for_value (max_parent st) = 0"
    by (simp_all add: st_def start_promotion_def bits_for_value.simps [of 0] lb_def)
  define N where "N = (28 + lb) div 8 + 1"
  define s1 where "s1 = mk_bitstream_out (replicate N 0) (of_nat N)"
  define tb where "tb = tree_bits 4 (map n_numbits (codes enc))"
  have tb: "20 \<le> length tb" "length tb \<le> 32" "t = 4 \<Longrightarrow> length tb = 32"
    using one_symbol_tree_bits t(3) by (auto simp only: tb_def enc(2) list_all_iff)
  have "3 \<le> (28 + lb) div 8" by linarith
  then have N: "N < 2 ^ 30" "length tb \<le> 8 * N" using lb(1) tb(2) by (simp_all add: N_def)
  have r1: "out_rep (snd (export_tree_rle enc s1)) N tb"
    using export_tree_rle_rep [OF mk_bitstream_out_rep [of "replicate N (0 :: u8)"], of enc] N(1) len enc(3)
    by (simp add: s1_def tb_def tree_width_def del: replicate.simps)
  have ok: "export_tree_rle enc s1 = (None, snd (export_tree_rle enc s1))"
    using out_overflow_iff [OF r1] N(2) tb(2) by (auto simp: export_tree_rle_def Let_def split: prod.splits)
  define s2 where "s2 = encode_one enc t (snd (export_tree_rle enc s1))"
  have r2: "out_rep s2 N (tb @ code_bits enc t)" unfolding s2_def using nb tb by (intro huff_out.wr_rep [OF _ r1]) auto
  define s3 where "s3 = write_fields (extra_fields lb 0 0 (t, e)) s2"
  have "\<forall>x \<in> set (extra_fields lb 0 0 (t, e)). case x of (v, k) \<Rightarrow> k \<le> 25"
    using lb(1) t(1) by (auto simp: extra_fields_def)
  moreover have "length (fields_bits (extra_fields lb 0 0 (t, e))) = (if t < 4 then lb + 16 else 16)"
    using t(1) by (simp add: extra_fields_def)
  ultimately have r3: "out_rep s3 N ((tb @ code_bits enc t) @ fields_bits (extra_fields lb 0 0 (t, e)))"
      and l3: "length ((tb @ code_bits enc t) @ fields_bits (extra_fields lb 0 0 (t, e))) = length tb + 1 + (if t < 4 then lb + 16 else 16)"
    using field.write_all_rep [OF _ r2, of "extra_fields lb 0 0 (t, e)"] tb nb lb(1)
    by (auto simp: s3_def write_fields_def fields_bits_def code_bits_def)
  have "8 * N < length tb + 1 + (if t < 4 then lb + 16 else 16)"
  proof (cases "t = 4")
    case True
    then have "(28 + lb) div 8 < 6" using lb(2) by linarith
    then show ?thesis using True tb(3) by (simp add: N_def)
  next
    case False
    moreover have "8 * ((28 + lb) div 8) \<le> 28 + lb" by simp
    ultimately show ?thesis using tb(1) t(1) by (simp add: N_def)
  qed
  then have over: "out_overflow (snd (out_flush s3)) = True"
    using flush_fits [OF r3] l3 tb(2) lb(1) by (auto split: if_splits)
  have x: "extra_loop lb 0 0 [e] [t] 0 0 0 s2 = Inr (e_offset e, s3)"
    using t lb(3) by (simp add: next_type.simps pseudo_types write_extra_fits s3_def extra_fits_def)
  have em: "encode_map c crc [e] [t] st enc = Inl Assert_Failed" for crc
  proof -
    have b: "take 16 (replicate (16 + N) (0 :: u8)) = replicate 16 0" "drop 16 (replicate (16 + N) (0 :: u8)) = replicate N 0"
      by (simp_all del: replicate.simps)
    have n: "16 + N - 16 = N" by simp
    have fold1: "fold (encode_one enc) [t] (snd (export_tree_rle enc s1)) = s2" by (simp add: s2_def)
    show ?thesis
      unfolding encode_map_def Let_def w assms(1) one_entry_buffer(1) [OF lb(1), folded N_def] n b s1_def [symmetric]
      using one_entry_buffer(2,3) [OF lb(1)]
      by (simp only: if_False, subst ok, simp only: prod.case fold1 x sum.case, simp add: split_beta over)
  qed
  have "types_loop (m_hunkbytes c) (m_unitbytes c) 0 [e] start_promotion 0 0 = ([t], st)"
    using t(1) by (simp add: t_def [symmetric] promote_def flush_types.simps st_def start_promotion_def)
  moreover have "map_in_range c" using assms(1,2) by (simp add: map_in_range_def w32_def)
  moreover have "e ! 0 \<noteq> 6" using t(1) by (auto simp: t_def)
  ultimately show ?thesis
    using assms(1) t(1,2) unfolding compress_v5_map_def Let_def by (simp add: e_def [symmetric] enc(1) em del: types_loop.simps fold.simps)
qed

theorem small_map_aborts_witness:
  "compress_v5_map (sample_mapped [[4, 0, 16, 0, 0, 0, 0, 0, 0, 124, 0, 77]]) = Inl Assert_Failed"
  by (rule small_map_aborts)
    (simp_all add: sample_mapped_def raw_entry_def slice_def w32_def e_length_def get_u24be_def nth_Cons')

end
