(* ===== verification/Chd_Codec.thy ===== *)
theory Chd_Codec
  imports Chd_Hunk Chd_Meta
begin

text \<open>
  The list of codecs and the construction of decompressors (\<^verbatim>\<open>lib/util/chdcodec.cpp\<close>). Results of the
  third-party libraries are parameters (\<open>codec_libs\<close>): a constructor calls them with nothing but the
  hunk size and reacts to their return codes. A constructor throws an \<open>error_condition\<close>, which the
  CHD code catches, or \<^verbatim>\<open>std::bad_alloc\<close>, which it does not.
\<close>

subsection \<open>The codecs\<close>

definition CHD_CODEC_ZSTD :: u32 where "CHD_CODEC_ZSTD = CHD_MAKE_TAG 0x7a 0x73 0x74 0x64"
definition CHD_CODEC_LZMA :: u32 where "CHD_CODEC_LZMA = CHD_MAKE_TAG 0x6c 0x7a 0x6d 0x61"
definition CHD_CODEC_HUFFMAN :: u32 where "CHD_CODEC_HUFFMAN = CHD_MAKE_TAG 0x68 0x75 0x66 0x66"
definition CHD_CODEC_FLAC :: u32 where "CHD_CODEC_FLAC = CHD_MAKE_TAG 0x66 0x6c 0x61 0x63"
definition CHD_CODEC_CD_ZLIB :: u32 where "CHD_CODEC_CD_ZLIB = CHD_MAKE_TAG 0x63 0x64 0x7a 0x6c"
definition CHD_CODEC_CD_ZSTD :: u32 where "CHD_CODEC_CD_ZSTD = CHD_MAKE_TAG 0x63 0x64 0x7a 0x73"
definition CHD_CODEC_CD_LZMA :: u32 where "CHD_CODEC_CD_LZMA = CHD_MAKE_TAG 0x63 0x64 0x6c 0x7a"
definition CHD_CODEC_CD_FLAC :: u32 where "CHD_CODEC_CD_FLAC = CHD_MAKE_TAG 0x63 0x64 0x66 0x6c"

definition FRAME_SIZE :: nat where "FRAME_SIZE = 2352 + 96"
definition MAX_SECTOR_DATA :: nat where "MAX_SECTOR_DATA = 2352"
definition MAX_SUBCODE_DATA :: nat where "MAX_SUBCODE_DATA = 96"

datatype codec_class =
    Zlib_Codec | Zstd_Codec | Lzma_Codec | Huffman_Codec | Flac_Codec
  | Cd_Codec codec_class codec_class | Cd_Flac_Codec | Avhuff_Codec

record codec_entry =
  ce_type :: u32
  ce_lossy :: bool
  ce_name :: string
  ce_class :: codec_class

definition f_codec_list :: "codec_entry list" where
  "f_codec_list =
     [\<lparr>ce_type = CHD_CODEC_ZLIB, ce_lossy = False, ce_name = ''Deflate'', ce_class = Zlib_Codec\<rparr>,
      \<lparr>ce_type = CHD_CODEC_ZSTD, ce_lossy = False, ce_name = ''Zstandard'', ce_class = Zstd_Codec\<rparr>,
      \<lparr>ce_type = CHD_CODEC_LZMA, ce_lossy = False, ce_name = ''LZMA'', ce_class = Lzma_Codec\<rparr>,
      \<lparr>ce_type = CHD_CODEC_HUFFMAN, ce_lossy = False, ce_name = ''Huffman'', ce_class = Huffman_Codec\<rparr>,
      \<lparr>ce_type = CHD_CODEC_FLAC, ce_lossy = False, ce_name = ''FLAC'', ce_class = Flac_Codec\<rparr>,
      \<lparr>ce_type = CHD_CODEC_CD_ZLIB, ce_lossy = False, ce_name = ''CD Deflate'', ce_class = Cd_Codec Zlib_Codec Zlib_Codec\<rparr>,
      \<lparr>ce_type = CHD_CODEC_CD_ZSTD, ce_lossy = False, ce_name = ''CD Zstandard'', ce_class = Cd_Codec Zstd_Codec Zstd_Codec\<rparr>,
      \<lparr>ce_type = CHD_CODEC_CD_LZMA, ce_lossy = False, ce_name = ''CD LZMA'', ce_class = Cd_Codec Lzma_Codec Zlib_Codec\<rparr>,
      \<lparr>ce_type = CHD_CODEC_CD_FLAC, ce_lossy = False, ce_name = ''CD FLAC'', ce_class = Cd_Flac_Codec\<rparr>,
      \<lparr>ce_type = CHD_CODEC_AVHUFF, ce_lossy = False, ce_name = ''A/V Huffman'', ce_class = Avhuff_Codec\<rparr>]"

definition find_in_list :: "u32 \<Rightarrow> codec_entry option" where
  "find_in_list type = List.find (\<lambda>elem. ce_type elem = type) f_codec_list"

definition codec_exists :: "u32 \<Rightarrow> bool" where
  "codec_exists type \<longleftrightarrow> find_in_list type \<noteq> None"

definition codec_name :: "u32 \<Rightarrow> string option" where
  "codec_name type = map_option ce_name (find_in_list type)"

subsection \<open>Construction of decompressors\<close>

datatype thrown = Throw error_condition | Throw_Bad_Alloc

record codec_libs =
  lib_inflateInit2 :: int
  lib_deflateInit2 :: int
  lib_ZSTD_createCStream :: bool
  lib_ZSTD_createDStream :: bool
  lib_LzmaEnc_Create :: bool
  lib_LzmaEnc_SetProps :: "nat \<Rightarrow> bool"
  lib_LzmaEnc_WriteProperties :: "nat \<Rightarrow> bool"
  lib_LzmaDec_Allocate :: "nat \<Rightarrow> bool"

definition Z_OK :: int where "Z_OK = 0"
definition Z_MEM_ERROR :: int where "Z_MEM_ERROR = - 4"

definition convert_zerr :: "int \<Rightarrow> thrown option" where
  "convert_zerr zerr =
     (if zerr = Z_MEM_ERROR then Some Throw_Bad_Alloc
      else if zerr \<noteq> Z_OK then Some (Throw (Chd_Error CODEC_ERROR))
      else None)"

primrec construct_decompressor :: "codec_libs \<Rightarrow> codec_class \<Rightarrow> nat \<Rightarrow> thrown option" where
  "construct_decompressor libs Zlib_Codec hunkbytes = convert_zerr (lib_inflateInit2 libs)"
| "construct_decompressor libs Zstd_Codec hunkbytes =
     (if \<not> lib_ZSTD_createDStream libs then Some Throw_Bad_Alloc else None)"
| "construct_decompressor libs Lzma_Codec hunkbytes =
     (if \<not> lib_LzmaEnc_Create libs \<or> \<not> lib_LzmaEnc_SetProps libs hunkbytes \<or> \<not> lib_LzmaEnc_WriteProperties libs hunkbytes
         \<or> \<not> lib_LzmaDec_Allocate libs hunkbytes
      then Some (Throw (Chd_Error DECOMPRESSION_ERROR)) else None)"
| "construct_decompressor libs Huffman_Codec hunkbytes = None"
| "construct_decompressor libs Flac_Codec hunkbytes = None"
| "construct_decompressor libs (Cd_Codec base sub) hunkbytes =
     (case construct_decompressor libs base (hunkbytes div FRAME_SIZE * MAX_SECTOR_DATA) of
        Some t \<Rightarrow> Some t
      | None \<Rightarrow>
          (case construct_decompressor libs sub (hunkbytes div FRAME_SIZE * MAX_SUBCODE_DATA) of
             Some t \<Rightarrow> Some t
           | None \<Rightarrow> if hunkbytes mod FRAME_SIZE \<noteq> 0 then Some (Throw (Chd_Error CODEC_ERROR)) else None))"
| "construct_decompressor libs Cd_Flac_Codec hunkbytes =
     (if hunkbytes mod FRAME_SIZE \<noteq> 0 then Some (Throw (Chd_Error CODEC_ERROR)) else convert_zerr (lib_inflateInit2 libs))"
| "construct_decompressor libs Avhuff_Codec hunkbytes = None"

text \<open>\<open>new_decompressor\<close>: whether there is one, or what its constructor throws.\<close>

definition new_decompressor :: "codec_libs \<Rightarrow> u32 \<Rightarrow> nat \<Rightarrow> thrown + bool" where
  "new_decompressor libs type hunkbytes =
     (case find_in_list type of
        None \<Rightarrow> Inr False
      | Some entry \<Rightarrow> (case construct_decompressor libs (ce_class entry) hunkbytes of Some t \<Rightarrow> Inl t | None \<Rightarrow> Inr True))"

text \<open>Libraries without faults construct every decompressor, the CD codecs for whole frames only.\<close>

definition libs_ok :: "codec_libs \<Rightarrow> bool" where
  "libs_ok libs \<longleftrightarrow> lib_inflateInit2 libs = Z_OK \<and> lib_deflateInit2 libs = Z_OK \<and> lib_ZSTD_createCStream libs \<and>
     lib_ZSTD_createDStream libs \<and> lib_LzmaEnc_Create libs \<and> (\<forall>n. lib_LzmaEnc_SetProps libs n) \<and>
     (\<forall>n. lib_LzmaEnc_WriteProperties libs n) \<and> (\<forall>n. lib_LzmaDec_Allocate libs n)"

primrec framed :: "codec_class \<Rightarrow> bool" where
  "framed Zlib_Codec = False" | "framed Zstd_Codec = False" | "framed Lzma_Codec = False" | "framed Huffman_Codec = False"
| "framed Flac_Codec = False" | "framed (Cd_Codec base sub) = True" | "framed Cd_Flac_Codec = True" | "framed Avhuff_Codec = False"

lemma codec_type_values:
  "CHD_CODEC_ZSTD = 0x7a737464" "CHD_CODEC_LZMA = 0x6c7a6d61" "CHD_CODEC_HUFFMAN = 0x68756666" "CHD_CODEC_FLAC = 0x666c6163"
  "CHD_CODEC_CD_ZLIB = 0x63647a6c" "CHD_CODEC_CD_ZSTD = 0x63647a73" "CHD_CODEC_CD_LZMA = 0x63646c7a" "CHD_CODEC_CD_FLAC = 0x6364666c"
  by (simp_all add: CHD_CODEC_ZSTD_def CHD_CODEC_LZMA_def CHD_CODEC_HUFFMAN_def CHD_CODEC_FLAC_def CHD_CODEC_CD_ZLIB_def
      CHD_CODEC_CD_ZSTD_def CHD_CODEC_CD_LZMA_def CHD_CODEC_CD_FLAC_def CHD_MAKE_TAG_def)

lemmas codec_types = codec_type_values CHD_CODEC_ZLIB_def CHD_CODEC_AVHUFF_def

lemma no_codec_none: "find_in_list CHD_CODEC_NONE = None"
  by (simp add: find_in_list_def f_codec_list_def codec_types CHD_CODEC_NONE_def)

lemma new_decompressor_none [simp]: "new_decompressor libs CHD_CODEC_NONE hunkbytes = Inr False"
  by (simp add: new_decompressor_def no_codec_none)

lemma construct_simple:
  "libs_ok libs \<Longrightarrow> \<not> framed k \<Longrightarrow> construct_decompressor libs k hunkbytes = None"
  by (cases k) (auto simp: libs_ok_def convert_zerr_def Z_OK_def Z_MEM_ERROR_def)

lemma listed_cd_parts:
  assumes "find_in_list type = Some e" "ce_class e = Cd_Codec base sub"
  shows "\<not> framed base" "\<not> framed sub"
  using assms by (auto simp: find_in_list_def f_codec_list_def split: if_splits)

lemma construct_listed:
  assumes "libs_ok libs" "find_in_list type = Some e"
  shows "construct_decompressor libs (ce_class e) hunkbytes =
    (if framed (ce_class e) \<and> hunkbytes mod FRAME_SIZE \<noteq> 0 then Some (Throw (Chd_Error CODEC_ERROR)) else None)"
proof (cases "framed (ce_class e)")
  case True
  then consider base sub where "ce_class e = Cd_Codec base sub" | "ce_class e = Cd_Flac_Codec" by (cases "ce_class e") auto
  then show ?thesis
  proof cases
    case 1
    with listed_cd_parts [OF assms(2) 1] assms(1) show ?thesis by (simp add: construct_simple)
  qed (use assms(1) in \<open>simp add: libs_ok_def convert_zerr_def Z_OK_def Z_MEM_ERROR_def\<close>)
qed (use assms(1) in \<open>simp add: construct_simple\<close>)

end
