(* ===== verification/Chd_Open.thy ===== *)
theory Chd_Open
  imports Chd_Codec Chd_Map Chd_Store Chd_Chain
begin

text \<open>
  Creating and opening a CHD: the header parsers, \<open>create_common\<close>, \<open>open_common\<close>,
  \<open>create_open_common\<close> and the public \<open>create\<close> and \<open>open\<close> of \<^verbatim>\<open>chd.cpp\<close>. Exceptions are values:
  \<open>'a exc\<close> is an undefined outcome, a thrown exception, or a result.
\<close>

type_synonym 'a exc = "(thrown + 'a) res"

subsection \<open>Unit size of older formats\<close>

text \<open>
  \<^verbatim>\<open>sscanf\<close> for literal characters and \<^verbatim>\<open>%d\<close>: the values converted before the first mismatch. \<^verbatim>\<open>%d\<close>
  skips white space and reads an optional sign and at least one digit.
\<close>

datatype scan_item = Lit u8 | Conv_Int

definition is_space :: "u8 \<Rightarrow> bool" where
  "is_space b \<longleftrightarrow> b = 32 \<or> (9 \<le> b \<and> b \<le> 13)"

definition is_digit :: "u8 \<Rightarrow> bool" where
  "is_digit b \<longleftrightarrow> 48 \<le> b \<and> b \<le> 57"

definition digits_value :: "bytes \<Rightarrow> int" where
  "digits_value = foldl (\<lambda>v b. 10 * v + (int (unat b) - 48)) 0"

definition scan_int :: "bytes \<Rightarrow> (int \<times> bytes) option" where
  "scan_int s =
     (let s1 = dropWhile is_space s;
          (sgn, s2) = (case s1 of b # t \<Rightarrow> if b = 45 then (- 1, t) else if b = 43 then (1, t) else (1, s1) | [] \<Rightarrow> (1, s1));
          ds = takeWhile is_digit s2
      in if ds = [] then None else Some (sgn * digits_value ds, drop (length ds) s2))"

fun sscanf_ints :: "scan_item list \<Rightarrow> bytes \<Rightarrow> int list" where
  "sscanf_ints [] s = []"
| "sscanf_ints (Lit c # fs) (b # s) = (if b = c then sscanf_ints fs s else [])"
| "sscanf_ints (Lit c # fs) [] = []"
| "sscanf_ints (Conv_Int # fs) s = (case scan_int s of None \<Rightarrow> [] | Some (i, s') \<Rightarrow> i # sscanf_ints fs s')"

definition lits :: "string \<Rightarrow> scan_item list" where
  "lits s = map (\<lambda>c. Lit (of_nat (of_char c))) s"

definition HARD_DISK_METADATA_FORMAT :: "scan_item list" where
  "HARD_DISK_METADATA_FORMAT =
     lits ''CYLS:'' @ [Conv_Int] @ lits '',HEADS:'' @ [Conv_Int] @ lits '',SECS:'' @ [Conv_Int] @ lits '',BPS:'' @ [Conv_Int]"

definition has_metadata :: "chd_file \<Rightarrow> u32 \<Rightarrow> bool res" where
  "has_metadata c tag =
     (case read_metadata_string c tag 0 [] of None \<Rightarrow> Inl Infinite_Loop | Some (err, _) \<Rightarrow> Inr (err = None))"

primrec any_metadata :: "chd_file \<Rightarrow> u32 list \<Rightarrow> bool res" where
  "any_metadata c [] = Inr False"
| "any_metadata c (tag # tags) =
     (case has_metadata c tag of Inl u \<Rightarrow> Inl u | Inr True \<Rightarrow> Inr True | Inr False \<Rightarrow> any_metadata c tags)"

text \<open>
  The string ends at its first zero byte for \<^verbatim>\<open>sscanf\<close>. A number that an \<open>int\<close> cannot hold is
  undefined; a negative sector size becomes a large unsigned one.
\<close>

definition guess_unitbytes :: "chd_file \<Rightarrow> nat res" where
  "guess_unitbytes c =
     (case read_metadata_string c HARD_DISK_METADATA_TAG 0 [] of
        None \<Rightarrow> Inl Infinite_Loop
      | Some (err, metadata) \<Rightarrow>
          let vals = sscanf_ints HARD_DISK_METADATA_FORMAT (takeWhile (\<lambda>b. b \<noteq> 0) metadata) in
          if err = None \<and> (\<exists>v \<in> set vals. v < - (2 ^ 31) \<or> 2 ^ 31 \<le> v) then Inl Int_Overflow
          else if err = None \<and> length vals = 4 then Inr (nat (vals ! 3 mod 2 ^ 32))
          else
            case any_metadata c [CDROM_OLD_METADATA_TAG, CDROM_TRACK_METADATA_TAG, CDROM_TRACK_METADATA2_TAG,
                   GDROM_OLD_METADATA_TAG, GDROM_TRACK_METADATA_TAG] of
              Inl u \<Rightarrow> Inl u
            | Inr True \<Rightarrow> Inr FRAME_SIZE
            | Inr False \<Rightarrow> Inr (m_hunkbytes c))"

subsection \<open>Header parsers\<close>

definition div_up :: "nat \<Rightarrow> nat \<Rightarrow> nat" where
  "div_up n unit = w64 (n + unit - 1) div unit"

definition h32 :: "bytes \<Rightarrow> nat \<Rightarrow> nat" where "h32 rawheader i = unat (get_u32be (drop i rawheader))"
definition h64 :: "bytes \<Rightarrow> nat \<Rightarrow> nat" where "h64 rawheader i = unat (get_u64be (drop i rawheader))"

definition v34_compression :: "nat \<Rightarrow> u32 option" where
  "v34_compression v =
     (if v = 0 then Some CHD_CODEC_NONE else if v = 1 \<or> v = 2 then Some CHD_CODEC_ZLIB
      else if v = 3 then Some CHD_CODEC_AVHUFF else None)"

definition guess_units :: "chd_file \<Rightarrow> bytes \<Rightarrow> (chd_file \<times> bytes) exc" where
  "guess_units c parentsha1 =
     (case guess_unitbytes c of
        Inl u \<Rightarrow> Inl u
      | Inr unitbytes \<Rightarrow>
          if unitbytes = 0 then Inl Div_By_Zero
          else Inr (Inr (c\<lparr>m_unitbytes := unitbytes, m_unitcount := div_up (m_logicalbytes c) unitbytes\<rparr>, parentsha1)))"

definition parse_v3_header :: "chd_file \<Rightarrow> bytes \<Rightarrow> bytes \<Rightarrow> (chd_file \<times> bytes) exc" where
  "parse_v3_header c rawheader parentsha1 =
     (if h32 rawheader 8 \<noteq> V3_HEADER_SIZE then Inr (Inl (Throw (Chd_Error INVALID_FILE)))
      else
        let flags = get_u32be (drop 16 rawheader);
            c1 = c\<lparr>m_logicalbytes := h64 rawheader 28, m_mapoffset := 120, m_metaoffset := h64 rawheader 36,
                   m_hunkbytes := h32 rawheader 76, m_hunkcount := h32 rawheader 24, m_allow_writes := (flags AND 2 = 0)\<rparr>
        in case v34_compression (h32 rawheader 20) of
             None \<Rightarrow> Inr (Inl (Throw (Chd_Error UNKNOWN_COMPRESSION)))
           | Some codec \<Rightarrow>
               guess_units
                 (c1\<lparr>m_compression := [codec, CHD_CODEC_NONE, CHD_CODEC_NONE, CHD_CODEC_NONE],
                     m_mapoffset_offset := 0, m_metaoffset_offset := 36, m_sha1_offset := 80, m_rawsha1_offset := 0,
                     m_parentsha1_offset := 100, m_mapentrybytes := 16\<rparr>)
                 (if flags AND 1 \<noteq> 0 then be_read_sha1 (drop 100 rawheader) else parentsha1))"

definition parse_v4_header :: "chd_file \<Rightarrow> bytes \<Rightarrow> bytes \<Rightarrow> (chd_file \<times> bytes) exc" where
  "parse_v4_header c rawheader parentsha1 =
     (if h32 rawheader 8 \<noteq> V4_HEADER_SIZE then Inr (Inl (Throw (Chd_Error INVALID_FILE)))
      else
        let flags = get_u32be (drop 16 rawheader);
            c1 = c\<lparr>m_logicalbytes := h64 rawheader 28, m_mapoffset := 108, m_metaoffset := h64 rawheader 36,
                   m_hunkbytes := h32 rawheader 44, m_hunkcount := h32 rawheader 24, m_allow_writes := (flags AND 2 = 0)\<rparr>
        in case v34_compression (h32 rawheader 20) of
             None \<Rightarrow> Inr (Inl (Throw (Chd_Error UNKNOWN_COMPRESSION)))
           | Some codec \<Rightarrow>
               guess_units
                 (c1\<lparr>m_compression := [codec, CHD_CODEC_NONE, CHD_CODEC_NONE, CHD_CODEC_NONE],
                     m_mapoffset_offset := 0, m_metaoffset_offset := 36, m_sha1_offset := 48, m_rawsha1_offset := 88,
                     m_parentsha1_offset := 68, m_mapentrybytes := 16\<rparr>)
                 (if flags AND 1 \<noteq> 0 then be_read_sha1 (drop 68 rawheader) else parentsha1))"

definition parse_v5_header :: "chd_file \<Rightarrow> bytes \<Rightarrow> bytes \<Rightarrow> (chd_file \<times> bytes) exc" where
  "parse_v5_header c rawheader parentsha1 =
     (if h32 rawheader 8 \<noteq> V5_HEADER_SIZE then Inr (Inl (Throw (Chd_Error INVALID_FILE)))
      else if h32 rawheader 56 = 0 \<or> h32 rawheader 60 = 0 then Inl Div_By_Zero
      else
        let logicalbytes = h64 rawheader 32; hunkbytes = h32 rawheader 56; unitbytes = h32 rawheader 60;
            codecs = map (\<lambda>i. get_u32be (drop (16 + 4 * i) rawheader)) [0..<4];
            packed = (codecs ! 0 \<noteq> CHD_CODEC_NONE)
        in Inr (Inr
             (c\<lparr>m_logicalbytes := logicalbytes, m_mapoffset := h64 rawheader 40, m_metaoffset := h64 rawheader 48,
                m_hunkbytes := hunkbytes, m_hunkcount := w32 (div_up logicalbytes hunkbytes),
                m_unitbytes := unitbytes, m_unitcount := div_up logicalbytes unitbytes,
                m_compression := codecs, m_allow_writes := \<not> packed,
                m_mapoffset_offset := 40, m_metaoffset_offset := 48, m_sha1_offset := 84, m_rawsha1_offset := 64,
                m_parentsha1_offset := 104, m_mapentrybytes := (if packed then 12 else 4)\<rparr>,
              be_read_sha1 (drop 104 rawheader))))"

subsection \<open>The common end of creating and opening\<close>

primrec init_decompressors :: "codec_libs \<Rightarrow> nat \<Rightarrow> u32 list \<Rightarrow> thrown + bool list" where
  "init_decompressors libs hunkbytes [] = Inr []"
| "init_decompressors libs hunkbytes (type # types) =
     (case new_decompressor libs type hunkbytes of
        Inl t \<Rightarrow> Inl t
      | Inr present \<Rightarrow>
          if \<not> present \<and> type \<noteq> 0 then Inl (Throw (Chd_Error UNKNOWN_COMPRESSION))
          else case init_decompressors libs hunkbytes types of Inl t \<Rightarrow> Inl t | Inr rest \<Rightarrow> Inr (present # rest))"

text \<open>
  \<open>libs\<close> are the codec libraries, \<open>decoder0\<close> is the memory of the map decoder. The size of the map
  is computed in 32 bits.
\<close>

definition load_map :: "huffman_context \<Rightarrow> chd_file \<Rightarrow> chd_file exc" where
  "load_map decoder0 c =
     (if 5 \<le> m_version c \<and> compressed c then
        (case decompress_v5_map decoder0 c of
           Inl u \<Rightarrow> Inl u
         | Inr (Some e, _) \<Rightarrow> Inr (Inl (Throw e))
         | Inr (None, c') \<Rightarrow> Inr (Inr c'))
      else
        (case file_read c (m_mapoffset c) (m_rawmap c) (length (m_rawmap c)) of
           (Some e, _) \<Rightarrow> Inr (Inl (Throw e))
         | (None, rawmap) \<Rightarrow> Inr (Inr (c\<lparr>m_rawmap := rawmap\<rparr>))))"

definition create_open_common :: "codec_libs \<Rightarrow> huffman_context \<Rightarrow> chd_file \<Rightarrow> chd_file exc" where
  "create_open_common libs decoder0 c =
     (case init_decompressors libs (m_hunkbytes c) (m_compression c) of
        Inl t \<Rightarrow> Inr (Inl t)
      | Inr decompressors \<Rightarrow>
          (case load_map decoder0 (c\<lparr>m_decompressor := decompressors,
                  m_rawmap := resize (w32 (m_hunkcount c * m_mapentrybytes c)) (m_rawmap c)\<rparr>) of
             Inl u \<Rightarrow> Inl u
           | Inr (Inl t) \<Rightarrow> Inr (Inl t)
           | Inr (Inr c') \<Rightarrow>
               Inr (Inr (c'\<lparr>m_compressed := resize (m_hunkbytes c') (m_compressed c'),
                            m_cache := resize (m_hunkbytes c') (m_cache c')\<rparr>))))"

subsection \<open>Creating\<close>

text \<open>An empty slot ends the list of codecs.\<close>

primrec verify_compression :: "bool \<Rightarrow> u32 list \<Rightarrow> error_condition option" where
  "verify_compression found_zero [] = None"
| "verify_compression found_zero (elem # elems) =
     (if elem = CHD_CODEC_NONE then verify_compression True elems
      else if found_zero then Some (Std_Error Errc_invalid_argument)
      else if \<not> codec_exists elem then Some (Chd_Error UNKNOWN_COMPRESSION)
      else verify_compression found_zero elems)"

definition MComprHD :: bytes where
  "MComprHD = map (\<lambda>c. of_nat (of_char c)) ''MComprHD''"

text \<open>The version 5 header; every byte of the buffer is written.\<close>

definition v5_header :: "chd_file \<Rightarrow> bytes \<Rightarrow> bytes" where
  "v5_header c parentsha1 =
     (let comp32 = \<lambda>i. at_off (16 + 4 * i) (put_u32be (m_compression c ! i));
          b = overwrite 0 MComprHD (replicate V5_HEADER_SIZE 0);
          b = at_off 8 (put_u32be (of_nat V5_HEADER_SIZE)) b;
          b = at_off 12 (put_u32be (of_nat (m_version c))) b;
          b = comp32 3 (comp32 2 (comp32 1 (comp32 0 b)));
          b = at_off 32 (put_u64be (of_nat (m_logicalbytes c))) b;
          b = at_off 40 (put_u64be (if compressed c then 0 else of_nat V5_HEADER_SIZE)) b;
          b = at_off 48 (put_u64be (of_nat (m_metaoffset c))) b;
          b = at_off 56 (put_u32be (of_nat (m_hunkbytes c))) b;
          b = at_off 60 (put_u32be (of_nat (m_unitbytes c))) b;
          b = at_off 64 (be_write_sha1 sha1_null) b;
          b = at_off 84 (be_write_sha1 sha1_null) b
      in at_off 104 (be_write_sha1 parentsha1) b)"

text \<open>The zero map of an uncompressed file, written in pieces of at most 4096 bytes.\<close>

function write_zero_map :: "nat \<Rightarrow> nat \<Rightarrow> chd_file \<Rightarrow> error_condition option \<times> chd_file" where
  "write_zero_map offset mapsize c =
     (if mapsize = 0 then (None, c)
      else let bytes_to_write = min mapsize 4096 in
           case file_write c offset (replicate bytes_to_write 0) of
             (Some e, c1) \<Rightarrow> (Some e, c1)
           | (None, c1) \<Rightarrow> write_zero_map (w64 (offset + bytes_to_write)) (mapsize - bytes_to_write) c1)"
  by pat_completeness auto
termination by (relation "measure (\<lambda>(offset, mapsize, c). mapsize)") auto

declare write_zero_map.simps [simp del]

definition create_checks :: "chd_file \<Rightarrow> chain \<Rightarrow> thrown option res" where
  "create_checks c parents =
     (if parents \<noteq> [] \<and> m_version (hd parents) < 3 then Inr (Some (Throw (Chd_Error UNSUPPORTED_VERSION)))
      else if m_unitbytes c = 0 then Inl Div_By_Zero
      else if m_hunkbytes c mod m_unitbytes c \<noteq> 0 then Inr (Some (Throw (Std_Error Errc_invalid_argument)))
      else if parents \<noteq> [] \<and> m_unitbytes c \<noteq> m_unitbytes (hd parents) then Inr (Some (Throw (Std_Error Errc_invalid_argument)))
      else Inr (map_option Throw (verify_compression False (m_compression c))))"

text \<open>The body of the \<open>try\<close> block of \<open>create_common\<close>.\<close>

definition create_body :: "codec_libs \<Rightarrow> huffman_context \<Rightarrow> chd_file \<Rightarrow> chain \<Rightarrow> chd_file exc" where
  "create_body libs decoder0 c0 parents =
     (let c = c0\<lparr>m_version := HEADER_VERSION, m_metaoffset := 0\<rparr> in
      case create_checks c parents of
        Inl u \<Rightarrow> Inl u
      | Inr (Some t) \<Rightarrow> Inr (Inl t)
      | Inr None \<Rightarrow>
          let rawheader = v5_header c (if parents \<noteq> [] then chd_sha1 (hd parents) else sha1_null) in
          case file_write c 0 rawheader of
            (Some e, _) \<Rightarrow> Inr (Inl (Throw e))
          | (None, c1) \<Rightarrow>
              (case parse_v5_header c1 rawheader sha1_null of
                 Inl u \<Rightarrow> Inl u
               | Inr (Inl t) \<Rightarrow> Inr (Inl t)
               | Inr (Inr (c2, _)) \<Rightarrow>
                   let c3 = c2\<lparr>m_allow_writes := True, m_allow_reads := \<not> compressed c2\<rparr> in
                   case (if \<not> compressed c3 then write_zero_map (m_mapoffset c3) (w32 (m_mapentrybytes c3 * m_hunkcount c3)) c3
                         else (None, c3)) of
                     (Some e, _) \<Rightarrow> Inr (Inl (Throw e))
                   | (None, c4) \<Rightarrow> create_open_common libs decoder0 c4))"

text \<open>
  \<open>create_common\<close> closes the file on every exception, and passes on those that are not an
  \<open>error_condition\<close>.
\<close>

definition create_common :: "codec_libs \<Rightarrow> huffman_context \<Rightarrow> chain \<Rightarrow> (error_condition option \<times> chain) res" where
  "create_common libs decoder0 chain =
     (case create_body libs decoder0 (hd chain) (tl chain) of
        Inl u \<Rightarrow> Inl u
      | Inr (Inl (Throw e)) \<Rightarrow> Inr (Some e, chd_close chain)
      | Inr (Inl Throw_Bad_Alloc) \<Rightarrow> Inl Uncaught_Exception
      | Inr (Inr c) \<Rightarrow> Inr (None, c # tl chain))"

definition chd_create ::
    "codec_libs \<Rightarrow> huffman_context \<Rightarrow> chain \<Rightarrow> vfile option \<Rightarrow> nat \<Rightarrow> nat \<Rightarrow> nat \<Rightarrow> u32 list \<Rightarrow>
      (error_condition option \<times> chain) res" where
  "chd_create libs decoder0 chain file logicalbytes hunkbytes unitbytes codec =
     (if m_file (hd chain) \<noteq> None then Inr (Some (Chd_Error ALREADY_OPEN), chain)
      else if file = None then Inr (Some (Std_Error Errc_invalid_argument), chain)
      else create_common libs decoder0
             [(hd chain)\<lparr>m_logicalbytes := logicalbytes, m_hunkbytes := hunkbytes, m_unitbytes := unitbytes,
                         m_compression := codec, m_file := file\<rparr>])"

definition chd_create_child ::
    "codec_libs \<Rightarrow> huffman_context \<Rightarrow> chain \<Rightarrow> vfile option \<Rightarrow> nat \<Rightarrow> nat \<Rightarrow> u32 list \<Rightarrow> chain \<Rightarrow>
      (error_condition option \<times> chain) res" where
  "chd_create_child libs decoder0 chain file logicalbytes hunkbytes codec parent =
     (if m_file (hd chain) \<noteq> None then Inr (Some (Chd_Error ALREADY_OPEN), chain)
      else if file = None then Inr (Some (Std_Error Errc_invalid_argument), chain)
      else create_common libs decoder0
             ((hd chain)\<lparr>m_logicalbytes := logicalbytes, m_hunkbytes := hunkbytes, m_unitbytes := m_unitbytes (hd parent),
                         m_compression := codec, m_file := file\<rparr> # parent))"

text \<open>
  The variants that take a file name: \<open>openres\<close> is the result of \<^verbatim>\<open>core_file::open\<close>, and the last
  component says whether the file is removed again.
\<close>

definition after_create :: "(error_condition option \<times> chain) res \<Rightarrow> (error_condition option \<times> chain \<times> bool) res" where
  "after_create r = (case r of Inl u \<Rightarrow> Inl u | Inr (err, chain) \<Rightarrow> Inr (err, chain, err \<noteq> None))"

definition chd_create_name ::
    "codec_libs \<Rightarrow> huffman_context \<Rightarrow> chain \<Rightarrow> error_condition + vfile \<Rightarrow> nat \<Rightarrow> nat \<Rightarrow> nat \<Rightarrow> u32 list \<Rightarrow>
      (error_condition option \<times> chain \<times> bool) res" where
  "chd_create_name libs decoder0 chain openres logicalbytes hunkbytes unitbytes codec =
     (if m_file (hd chain) \<noteq> None then Inr (Some (Chd_Error ALREADY_OPEN), chain, False)
      else case openres of
             Inl filerr \<Rightarrow> Inr (Some filerr, chain, False)
           | Inr file \<Rightarrow> after_create (chd_create libs decoder0 chain (Some file) logicalbytes hunkbytes unitbytes codec))"

definition chd_create_child_name ::
    "codec_libs \<Rightarrow> huffman_context \<Rightarrow> chain \<Rightarrow> error_condition + vfile \<Rightarrow> nat \<Rightarrow> nat \<Rightarrow> u32 list \<Rightarrow> chain \<Rightarrow>
      (error_condition option \<times> chain \<times> bool) res" where
  "chd_create_child_name libs decoder0 chain openres logicalbytes hunkbytes codec parent =
     (if m_file (hd chain) \<noteq> None then Inr (Some (Chd_Error ALREADY_OPEN), chain, False)
      else case openres of
             Inl filerr \<Rightarrow> Inr (Some filerr, chain, False)
           | Inr file \<Rightarrow> after_create (chd_create_child libs decoder0 chain (Some file) logicalbytes hunkbytes codec parent))"

subsection \<open>Opening\<close>

definition parse_header :: "chd_file \<Rightarrow> bytes \<Rightarrow> (chd_file \<times> bytes) exc" where
  "parse_header c rawheader =
     (if m_version c = 3 then parse_v3_header c rawheader sha1_null
      else if m_version c = 4 then parse_v4_header c rawheader sha1_null
      else if m_version c = 5 then parse_v5_header c rawheader sha1_null
      else Inr (Inl (Throw (Chd_Error UNSUPPORTED_VERSION))))"

text \<open>
  The parent: given by the caller, found by \<open>open_parent\<close> (\<open>None\<close> when the caller passed no function),
  or missing. The result is the chain of parents and whether it is missing.
\<close>

definition resolve_parent :: "(bytes \<Rightarrow> chain) option \<Rightarrow> chain \<Rightarrow> bytes \<Rightarrow> thrown + (chain \<times> bool)" where
  "resolve_parent open_parent parents parentsha1 =
     (if parentsha1 \<noteq> sha1_null then
        let parents1 = (case open_parent of Some f \<Rightarrow> if parents = [] then f parentsha1 else parents | None \<Rightarrow> parents)
        in if parents1 = [] then Inr ([], True)
           else if chd_sha1 (hd parents1) \<noteq> parentsha1 then Inl (Throw (Chd_Error INVALID_PARENT))
           else Inr (parents1, False)
      else if parents \<noteq> [] then Inl (Throw (Std_Error Errc_invalid_argument))
      else Inr (parents, False))"

text \<open>Writes are only allowed to the most recent version.\<close>

definition only_newest :: "chd_file \<Rightarrow> chd_file" where
  "only_newest c = (if m_version c < HEADER_VERSION then c\<lparr>m_allow_writes := False\<rparr> else c)"

definition mark_missing :: "bool \<Rightarrow> chd_file \<Rightarrow> chd_file" where
  "mark_missing missing c = (if missing then c\<lparr>m_parent_missing := True\<rparr> else c)"

definition open_body ::
    "codec_libs \<Rightarrow> huffman_context \<Rightarrow> bool \<Rightarrow> (bytes \<Rightarrow> chain) option \<Rightarrow> chd_file \<Rightarrow> chain \<Rightarrow> chain exc" where
  "open_body libs decoder0 writeable open_parent c0 parents =
     (let c = c0\<lparr>m_allow_reads := True\<rparr> in
      case file_read c 0 (replicate V5_HEADER_SIZE 0) V5_HEADER_SIZE of
        (Some e, _) \<Rightarrow> Inr (Inl (Throw e))
      | (None, rawheader) \<Rightarrow>
          if take 8 rawheader \<noteq> MComprHD then Inr (Inl (Throw (Chd_Error INVALID_FILE)))
          else
            case parse_header (c\<lparr>m_version := h32 rawheader 12\<rparr>) rawheader of
              Inl u \<Rightarrow> Inl u
            | Inr (Inl t) \<Rightarrow> Inr (Inl t)
            | Inr (Inr (c1, parentsha1)) \<Rightarrow>
                let c2 = only_newest c1 in
                if writeable \<and> \<not> m_allow_writes c2 then Inr (Inl (Throw (Chd_Error FILE_NOT_WRITEABLE)))
                else
                  case resolve_parent open_parent parents parentsha1 of
                    Inl t \<Rightarrow> Inr (Inl t)
                  | Inr (parents1, missing) \<Rightarrow>
                      (case create_open_common libs decoder0 (mark_missing missing c2) of
                         Inl u \<Rightarrow> Inl u
                       | Inr (Inl t) \<Rightarrow> Inr (Inl t)
                       | Inr (Inr c3) \<Rightarrow> Inr (Inr (c3 # parents1))))"

definition open_common ::
    "codec_libs \<Rightarrow> huffman_context \<Rightarrow> bool \<Rightarrow> (bytes \<Rightarrow> chain) option \<Rightarrow> chain \<Rightarrow> (error_condition option \<times> chain) res" where
  "open_common libs decoder0 writeable open_parent chain =
     (case open_body libs decoder0 writeable open_parent (hd chain) (tl chain) of
        Inl u \<Rightarrow> Inl u
      | Inr (Inl (Throw e)) \<Rightarrow> Inr (Some e, chd_close chain)
      | Inr (Inl Throw_Bad_Alloc) \<Rightarrow> Inl Uncaught_Exception
      | Inr (Inr chain') \<Rightarrow> Inr (None, chain'))"

definition chd_open ::
    "codec_libs \<Rightarrow> huffman_context \<Rightarrow> chain \<Rightarrow> vfile option \<Rightarrow> bool \<Rightarrow> chain \<Rightarrow> (bytes \<Rightarrow> chain) option \<Rightarrow>
      (error_condition option \<times> chain) res" where
  "chd_open libs decoder0 chain file writeable parent open_parent =
     (if m_file (hd chain) \<noteq> None then Inr (Some (Chd_Error ALREADY_OPEN), chain)
      else if file = None then Inr (Some (Std_Error Errc_invalid_argument), chain)
      else open_common libs decoder0 writeable open_parent
             ((hd chain)\<lparr>m_file := file, m_cachehunk := 2 ^ 32 - 1\<rparr> # parent))"

definition chd_open_name ::
    "codec_libs \<Rightarrow> huffman_context \<Rightarrow> chain \<Rightarrow> (bool \<Rightarrow> error_condition + vfile) \<Rightarrow> bool \<Rightarrow> chain \<Rightarrow> (bytes \<Rightarrow> chain) option \<Rightarrow>
      (error_condition option \<times> chain) res" where
  "chd_open_name libs decoder0 chain openres writeable parent open_parent =
     (if m_file (hd chain) \<noteq> None then Inr (Some (Chd_Error ALREADY_OPEN), chain)
      else case openres writeable of
             Inl filerr \<Rightarrow> Inr (Some filerr, chain)
           | Inr file \<Rightarrow> chd_open libs decoder0 chain (Some file) writeable parent open_parent)"

end
