(* ===== verification/Chd_Open_Laws.thy ===== *)
theory Chd_Open_Laws
  imports Chd_Open
begin

text \<open>
  Creating, closing and opening keep the contents: a created file represents zeros, the header in the
  file stays true to the state in memory under every write, and opening a file finds the hunks that
  were stored.
\<close>

subsection \<open>The bytes of the header\<close>

definition be32 :: "u32 \<Rightarrow> bytes" where
  "be32 d = [ucast (drop_bit 24 d), ucast (drop_bit 16 d), ucast (drop_bit 8 d), ucast d]"

definition be64 :: "u64 \<Rightarrow> bytes" where
  "be64 d = [ucast (drop_bit 56 d), ucast (drop_bit 48 d), ucast (drop_bit 40 d), ucast (drop_bit 32 d),
     ucast (drop_bit 24 d), ucast (drop_bit 16 d), ucast (drop_bit 8 d), ucast d]"

definition zeros :: "nat \<Rightarrow> bytes" where
  "zeros k = replicate k 0"

lemma length_be [simp]: "length (be32 d) = 4" "length (be64 e) = 8" "length (zeros k) = k"
  by (simp_all add: be32_def be64_def zeros_def)

lemma zeros_0 [simp]: "zeros 0 = []"
  by (simp add: zeros_def)

lemma drop_zeros [simp]: "drop i (zeros k) = zeros (k - i)"
  by (simp add: zeros_def)

lemma take_zeros [simp]: "take i (zeros k) = zeros (min i k)"
  by (simp add: zeros_def)

lemma put_zeros:
  "4 \<le> k \<Longrightarrow> put_u32be d (zeros k) = be32 d @ zeros (k - 4)" "8 \<le> k \<Longrightarrow> put_u64be e (zeros k) = be64 e @ zeros (k - 8)"
  "20 \<le> k \<Longrightarrow> length v = 20 \<Longrightarrow> be_write_sha1 v (zeros k) = v @ zeros (k - 20)"
  by (simp_all add: put_u32be_front put_u64be_front be32_def be64_def be_write_sha1_def overwrite_def)

lemma at_off_append: "length p = i \<Longrightarrow> at_off i f (p @ r) = p @ f r"
  by (simp add: at_off_def)

lemma get_be32 [simp]: "get_u32be (be32 d @ r) = d"
proof -
  have "be32 d @ r = put_u32be d (zeros 4 @ r)" by (simp add: put_u32be_front be32_def)
  then show ?thesis by (simp add: get_put_u32be)
qed

lemma get_be64 [simp]: "get_u64be (be64 d @ r) = d"
proof -
  have "be64 d @ r = put_u64be d (zeros 8 @ r)" by (simp add: put_u64be_front be64_def)
  then show ?thesis by (simp add: get_put_u64be)
qed

lemma length_MComprHD [simp]: "length MComprHD = 8"
  by (simp add: MComprHD_def)

lemma v5_header_bytes:
  assumes "m_compression c = [c0, c1, c2, c3]" "length p = 20"
  shows "v5_header c p =
    MComprHD @ be32 (of_nat V5_HEADER_SIZE) @ be32 (of_nat (m_version c)) @ be32 c0 @ be32 c1 @ be32 c2 @ be32 c3
    @ be64 (of_nat (m_logicalbytes c)) @ be64 (if compressed c then 0 else of_nat V5_HEADER_SIZE)
    @ be64 (of_nat (m_metaoffset c)) @ be32 (of_nat (m_hunkbytes c)) @ be32 (of_nat (m_unitbytes c))
    @ sha1_null @ sha1_null @ p"
proof -
  have step: "at_off i f (q @ zeros k) = (q @ x) @ zeros m" if "length q = i" "f (zeros k) = x @ zeros m" for i f q k x m
    using at_off_append [OF that(1), of f "zeros k"] that(2) by simp
  have z: "overwrite 0 MComprHD (replicate V5_HEADER_SIZE 0) = MComprHD @ zeros 116"
    by (simp add: overwrite_def V5_HEADER_SIZE_def zeros_def del: replicate.simps)
  have n: "length sha1_null = 20" by (simp add: sha1_null_def)
  have s32: "at_off i (put_u32be d) (q @ zeros k) = (q @ be32 d) @ zeros (k - 4)" if "length q = i" "4 \<le> k" for i d q k
    using that by (intro step) (simp_all add: put_zeros)
  have s64: "at_off i (put_u64be d) (q @ zeros k) = (q @ be64 d) @ zeros (k - 8)" if "length q = i" "8 \<le> k" for i d q k
    using that by (intro step) (simp_all add: put_zeros)
  have s20: "at_off i (be_write_sha1 v) (q @ zeros k) = (q @ v) @ zeros (k - 20)" if "length q = i" "20 \<le> k" "length v = 20" for i v q k
    using that by (intro step) (simp_all add: put_zeros)
  show ?thesis
    unfolding v5_header_def Let_def z by (simp add: s32 s64 s20 n assms del: append_assoc split del: if_split)
qed

subsection \<open>A header that is true to the state\<close>

definition geometry :: "chd_file \<Rightarrow> nat \<times> nat \<times> nat \<times> nat \<times> nat \<times> nat \<times> nat \<times> u32 list" where
  "geometry c = (m_logicalbytes c, m_mapoffset c, m_metaoffset c, m_hunkbytes c, m_hunkcount c, m_unitbytes c, m_unitcount c, m_compression c)"

text \<open>Parsing the first 124 bytes of the file gives the geometry in memory, and the map lies behind them.\<close>

definition header_on_disk :: "chd_file \<Rightarrow> bool" where
  "header_on_disk c \<longleftrightarrow>
     124 \<le> m_mapoffset c \<and> 124 \<le> length (file_data c) \<and> take 8 (file_data c) = MComprHD \<and> h32 (take 124 (file_data c)) 12 = 5 \<and>
     length (m_compression c) = 4 \<and> m_compression c = replicate 4 CHD_CODEC_NONE \<and>
     (\<exists>c1. parse_v5_header chd_closed (take 124 (file_data c)) sha1_null = Inr (Inr (c1, sha1_null)) \<and> geometry c1 = geometry c)"

definition disk_stored :: "nat \<Rightarrow> nat \<Rightarrow> (nat \<Rightarrow> bytes) \<Rightarrow> chain \<Rightarrow> bool" where
  "disk_stored hb n f chain \<longleftrightarrow> stored hb n f chain \<and> header_on_disk (hd chain)"

lemma header_on_disk_cong:
  assumes "take 124 (file_data c') = take 124 (file_data c)" "geometry c' = geometry c" "length (file_data c) \<le> length (file_data c')"
    "header_on_disk c"
  shows "header_on_disk c'"
proof -
  have "take 8 (file_data c') = take 8 (file_data c)" using arg_cong [OF assms(1), of "take 8"] by simp
  with assms show ?thesis by (auto simp: header_on_disk_def geometry_def)
qed

lemma take_pwrite_after: "i \<le> off \<Longrightarrow> i \<le> length data \<Longrightarrow> take i (pwrite off src data) = take i data"
  by (simp add: pwrite_def)

lemma pwrite_grows: "length data \<le> length (pwrite off src data)"
  by (cases "src = []") (auto simp: pwrite_def)

lemma geometry_updates [simp]:
  "geometry (set_data d c) = geometry c" "geometry (c\<lparr>m_rawmap := m\<rparr>) = geometry c" "geometry (c\<lparr>m_cache := k\<rparr>) = geometry c"
  "geometry (c\<lparr>m_cachehunk := i\<rparr>) = geometry c"
  by (simp_all add: geometry_def set_data_def)

lemma header_on_disk_cache [simp]:
  "header_on_disk (c\<lparr>m_cache := k\<rparr>) = header_on_disk c" "header_on_disk (c\<lparr>m_cachehunk := i\<rparr>) = header_on_disk c"
  by (simp_all add: header_on_disk_def)

lemma header_kept:
  assumes g: "raw_geometry hb n c" and b: "raw_blocks hb n c" and h: "h < n" "hb \<le> length buf" and cache: "length (m_cache c) = hb"
    and hd: "header_on_disk c" and w: "write_hunk c h buf from_cache = Inr (None, c')"
  shows "header_on_disk c'"
proof -
  have hc: "healthy c" "m_hunkbytes c = hb" "0 < hb" using g by (simp_all add: raw_geometry_def)
  have mo: "124 \<le> m_mapoffset c" "124 \<le> length (file_data c)" using hd by (auto simp: header_on_disk_def)
  note w' = w [unfolded write_hunk_raw [OF g b h cache]]
  consider (over) "map_block c h \<noteq> 0" | (zero) "map_block c h = 0" "c' = c" | (new) "map_block c h = 0" "c' = c \<or> c' = allocated c h (take hb buf) \<or>
      c' = allocated c h (take hb buf)\<lparr>m_cache := take hb buf\<rparr>"
    using w' by (auto simp: Let_def split: if_splits)
  then show ?thesis
  proof cases
    case over
    then have c': "c' = set_data (pwrite (map_block c h * hb) (take hb buf) (file_data c)) c" using w' by simp
    have "124 \<le> map_block c h * hb" using b h(1) over mo(1) unfolding raw_blocks_def by fastforce
    then show ?thesis
      by (intro header_on_disk_cong [OF _ _ _ hd]) (use hc mo in \<open>simp_all add: c' take_pwrite_after pwrite_grows\<close>)
  next
    case new
    have "header_on_disk (allocated c h (take hb buf))"
      by (intro header_on_disk_cong [OF _ _ _ hd])
        (use hc mo in \<open>simp_all add: allocated_def Let_def take_pwrite_after order.trans [OF _ pwrite_grows]\<close>)
    with new(2) hd show ?thesis by auto
  qed (use hd in simp)
qed

lemma disk_write:
  assumes st: "disk_stored hb n f [c]" and h: "h < n" "hb \<le> length buf"
    and cache: "length k = hb" "if from_cache then m_cachehunk c = h \<and> k = take hb buf else m_cachehunk c \<noteq> h \<and> k = m_cache c"
  shows "\<exists>c'. write_hunk (c\<lparr>m_cache := k\<rparr>) h buf from_cache = Inr (None, c') \<and> disk_stored hb n (f(h := take hb buf)) [c']"
proof -
  have s: "stored hb n f [c]" "header_on_disk c" using st by (simp_all add: disk_stored_def)
  obtain c' where c': "write_hunk (c\<lparr>m_cache := k\<rparr>) h buf from_cache = Inr (None, c')" "stored hb n (f(h := take hb buf)) [c']"
    using write_stored [OF s(1) h cache] by blast
  have "raw_geometry hb n (c\<lparr>m_cache := k\<rparr>)" "raw_blocks hb n (c\<lparr>m_cache := k\<rparr>)"
    using stored_head [OF s(1)] by (simp_all add: raw_geometry_def raw_blocks_def map_block_def)
  from header_kept [OF this h _ _ c'(1)] have "header_on_disk c'" using s(2) cache(1) by simp
  with c' show ?thesis by (auto simp: disk_stored_def)
qed

text \<open>
  The contracts of the hunk reader and writer hold of the invariant with the header, so that byte
  transfers keep the header too.
\<close>

interpretation disk: hunk_writer "read_hunk (Suc fuel) cx" "disk_stored hb n" hb n for fuel cx hb n
proof
  fix f chain h
  assume st: "disk_stored hb n f chain"
  then have s: "stored hb n f chain" "header_on_disk (hd chain)" by (simp_all add: disk_stored_def)
  obtain c where c: "chain = [c]" "raw_geometry hb n c" "raw_blocks hb n c" "\<forall>h < n. f h = stored_hunk c h"
    using s(1) by (auto simp: stored_def)
  show "h < n \<Longrightarrow> length (f h) = hb" by (rule raw.inv_hunk [OF s(1)])
  show "\<exists>c parents. chain = c # parents \<and> m_hunkbytes c = hb \<and> length (m_cache c) = hb \<and>
      (m_cachehunk c < n \<longrightarrow> m_cache c = f (m_cachehunk c))"
    by (rule raw.inv_head [OF s(1)])
  show "h < n \<Longrightarrow> hb \<le> length dest \<Longrightarrow> \<exists>chain'. read_hunk (Suc fuel) cx chain h dest =
      Inr (None, overwrite 0 (f h) dest, chain') \<and> disk_stored hb n f chain'" for dest
    using read_stored [OF c(2,3), of h dest fuel cx] c(1,4) st by simp
next
  fix f c parents h buf
  assume st: "disk_stored hb n f (c # parents)" and h: "h < n"
  show "disk_stored hb n f (c\<lparr>m_cache := f h, m_cachehunk := h\<rparr> # parents)"
    using st cached_stored [of hb n f c parents h] h by (simp add: disk_stored_def)
  have p: "parents = []" "length (m_cache c) = hb" using st by (auto simp: disk_stored_def stored_def cache_holds_def)
  show "h \<noteq> m_cachehunk c \<Longrightarrow> hb \<le> length buf \<Longrightarrow> \<exists>c'. write_hunk c h buf False = Inr (None, c') \<and>
      disk_stored hb n (f(h := take hb buf)) (c' # parents)"
    using disk_write [of hb n f c h buf "m_cache c" False] st h p by auto
  show "m_cachehunk c = h \<Longrightarrow> length buf = hb \<Longrightarrow> \<exists>c'. write_hunk (c\<lparr>m_cache := buf\<rparr>) h buf True = Inr (None, c') \<and>
      disk_stored hb n (f(h := buf)) (c' # parents)"
    using disk_write [of hb n f c h buf buf True] st h p by auto
qed

lemma write_bytes_disk:
  assumes "disk_stored hb n f chain" "transfer_ok hb n offset bytes" "bytes \<le> length source"
  shows "\<exists>g chain'. write_bytes (Suc fuel) cx chain offset source bytes = Inr (None, chain') \<and>
    disk_stored hb n g chain' \<and> flat n g = overwrite offset (take bytes source) (flat n f)"
proof -
  obtain c parents where c: "chain = c # parents" "m_hunkbytes c = hb" using disk.inv_head [OF assms(1)] by blast
  have "0 < hb" using assms(2) by (simp add: transfer_ok_def)
  then show ?thesis using disk.write_bytes_loop_flat [OF assms, of fuel cx] c by (simp add: write_bytes_def)
qed

subsection \<open>Opening\<close>

lemma no_decompressors: "init_decompressors libs hunkbytes (replicate k CHD_CODEC_NONE) = Inr (replicate k False)"
proof (induction k)
  case (Suc k)
  then show ?case by (simp add: CHD_CODEC_NONE_def new_decompressor_none [unfolded CHD_CODEC_NONE_def])
qed simp

text \<open>Parsing sets the same fields whatever the state was before.\<close>

lemma parse_v5_fields:
  assumes "parse_v5_header c rawheader p = Inr (Inr (c1, sha))"
  shows "m_file c1 = m_file c" "m_version c1 = m_version c" "m_parent_missing c1 = m_parent_missing c" "m_cachehunk c1 = m_cachehunk c"
    "m_cache c1 = m_cache c" "m_rawmap c1 = m_rawmap c" "m_compressed c1 = m_compressed c"
    "m_mapentrybytes c1 = (if compressed c1 then 12 else 4)" "m_allow_writes c1 = (\<not> compressed c1)"
    "m_unitbytes c1 \<noteq> 0" "m_hunkbytes c1 \<noteq> 0" "length (m_compression c1) = 4"
  using assms by (auto simp: parse_v5_header_def Let_def compressed_def split: if_splits)

lemma parse_v5_same:
  assumes "parse_v5_header c rawheader p = Inr (Inr (c1, sha))"
  shows "\<exists>c2. parse_v5_header d rawheader q = Inr (Inr (c2, sha)) \<and> geometry c2 = geometry c1"
  using assms by (auto simp: parse_v5_header_def Let_def geometry_def split: if_splits)

text \<open>The common end, for an uncompressed file: the map, of \<open>m\<close> bytes, is read as it is.\<close>

definition raw_loaded :: "nat \<Rightarrow> chd_file \<Rightarrow> chd_file" where
  "raw_loaded m c = c\<lparr>m_decompressor := replicate 4 False, m_rawmap := slice (m_mapoffset c) m (file_data c),
     m_compressed := replicate (m_hunkbytes c) 0, m_cache := replicate (m_hunkbytes c) 0\<rparr>"

lemma raw_loaded_simps [simp]:
  "healthy (raw_loaded m c) = healthy c" "file_data (raw_loaded m c) = file_data c" "geometry (raw_loaded m c) = geometry c"
  "compressed (raw_loaded m c) = compressed c"
  by (simp_all add: raw_loaded_def healthy_def file_data_def geometry_def compressed_def)

lemma create_open_raw:
  assumes "healthy c" "m_compression c = replicate 4 CHD_CODEC_NONE" "m_mapentrybytes c = 4" "w32 (m_hunkcount c * 4) = m"
    "m_rawmap c = []" "m_compressed c = []" "m_cache c = []" "m_mapoffset c + m \<le> length (file_data c)"
  shows "create_open_common libs decoder0 c = Inr (Inr (raw_loaded m c))"
proof -
  define c2 where "c2 = c\<lparr>m_decompressor := replicate 4 False, m_rawmap := replicate m 0\<rparr>"
  have c2: "healthy c2" "file_data c2 = file_data c" "m_mapoffset c2 = m_mapoffset c" "\<not> compressed c2" "m_rawmap c2 = replicate m 0"
    "m_hunkbytes c2 = m_hunkbytes c" "m_compressed c2 = []" "m_cache c2 = []"
    using assms by (simp_all add: c2_def healthy_def file_data_def compressed_def)
  have "file_read c2 (m_mapoffset c) (replicate m 0) m = (None, slice (m_mapoffset c) m (file_data c))"
    unfolding file_read_healthy [OF c2(1)] c2(2) using assms(8) by (simp add: overwrite_def)
  then have load: "load_map decoder0 c2 = Inr (Inr (c2\<lparr>m_rawmap := slice (m_mapoffset c) m (file_data c)\<rparr>))"
    using c2(3-5) by (simp add: load_map_def)
  have rm: "resize m [] = replicate m 0" by (simp add: resize_def)
  have "create_open_common libs decoder0 c = Inr (Inr (c2\<lparr>m_rawmap := slice (m_mapoffset c) m (file_data c),
      m_compressed := replicate (m_hunkbytes c) 0, m_cache := replicate (m_hunkbytes c) 0\<rparr>))"
    unfolding create_open_common_def assms(2-5) no_decompressors sum.case rm c2_def [symmetric] load
    using c2(6-8) by (simp add: resize_def)
  then show ?thesis by (simp add: c2_def raw_loaded_def)
qed

lemma open_disk_stored:
  assumes st: "disk_stored hb n f [c]" and sm: "n < 2 ^ 32 - 1"
  shows "\<exists>c'. chd_open libs decoder0 [chd_closed] (m_file c) writeable [] open_parent = Inr (None, [c']) \<and>
    disk_stored hb n f [c'] \<and> geometry c' = geometry c"
proof -
  have s: "raw_geometry hb n c" "raw_blocks hb n c" "\<forall>h < n. f h = stored_hunk c h"
    using st by (auto simp: disk_stored_def stored_def)
  have hd: "header_on_disk c" using st by (simp add: disk_stored_def)
  have hc: "healthy c" "m_hunkbytes c = hb" "m_hunkcount c = n" "m_mapoffset c + 4 * n < 2 ^ 64" "4 * n < 2 ^ 32"
    using s(1) by (simp_all add: raw_geometry_def)
  define c0 where "c0 = chd_closed\<lparr>m_file := m_file c, m_cachehunk := 2 ^ 32 - 1, m_allow_reads := True\<rparr>"
  define hdr where "hdr = take 124 (file_data c)"
  have h0: "healthy c0" "file_data c0 = file_data c" using hc(1) by (simp_all add: healthy_def file_data_def c0_def)
  have rd: "file_read c0 0 (replicate V5_HEADER_SIZE 0) V5_HEADER_SIZE = (None, hdr)"
    using file_read_healthy [OF h0(1)] h0(2) hd by (simp add: V5_HEADER_SIZE_def header_on_disk_def hdr_def overwrite_def slice_def)
  have hv: "take 8 hdr = MComprHD" "h32 hdr 12 = 5" using hd by (auto simp: header_on_disk_def hdr_def min_def)
  obtain c1 where c1: "parse_v5_header (c0\<lparr>m_version := 5\<rparr>) hdr sha1_null = Inr (Inr (c1, sha1_null))" "geometry c1 = geometry c"
    using hd parse_v5_same [of chd_closed hdr sha1_null _ sha1_null "c0\<lparr>m_version := 5\<rparr>" sha1_null]
    unfolding header_on_disk_def hdr_def [symmetric] by metis
  have z: "m_file c0 = m_file c" "m_parent_missing c0 = False" "m_cachehunk c0 = 2 ^ 32 - 1" "m_cache c0 = []" "m_rawmap c0 = []" "m_compressed c0 = []"
    "m_file chd_closed = None" by (simp_all add: c0_def chd_closed_def)
  have p: "m_file c1 = m_file c" "m_version c1 = 5" "\<not> m_parent_missing c1" "m_cachehunk c1 = 2 ^ 32 - 1"
    "m_cache c1 = []" "m_rawmap c1 = []" "m_compressed c1 = []"
    "m_mapentrybytes c1 = (if compressed c1 then 12 else 4)" "m_allow_writes c1 = (\<not> compressed c1)"
    using parse_v5_fields [OF c1(1)] z by simp_all
  have g1: "m_mapoffset c1 = m_mapoffset c" "m_hunkbytes c1 = hb" "m_hunkcount c1 = n" "m_compression c1 = replicate 4 CHD_CODEC_NONE"
    using c1(2) hc hd by (simp_all add: geometry_def header_on_disk_def)
  have nc: "\<not> compressed c1" using g1(4) by (simp add: compressed_def)
  have h1: "healthy c1" "file_data c1 = file_data c" using hc(1) p(1) by (simp_all add: healthy_def file_data_def)
  have b: "length (m_rawmap c) = 4 * n" "m_mapoffset c + 4 * n \<le> length (file_data c)" "slice (m_mapoffset c) (4 * n) (file_data c) = m_rawmap c"
    using s(2) by (simp_all add: raw_blocks_def)
  define c3 where "c3 = raw_loaded (4 * n) c1"
  have co: "create_open_common libs decoder0 c1 = Inr (Inr c3)"
    unfolding c3_def by (rule create_open_raw) (use h1 g1 p nc hc(5) b(2) in \<open>simp_all add: w32_small\<close>)
  have "chd_open libs decoder0 [chd_closed] (m_file c) writeable [] open_parent = Inr (None, [c3])"
  proof -
    have w: "\<not> (writeable \<and> \<not> m_allow_writes c1)" "\<not> m_version c1 < HEADER_VERSION" using p nc by (simp_all add: HEADER_VERSION_def)
    have f: "chd_closed\<lparr>m_file := m_file c, m_cachehunk := 2 ^ 32 - 1\<rparr>\<lparr>m_allow_reads := True\<rparr> = c0" by (simp add: c0_def)
    have parse: "parse_header (c0\<lparr>m_version := 5\<rparr>) hdr = Inr (Inr (c1, sha1_null))" using c1(1) by (simp add: parse_header_def)
    have k: "only_newest c1 = c1" "mark_missing False c1 = c1" using w(2) by (simp_all add: only_newest_def mark_missing_def)
    have "open_body libs decoder0 writeable open_parent (chd_closed\<lparr>m_file := m_file c, m_cachehunk := 2 ^ 32 - 1\<rparr>) [] = Inr (Inr [c3])"
      unfolding open_body_def Let_def f rd prod.case option.case hv parse
      using w co by (simp only: k sum.case prod.case resolve_parent_def simp_thms if_False if_True)
    then show ?thesis using hc(1) z(7) by (simp add: chd_open_def open_common_def)
  qed
  moreover have "disk_stored hb n f [c3]"
  proof -
    have h3: "healthy c3" "file_data c3 = file_data c" using h1 by (simp_all add: c3_def)
    have m3: "m_mapoffset c3 = m_mapoffset c" "m_hunkbytes c3 = hb" "m_hunkcount c3 = n" "m_rawmap c3 = m_rawmap c" "m_mapentrybytes c3 = 4"
        "m_version c3 = 5" "\<not> compressed c3" "m_allow_writes c3" "\<not> m_parent_missing c3" "m_cache c3 = replicate hb 0" "m_cachehunk c3 = 2 ^ 32 - 1"
        "m_compression c3 = replicate 4 CHD_CODEC_NONE"
      using g1 nc p h1(2) b(3) by (simp_all add: c3_def raw_loaded_def compressed_def)
    have eq: "map_block c3 = map_block c" by (simp add: fun_eq_iff map_block_def m3(4))
    have "raw_geometry hb n c3" using s(1) h3(1) m3 by (simp add: raw_geometry_def)
    moreover have "raw_blocks hb n c3" using s(2) h3 m3 by (simp add: raw_blocks_def eq)
    moreover have "\<forall>h < n. f h = stored_hunk c3 h" using s(3) h3 m3 hc(2) by (simp add: stored_hunk_def eq)
    moreover have "cache_holds hb n f c3" using m3 sm by (simp add: cache_holds_def)
    moreover have "header_on_disk c3" using c1(2) hd h3 by (intro header_on_disk_cong [OF _ _ _ hd]) (simp_all add: c3_def)
    ultimately show ?thesis by (simp add: disk_stored_def stored_def)
  qed
  moreover have "geometry c3 = geometry c" using c1(2) by (simp add: c3_def)
  ultimately show ?thesis by blast
qed

subsection \<open>Creating\<close>

lemma write_zero_map_healthy:
  assumes "healthy c" "length (file_data c) + m < 2 ^ 64"
  shows "write_zero_map (length (file_data c)) m c = (None, set_data (file_data c @ replicate m 0) c)"
  using assms
proof (induction m arbitrary: c rule: less_induct)
  case (less m)
  show ?case
  proof (cases "m = 0")
    case True
    with less.prems(1) show ?thesis by (simp add: write_zero_map.simps)
  next
    case False
    define b where "b = min m 4096"
    have b: "0 < b" "b \<le> m" using False by (auto simp: b_def)
    let ?c = "set_data (file_data c @ replicate b 0) c"
    have w: "file_write c (length (file_data c)) (replicate b 0) = (None, ?c)"
      using file_write_healthy [OF less.prems(1)] by (simp add: pwrite_end)
    have "write_zero_map (length (file_data c) + b) (m - b) ?c = (None, set_data (file_data c @ replicate b 0 @ replicate (m - b) 0) c)"
      using less.IH [of "m - b" ?c] less.prems b by simp
    moreover have "replicate b (0 :: u8) @ replicate (m - b) 0 = replicate m 0" using b by (simp flip: replicate_add)
    ultimately show ?thesis
      using False w b less.prems(2) by (simp add: write_zero_map.simps [of _ m] Let_def b_def [symmetric] w64_small)
  qed
qed

lemma v5_header_fields:
  assumes "m_compression c = [c0, c1, c2, c3]" "length p = 20" "m_version c < 2 ^ 32" "m_logicalbytes c < 2 ^ 64"
    "m_hunkbytes c < 2 ^ 32" "m_unitbytes c < 2 ^ 32" "m_metaoffset c = 0"
  defines "h \<equiv> v5_header c p"
  shows "length h = 124" "take 8 h = MComprHD" "h32 h 8 = 124" "h32 h 12 = m_version c"
    "map (\<lambda>i. get_u32be (drop (16 + 4 * i) h)) [0..<4] = [c0, c1, c2, c3]" "h64 h 32 = m_logicalbytes c"
    "h64 h 40 = (if compressed c then 0 else 124)" "h64 h 48 = 0" "h32 h 56 = m_hunkbytes c" "h32 h 60 = m_unitbytes c"
    "be_read_sha1 (drop 104 h) = p"
proof -
  note hb = v5_header_bytes [OF assms(1,2), folded h_def]
  have n: "length sha1_null = 20" by (simp add: sha1_null_def)
  show "length h = 124" "take 8 h = MComprHD" using assms(2) n by (simp_all add: hb)
  show "h32 h 8 = 124" "h32 h 12 = m_version c" "h32 h 56 = m_hunkbytes c" "h32 h 60 = m_unitbytes c"
    using assms(1-7) n by (simp_all add: h32_def hb V5_HEADER_SIZE_def unat_of_nat_small)
  show "h64 h 32 = m_logicalbytes c" "h64 h 40 = (if compressed c then 0 else 124)" "h64 h 48 = 0"
    using assms(1-7) n by (simp_all add: h64_def hb V5_HEADER_SIZE_def unat_of_nat_small)
  show "map (\<lambda>i. get_u32be (drop (16 + 4 * i) h)) [0..<4] = [c0, c1, c2, c3]"
    using assms(1-7) n by (simp add: hb upt_rec)
  show "be_read_sha1 (drop 104 h) = p" using assms(2) n by (simp add: hb be_read_sha1_def)
qed

text \<open>
  The parameters of an uncompressed file that the store can hold. \<open>create\<close> itself checks only that hunks have
  whole units. A hunk size that is not a multiple of four loses data (\<open>write_hunk_drops_tail\<close>), and from
  \<open>2 ^ 30\<close> hunks on the 32-bit size of the map wraps; up to \<open>2 ^ 29\<close> hunks, block numbers of the map and
  of the data fit their 32 bits.
\<close>

definition create_ok :: "nat \<Rightarrow> nat \<Rightarrow> nat \<Rightarrow> bool" where
  "create_ok logicalbytes hb ub \<longleftrightarrow>
     0 < hb \<and> hb < 2 ^ 32 \<and> 4 dvd hb \<and> 0 < ub \<and> ub dvd hb \<and> logicalbytes + hb \<le> 2 ^ 64 \<and>
     (logicalbytes + hb - 1) div hb \<le> 2 ^ 29"

lemma verify_no_compression: "verify_compression b (replicate k CHD_CODEC_NONE) = None"
  by (induction k arbitrary: b) auto

lemma zero_block: "length m = 4 * n \<Longrightarrow> m = replicate (4 * n) 0 \<Longrightarrow> h < n \<Longrightarrow> get_u32be (drop (4 * h) m) = 0"
  by (simp add: get_u32be_def nth_append)

lemma replicate4: "replicate 4 x = [x, x, x, x]"
  by (simp add: numeral_eq_Suc)

text \<open>A file that ends with its zero map holds zeros.\<close>

lemma fresh_stored:
  assumes c: "healthy c" "length (file_data c) = 124 + 4 * n" "m_version c = 5" "\<not> compressed c" "m_allow_writes c" "\<not> m_parent_missing c"
      "m_cache c = replicate hb 0" "m_cachehunk c = 2 ^ 32 - 1" "m_hunkbytes c = hb" "m_hunkcount c = n" "m_mapentrybytes c = 4" "m_mapoffset c = 124"
    and rm: "m_rawmap c = replicate (4 * n) 0" and p: "0 < hb" "4 dvd hb" "n \<le> 2 ^ 29"
    and d: "drop 124 (file_data c) = replicate (4 * n) 0"
  shows "stored hb n (\<lambda>_. replicate hb 0) [c]"
proof -
  have z: "map_block c k = 0" if "k < n" for k using zero_block [of "m_rawmap c" n k] that rm by (simp add: map_block_def)
  have "raw_geometry hb n c" using c p by (simp add: raw_geometry_def)
  moreover have "raw_blocks hb n c"
  proof -
    have "{k. k < n \<and> map_block c k = 0} = {..<n}" using z by auto
    moreover have "align_up hb (124 + 4 * n) div hb \<le> 125 + 4 * n"
    proof (cases "hb = 1")
      case False
      then have "align_up hb (124 + 4 * n) div hb \<le> (124 + 4 * n + hb) div hb"
        using align_up_bounds(2) [OF p(1), of "124 + 4 * n"] by (intro div_le_mono) simp
      also have "\<dots> = (124 + 4 * n) div hb + 1" using p(1) by (simp only: div_add_self2)
      also have "\<dots> \<le> 125 + 4 * n" using div_le_dividend [of "124 + 4 * n" hb] by simp
      finally show ?thesis .
    qed (simp add: align_up_def)
    ultimately show ?thesis using c rm z d p(3) by (simp add: raw_blocks_def slice_def)
  qed
  moreover have "\<forall>k < n. replicate hb 0 = stored_hunk c k" using z c by (simp add: stored_hunk_def)
  moreover have "cache_holds hb n (\<lambda>_. replicate hb 0) c" using c by (simp add: cache_holds_def)
  ultimately show ?thesis by (simp add: stored_def)
qed

lemma create_raw_steps:
  assumes c: "c = chd_closed\<lparr>m_logicalbytes := L, m_hunkbytes := hb, m_unitbytes := ub, m_compression := codec,
       m_file := Some f, m_version := HEADER_VERSION, m_metaoffset := 0\<rparr>"
    and chk: "create_checks c [] = Inr None" and h: "h = v5_header c sha1_null" and w: "file_write c 0 h = (None, c1)"
    and parse: "parse_v5_header c1 h sha1_null = Inr (Inr (c2, sha1))"
    and c3: "c3 = c2\<lparr>m_allow_writes := True, m_allow_reads := \<not> compressed c2\<rparr>"
    and map: "\<not> compressed c3" "write_zero_map (m_mapoffset c3) (w32 (m_mapentrybytes c3 * m_hunkcount c3)) c3 = (None, c4)"
    and co: "create_open_common libs decoder0 c4 = Inr (Inr c5)"
  shows "chd_create libs decoder0 [chd_closed] (Some f) L hb ub codec = Inr (None, [c5])"
proof -
  define c0 where "c0 = chd_closed\<lparr>m_logicalbytes := L, m_hunkbytes := hb, m_unitbytes := ub, m_compression := codec, m_file := Some f\<rparr>"
  have c': "c0\<lparr>m_version := HEADER_VERSION, m_metaoffset := 0\<rparr> = c" by (simp add: c0_def c)
  have "create_body libs decoder0 c0 [] = Inr (Inr c5)"
    unfolding create_body_def Let_def c' chk sum.case option.case using w parse map co
    by (simp only: h [symmetric] c3 [symmetric] simp_thms if_False if_True prod.case option.case sum.case not_False_eq_True)
  moreover have "m_file chd_closed = None" by (simp add: chd_closed_def)
  ultimately show ?thesis by (simp add: chd_create_def create_common_def c0_def [symmetric])
qed

lemma created_raw:
  assumes hb: "0 < hb" "hb < 2 ^ 32" and ub: "0 < ub" "hb mod ub = 0" "ub < 2 ^ 32" and L: "L < 2 ^ 64" and f: "no_faults f" "f_data f = []"
  defines "n \<equiv> w32 (div_up L hb)"
  defines "m \<equiv> w32 (4 * n)"
  obtains c where "chd_create libs decoder0 [chd_closed] (Some f) L hb ub (replicate 4 CHD_CODEC_NONE) = Inr (None, [c])"
    "healthy c" "length (file_data c) = 124 + m" "drop 124 (file_data c) = replicate m 0" "m_rawmap c = replicate m 0" "header_on_disk c"
    "geometry c = (L, 124, 0, hb, n, ub, div_up L ub, replicate 4 CHD_CODEC_NONE)" "m_version c = 5" "m_allow_writes c" "\<not> m_parent_missing c"
    "m_cache c = replicate hb 0" "m_cachehunk c = 2 ^ 32 - 1" "m_mapentrybytes c = 4"
proof -
  define c where "c = chd_closed\<lparr>m_logicalbytes := L, m_hunkbytes := hb, m_unitbytes := ub, m_compression := replicate 4 CHD_CODEC_NONE,
     m_file := Some f, m_version := HEADER_VERSION, m_metaoffset := 0\<rparr>"
  have c: "healthy c" "file_data c = []" "m_compression c = [0, 0, 0, 0]" "m_version c = 5" "m_logicalbytes c = L" "m_hunkbytes c = hb"
    "m_unitbytes c = ub" "m_metaoffset c = 0" "\<not> compressed c" "m_rawmap c = []" "m_cache c = []" "m_compressed c = []"
    "m_cachehunk c = 2 ^ 32 - 1" "\<not> m_parent_missing c"
    using f by (simp_all add: c_def healthy_def file_data_def chd_closed_def compressed_def HEADER_VERSION_def CHD_CODEC_NONE_def upt_rec replicate4)
  have n20: "length sha1_null = 20" by (simp add: sha1_null_def)
  define h where "h = v5_header c sha1_null"
  note hf = v5_header_fields [OF c(3) n20, folded h_def, unfolded c(4-8), OF _ L hb(2) ub(3) refl]
  define c1 where "c1 = set_data h c"
  have c1: "healthy c1" "file_data c1 = h" using c(1) by (simp_all add: c1_def)
  have w: "file_write c 0 h = (None, c1)" using file_write_healthy [OF c(1)] c(2) hf(1) by (simp add: c1_def pwrite_def)
  obtain c2 where c2: "parse_v5_header c1 h sha1_null = Inr (Inr (c2, sha1_null))"
      "geometry c2 = (L, 124, 0, hb, n, ub, div_up L ub, replicate 4 CHD_CODEC_NONE)"
    using hf hb ub c(3,9) by (auto simp: parse_v5_header_def Let_def geometry_def V5_HEADER_SIZE_def n_def CHD_CODEC_NONE_def replicate4)
  have p2: "m_file c2 = m_file c1" "m_version c2 = 5" "\<not> m_parent_missing c2" "m_cachehunk c2 = 2 ^ 32 - 1" "m_cache c2 = []" "m_rawmap c2 = []"
      "m_compressed c2 = []" "m_mapentrybytes c2 = (if compressed c2 then 12 else 4)"
    using parse_v5_fields [OF c2(1)] c by (simp_all add: c1_def set_data_def)
  have g2: "m_mapoffset c2 = 124" "m_hunkbytes c2 = hb" "m_hunkcount c2 = n" "m_compression c2 = replicate 4 CHD_CODEC_NONE" "\<not> compressed c2"
    using c2(2) by (simp_all add: geometry_def compressed_def)
  define c3 where "c3 = c2\<lparr>m_allow_writes := True, m_allow_reads := \<not> compressed c2\<rparr>"
  have c3: "healthy c3" "file_data c3 = h" using c1 p2(1) by (simp_all add: c3_def healthy_def file_data_def)
  define c4 where "c4 = set_data (h @ replicate m 0) c3"
  have m32: "m < 2 ^ 32" by (simp add: m_def w32_def)
  have zm: "write_zero_map 124 m c3 = (None, c4)"
    using write_zero_map_healthy [OF c3(1), of m] c3(2) hf(1) m32 by (simp add: c4_def)
  define c5 where "c5 = raw_loaded m c4"
  have c4: "healthy c4" "file_data c4 = h @ replicate m 0" "geometry c4 = geometry c2"
    using c3(1) by (simp_all add: c4_def) (simp add: c3_def geometry_def)
  have f4: "m_compression c4 = replicate 4 CHD_CODEC_NONE" "m_mapentrybytes c4 = 4" "m_hunkcount c4 = n" "m_rawmap c4 = []"
      "m_compressed c4 = []" "m_cache c4 = []" "m_mapoffset c4 = 124" "m_hunkbytes c4 = hb" "m_version c4 = 5" "m_allow_writes c4"
      "\<not> m_parent_missing c4" "m_cachehunk c4 = 2 ^ 32 - 1"
    using p2 g2 by (simp_all add: c4_def c3_def set_data_def)
  have co: "create_open_common libs decoder0 c4 = Inr (Inr c5)"
    unfolding c5_def by (rule create_open_raw) (use c4 f4 hf(1) in \<open>simp_all add: m_def mult.commute\<close>)
  have "create_checks c [] = Inr None"
    using ub c verify_no_compression [of False 4] by (simp add: create_checks_def replicate4 CHD_CODEC_NONE_def)
  moreover have "\<not> compressed c3" "m_mapoffset c3 = 124" "w32 (m_mapentrybytes c3 * m_hunkcount c3) = m"
    using g2 p2 by (simp_all add: c3_def compressed_def m_def)
  ultimately have "chd_create libs decoder0 [chd_closed] (Some f) L hb ub (replicate 4 CHD_CODEC_NONE) = Inr (None, [c5])"
    using create_raw_steps [OF c_def _ h_def w c2(1) c3_def] zm co by simp
  moreover have "header_on_disk c5"
  proof -
    obtain c6 where "parse_v5_header chd_closed h sha1_null = Inr (Inr (c6, sha1_null))" "geometry c6 = geometry c2"
      using parse_v5_same [OF c2(1), of chd_closed sha1_null] by auto
    moreover have "m_mapoffset c5 = 124" "m_compression c5 = replicate 4 CHD_CODEC_NONE" "file_data c5 = h @ replicate m 0" "geometry c5 = geometry c2"
      using c4(2,3) f4(1,7) by (simp_all add: c5_def) (simp_all add: raw_loaded_def)
    ultimately show ?thesis using hf(1,2,4) by (auto simp: header_on_disk_def)
  qed
  moreover have "healthy c5" "file_data c5 = h @ replicate m 0" "geometry c5 = geometry c2" using c4 by (simp_all add: c5_def)
  moreover have "m_rawmap c5 = replicate m 0" using c4(2) f4(7) hf(1) by (simp add: c5_def raw_loaded_def slice_def)
  moreover have "m_version c5 = 5" "m_allow_writes c5" "\<not> m_parent_missing c5" "m_cache c5 = replicate hb 0" "m_cachehunk c5 = 2 ^ 32 - 1"
      "m_mapentrybytes c5 = 4"
    using f4 by (simp_all add: c5_def raw_loaded_def)
  ultimately show ?thesis using that [of c5] c2(2) hf(1) by simp
qed

lemma created_stored:
  assumes ok: "create_ok L hb ub" and f: "no_faults f" "f_data f = []"
  defines "n \<equiv> (L + hb - 1) div hb"
  shows "\<exists>c. chd_create libs decoder0 [chd_closed] (Some f) L hb ub (replicate 4 CHD_CODEC_NONE) = Inr (None, [c]) \<and>
    disk_stored hb n (\<lambda>_. replicate hb 0) [c] \<and> m_logicalbytes c = L \<and> m_unitbytes c = ub"
proof -
  have p: "0 < hb" "hb < 2 ^ 32" "4 dvd hb" "0 < ub" "hb mod ub = 0" "L < 2 ^ 64" "n \<le> 2 ^ 29" "w64 (L + hb - 1) = L + hb - 1"
    using ok by (auto simp: create_ok_def n_def w64_small mod_eq_0_iff_dvd)
  have ubl: "ub < 2 ^ 32" using ok dvd_imp_le [of ub hb] by (auto simp: create_ok_def)
  have n: "w32 (div_up L hb) = n" "w32 (4 * n) = 4 * n" using p(7,8) by (simp_all add: div_up_def n_def w32_small)
  obtain c where c: "chd_create libs decoder0 [chd_closed] (Some f) L hb ub (replicate 4 CHD_CODEC_NONE) = Inr (None, [c])"
    "healthy c" "length (file_data c) = 124 + 4 * n" "drop 124 (file_data c) = replicate (4 * n) 0" "m_rawmap c = replicate (4 * n) 0" "header_on_disk c"
    "geometry c = (L, 124, 0, hb, n, ub, div_up L ub, replicate 4 CHD_CODEC_NONE)" "m_version c = 5" "m_allow_writes c" "\<not> m_parent_missing c"
    "m_cache c = replicate hb 0" "m_cachehunk c = 2 ^ 32 - 1" "m_mapentrybytes c = 4"
    by (rule created_raw [OF p(1,2,4,5) ubl p(6) f, of libs decoder0, unfolded n])
  have g: "m_hunkbytes c = hb" "m_hunkcount c = n" "m_mapoffset c = 124" "\<not> compressed c" "m_logicalbytes c = L" "m_unitbytes c = ub"
    using c(7) by (simp_all add: geometry_def compressed_def)
  have "stored hb n (\<lambda>_. replicate hb 0) [c]"
    by (rule fresh_stored [OF c(2,3,8) g(4) c(9-12) g(1,2) c(13) g(3) c(5) p(1,3,7) c(4)])
  with c(1,6) g show ?thesis by (simp add: disk_stored_def)
qed

subsection \<open>What opening guarantees of any file\<close>

text \<open>
  The shape of an open file: the map has the computed size, the buffers have the size of a hunk, and
  every codec in use has its decompressor.
\<close>

definition chd_wf :: "chd_file \<Rightarrow> bool" where
  "chd_wf c \<longleftrightarrow>
     m_file c \<noteq> None \<and> m_version c \<in> {3, 4, 5} \<and> length (m_compression c) = 4 \<and>
     m_decompressor c = map (\<lambda>t. t \<noteq> CHD_CODEC_NONE) (m_compression c) \<and>
     m_mapentrybytes c = (if m_version c < 5 then 16 else if compressed c then 12 else 4) \<and>
     length (m_rawmap c) = w32 (m_hunkcount c * m_mapentrybytes c) \<and>
     length (m_cache c) = m_hunkbytes c \<and> length (m_compressed c) = m_hunkbytes c \<and>
     m_unitbytes c \<noteq> 0 \<and> m_unitcount c = div_up (m_logicalbytes c) (m_unitbytes c) \<and>
     (m_version c < 5 \<longrightarrow> \<not> m_allow_writes c)"

lemma init_decompressors_all:
  "init_decompressors libs hb types = Inr ds \<Longrightarrow> ds = map (\<lambda>t. t \<noteq> CHD_CODEC_NONE) types"
proof (induction types arbitrary: ds)
  case (Cons t types)
  have "new_decompressor libs t hb = Inr True \<Longrightarrow> t \<noteq> CHD_CODEC_NONE" by auto
  with Cons show ?case by (auto simp: CHD_CODEC_NONE_def split: sum.splits if_splits)
qed simp

lemma length_resize [simp]: "length (resize k xs) = k"
  by (simp add: resize_def)

lemma length_file_read: "file_read c off dest len = (err, out) \<Longrightarrow> len \<le> length dest \<Longrightarrow> length out = length dest"
  by (auto simp: file_read_def vread_def overwrite_def slice_def split: option.splits prod.splits)

lemma length_put_map_entry [simp]: "length (at_off i (put_map_entry t len off crc) buf) = length buf"
proof -
  have l: "length (put_map_entry t len off crc b) = length b" for b
    by (simp add: put_map_entry_def f24be.length_at f48be.length_at f16be.length_at)
  show ?thesis by (cases "i \<le> length buf") (simp_all add: at_off_def l)
qed

lemma length_entries_loop: "entries_loop hb ub lb sb pb hunks d s rawmap = Inr r \<Longrightarrow> length r = length rawmap"
proof (induction hunks arbitrary: d s rawmap)
  case (Cons h hunks)
  then show ?case by (fastforce split: sum.splits prod.splits)
qed simp

lemma length_store_types: "length (store_types h types rawmap) = length rawmap"
  by (induction types arbitrary: h rawmap) auto

lemma load_map_keeps:
  assumes "load_map decoder0 c = Inr (Inr c')"
  shows "\<exists>m. c' = c\<lparr>m_rawmap := m\<rparr> \<and> length m = length (m_rawmap c)"
proof (cases "5 \<le> m_version c \<and> compressed c")
  case True
  then have "decompress_v5_map decoder0 c = Inr (None, c')" using assms by (auto simp: load_map_def split: sum.splits option.splits)
  then show ?thesis
    by (auto simp: decompress_v5_map_def Let_def length_store_types dest!: length_entries_loop split: if_splits sum.splits prod.splits option.splits huff_fault.splits)
next
  case False
  then show ?thesis using assms length_file_read [of c "m_mapoffset c" "m_rawmap c"]
    by (auto simp: load_map_def split: option.splits prod.splits)
qed

definition header_wf :: "chd_file \<Rightarrow> bool" where
  "header_wf c \<longleftrightarrow>
     m_version c \<in> {3, 4, 5} \<and> length (m_compression c) = 4 \<and>
     m_mapentrybytes c = (if m_version c < 5 then 16 else if compressed c then 12 else 4) \<and>
     m_unitbytes c \<noteq> 0 \<and> m_unitcount c = div_up (m_logicalbytes c) (m_unitbytes c)"

lemma guess_units_keeps:
  "guess_units c p = Inr (Inr (c1, sha)) \<Longrightarrow>
    \<exists>u. u \<noteq> 0 \<and> c1 = c\<lparr>m_unitbytes := u, m_unitcount := div_up (m_logicalbytes c) u\<rparr>"
  by (auto simp: guess_units_def split: sum.splits if_splits)

lemma parse_header_wf:
  assumes "parse_header c rawheader = Inr (Inr (c1, sha))"
  shows "header_wf c1 \<and> m_file c1 = m_file c"
proof -
  consider "m_version c = 3" "parse_v3_header c rawheader sha1_null = Inr (Inr (c1, sha))"
    | "m_version c = 4" "parse_v4_header c rawheader sha1_null = Inr (Inr (c1, sha))"
    | "m_version c = 5" "parse_v5_header c rawheader sha1_null = Inr (Inr (c1, sha))"
    using assms by (auto simp: parse_header_def split: if_splits)
  then show ?thesis
  proof cases
    case 3
    then show ?thesis by (auto simp: parse_v5_header_def Let_def header_wf_def compressed_def split: if_splits)
  qed (auto simp: parse_v3_header_def parse_v4_header_def Let_def header_wf_def dest!: guess_units_keeps split: if_splits option.splits)
qed

lemma create_open_wf:
  assumes "create_open_common libs decoder0 c = Inr (Inr c')" "header_wf c" "m_file c \<noteq> None" "m_version c < 5 \<longrightarrow> \<not> m_allow_writes c"
  shows "chd_wf c'"
proof -
  obtain ds c1 where d: "init_decompressors libs (m_hunkbytes c) (m_compression c) = Inr ds"
      "load_map decoder0 (c\<lparr>m_decompressor := ds, m_rawmap := resize (w32 (m_hunkcount c * m_mapentrybytes c)) (m_rawmap c)\<rparr>) = Inr (Inr c1)"
      "c' = c1\<lparr>m_compressed := resize (m_hunkbytes c1) (m_compressed c1), m_cache := resize (m_hunkbytes c1) (m_cache c1)\<rparr>"
    using assms(1) by (auto simp: create_open_common_def split: sum.splits)
  obtain m where "c1 = c\<lparr>m_decompressor := ds, m_rawmap := m\<rparr>" "length m = w32 (m_hunkcount c * m_mapentrybytes c)"
    using load_map_keeps [OF d(2)] by auto
  with d(1,3) assms(2-4) init_decompressors_all [OF d(1)] show ?thesis by (simp add: chd_wf_def header_wf_def compressed_def)
qed

lemma open_body_wf:
  assumes "open_body libs decoder0 writeable open_parent c parents = Inr (Inr chain')" "m_file c \<noteq> None"
  shows "\<exists>c' parents'. chain' = c' # parents' \<and> chd_wf c'"
proof -
  obtain rawheader c1 sha parents1 missing c3 where o:
      "parse_header (c\<lparr>m_allow_reads := True, m_version := h32 rawheader 12\<rparr>) rawheader = Inr (Inr (c1, sha))"
      "create_open_common libs decoder0 (mark_missing missing (only_newest c1)) = Inr (Inr c3)" "chain' = c3 # parents1"
    using assms(1) by (auto simp: open_body_def Let_def split: option.splits prod.splits sum.splits if_splits)
  from parse_header_wf [OF o(1)] assms(2) have w: "header_wf c1" "m_file c1 \<noteq> None" by auto
  define c2 where "c2 = mark_missing missing (only_newest c1)"
  have "header_wf c2" "m_file c2 \<noteq> None" "m_version c2 < 5 \<longrightarrow> \<not> m_allow_writes c2"
    using w by (auto simp: c2_def mark_missing_def only_newest_def header_wf_def compressed_def HEADER_VERSION_def)
  then show ?thesis using create_open_wf [OF o(2) [folded c2_def]] o(3) by simp
qed

subsection \<open>Properties\<close>

text \<open>
  C9: Opening any file, well-formed or not, faulty or not, either leaves the CHD closed and returns an
  error, or gives a state whose fields fit together: the map and the buffers have their sizes and
  every codec in use has its decompressor.
\<close>

theorem open_well_formed:
  assumes "chd_open libs decoder0 [chd_closed] (Some f) writeable parent open_parent = Inr (err, chain')"
  shows "case err of Some e \<Rightarrow> chain' = [chd_closed] | None \<Rightarrow> \<exists>c parents. chain' = c # parents \<and> chd_wf c"
proof -
  define c where "c = chd_closed\<lparr>m_file := Some f, m_cachehunk := 2 ^ 32 - 1\<rparr>"
  have "m_file chd_closed = None" by (simp add: chd_closed_def)
  then have oc: "open_common libs decoder0 writeable open_parent (c # parent) = Inr (err, chain')"
    using assms by (simp add: chd_open_def c_def)
  consider e where "err = Some e" "chain' = chd_close (c # parent)"
    | "err = None" "open_body libs decoder0 writeable open_parent c parent = Inr (Inr chain')"
    using oc by (auto simp: open_common_def split: sum.splits thrown.splits)
  then show ?thesis
  proof cases
    case 2
    with open_body_wf [OF 2(2)] show ?thesis by (auto simp: c_def)
  qed (simp add: chd_close_def)
qed

definition sample_libs :: codec_libs where
  "sample_libs = \<lparr>lib_inflateInit2 = 0, lib_deflateInit2 = 0, lib_ZSTD_createCStream = True, lib_ZSTD_createDStream = True,
     lib_LzmaEnc_Create = True, lib_LzmaEnc_SetProps = \<lambda>_. True, lib_LzmaEnc_WriteProperties = \<lambda>_. True, lib_LzmaDec_Allocate = \<lambda>_. True\<rparr>"

definition sample_empty :: vfile where
  "sample_empty = \<lparr>f_data = [], f_read_fault = \<lambda>_ _. None, f_write_fault = \<lambda>_ _. None\<rparr>"

lemma sample_empty_facts: "no_faults sample_empty" "f_data sample_empty = []" "create_ok 8 4 4"
  by (simp_all add: sample_empty_def no_faults_def create_ok_def)

theorem open_well_formed_witness:
  "\<exists>f c. chd_open sample_libs (projr (huffman_decoder 16 8)) [chd_closed] (Some f) True [] None = Inr (None, [c]) \<and> chd_wf c"
proof -
  let ?d = "projr (huffman_decoder 16 8)"
  obtain c where c: "disk_stored 4 2 (\<lambda>_. replicate 4 0) [c]"
    using created_stored [OF sample_empty_facts(3,1,2), of sample_libs ?d] by auto
  obtain f where f: "m_file c = Some f" using c by (auto simp: disk_stored_def stored_def raw_geometry_def healthy_def)
  obtain c' where "chd_open sample_libs ?d [chd_closed] (Some f) True [] None = Inr (None, [c'])"
    using open_disk_stored [OF c, of sample_libs ?d True None] f by auto
  with open_well_formed [OF this] show ?thesis by auto
qed

text \<open>
  C1: Data written to a new uncompressed CHD survives closing and opening it: after \<open>create\<close>, \<open>write_bytes\<close> and
  a fresh \<open>open\<close> of the file, \<open>read_bytes\<close> returns the bytes written.
\<close>

theorem contents_survive_reopen:
  assumes "create_ok L hb ub" "no_faults f" "f_data f = []"
    and "transfer_ok hb ((L + hb - 1) div hb) offset (length source)" "length dest = length source"
  shows "\<exists>c1 c2 c3 chain. chd_create libs decoder0 [chd_closed] (Some f) L hb ub (replicate 4 CHD_CODEC_NONE) = Inr (None, [c1]) \<and>
    write_bytes (Suc fuel) cx [c1] offset source (length source) = Inr (None, [c2]) \<and>
    chd_open libs decoder1 [chd_closed] (m_file c2) writeable [] open_parent = Inr (None, [c3]) \<and>
    read_bytes (Suc fuel) cx [c3] offset dest (length source) = Inr (None, source, chain)"
proof -
  define n where "n = (L + hb - 1) div hb"
  have t: "transfer_ok hb n offset (length source)" using assms(4) by (simp add: n_def)
  obtain c1 where c1: "chd_create libs decoder0 [chd_closed] (Some f) L hb ub (replicate 4 CHD_CODEC_NONE) = Inr (None, [c1])"
      "disk_stored hb n (\<lambda>_. replicate hb 0) [c1]"
    using created_stored [OF assms(1-3), of libs decoder0] by (auto simp: n_def)
  obtain g chain2 where w: "write_bytes (Suc fuel) cx [c1] offset source (length source) = Inr (None, chain2)" "disk_stored hb n g chain2"
      "flat n g = overwrite offset source (flat n (\<lambda>_. replicate hb 0))"
    using write_bytes_disk [OF c1(2) t, of source fuel cx] by auto
  obtain c2 where c2: "chain2 = [c2]" using w(2) by (auto simp: disk_stored_def stored_def)
  have "n < 2 ^ 32 - 1" using assms(1) by (simp add: create_ok_def n_def)
  then obtain c3 where c3: "chd_open libs decoder1 [chd_closed] (m_file c2) writeable [] open_parent = Inr (None, [c3])" "disk_stored hb n g [c3]"
    using open_disk_stored [of hb n g c2 libs decoder1 writeable open_parent] w(2) c2 by auto
  obtain chain where r: "read_bytes (Suc fuel) cx [c3] offset dest (length source) =
      Inr (None, overwrite 0 (slice offset (length source) (flat n g)) dest, chain)"
    using disk.read_bytes_flat [OF c3(2) t, of dest fuel cx] assms(5) by (auto simp: read_bytes_def)
  have "offset + length source \<le> length (flat n (\<lambda>_. replicate hb (0 :: u8)))"
    using t length_flat [of n "\<lambda>_. replicate hb (0 :: u8)" hb] by (simp add: transfer_ok_def)
  then have "slice offset (length source) (flat n g) = source" using w(3) by (simp add: slice_overwrite_same)
  then show ?thesis using c1(1) w(1) c2 c3(1) r assms(5) by (auto simp: overwrite_def)
qed

theorem contents_survive_reopen_witness:
  "\<exists>c1 c2 c3 chain. chd_create sample_libs (projr (huffman_decoder 16 8)) [chd_closed] (Some sample_empty) 8 4 4 (replicate 4 CHD_CODEC_NONE) = Inr (None, [c1]) \<and>
    write_bytes 1 no_codecs [c1] 3 [5, 6] 2 = Inr (None, [c2]) \<and>
    chd_open sample_libs (projr (huffman_decoder 16 8)) [chd_closed] (m_file c2) False [] None = Inr (None, [c3]) \<and>
    read_bytes 1 no_codecs [c3] 3 [0, 0] 2 = Inr (None, [5, 6], chain)"
proof -
  have two: "length [5, 6 :: u8] = 2" "length [0, 0 :: u8] = 2" "Suc 0 = 1" by simp_all
  have "transfer_ok 4 ((8 + 4 - 1) div 4) 3 2" by (simp add: transfer_ok_def)
  then show ?thesis
    using contents_survive_reopen [OF sample_empty_facts(3,1,2), of 3 "[5, 6]" "[0, 0]" sample_libs "projr (huffman_decoder 16 8)" 0 no_codecs
      "projr (huffman_decoder 16 8)" False None, unfolded two] by blast
qed

text \<open>
  C37: A version 5 header with a hunk size or a unit size of zero makes \<open>open\<close> divide by zero: the sizes
  are used before they are checked.
\<close>

theorem zero_sizes_trap:
  assumes "no_faults f" "124 \<le> length (f_data f)" "take 8 (f_data f) = MComprHD" "h32 (take 124 (f_data f)) 8 = 124"
    "h32 (take 124 (f_data f)) 12 = 5" "h32 (take 124 (f_data f)) 56 = 0 \<or> h32 (take 124 (f_data f)) 60 = 0"
  shows "chd_open libs decoder0 [chd_closed] (Some f) writeable parent open_parent = Inl Div_By_Zero"
proof -
  define c where "c = chd_closed\<lparr>m_file := Some f, m_cachehunk := 2 ^ 32 - 1\<rparr>"
  define c0 where "c0 = c\<lparr>m_allow_reads := True\<rparr>"
  have c0: "healthy c0" "file_data c0 = f_data f" using assms(1) by (simp_all add: c0_def c_def healthy_def file_data_def)
  have rd: "file_read c0 0 (replicate V5_HEADER_SIZE 0) V5_HEADER_SIZE = (None, take 124 (f_data f))"
    using file_read_healthy [OF c0(1)] c0(2) assms(2) by (simp add: V5_HEADER_SIZE_def overwrite_def slice_def)
  have "parse_header (c0\<lparr>m_version := 5\<rparr>) (take 124 (f_data f)) = Inl Div_By_Zero"
    using assms(4,6) by (simp add: parse_header_def parse_v5_header_def V5_HEADER_SIZE_def)
  then have "open_body libs decoder0 writeable open_parent c parent = Inl Div_By_Zero"
    using assms(3,5) rd by (simp add: open_body_def Let_def c0_def [symmetric] min_def)
  moreover have "m_file chd_closed = None" by (simp add: chd_closed_def)
  ultimately show ?thesis by (simp add: chd_open_def open_common_def c_def)
qed

definition sample_header :: "nat \<Rightarrow> nat \<Rightarrow> bytes" where
  "sample_header hb ub = v5_header (chd_closed\<lparr>m_compression := [0, 0, 0, 0], m_hunkbytes := hb, m_unitbytes := ub\<rparr>) sha1_null"

theorem zero_sizes_trap_witness:
  "chd_open sample_libs (projr (huffman_decoder 16 8)) [chd_closed] (Some (sample_empty\<lparr>f_data := sample_header 0 512\<rparr>)) False [] None = Inl Div_By_Zero"
proof -
  let ?c = "chd_closed\<lparr>m_compression := [0, 0, 0, 0], m_hunkbytes := 0, m_unitbytes := 512\<rparr>"
  have "length sha1_null = 20" "m_version ?c = 5" "m_logicalbytes ?c = 0" "m_metaoffset ?c = 0"
    by (simp_all add: sha1_null_def chd_closed_def HEADER_VERSION_def)
  with v5_header_fields [of ?c 0 0 0 0 sha1_null]
  have "length (sample_header 0 512) = 124" "take 8 (sample_header 0 512) = MComprHD" "h32 (sample_header 0 512) 8 = 124"
    "h32 (sample_header 0 512) 12 = 5" "h32 (sample_header 0 512) 56 = 0"
    by (simp_all add: sample_header_def)
  then show ?thesis by (intro zero_sizes_trap) (use sample_empty_facts in \<open>simp_all add: no_faults_def\<close>)
qed

text \<open>
  C38: The size of the map in memory is the product of hunk count and entry size modulo 2^32: a CHD of 4 TiB
  with hunks of 4 KiB is created without an error and with an empty map, and the first access to a hunk
  reads outside of it.
\<close>

theorem large_map_wraps:
  assumes "no_faults f" "f_data f = []"
  shows "\<exists>c. chd_create libs decoder0 [chd_closed] (Some f) (2 ^ 42) 4096 512 (replicate 4 CHD_CODEC_NONE) = Inr (None, [c]) \<and>
    m_hunkcount c = 2 ^ 30 \<and> m_rawmap c = [] \<and> read_hunk (Suc fuel) cx [c] 0 dest = Inl Bad_Index"
proof -
  have n: "w32 (div_up (2 ^ 42) 4096) = 2 ^ 30" "w32 (4 * 2 ^ 30) = 0" by (simp_all add: div_up_def w32_def w64_def)
  obtain c where c: "chd_create libs decoder0 [chd_closed] (Some f) (2 ^ 42) 4096 512 (replicate 4 CHD_CODEC_NONE) = Inr (None, [c])"
    "healthy c" "m_rawmap c = replicate 0 0"
    "geometry c = (2 ^ 42, 124, 0, 4096, 2 ^ 30, 512, div_up (2 ^ 42) 512, replicate 4 CHD_CODEC_NONE)" "m_version c = 5"
    using created_raw [of 4096 512 "2 ^ 42" f libs decoder0, unfolded n, OF _ _ _ _ _ _ assms] by auto
  have g: "m_hunkcount c = 2 ^ 30" "m_hunkbytes c = 4096" "\<not> compressed c" using c(4) by (simp_all add: geometry_def compressed_def)
  have "read_hunk (Suc fuel) cx [c] 0 dest = Inl Bad_Index"
    using c(2,3,5) g by (simp add: read_hunk_raw_def map_entry_def w32_def)
  with c(1,3) g(1) show ?thesis by auto
qed

theorem large_map_wraps_witness:
  "\<exists>c. chd_create sample_libs (projr (huffman_decoder 16 8)) [chd_closed] (Some sample_empty) (2 ^ 42) 4096 512 (replicate 4 CHD_CODEC_NONE) = Inr (None, [c]) \<and>
    m_hunkcount c = 2 ^ 30 \<and> m_rawmap c = [] \<and> read_hunk 1 no_codecs [c] 0 [] = Inl Bad_Index"
  using large_map_wraps [OF sample_empty_facts(1,2), of sample_libs "projr (huffman_decoder 16 8)" 0 no_codecs "[]"] by simp

end
