(* ===== verification/Chd_Coders.thy ===== *)
theory Chd_Coders
  imports Cd_Ecc Huffman_8bit
begin

text \<open>
  The compressors and decompressors (\<^verbatim>\<open>lib/util/chdcodec.cpp\<close>) and the choice between them. zlib,
  Zstandard and the LZMA SDK are parameters (\<open>coder_libs\<close>). A compressor gets the source and the
  number of bytes behind its destination pointer; a store past them is \<open>Bad_Index\<close>, also on the way
  to an error. Its result is what it wrote: the bytes behind these are not looked at by anyone. A
  decompressor gets the buffer at its source pointer and the number of bytes it may use.
\<close>

subsection \<open>Third-party coders\<close>

text \<open>
  A call gives its return code and the bytes it stored. Zstandard keeps a state between calls; its
  calls give the state, the number of bytes taken, the bytes stored and the return value, where
  \<open>None\<close> is an error. The LZMA functions depend on the hunk size through their properties.
\<close>

record 's coder_libs =
  z_deflateReset :: int
  z_deflate :: "bytes \<Rightarrow> nat \<Rightarrow> int \<times> bytes"
  z_inflateReset :: int
  z_inflate :: "bytes \<Rightarrow> nat \<Rightarrow> int \<times> bytes"
  zs_initCStream :: "'s option"
  zs_compressStream2 :: "'s \<Rightarrow> bytes \<Rightarrow> nat \<Rightarrow> 's \<times> nat \<times> bytes \<times> nat option"
  zs_initDStream :: "'s option"
  zs_decompressStream :: "'s \<Rightarrow> bytes \<Rightarrow> nat \<Rightarrow> 's \<times> nat \<times> bytes \<times> nat option"
  lz_Create :: bool
  lz_SetProps :: "nat \<Rightarrow> int"
  lz_MemEncode :: "nat \<Rightarrow> bytes \<Rightarrow> nat \<Rightarrow> int \<times> bytes"
  lz_DecodeToBuf :: "nat \<Rightarrow> bytes \<Rightarrow> nat \<Rightarrow> int \<times> nat \<times> bytes"
  h_encoder :: huffman_context
  h_decoder :: huffman_context
  h_small :: huffman_context
  other_compress :: "codec_class \<Rightarrow> nat \<Rightarrow> bytes \<Rightarrow> nat \<Rightarrow> (thrown + bytes) res"
  other_decompress :: "codec_class \<Rightarrow> nat \<Rightarrow> bytes \<Rightarrow> nat \<Rightarrow> nat \<Rightarrow> (thrown + bytes) res"

definition Z_STREAM_END :: int where "Z_STREAM_END = 1"
definition SZ_OK :: int where "SZ_OK = 0"
definition LZMA_STATUS_MAYBE_FINISHED_WITHOUT_MARK :: int where "LZMA_STATUS_MAYBE_FINISHED_WITHOUT_MARK = 4"

abbreviation compression_error :: "(thrown + 'a) res" where
  "compression_error \<equiv> Inr (Inl (Throw (Chd_Error COMPRESSION_ERROR)))"

abbreviation decompression_error :: "(thrown + 'a) res" where
  "decompression_error \<equiv> Inr (Inl (Throw (Chd_Error DECOMPRESSION_ERROR)))"

subsection \<open>zlib\<close>

definition zlib_compress :: "('s, 'z) coder_libs_scheme \<Rightarrow> bytes \<Rightarrow> nat \<Rightarrow> (thrown + bytes) res" where
  "zlib_compress cl src room =
     (if z_deflateReset cl \<noteq> Z_OK then compression_error
      else let (zerr, out) = z_deflate cl src (length src) in
        if room < length out then Inl Bad_Index
        else if zerr \<noteq> Z_STREAM_END \<or> length src \<le> length out then compression_error
        else Inr (Inr out))"

definition zlib_decompress :: "('s, 'z) coder_libs_scheme \<Rightarrow> bytes \<Rightarrow> nat \<Rightarrow> nat \<Rightarrow> (thrown + bytes) res" where
  "zlib_decompress cl src complen destlen =
     (if length src < complen then Inl Bad_Index
      else if z_inflateReset cl \<noteq> Z_OK then decompression_error
      else let (zerr, out) = z_inflate cl (take complen src) destlen in
        if zerr \<noteq> Z_STREAM_END then decompression_error
        else if length out \<noteq> destlen then decompression_error
        else Inr (Inr out))"

subsection \<open>Zstandard\<close>

partial_function (option) zstd_compress_loop ::
    "('s, 'z) coder_libs_scheme \<Rightarrow> bytes \<Rightarrow> nat \<Rightarrow> 's \<Rightarrow> nat \<Rightarrow> bytes \<Rightarrow> (thrown + bytes) res option" where
  "zstd_compress_loop cl src room stream pos out =
     (if length out < length src then
        let (stream', used, w, result) = zs_compressStream2 cl stream (drop pos src) (length src - length out) in
        if room < length (out @ w) then Some (Inl Bad_Index)
        else if result = None then Some compression_error
        else if result = Some 0 then Some (Inr (Inr (out @ w)))
        else zstd_compress_loop cl src room stream' (pos + used) (out @ w)
      else Some (Inr (Inr out)))"

definition zstd_compress :: "('s, 'z) coder_libs_scheme \<Rightarrow> bytes \<Rightarrow> nat \<Rightarrow> (thrown + bytes) res" where
  "zstd_compress cl src room =
     (case zs_initCStream cl of
        None \<Rightarrow> compression_error
      | Some stream \<Rightarrow>
          (case zstd_compress_loop cl src room stream 0 [] of
             None \<Rightarrow> Inl Infinite_Loop
           | Some (Inr (Inr out)) \<Rightarrow> if length out = length src then compression_error else Inr (Inr out)
           | Some r \<Rightarrow> r))"

partial_function (option) zstd_decompress_loop ::
    "('s, 'z) coder_libs_scheme \<Rightarrow> bytes \<Rightarrow> nat \<Rightarrow> 's \<Rightarrow> nat \<Rightarrow> bytes \<Rightarrow> (thrown + bytes) res option" where
  "zstd_decompress_loop cl src destlen stream pos out =
     (if pos < length src \<and> length out < destlen then
        let (stream', used, w, result) = zs_decompressStream cl stream (drop pos src) (destlen - length out) in
        if result = None then Some decompression_error
        else zstd_decompress_loop cl src destlen stream' (pos + used) (out @ w)
      else Some (Inr (Inr out)))"

definition zstd_decompress :: "('s, 'z) coder_libs_scheme \<Rightarrow> bytes \<Rightarrow> nat \<Rightarrow> nat \<Rightarrow> (thrown + bytes) res" where
  "zstd_decompress cl src complen destlen =
     (if length src < complen then Inl Bad_Index
      else case zs_initDStream cl of
        None \<Rightarrow> decompression_error
      | Some stream \<Rightarrow>
          (case zstd_decompress_loop cl (take complen src) destlen stream 0 [] of
             None \<Rightarrow> Inl Infinite_Loop
           | Some (Inr (Inr out)) \<Rightarrow> if length out \<noteq> destlen then decompression_error else Inr (Inr out)
           | Some r \<Rightarrow> r))"

subsection \<open>LZMA\<close>

text \<open>The decoder compares its return code with a constant of another enumeration.\<close>

definition lzma_compress :: "('s, 'z) coder_libs_scheme \<Rightarrow> nat \<Rightarrow> bytes \<Rightarrow> nat \<Rightarrow> (thrown + bytes) res" where
  "lzma_compress cl hunkbytes src room =
     (if \<not> lz_Create cl then compression_error
      else if lz_SetProps cl hunkbytes \<noteq> SZ_OK then compression_error
      else let (res, out) = lz_MemEncode cl hunkbytes src (length src) in
        if room < length out then Inl Bad_Index
        else if res \<noteq> SZ_OK then compression_error
        else Inr (Inr out))"

definition lzma_decompress :: "('s, 'z) coder_libs_scheme \<Rightarrow> nat \<Rightarrow> bytes \<Rightarrow> nat \<Rightarrow> nat \<Rightarrow> (thrown + bytes) res" where
  "lzma_decompress cl hunkbytes src complen destlen =
     (if length src < complen then Inl Bad_Index
      else let (res, consumedlen, out) = lz_DecodeToBuf cl hunkbytes (take complen src) destlen in
        if (res \<noteq> SZ_OK \<and> res \<noteq> LZMA_STATUS_MAYBE_FINISHED_WITHOUT_MARK) \<or> consumedlen \<noteq> complen \<or> length out \<noteq> destlen
        then decompression_error else Inr (Inr out))"

subsection \<open>Huffman\<close>

text \<open>The coder is told that there is room for as many bytes as the source has.\<close>

definition huffman_compress :: "('s, 'z) coder_libs_scheme \<Rightarrow> bytes \<Rightarrow> nat \<Rightarrow> (thrown + bytes) res" where
  "huffman_compress cl src room =
     (if room < length src then Inl Bad_Index
      else case encode_8bit (h_encoder cl) src (replicate (length src) 0) of
        (None, out) \<Rightarrow> Inl Infinite_Loop
      | (Some (Inl (Huff_Error e)), out) \<Rightarrow> compression_error
      | (Some (Inl fault), out) \<Rightarrow> Inl Bad_Index
      | (Some (Inr complen), out) \<Rightarrow> Inr (Inr (take complen out)))"

definition huffman_decompress :: "('s, 'z) coder_libs_scheme \<Rightarrow> bytes \<Rightarrow> nat \<Rightarrow> nat \<Rightarrow> (thrown + bytes) res" where
  "huffman_decompress cl src complen destlen =
     (if length src < complen then Inl Bad_Index
      else case decode_8bit (h_small cl) (h_decoder cl) (take complen src) destlen of
        None \<Rightarrow> Inl Infinite_Loop
      | Some (Inl (Huff_Error e)) \<Rightarrow> compression_error
      | Some (Inl fault) \<Rightarrow> Inl Bad_Index
      | Some (Inr dest) \<Rightarrow> Inr (Inr dest))"

subsection \<open>CD frames\<close>

definition ecc_bytes :: "nat \<Rightarrow> nat" where "ecc_bytes frames = (frames + 7) div 8"
definition complen_bytes :: "nat \<Rightarrow> nat" where "complen_bytes len = (if len < 65536 then 2 else 3)"
definition header_bytes :: "nat \<Rightarrow> nat" where "header_bytes len = ecc_bytes (len div FRAME_SIZE) + complen_bytes len"

text \<open>One round of the loop that sorts a frame into \<open>m_buffer\<close> and marks it in the header.\<close>

definition cd_collect_frame :: "bytes \<Rightarrow> nat \<Rightarrow> nat \<Rightarrow> bytes \<times> bytes \<Rightarrow> bytes \<times> bytes" where
  "cd_collect_frame src frames framenum = (\<lambda>(buffer, dest).
     let b1 = overwrite (framenum * MAX_SECTOR_DATA) (slice (framenum * FRAME_SIZE) MAX_SECTOR_DATA src) buffer;
         b2 = overwrite (frames * MAX_SECTOR_DATA + framenum * MAX_SUBCODE_DATA)
                (slice (framenum * FRAME_SIZE + MAX_SECTOR_DATA) MAX_SUBCODE_DATA src) b1;
         sector = slice (framenum * MAX_SECTOR_DATA) MAX_SECTOR_DATA b2
     in if take 12 sector = f_cd_sync_header \<and> ecc_verify sector then
          (overwrite (framenum * MAX_SECTOR_DATA) (ecc_clear (overwrite 0 (replicate 12 0) sector)) b2,
           dest[framenum div 8 := dest ! (framenum div 8) OR push_bit (framenum mod 8) 1])
        else (b2, dest))"

definition cd_compress ::
    "(bytes \<Rightarrow> nat \<Rightarrow> (thrown + bytes) res) \<Rightarrow> (bytes \<Rightarrow> nat \<Rightarrow> (thrown + bytes) res) \<Rightarrow> nat \<Rightarrow> bytes \<Rightarrow> nat \<Rightarrow> (thrown + bytes) res" where
  "cd_compress base sub hunkbytes src room =
     (let srclen = length src; frames = srclen div FRAME_SIZE in
      if room < header_bytes srclen then Inl Bad_Index
      else
        let (buffer, dest) = fold (cd_collect_frame src frames) [0..<frames]
              (replicate (hunkbytes + hunkbytes div FRAME_SIZE * MAX_SUBCODE_DATA) 0, replicate (header_bytes srclen) 0)
        in case base (slice 0 (frames * MAX_SECTOR_DATA) buffer) (room - header_bytes srclen) of
             Inl u \<Rightarrow> Inl u
           | Inr (Inl t) \<Rightarrow> Inr (Inl t)
           | Inr (Inr b) \<Rightarrow>
               if srclen \<le> length b then compression_error
               else
                 let dest' = at_off (ecc_bytes frames)
                       (if complen_bytes srclen > 2 then put_u24be (of_nat (length b)) else put_u16be (of_nat (length b))) dest
                 in case sub (slice (frames * MAX_SECTOR_DATA) (frames * MAX_SUBCODE_DATA) buffer) (room - header_bytes srclen - length b) of
                      Inl u \<Rightarrow> Inl u
                    | Inr (Inl t) \<Rightarrow> Inr (Inl t)
                    | Inr (Inr s) \<Rightarrow> Inr (Inr (dest' @ b @ s)))"

definition cd_restore_frame :: "bytes \<Rightarrow> bytes \<Rightarrow> nat \<Rightarrow> nat \<Rightarrow> bytes \<Rightarrow> bytes" where
  "cd_restore_frame src buffer frames framenum dest =
     (let d1 = overwrite (framenum * FRAME_SIZE) (slice (framenum * MAX_SECTOR_DATA) MAX_SECTOR_DATA buffer) dest;
          d2 = overwrite (framenum * FRAME_SIZE + MAX_SECTOR_DATA)
                 (slice (frames * MAX_SECTOR_DATA + framenum * MAX_SUBCODE_DATA) MAX_SUBCODE_DATA buffer) d1
      in if src ! (framenum div 8) AND push_bit (framenum mod 8) 1 \<noteq> 0 then
           overwrite (framenum * FRAME_SIZE)
             (ecc_generate (overwrite 0 f_cd_sync_header (slice (framenum * FRAME_SIZE) MAX_SECTOR_DATA d2))) d2
         else d2)"

definition cd_decompress ::
    "(bytes \<Rightarrow> nat \<Rightarrow> nat \<Rightarrow> (thrown + bytes) res) \<Rightarrow> (bytes \<Rightarrow> nat \<Rightarrow> nat \<Rightarrow> (thrown + bytes) res) \<Rightarrow> nat \<Rightarrow> bytes \<Rightarrow> nat \<Rightarrow> nat \<Rightarrow>
       (thrown + bytes) res" where
  "cd_decompress base sub hunkbytes src complen destlen =
     (let frames = destlen div FRAME_SIZE in
      if length src < header_bytes destlen then Inl Bad_Index
      else
        let complen_base = (if complen_bytes destlen > 2 then unat (get_u24be (drop (ecc_bytes frames) src))
                            else unat (get_u16be (drop (ecc_bytes frames) src)))
        in case base (drop (header_bytes destlen) src) complen_base (frames * MAX_SECTOR_DATA) of
             Inl u \<Rightarrow> Inl u
           | Inr (Inl t) \<Rightarrow> Inr (Inl t)
           | Inr (Inr b) \<Rightarrow>
               (case sub (drop (header_bytes destlen + complen_base) src)
                       (unat (of_nat complen - of_nat complen_base - of_nat (header_bytes destlen) :: u32)) (frames * MAX_SUBCODE_DATA) of
                  Inl u \<Rightarrow> Inl u
                | Inr (Inl t) \<Rightarrow> Inr (Inl t)
                | Inr (Inr s) \<Rightarrow>
                    let buffer = overwrite (frames * MAX_SECTOR_DATA) s (overwrite 0 b (replicate hunkbytes 0))
                    in Inr (Inr (fold (cd_restore_frame src buffer frames) [0..<frames] (replicate destlen 0)))))"

subsection \<open>Codecs\<close>

primrec compress :: "('s, 'z) coder_libs_scheme \<Rightarrow> codec_class \<Rightarrow> nat \<Rightarrow> bytes \<Rightarrow> nat \<Rightarrow> (thrown + bytes) res" where
  "compress cl Zlib_Codec hunkbytes = zlib_compress cl"
| "compress cl Zstd_Codec hunkbytes = zstd_compress cl"
| "compress cl Lzma_Codec hunkbytes = lzma_compress cl hunkbytes"
| "compress cl Huffman_Codec hunkbytes = huffman_compress cl"
| "compress cl Flac_Codec hunkbytes = other_compress cl Flac_Codec hunkbytes"
| "compress cl (Cd_Codec base sub) hunkbytes =
     cd_compress (compress cl base (hunkbytes div FRAME_SIZE * MAX_SECTOR_DATA))
       (compress cl sub (hunkbytes div FRAME_SIZE * MAX_SUBCODE_DATA)) hunkbytes"
| "compress cl Cd_Flac_Codec hunkbytes = other_compress cl Cd_Flac_Codec hunkbytes"
| "compress cl Avhuff_Codec hunkbytes = other_compress cl Avhuff_Codec hunkbytes"

primrec decompress :: "('s, 'z) coder_libs_scheme \<Rightarrow> codec_class \<Rightarrow> nat \<Rightarrow> bytes \<Rightarrow> nat \<Rightarrow> nat \<Rightarrow> (thrown + bytes) res" where
  "decompress cl Zlib_Codec hunkbytes = zlib_decompress cl"
| "decompress cl Zstd_Codec hunkbytes = zstd_decompress cl"
| "decompress cl Lzma_Codec hunkbytes = lzma_decompress cl hunkbytes"
| "decompress cl Huffman_Codec hunkbytes = huffman_decompress cl"
| "decompress cl Flac_Codec hunkbytes = other_decompress cl Flac_Codec hunkbytes"
| "decompress cl (Cd_Codec base sub) hunkbytes =
     cd_decompress (decompress cl base (hunkbytes div FRAME_SIZE * MAX_SECTOR_DATA))
       (decompress cl sub (hunkbytes div FRAME_SIZE * MAX_SUBCODE_DATA)) hunkbytes"
| "decompress cl Cd_Flac_Codec hunkbytes = other_decompress cl Cd_Flac_Codec hunkbytes"
| "decompress cl Avhuff_Codec hunkbytes = other_decompress cl Avhuff_Codec hunkbytes"

subsection \<open>Compressor groups\<close>

record compressor_libs = codec_libs +
  lib_FLAC_stream_encoder_new :: bool

primrec construct_compressor :: "compressor_libs \<Rightarrow> codec_class \<Rightarrow> nat \<Rightarrow> thrown option" where
  "construct_compressor libs Zlib_Codec hunkbytes = convert_zerr (lib_deflateInit2 libs)"
| "construct_compressor libs Zstd_Codec hunkbytes = (if \<not> lib_ZSTD_createCStream libs then Some Throw_Bad_Alloc else None)"
| "construct_compressor libs Lzma_Codec hunkbytes = None"
| "construct_compressor libs Huffman_Codec hunkbytes = None"
| "construct_compressor libs Flac_Codec hunkbytes = (if \<not> lib_FLAC_stream_encoder_new libs then Some Throw_Bad_Alloc else None)"
| "construct_compressor libs (Cd_Codec base sub) hunkbytes =
     (case construct_compressor libs base (hunkbytes div FRAME_SIZE * MAX_SECTOR_DATA) of
        Some t \<Rightarrow> Some t
      | None \<Rightarrow>
          (case construct_compressor libs sub (hunkbytes div FRAME_SIZE * MAX_SUBCODE_DATA) of
             Some t \<Rightarrow> Some t
           | None \<Rightarrow> if hunkbytes mod FRAME_SIZE \<noteq> 0 then Some (Throw (Chd_Error CODEC_ERROR)) else None))"
| "construct_compressor libs Cd_Flac_Codec hunkbytes =
     (if \<not> lib_FLAC_stream_encoder_new libs then Some Throw_Bad_Alloc
      else if hunkbytes mod FRAME_SIZE \<noteq> 0 then Some (Throw (Chd_Error CODEC_ERROR)) else convert_zerr (lib_deflateInit2 libs))"
| "construct_compressor libs Avhuff_Codec hunkbytes = (if \<not> lib_FLAC_stream_encoder_new libs then Some Throw_Bad_Alloc else None)"

definition new_compressor :: "compressor_libs \<Rightarrow> u32 \<Rightarrow> nat \<Rightarrow> thrown + codec_class option" where
  "new_compressor libs type hunkbytes =
     (case find_in_list type of
        None \<Rightarrow> Inr None
      | Some entry \<Rightarrow> (case construct_compressor libs (ce_class entry) hunkbytes of Some t \<Rightarrow> Inl t | None \<Rightarrow> Inr (Some (ce_class entry))))"

text \<open>The four compressors of a \<open>chd_compressor_group\<close>, or what its constructor throws.\<close>

primrec compressor_group :: "compressor_libs \<Rightarrow> nat \<Rightarrow> u32 list \<Rightarrow> thrown + codec_class option list" where
  "compressor_group libs hunkbytes [] = Inr []"
| "compressor_group libs hunkbytes (type # types) =
     (if type \<noteq> CHD_CODEC_NONE then
        (case new_compressor libs type hunkbytes of
           Inl t \<Rightarrow> Inl t
         | Inr None \<Rightarrow> Inl (Throw (Chd_Error UNKNOWN_COMPRESSION))
         | Inr (Some k) \<Rightarrow> (case compressor_group libs hunkbytes types of Inl t \<Rightarrow> Inl t | Inr ks \<Rightarrow> Inr (Some k # ks)))
      else (case compressor_group libs hunkbytes types of Inl t \<Rightarrow> Inl t | Inr ks \<Rightarrow> Inr (None # ks)))"

text \<open>
  \<open>find_best_compressor\<close>: the number of the chosen compressor, -1 for none, and the bytes, whose
  number is \<open>complen\<close>. Everything a compressor throws is swallowed.
\<close>

fun best_loop :: "(codec_class \<Rightarrow> (thrown + bytes) res) \<Rightarrow> codec_class option list \<Rightarrow> int \<Rightarrow> nat \<Rightarrow> int \<times> bytes \<Rightarrow> (int \<times> bytes) res" where
  "best_loop run [] codecnum complen best = Inr best"
| "best_loop run (None # ks) codecnum complen best = best_loop run ks (codecnum + 1) complen best"
| "best_loop run (Some k # ks) codecnum complen best =
     (case run k of
        Inl u \<Rightarrow> Inl u
      | Inr (Inl t) \<Rightarrow> best_loop run ks (codecnum + 1) complen best
      | Inr (Inr out) \<Rightarrow>
          if length out < complen then best_loop run ks (codecnum + 1) (length out) (codecnum, out)
          else best_loop run ks (codecnum + 1) complen best)"

definition find_best_compressor :: "('s, 'z) coder_libs_scheme \<Rightarrow> codec_class option list \<Rightarrow> nat \<Rightarrow> bytes \<Rightarrow> (int \<times> bytes) res" where
  "find_best_compressor cl compressors hunkbytes src =
     best_loop (\<lambda>k. compress cl k hunkbytes src hunkbytes) compressors 0 hunkbytes (- 1, src)"

end
