(* ===== verification/Chd_Coders_Laws.thy ===== *)
theory Chd_Coders_Laws
  imports Chd_Coders
begin

text \<open>
  The codecs lose nothing, provided the third-party coders do not, and the choice between them is the
  best one.
\<close>

subsection \<open>Frames of a hunk\<close>

lemmas frame_sizes = FRAME_SIZE_def MAX_SECTOR_DATA_def MAX_SUBCODE_DATA_def

definition cd_sector :: "bytes \<Rightarrow> nat \<Rightarrow> bytes" where
  "cd_sector src k = slice (k * FRAME_SIZE) MAX_SECTOR_DATA src"

definition cd_subcode :: "bytes \<Rightarrow> nat \<Rightarrow> bytes" where
  "cd_subcode src k = slice (k * FRAME_SIZE + MAX_SECTOR_DATA) MAX_SUBCODE_DATA src"

definition cd_plain :: "bytes \<Rightarrow> bool" where
  "cd_plain sector \<longleftrightarrow> take 12 sector = f_cd_sync_header \<and> ecc_verify sector"

definition cd_store :: "bytes \<Rightarrow> bytes" where
  "cd_store sector = (if cd_plain sector then ecc_clear (overwrite 0 (replicate 12 0) sector) else sector)"

lemma slice_overwrite_other:
  "n + length ys \<le> length xs \<Longrightarrow> i + k \<le> n \<or> n + length ys \<le> i \<Longrightarrow> slice i k (overwrite n ys xs) = slice i k xs"
  by (auto simp: slice_overwrite_before slice_overwrite_after)

lemma frame_lengths:
  assumes "length src = frames * FRAME_SIZE" "k < frames"
  shows "length (cd_sector src k) = 2352" "length (cd_subcode src k) = 96"
proof -
  have "k * 2448 + 2448 \<le> frames * 2448" using assms(2) by linarith
  then show "length (cd_sector src k) = 2352" "length (cd_subcode src k) = 96"
    using assms(1) by (simp_all add: cd_sector_def cd_subcode_def frame_sizes)
qed

lemma length_ecc_clear: "length s = 2352 \<Longrightarrow> length (ecc_clear s) = 2352"
  by (simp add: ecc_clear_def ecc_consts)

lemma length_cd_store: "length s = 2352 \<Longrightarrow> length (cd_store s) = 2352"
  by (simp add: cd_store_def length_ecc_clear)

lemma collect_step:
  fixes dest :: bytes
  assumes n: "n < frames" and src: "length src = frames * FRAME_SIZE" and buf: "frames * FRAME_SIZE \<le> length buffer"
  defines "r \<equiv> cd_collect_frame src frames n (buffer, dest)"
  shows "length (fst r) = length buffer" "slice (n * 2352) 2352 (fst r) = cd_store (cd_sector src n)"
    "slice (frames * 2352 + n * 96) 96 (fst r) = cd_subcode src n"
    "k < frames \<Longrightarrow> k \<noteq> n \<Longrightarrow> slice (k * 2352) 2352 (fst r) = slice (k * 2352) 2352 buffer"
    "k < frames \<Longrightarrow> k \<noteq> n \<Longrightarrow> slice (frames * 2352 + k * 96) 96 (fst r) = slice (frames * 2352 + k * 96) 96 buffer"
    "snd r = (if cd_plain (cd_sector src n) then dest[n div 8 := dest ! (n div 8) OR push_bit (n mod 8) 1] else dest)"
proof -
  define sec sub where "sec = cd_sector src n" and "sub = cd_subcode src n"
  have len: "length sec = 2352" "length sub = 96" using frame_lengths [OF src n] by (simp_all add: sec_def sub_def)
  have e: "n * 2352 + 2352 \<le> frames * 2352" "n * 96 + 96 \<le> frames * 96" using n by linarith+
  have room: "frames * 2352 + frames * 96 \<le> length buffer" using buf by (simp add: frame_sizes)
  define b2 where "b2 = overwrite (frames * 2352 + n * 96) sub (overwrite (n * 2352) sec buffer)"
  have lb: "length b2 = length buffer" using len e room by (simp add: b2_def)
  have s2: "slice (n * 2352) 2352 b2 = sec" "slice (frames * 2352 + n * 96) 96 b2 = sub"
    using len e room by (simp_all add: b2_def slice_overwrite_other slice_overwrite_same)
  have k2: "slice (k * 2352) 2352 b2 = slice (k * 2352) 2352 buffer" "slice (frames * 2352 + k * 96) 96 b2 = slice (frames * 2352 + k * 96) 96 buffer"
    if "k < frames" "k \<noteq> n" for k
  proof -
    have "k * 2352 + 2352 \<le> n * 2352 \<or> n * 2352 + 2352 \<le> k * 2352" "k * 96 + 96 \<le> n * 96 \<or> n * 96 + 96 \<le> k * 96"
      "k * 2352 + 2352 \<le> frames * 2352" using that by linarith+
    then show "slice (k * 2352) 2352 b2 = slice (k * 2352) 2352 buffer" "slice (frames * 2352 + k * 96) 96 b2 = slice (frames * 2352 + k * 96) 96 buffer"
      using len e room by (simp_all add: b2_def slice_overwrite_other)
  qed
  have r: "r = (if cd_plain sec then (overwrite (n * 2352) (cd_store sec) b2, dest[n div 8 := dest ! (n div 8) OR push_bit (n mod 8) 1]) else (b2, dest))"
    using s2(1) unfolding r_def cd_collect_frame_def cd_plain_def cd_store_def b2_def sec_def sub_def cd_sector_def cd_subcode_def
    by (simp add: frame_sizes Let_def)
  have ls: "length (cd_store sec) = 2352" using len by (simp add: length_cd_store)
  show "length (fst r) = length buffer" using r lb ls e room by (simp)
  show "slice (n * 2352) 2352 (fst r) = cd_store (cd_sector src n)"
    using r lb ls e room s2 by (auto simp: slice_overwrite_same sec_def [symmetric]) (simp add: cd_store_def)
  show "slice (frames * 2352 + n * 96) 96 (fst r) = cd_subcode src n"
    using r lb ls e room s2 by (auto simp: slice_overwrite_other sub_def)
  show "slice (k * 2352) 2352 (fst r) = slice (k * 2352) 2352 buffer" if "k < frames" "k \<noteq> n"
  proof -
    have "k * 2352 + 2352 \<le> n * 2352 \<or> n * 2352 + 2352 \<le> k * 2352" using that by linarith
    then show ?thesis using r lb ls e room k2(1) [OF that] by (auto simp: slice_overwrite_other)
  qed
  show "slice (frames * 2352 + k * 96) 96 (fst r) = slice (frames * 2352 + k * 96) 96 buffer" if "k < frames" "k \<noteq> n"
    using r lb ls e room k2(2) [OF that] by (auto simp: slice_overwrite_other)
  show "snd r = (if cd_plain (cd_sector src n) then dest[n div 8 := dest ! (n div 8) OR push_bit (n mod 8) 1] else dest)"
    using r by (simp add: sec_def)
qed

lemma collect_frames:
  assumes src: "length src = frames * FRAME_SIZE" and buf: "frames * FRAME_SIZE \<le> length buffer" and h: "frames \<le> 8 * h" and n: "n \<le> frames"
  defines "r \<equiv> fold (cd_collect_frame src frames) [0..<n] (buffer, replicate h 0)"
  shows "length (fst r) = length buffer \<and> length (snd r) = h \<and>
    (\<forall>k < n. slice (k * 2352) 2352 (fst r) = cd_store (cd_sector src k) \<and> slice (frames * 2352 + k * 96) 96 (fst r) = cd_subcode src k) \<and>
    (\<forall>k < 8 * h. bit (snd r ! (k div 8)) (k mod 8) \<longleftrightarrow> k < n \<and> cd_plain (cd_sector src k))"
  using n unfolding r_def
proof (induction n)
  case (Suc n)
  define q where "q = fold (cd_collect_frame src frames) [0..<n] (buffer, replicate h 0)"
  have q: "length (fst q) = length buffer" "length (snd q) = h"
    "\<And>k. k < n \<Longrightarrow> slice (k * 2352) 2352 (fst q) = cd_store (cd_sector src k) \<and> slice (frames * 2352 + k * 96) 96 (fst q) = cd_subcode src k"
    "\<And>k. k < 8 * h \<Longrightarrow> bit (snd q ! (k div 8)) (k mod 8) \<longleftrightarrow> k < n \<and> cd_plain (cd_sector src k)"
    using Suc unfolding q_def by auto
  have nl: "n < frames" "frames * FRAME_SIZE \<le> length (fst q)" using Suc.prems buf q(1) by simp_all
  note st = collect_step [OF nl(1) src nl(2), where dest = "snd q", unfolded prod.collapse]
  have flags: "bit (snd (cd_collect_frame src frames n q) ! (k div 8)) (k mod 8) \<longleftrightarrow> k < Suc n \<and> cd_plain (cd_sector src k)" if "k < 8 * h" for k
  proof -
    have d: "n div 8 < h" "k div 8 < h" using nl(1) h that by auto
    have "bit (push_bit (n mod 8) (1 :: u8)) (k mod 8) \<longleftrightarrow> n mod 8 = k mod 8" by (auto simp: bit_simps)
    moreover have "n = k" if "n div 8 = k div 8" "n mod 8 = k mod 8" using that by (metis div_mult_mod_eq)
    ultimately show ?thesis using st(6) q(4) [OF that] d q(2) by (auto simp: nth_list_update bit_or_iff less_Suc_eq)
  qed
  have "fold (cd_collect_frame src frames) [0..<Suc n] (buffer, replicate h 0) = cd_collect_frame src frames n q" by (simp add: q_def)
  then show ?case using st(1-3) q flags st(4,5) nl(1)
    by (auto simp: less_Suc_eq st(6)) 
qed simp

lemma sector_restored:
  assumes "cd_plain s" "length s = 2352"
  shows "ecc_generate (overwrite 0 f_cd_sync_header (cd_store s)) = s"
proof (rule ecc_generate_restores)
  show "ecc_verify s" "length s = 2352" using assms by (simp_all add: cd_plain_def)
  define c where "c = ecc_clear (overwrite 0 (replicate 12 0) s)"
  have c: "cd_store s = c" "length c = 2352" using assms length_cd_store [of s] by (simp_all add: cd_store_def c_def)
  have h: "length f_cd_sync_header = 12" by (simp add: f_cd_sync_header_def)
  show "length (overwrite 0 f_cd_sync_header (cd_store s)) = 2352" using c h by simp
  have tk: "take 0x81c c = replicate 12 0 @ slice 12 (0x81c - 12) s"
    using assms by (simp add: c_def ecc_clear_def ecc_consts overwrite_def slice_def take_drop)
  show "\<forall>i<ECC_P_OFFSET. overwrite 0 f_cd_sync_header (cd_store s) ! i = s ! i"
  proof (intro allI impI)
    fix i assume i: "i < ECC_P_OFFSET"
    show "overwrite 0 f_cd_sync_header (cd_store s) ! i = s ! i"
    proof (cases "i < 12")
      case True
      then have "f_cd_sync_header ! i = take 12 s ! i" using assms by (simp add: cd_plain_def)
      then show ?thesis using True c h by (simp add: overwrite_def nth_append)
    next
      case False
      then have "overwrite 0 f_cd_sync_header (cd_store s) ! i = take 0x81c c ! i"
        using c h i by (simp add: overwrite_def nth_append ecc_consts)
      also have "\<dots> = s ! i" unfolding tk using False i assms by (simp add: nth_append nth_slice ecc_consts)
      finally show ?thesis .
    qed
  qed
qed


lemma and_push_bit_one: "m < 8 \<Longrightarrow> (x :: u8) AND push_bit m 1 \<noteq> 0 \<longleftrightarrow> bit x m"
proof
  assume m: "m < 8"
  show "x AND push_bit m 1 \<noteq> 0 \<Longrightarrow> bit x m"
  proof (rule ccontr)
    assume "\<not> bit x m" then have "x AND push_bit m 1 = 0" by (intro bit_word_eqI) (auto simp: bit_simps)
    then show "x AND push_bit m 1 \<noteq> 0 \<Longrightarrow> False" by simp
  qed
  assume "bit x m" then have "bit (x AND push_bit m 1) m" using m by (simp add: bit_simps)
  then show "x AND push_bit m 1 \<noteq> 0" by (metis bit_0_eq bot_apply bot_bool_def)
qed

lemma restore_step:
  fixes src :: bytes
  assumes n: "n < frames" and s: "length s = frames * FRAME_SIZE" and dest: "length dest = frames * FRAME_SIZE" and buf: "length buffer = frames * FRAME_SIZE"
    and sector: "slice (n * 2352) 2352 buffer = cd_store (cd_sector s n)"
    and subcode: "slice (frames * 2352 + n * 96) 96 buffer = cd_subcode s n"
    and flag: "bit (src ! (n div 8)) (n mod 8) \<longleftrightarrow> cd_plain (cd_sector s n)"
  defines "r \<equiv> cd_restore_frame src buffer frames n dest"
  shows "length r = frames * FRAME_SIZE" "slice (n * 2448) 2448 r = slice (n * 2448) 2448 s"
    "k < frames \<Longrightarrow> k \<noteq> n \<Longrightarrow> slice (k * 2448) 2448 r = slice (k * 2448) 2448 dest"
proof -
  define sec sub where "sec = cd_sector s n" and "sub = cd_subcode s n"
  have len: "length sec = 2352" "length sub = 96" "length (cd_store sec) = 2352"
    using frame_lengths [OF s n] by (simp_all add: sec_def sub_def length_cd_store)
  have e: "n * 2448 + 2448 \<le> length dest" using n dest by (simp add: FRAME_SIZE_def)
  define d2 where "d2 = overwrite (n * 2448 + 2352) sub (overwrite (n * 2448) (cd_store sec) dest)"
  have l2: "length d2 = length dest" using e len by (simp add: d2_def)
  have s2: "slice (n * 2448) 2352 d2 = cd_store sec" "slice (n * 2448 + 2352) 96 d2 = sub"
    using e len by (simp_all add: d2_def slice_overwrite_other slice_overwrite_same)
  have r: "r = (if cd_plain sec then overwrite (n * 2448) sec d2 else d2)"
  proof -
    have "cd_plain sec \<Longrightarrow> ecc_generate (overwrite 0 f_cd_sync_header (cd_store sec)) = sec" using len by (intro sector_restored)
    moreover have "src ! (n div 8) AND push_bit (n mod 8) 1 \<noteq> 0 \<longleftrightarrow> cd_plain sec" using flag and_push_bit_one [of "n mod 8" "src ! (n div 8)"] by (simp add: sec_def)
    ultimately show ?thesis using s2(1)
      unfolding r_def cd_restore_frame_def Let_def frame_sizes by (simp add: sector subcode sec_def [symmetric] sub_def [symmetric] d2_def)
  qed
  show "length r = frames * FRAME_SIZE" using r l2 e len dest by simp
  have "slice (n * 2448) (2352 + 96) r = sec @ sub"
  proof -
    have "slice (n * 2448) 2352 r = sec" using r l2 e len s2(1) by (simp add: slice_overwrite_same cd_store_def)
    moreover have "slice (n * 2448 + 2352) 96 r = sub" using r l2 e len s2(2) by (simp add: slice_overwrite_other)
    ultimately show ?thesis by (simp only: slice_add)
  qed
  moreover have "slice (n * 2448) (2352 + 96) s = sec @ sub"
    unfolding slice_add by (simp add: sec_def sub_def cd_sector_def cd_subcode_def frame_sizes)
  ultimately show "slice (n * 2448) 2448 r = slice (n * 2448) 2448 s" by simp
  show "slice (k * 2448) 2448 r = slice (k * 2448) 2448 dest" if "k < frames" "k \<noteq> n"
  proof -
    have "k * 2448 + 2448 \<le> n * 2448 \<or> n * 2448 + 2448 \<le> k * 2448" using that by linarith
    then have "slice (k * 2448) 2448 d2 = slice (k * 2448) 2448 dest" "cd_plain sec \<Longrightarrow> slice (k * 2448) 2448 (overwrite (n * 2448) sec d2) = slice (k * 2448) 2448 d2"
      using e len l2 by (auto simp: d2_def slice_overwrite_other)
    then show ?thesis using r by simp
  qed
qed

lemma slices_eqI:
  assumes "length a = n * s" "length b = n * s" "\<And>k. k < n \<Longrightarrow> slice (k * s) s a = slice (k * s) s b"
  shows "a = b"
proof (rule nth_equalityI)
  fix i assume "i < length a"
  then have i: "i < length a" "i < length b" using assms(1,2) by argo+
  define q m where "q = i div s" and "m = i mod s"
  have "0 < s" using i assms(1) by (cases "s = 0") simp_all
  then have m: "m < s" "q * s + m = i" by (simp_all add: q_def m_def)
  have "q * s < n * s" using m i(1) assms(1) by linarith
  then have "q < n" by simp
  have "slice (q * s) s a ! m = a ! i" "slice (q * s) s b ! m = b ! i"
    using nth_slice [of m s "q * s" a] nth_slice [of m s "q * s" b] m i by argo+
  then show "a ! i = b ! i" using assms(3) [OF \<open>q < n\<close>] by argo
qed (use assms in simp)

lemma restore_frames:
  assumes s: "length s = frames * FRAME_SIZE" and buf: "length buffer = frames * FRAME_SIZE" and dest: "length dest = frames * FRAME_SIZE"
    and frames: "\<And>k. k < frames \<Longrightarrow> slice (k * 2352) 2352 buffer = cd_store (cd_sector s k) \<and> slice (frames * 2352 + k * 96) 96 buffer = cd_subcode s k \<and>
      (bit (src ! (k div 8)) (k mod 8) \<longleftrightarrow> cd_plain (cd_sector s k))"
  shows "fold (cd_restore_frame src buffer frames) [0..<frames] dest = s"
proof -
  define r where "r n = fold (cd_restore_frame src buffer frames) [0..<n] dest" for n
  have "length (r n) = frames * FRAME_SIZE \<and> (\<forall>k < n. slice (k * 2448) 2448 (r n) = slice (k * 2448) 2448 s)" if "n \<le> frames" for n
    using that
  proof (induction n)
    case (Suc n)
    then have n: "n < frames" by (simp only: Suc_le_eq)
    from Suc.IH [OF less_imp_le [OF n]] have q: "length (r n) = frames * FRAME_SIZE" "\<forall>k < n. slice (k * 2448) 2448 (r n) = slice (k * 2448) 2448 s" by blast+
    have f: "slice (n * 2352) 2352 buffer = cd_store (cd_sector s n)" "slice (frames * 2352 + n * 96) 96 buffer = cd_subcode s n"
      "bit (src ! (n div 8)) (n mod 8) \<longleftrightarrow> cd_plain (cd_sector s n)" 
      using frames [OF n] by - (elim conjE, assumption)+
    have "r (Suc n) = cd_restore_frame src buffer frames n (r n)" unfolding r_def upt_Suc fold_append by simp
    note st = restore_step [OF n s q(1) buf f, folded this]
    have "slice (k * 2448) 2448 (r (Suc n)) = slice (k * 2448) 2448 s" if "k < Suc n" for k
    proof (cases "k = n")
      case False
      then have "k < n" "k < frames" using that n by simp_all
      then have "slice (k * 2448) 2448 (r (Suc n)) = slice (k * 2448) 2448 (r n)" by (intro st(3) False)
      also have "\<dots> = slice (k * 2448) 2448 s" using q(2) \<open>k < n\<close> by blast
      finally show ?thesis .
    qed (simp only: st(2))
    then show ?case using st(1) by blast
  qed (simp add: r_def dest)
  note all = this [OF order_refl]
  have fs: "FRAME_SIZE = 2448" by (simp add: FRAME_SIZE_def)
  have "r frames = s"
  proof (rule slices_eqI)
    show "length (r frames) = frames * 2448" using all unfolding fs by (rule conjunct1)
    show "length s = frames * 2448" using s unfolding fs .
    show "slice (k * 2448) 2448 (r frames) = slice (k * 2448) 2448 s" if "k < frames" for k using conjunct2 [OF all] that by (elim allE impE)
  qed
  then show ?thesis by (simp add: r_def)
qed

subsection \<open>Codecs that lose nothing\<close>

text \<open>
  The contract of a codec for sources of \<open>n\<close> bytes: what the compressor delivers is turned back by
  the decompressor, whatever follows in the buffer, and lies within the room given.
\<close>

locale lossless_codec =
  fixes enc :: "bytes \<Rightarrow> nat \<Rightarrow> (thrown + bytes) res" and dec :: "bytes \<Rightarrow> nat \<Rightarrow> nat \<Rightarrow> (thrown + bytes) res" and n :: nat
  assumes decodes: "length src = n \<Longrightarrow> enc src room = Inr (Inr out) \<Longrightarrow> dec (out @ rest) (length out) n = Inr (Inr src)"
    and in_room: "length src = n \<Longrightarrow> enc src room = Inr (Inr out) \<Longrightarrow> length out \<le> room"
begin

lemma decodes_all: "length src = n \<Longrightarrow> enc src room = Inr (Inr out) \<Longrightarrow> dec out (length out) n = Inr (Inr src)"
  using decodes [of src room out "[]"] by simp

lemma enc_inj: "length a = n \<Longrightarrow> length b = n \<Longrightarrow> enc a room = Inr (Inr out) \<Longrightarrow> enc b room' = Inr (Inr out) \<Longrightarrow> a = b"
  using decodes_all [of a room out] decodes_all [of b room' out] by simp

end

locale shrinking_codec = lossless_codec +
  assumes no_growth: "length src = n \<Longrightarrow> enc src room = Inr (Inr out) \<Longrightarrow> length out \<le> n"

text \<open>The CD codecs over a codec for the sectors and a codec for the subcodes.\<close>

locale cd_pair = base: shrinking_codec be bd "frames * MAX_SECTOR_DATA" + sub: shrinking_codec se sd "frames * MAX_SUBCODE_DATA"
  for be bd se sd and frames :: nat +
  assumes frames_small: "frames * FRAME_SIZE \<le> 2 ^ 24"
begin

lemma cd_sizes: "frames * FRAME_SIZE div FRAME_SIZE = frames" "frames \<le> 8 * ecc_bytes frames" "frames \<le> 8 * header_bytes (frames * FRAME_SIZE)"
  "header_bytes (frames * FRAME_SIZE) = ecc_bytes frames + complen_bytes (frames * FRAME_SIZE)" "header_bytes (frames * FRAME_SIZE) \<le> 2 ^ 24"
  using frames_small by (auto simp: FRAME_SIZE_def ecc_bytes_def header_bytes_def complen_bytes_def)

text \<open>What a successful run of the compressor consists of.\<close>

lemma cd_compressE:
  assumes "length src = frames * FRAME_SIZE" "cd_compress be se (frames * FRAME_SIZE) src room = Inr (Inr out)"
  obtains buffer dest b s where
    "fold (cd_collect_frame src frames) [0..<frames] (replicate (frames * FRAME_SIZE + frames * MAX_SUBCODE_DATA) 0, replicate (header_bytes (frames * FRAME_SIZE)) 0) = (buffer, dest)"
    "header_bytes (frames * FRAME_SIZE) \<le> room"
    "be (slice 0 (frames * MAX_SECTOR_DATA) buffer) (room - header_bytes (frames * FRAME_SIZE)) = Inr (Inr b)"
    "length b < frames * FRAME_SIZE"
    "se (slice (frames * MAX_SECTOR_DATA) (frames * MAX_SUBCODE_DATA) buffer) (room - header_bytes (frames * FRAME_SIZE) - length b) = Inr (Inr s)"
    "out = at_off (ecc_bytes frames) (if complen_bytes (frames * FRAME_SIZE) > 2 then put_u24be (of_nat (length b)) else put_u16be (of_nat (length b))) dest @ b @ s"
proof -
  obtain buffer dest where r: "fold (cd_collect_frame src frames) [0..<frames]
      (replicate (frames * FRAME_SIZE + frames * MAX_SUBCODE_DATA) 0, replicate (header_bytes (frames * FRAME_SIZE)) 0) = (buffer, dest)"
    by fastforce
  note c = assms(2) [unfolded cd_compress_def Let_def assms(1) cd_sizes(1) r case_prod_conv]
  from c have h: "\<not> room < header_bytes (frames * FRAME_SIZE)" by (simp split: if_splits)
  note c = c [unfolded if_not_P [OF h]]
  from c obtain b where b: "be (slice 0 (frames * MAX_SECTOR_DATA) buffer) (room - header_bytes (frames * FRAME_SIZE)) = Inr (Inr b)"
    by (simp split: sum.splits)
  note c = c [unfolded b sum.case]
  from c have lb: "\<not> frames * FRAME_SIZE \<le> length b" by (simp split: if_splits)
  note c = c [unfolded if_not_P [OF lb]]
  from c obtain s where s: "se (slice (frames * MAX_SECTOR_DATA) (frames * MAX_SUBCODE_DATA) buffer) (room - header_bytes (frames * FRAME_SIZE) - length b) = Inr (Inr s)"
    by (simp split: sum.splits)
  from c [unfolded s sum.case] that [OF r _ b _ s] h lb show ?thesis by simp
qed

lemma cd_collected:
  assumes "length src = frames * FRAME_SIZE"
    "fold (cd_collect_frame src frames) [0..<frames] (replicate (frames * FRAME_SIZE + frames * MAX_SUBCODE_DATA) 0, replicate (header_bytes (frames * FRAME_SIZE)) 0) = (buffer, dest)"
  shows "frames * FRAME_SIZE \<le> length buffer" "length dest = header_bytes (frames * FRAME_SIZE)"
    "k < frames \<Longrightarrow> slice (k * 2352) 2352 buffer = cd_store (cd_sector src k)"
    "k < frames \<Longrightarrow> slice (frames * 2352 + k * 96) 96 buffer = cd_subcode src k"
    "k < frames \<Longrightarrow> bit (dest ! (k div 8)) (k mod 8) \<longleftrightarrow> cd_plain (cd_sector src k)"
  using collect_frames [OF assms(1) _ cd_sizes(3) order_refl, of "replicate (frames * FRAME_SIZE + frames * MAX_SUBCODE_DATA) 0"] cd_sizes(3)
  unfolding assms(2) by auto

lemma cd_length_field:
  assumes "length b < frames * FRAME_SIZE" "length dest = header_bytes (frames * FRAME_SIZE)"
  defines "d \<equiv> at_off (ecc_bytes frames) (if complen_bytes (frames * FRAME_SIZE) > 2 then put_u24be (of_nat (length b)) else put_u16be (of_nat (length b))) dest"
  shows "length d = header_bytes (frames * FRAME_SIZE)" "k < frames \<Longrightarrow> (d @ xs) ! (k div 8) = dest ! (k div 8)"
    "(if complen_bytes (frames * FRAME_SIZE) > 2 then unat (get_u24be (drop (ecc_bytes frames) (d @ xs)))
      else unat (get_u16be (drop (ecc_bytes frames) (d @ xs)))) = length b"
proof -
  have ld: "ecc_bytes frames + complen_bytes (frames * FRAME_SIZE) = length dest" using assms(2) cd_sizes(4) by simp
  show l: "length d = header_bytes (frames * FRAME_SIZE)" unfolding d_def using assms(2) by (simp add: f24be.length_put f16be.length_put)
  have "drop (ecc_bytes frames) (d @ xs) = drop (ecc_bytes frames) d @ xs" using l cd_sizes(4) by simp
  show "(d @ xs) ! (k div 8) = dest ! (k div 8)" if "k < frames"
  proof -
    have "k div 8 < ecc_bytes frames" using that by (simp add: ecc_bytes_def)
    then show ?thesis using ld l assms(2) by (simp add: nth_append d_def nth_at_off_before)
  qed
  have dr: "drop (ecc_bytes frames) (d @ xs) = (if complen_bytes (frames * FRAME_SIZE) > 2 then put_u24be (of_nat (length b)) else put_u16be (of_nat (length b))) (drop (ecc_bytes frames) dest) @ xs"
    using ld l assms(2) by (simp add: d_def at_off_def)
  show "(if complen_bytes (frames * FRAME_SIZE) > 2 then unat (get_u24be (drop (ecc_bytes frames) (d @ xs)))
      else unat (get_u16be (drop (ecc_bytes frames) (d @ xs)))) = length b"
  proof (cases "frames * FRAME_SIZE < 65536")
    case True
    then have "complen_bytes (frames * FRAME_SIZE) = 2" by (simp add: complen_bytes_def)
    moreover from this have "get_u16be (put_u16be (of_nat (length b)) (drop (ecc_bytes frames) dest) @ xs) = of_nat (length b)"
      using ld by (subst f16be.get_local [of _ "put_u16be (of_nat (length b)) (drop (ecc_bytes frames) dest)"]) (simp_all add: f16be.length_put get_put_u16be)
    ultimately show ?thesis unfolding dr using True assms(1) by (simp add: unat_of_nat_small)
  next
    case False
    then have "complen_bytes (frames * FRAME_SIZE) = 3" by (simp add: complen_bytes_def)
    moreover from this have "get_u24be (put_u24be (of_nat (length b)) (drop (ecc_bytes frames) dest) @ xs) = take_bit 24 (of_nat (length b))"
      using ld by (subst f24be.get_local [of _ "put_u24be (of_nat (length b)) (drop (ecc_bytes frames) dest)"]) (simp_all add: f24be.length_put get_put_u24be)
    ultimately show ?thesis unfolding dr using assms(1) frames_small by (simp add: unat_of_nat_small take_bit_nat_def unsigned_take_bit_eq)
  qed
qed

lemma cd_output_length:
  assumes "length src = frames * FRAME_SIZE" "cd_compress be se (frames * FRAME_SIZE) src room = Inr (Inr out)"
  shows "length out \<le> room" "length out \<le> header_bytes (frames * FRAME_SIZE) + frames * FRAME_SIZE"
proof -
  obtain buffer dest b s where c: "fold (cd_collect_frame src frames) [0..<frames]
      (replicate (frames * FRAME_SIZE + frames * MAX_SUBCODE_DATA) 0, replicate (header_bytes (frames * FRAME_SIZE)) 0) = (buffer, dest)"
    "header_bytes (frames * FRAME_SIZE) \<le> room"
    "be (slice 0 (frames * MAX_SECTOR_DATA) buffer) (room - header_bytes (frames * FRAME_SIZE)) = Inr (Inr b)" "length b < frames * FRAME_SIZE"
    "se (slice (frames * MAX_SECTOR_DATA) (frames * MAX_SUBCODE_DATA) buffer) (room - header_bytes (frames * FRAME_SIZE) - length b) = Inr (Inr s)"
    "out = at_off (ecc_bytes frames) (if complen_bytes (frames * FRAME_SIZE) > 2 then put_u24be (of_nat (length b)) else put_u16be (of_nat (length b))) dest @ b @ s"
    by (rule cd_compressE [OF assms])
  note col = cd_collected [OF assms(1) c(1)]
  have l: "length (slice 0 (frames * MAX_SECTOR_DATA) buffer) = frames * MAX_SECTOR_DATA"
    "length (slice (frames * MAX_SECTOR_DATA) (frames * MAX_SUBCODE_DATA) buffer) = frames * MAX_SUBCODE_DATA"
    using col(1) by (simp_all add: frame_sizes)
  have "length out = header_bytes (frames * FRAME_SIZE) + length b + length s"
    using cd_length_field(1) [OF c(4) col(2)] by (simp add: c(6))
  then show "length out \<le> room" "length out \<le> header_bytes (frames * FRAME_SIZE) + frames * FRAME_SIZE"
    using base.in_room [OF l(1) c(3)] sub.in_room [OF l(2) c(5)] base.no_growth [OF l(1) c(3)] sub.no_growth [OF l(2) c(5)] c(2)
    by (simp_all add: frame_sizes)
qed

lemma cd_decodes:
  assumes "length src = frames * FRAME_SIZE" "cd_compress be se (frames * FRAME_SIZE) src room = Inr (Inr out)"
  shows "cd_decompress bd sd (frames * FRAME_SIZE) (out @ rest) (length out) (frames * FRAME_SIZE) = Inr (Inr src)"
proof -
  obtain buffer dest b s where c: "fold (cd_collect_frame src frames) [0..<frames]
      (replicate (frames * FRAME_SIZE + frames * MAX_SUBCODE_DATA) 0, replicate (header_bytes (frames * FRAME_SIZE)) 0) = (buffer, dest)"
    "header_bytes (frames * FRAME_SIZE) \<le> room"
    "be (slice 0 (frames * MAX_SECTOR_DATA) buffer) (room - header_bytes (frames * FRAME_SIZE)) = Inr (Inr b)" "length b < frames * FRAME_SIZE"
    "se (slice (frames * MAX_SECTOR_DATA) (frames * MAX_SUBCODE_DATA) buffer) (room - header_bytes (frames * FRAME_SIZE) - length b) = Inr (Inr s)"
    "out = at_off (ecc_bytes frames) (if complen_bytes (frames * FRAME_SIZE) > 2 then put_u24be (of_nat (length b)) else put_u16be (of_nat (length b))) dest @ b @ s"
    by (rule cd_compressE [OF assms])
  define d where "d = at_off (ecc_bytes frames) (if complen_bytes (frames * FRAME_SIZE) > 2 then put_u24be (of_nat (length b)) else put_u16be (of_nat (length b))) dest"
  have out: "out @ rest = d @ b @ s @ rest" "length out = length d + length b + length s" by (simp_all add: c(6) d_def)
  note col = cd_collected [OF assms(1) c(1)]
  note f = cd_length_field [OF c(4) col(2), folded d_def]
  define secs subs where "secs = slice 0 (frames * MAX_SECTOR_DATA) buffer" and "subs = slice (frames * MAX_SECTOR_DATA) (frames * MAX_SUBCODE_DATA) buffer"
  have l: "length secs = frames * MAX_SECTOR_DATA" "length subs = frames * MAX_SUBCODE_DATA"
    using col(1) by (simp_all add: frame_sizes secs_def subs_def)
  have bd: "bd (b @ s @ rest) (length b) (frames * MAX_SECTOR_DATA) = Inr (Inr secs)"
    using base.decodes [OF l(1) c(3) [folded secs_def]] by simp
  have sd: "sd (s @ rest) (length s) (frames * MAX_SUBCODE_DATA) = Inr (Inr subs)"
    using sub.decodes [OF l(2) c(5) [folded subs_def]] by simp
  have "length s < 2 ^ 32" using sub.no_growth [OF l(2) c(5) [folded subs_def]] frames_small by (simp add: frame_sizes)
  then have slen: "unat (of_nat (length out) - of_nat (length b) - of_nat (header_bytes (frames * FRAME_SIZE)) :: u32) = length s"
    by (simp add: out(2) f(1) unat_of_nat_small)
  define buf where "buf = overwrite (frames * MAX_SECTOR_DATA) subs (overwrite 0 secs (replicate (frames * FRAME_SIZE) 0))"
  have buf: "buf = slice 0 (frames * FRAME_SIZE) buffer"
  proof -
    have "buf = secs @ subs" using l by (simp add: buf_def overwrite_def frame_sizes)
    also have "\<dots> = slice 0 (frames * MAX_SECTOR_DATA + frames * MAX_SUBCODE_DATA) buffer" unfolding slice_add secs_def subs_def by simp
    finally show ?thesis by (simp add: frame_sizes mult.commute)
  qed
  have lb: "length buf = frames * FRAME_SIZE" using col(1) by (simp add: buf)
  have sl: "slice (k * 2352) 2352 buf = cd_store (cd_sector src k)" "slice (frames * 2352 + k * 96) 96 buf = cd_subcode src k" if "k < frames" for k
  proof -
    have "k * 2352 + 2352 \<le> frames * FRAME_SIZE" "frames * 2352 + k * 96 + 96 \<le> frames * FRAME_SIZE" using that by (simp_all add: FRAME_SIZE_def)
    then show "slice (k * 2352) 2352 buf = cd_store (cd_sector src k)" "slice (frames * 2352 + k * 96) 96 buf = cd_subcode src k"
      using col(3,4) [OF that] by (simp_all add: buf slice_slice)
  qed
  have "fold (cd_restore_frame (out @ rest) buf frames) [0..<frames] (replicate (frames * FRAME_SIZE) 0) = src"
    by (rule restore_frames [OF assms(1) lb]) (use sl f(2) col(5) out(1) in simp_all)
  then show ?thesis
    using f(3) [of "b @ s @ rest"] bd sd slen f(1) out
    unfolding cd_decompress_def Let_def cd_sizes(1) out(1) by (simp add: buf_def [symmetric])
qed

end

sublocale cd_pair \<subseteq> cd: lossless_codec "cd_compress be se (frames * FRAME_SIZE)" "cd_decompress bd sd (frames * FRAME_SIZE)" "frames * FRAME_SIZE"
  by unfold_locales (rule cd_decodes cd_output_length; assumption)+

subsection \<open>What the third-party coders promise\<close>

text \<open>
  zlib and LZMA: no more bytes are stored than there is room for, and a complete stream decodes to
  its source.
\<close>

definition zlib_laws :: "('s, 'z) coder_libs_scheme \<Rightarrow> bool" where
  "zlib_laws cl \<longleftrightarrow>
     (\<forall>src n. length (snd (z_deflate cl src n)) \<le> n) \<and>
     (\<forall>src n out. z_deflate cl src n = (Z_STREAM_END, out) \<longrightarrow> z_inflateReset cl = Z_OK \<and> z_inflate cl out (length src) = (Z_STREAM_END, src))"

definition lzma_laws :: "('s, 'z) coder_libs_scheme \<Rightarrow> bool" where
  "lzma_laws cl \<longleftrightarrow>
     (\<forall>h src n. length (snd (lz_MemEncode cl h src n)) \<le> n) \<and>
     (\<forall>h src n out. lz_MemEncode cl h src n = (SZ_OK, out) \<longrightarrow> lz_DecodeToBuf cl h out (length src) = (SZ_OK, length out, src))"

text \<open>
  Zstandard, with the streams as relations: \<open>crel stream src pos out\<close> is an encoder that has taken
  \<open>pos\<close> bytes of \<open>src\<close> and stored \<open>out\<close>, \<open>frame src c\<close> says that \<open>c\<close> is a frame for \<open>src\<close>, and
  \<open>drel stream src c pos out\<close> is a decoder that has taken \<open>pos\<close> bytes of the frame \<open>c\<close> and stored
  \<open>out\<close>. Every call moves on; the return value 0 of the encoder says that the frame is complete; a
  decoder that has taken all of a frame and has room left has stored everything.
\<close>

definition zstd_encoder_laws ::
    "('s, 'z) coder_libs_scheme \<Rightarrow> ('s \<Rightarrow> bytes \<Rightarrow> nat \<Rightarrow> bytes \<Rightarrow> bool) \<Rightarrow> (bytes \<Rightarrow> bytes \<Rightarrow> bool) \<Rightarrow> bool" where
  "zstd_encoder_laws cl crel frame \<longleftrightarrow>
     (\<forall>stream src. zs_initCStream cl = Some stream \<longrightarrow> crel stream src 0 []) \<and>
     (\<forall>stream src pos out room stream' used w r. crel stream src pos out \<and> 0 < room \<and> zs_compressStream2 cl stream (drop pos src) room = (stream', used, w, r) \<longrightarrow>
        length w \<le> room \<and>
        (r \<noteq> None \<longrightarrow> pos + used \<le> length src \<and> crel stream' src (pos + used) (out @ w) \<and>
           (if r = Some 0 then frame src (out @ w) else 0 < used \<or> w \<noteq> [])))"

definition zstd_decoder_laws ::
    "('s, 'z) coder_libs_scheme \<Rightarrow> ('s \<Rightarrow> bytes \<Rightarrow> bytes \<Rightarrow> nat \<Rightarrow> bytes \<Rightarrow> bool) \<Rightarrow> (bytes \<Rightarrow> bytes \<Rightarrow> bool) \<Rightarrow> bool" where
  "zstd_decoder_laws cl drel frame \<longleftrightarrow>
     (\<forall>src c. frame src c \<longrightarrow> (\<exists>stream. zs_initDStream cl = Some stream \<and> drel stream src c 0 [])) \<and>
     (\<forall>stream src c pos out. drel stream src c pos out \<longrightarrow>
        pos \<le> length c \<and> out = take (length out) src \<and> (pos = length c \<longrightarrow> out = src)) \<and>
     (\<forall>stream src c pos out room. drel stream src c pos out \<and> pos < length c \<and> 0 < room \<and> length out + room = length src \<longrightarrow>
        (\<exists>stream' used w r. zs_decompressStream cl stream (drop pos c) room = (stream', used, w, Some r) \<and>
           length w \<le> room \<and> (0 < used \<or> w \<noteq> []) \<and> drel stream' src c (pos + used) (out @ w)))"

definition zstd_laws :: "('s, 'z) coder_libs_scheme \<Rightarrow> bool" where
  "zstd_laws cl \<longleftrightarrow> (\<exists>crel drel frame. zstd_encoder_laws cl crel frame \<and> zstd_decoder_laws cl drel frame)"

text \<open>The Huffman coders are as constructed, or as earlier calls left them.\<close>

definition huffman_ready :: "('s, 'z) coder_libs_scheme \<Rightarrow> bool" where
  "huffman_ready cl \<longleftrightarrow>
     m_numcodes (h_encoder cl) = 256 \<and> m_maxbits (h_encoder cl) = 16 \<and> length (m_huffnode (h_encoder cl)) = 512 \<and>
     m_numcodes (h_decoder cl) = 256 \<and> m_maxbits (h_decoder cl) = 16 \<and> length (m_huffnode (h_decoder cl)) = 256 \<and> length (m_lookup (h_decoder cl)) = 2 ^ 16 \<and>
     m_numcodes (h_small cl) = 24 \<and> m_maxbits (h_small cl) = 6 \<and> length (m_huffnode (h_small cl)) = 24 \<and> length (m_lookup (h_small cl)) = 2 ^ 6"

primrec coder_laws :: "('s, 'z) coder_libs_scheme \<Rightarrow> codec_class \<Rightarrow> bool" where
  "coder_laws cl Zlib_Codec = zlib_laws cl"
| "coder_laws cl Zstd_Codec = zstd_laws cl"
| "coder_laws cl Lzma_Codec = lzma_laws cl"
| "coder_laws cl Huffman_Codec = huffman_ready cl"
| "coder_laws cl Flac_Codec = False"
| "coder_laws cl (Cd_Codec base sub) = (coder_laws cl base \<and> coder_laws cl sub \<and> \<not> framed base \<and> \<not> framed sub)"
| "coder_laws cl Cd_Flac_Codec = False"
| "coder_laws cl Avhuff_Codec = False"

subsection \<open>The codecs meet the contract\<close>

lemma zlib_shrinking: "zlib_laws cl \<Longrightarrow> shrinking_codec (zlib_compress cl) (zlib_decompress cl) n"
proof unfold_locales
  fix src room out rest assume laws: "zlib_laws cl" and src: "length src = n" and c: "zlib_compress cl src room = Inr (Inr out)"
  from c have e: "z_deflate cl src n = (Z_STREAM_END, out)" "length out \<le> room"
    using src by (auto simp: zlib_compress_def split: prod.splits if_splits)
  then have "z_inflateReset cl = Z_OK" "z_inflate cl out n = (Z_STREAM_END, src)" using laws src unfolding zlib_laws_def by metis+
  then show "zlib_decompress cl (out @ rest) (length out) n = Inr (Inr src)"
    using src by (simp add: zlib_decompress_def)
  show "length out \<le> room" by (rule e(2))
  show "length out \<le> n" using laws e(1) unfolding zlib_laws_def by (metis snd_conv)
qed

lemma lzma_shrinking: "lzma_laws cl \<Longrightarrow> shrinking_codec (lzma_compress cl h) (lzma_decompress cl h) n"
proof unfold_locales
  fix src room out rest assume laws: "lzma_laws cl" and src: "length src = n" and c: "lzma_compress cl h src room = Inr (Inr out)"
  from c have e: "lz_MemEncode cl h src n = (SZ_OK, out)" "length out \<le> room"
    using src by (auto simp: lzma_compress_def split: prod.splits if_splits)
  then show "lzma_decompress cl h (out @ rest) (length out) n = Inr (Inr src)"
    using laws src by (auto simp: lzma_laws_def lzma_decompress_def)
  show "length out \<le> room" by (rule e(2))
  show "length out \<le> n" using laws e(1) unfolding lzma_laws_def by (metis snd_conv)
qed

lemma zstd_encoder_step:
  assumes "zstd_encoder_laws cl crel frame" "crel stream src pos out" "0 < room" "zs_compressStream2 cl stream (drop pos src) room = (stream', used, w, r)"
  shows "length w \<le> room" "r \<noteq> None \<Longrightarrow> pos + used \<le> length src" "r \<noteq> None \<Longrightarrow> crel stream' src (pos + used) (out @ w)"
    "r = Some 0 \<Longrightarrow> frame src (out @ w)" "r \<noteq> None \<Longrightarrow> r \<noteq> Some 0 \<Longrightarrow> 0 < used \<or> w \<noteq> []"
proof -
  have "length w \<le> room \<and> (r \<noteq> None \<longrightarrow> pos + used \<le> length src \<and> crel stream' src (pos + used) (out @ w) \<and>
      (if r = Some 0 then frame src (out @ w) else 0 < used \<or> w \<noteq> []))"
    using assms(2-4) conjunct2 [OF assms(1) [unfolded zstd_encoder_laws_def]] by blast
  then show "length w \<le> room" "r \<noteq> None \<Longrightarrow> pos + used \<le> length src" "r \<noteq> None \<Longrightarrow> crel stream' src (pos + used) (out @ w)"
    "r = Some 0 \<Longrightarrow> frame src (out @ w)" "r \<noteq> None \<Longrightarrow> r \<noteq> Some 0 \<Longrightarrow> 0 < used \<or> w \<noteq> []"
    by (auto split: if_splits)
qed

lemma zstd_decoder_step:
  assumes "zstd_decoder_laws cl drel frame" "drel stream src c pos out" "pos < length c" "0 < room" "length out + room = length src"
  obtains stream' used w r where "zs_decompressStream cl stream (drop pos c) room = (stream', used, w, Some r)" "length w \<le> room" "0 < used \<or> w \<noteq> []"
    "drel stream' src c (pos + used) (out @ w)"
  using assms unfolding zstd_decoder_laws_def by meson

lemma zstd_decoder_state:
  assumes "zstd_decoder_laws cl drel frame" "drel stream src c pos out"
  shows "pos \<le> length c" "out = take (length out) src" "pos = length c \<Longrightarrow> out = src"
  using assms unfolding zstd_decoder_laws_def by metis+

lemma zstd_compress_loop_ends:
  assumes laws: "zstd_encoder_laws cl crel frame"
  shows "crel stream src pos out \<Longrightarrow> pos \<le> length src \<Longrightarrow> length out \<le> length src \<Longrightarrow> length out \<le> room \<Longrightarrow>
    \<exists>y. zstd_compress_loop cl src room stream pos out = Some y \<and> (length src \<le> room \<longrightarrow> \<not> isl y) \<and>
      (\<forall>z. y = Inr (Inr z) \<longrightarrow> length z \<le> length src \<and> length z \<le> room \<and> (length z = length src \<or> frame src z))"
proof (induction "(length src - pos) + (length src - length out)" arbitrary: stream pos out rule: less_induct)
  case less
  obtain stream' used w r where c: "zs_compressStream2 cl stream (drop pos src) (length src - length out) = (stream', used, w, r)"
    by (cases "zs_compressStream2 cl stream (drop pos src) (length src - length out)") auto
  consider "\<not> length out < length src" | "length out < length src" "room < length (out @ w)" | "length out < length src" "\<not> room < length (out @ w)" "r = None"
    | "length out < length src" "\<not> room < length (out @ w)" "r = Some 0" | "length out < length src" "\<not> room < length (out @ w)" "r \<noteq> None" "r \<noteq> Some 0" by blast
  then show ?case
  proof cases
    case 1
    then show ?thesis using less.prems by (subst zstd_compress_loop.simps) auto
  next
    case 5
    then have room: "0 < length src - length out" by simp
    note st = zstd_encoder_step [OF laws less.prems(1) room c]
    have l: "length (out @ w) \<le> length src" using st(1) 5(1) by simp
    have m: "(length src - (pos + used)) + (length src - length (out @ w)) < (length src - pos) + (length src - length out)"
      using st(2,5) 5 l less.prems(2) by (cases w) auto
    have "zstd_compress_loop cl src room stream pos out = zstd_compress_loop cl src room stream' (pos + used) (out @ w)"
      using 5 c by (subst zstd_compress_loop.simps) auto
    then show ?thesis using less.hyps [OF m st(3) st(2) l] 5 by simp
  qed (use less.prems c zstd_encoder_step [OF laws less.prems(1) _ c] in \<open>subst zstd_compress_loop.simps; auto\<close>)+
qed

lemma zstd_decompress_loop_ends:
  assumes laws: "zstd_decoder_laws cl drel frame"
  shows "drel stream src c pos out \<Longrightarrow> zstd_decompress_loop cl c (length src) stream pos out = Some (Inr (Inr src))"
proof (induction "(length c - pos) + (length src - length out)" arbitrary: stream pos out rule: less_induct)
  case less
  note state = zstd_decoder_state [OF laws less.prems]
  have lo: "length out \<le> length src" using arg_cong [OF state(2), of length] by simp
  show ?case
  proof (cases "pos < length c \<and> length out < length src")
    case True
    then have t: "pos < length c" "0 < length src - length out" "length out + (length src - length out) = length src" by simp_all
    obtain stream' used w r where d: "zs_decompressStream cl stream (drop pos c) (length src - length out) = (stream', used, w, Some r)"
      "length w \<le> length src - length out" "0 < used \<or> w \<noteq> []" "drel stream' src c (pos + used) (out @ w)"
      by (rule zstd_decoder_step [OF laws less.prems t])
    have m: "(length c - (pos + used)) + (length src - length (out @ w)) < (length c - pos) + (length src - length out)"
      using d(2,3) t zstd_decoder_state(1) [OF laws d(4)] by (cases w) auto
    show ?thesis using less.hyps [OF m d(4)] d(1) True by (subst zstd_decompress_loop.simps) simp
  next
    case False
    then have "out = src"
    proof (cases "pos < length c")
      case True
      with False have "length out = length src" using lo by simp
      then show ?thesis using state(2) by simp
    qed (use state in simp)
    then show ?thesis using False by (subst zstd_decompress_loop.simps) simp
  qed
qed

lemma zstd_shrinking:
  assumes "zstd_laws cl"
  shows "shrinking_codec (zstd_compress cl) (zstd_decompress cl) n"
proof unfold_locales
  obtain crel drel frame where laws: "zstd_encoder_laws cl crel frame" "zstd_decoder_laws cl drel frame"
    using assms unfolding zstd_laws_def by blast
  fix src room out rest assume src: "length src = n" and c: "zstd_compress cl src room = Inr (Inr out)"
  obtain stream where st: "zs_initCStream cl = Some stream" using c by (cases "zs_initCStream cl") (auto simp: zstd_compress_def)
  then have "crel stream src 0 []" using laws(1) by (simp add: zstd_encoder_laws_def)
  from zstd_compress_loop_ends [OF laws(1) this, of room]
  have o: "length out \<le> n" "length out \<le> room" "frame src out"
    using c st src by (auto simp: zstd_compress_def split: sum.splits if_splits)
  then obtain ds where "zs_initDStream cl = Some ds" "drel ds src out 0 []" using laws(2) unfolding zstd_decoder_laws_def by blast
  then show "zstd_decompress cl (out @ rest) (length out) n = Inr (Inr src)"
    using zstd_decompress_loop_ends [OF laws(2), of ds src out 0 "[]"] src by (simp add: zstd_decompress_def)
  show "length out \<le> room" "length out \<le> n" using o by simp_all
qed

lemma huffman_run:
  assumes "huffman_ready cl" "length src < 2 ^ 29"
  obtains out where "encode_8bit (h_encoder cl) src (replicate (length src) 0) = (Some (Inl (Huff_Error HUFFERR_OUTPUT_BUFFER_TOO_SMALL)), out)"
  | k out where "encode_8bit (h_encoder cl) src (replicate (length src) 0) = (Some (Inr k), out)" "k \<le> length src" "length out = length src"
      "decode_8bit (h_small cl) (h_decoder cl) (take k out) (length src) = Some (Inr src)"
proof -
  have d: "length (replicate (length src) (0 :: u8)) < 2 ^ 30" using assms(2) by simp
  have h: "m_numcodes (h_encoder cl) = 256" "m_maxbits (h_encoder cl) = 16" "length (m_huffnode (h_encoder cl)) = 512"
     "m_numcodes (h_decoder cl) = 256" "m_maxbits (h_decoder cl) = 16" "length (m_huffnode (h_decoder cl)) = 256" "length (m_lookup (h_decoder cl)) = 2 ^ 16"
     "m_numcodes (h_small cl) = 24" "m_maxbits (h_small cl) = 6" "length (m_huffnode (h_small cl)) = 24" "length (m_lookup (h_small cl)) = 2 ^ 6"
    using assms(1) unfolding huffman_ready_def by - (elim conjE, assumption)+
  from huffman_8bit_code [OF h assms(2) d] show ?thesis
  proof (elim disjE exE conjE)
    fix out assume "encode_8bit (h_encoder cl) src (replicate (length src) 0) = (Some (Inl (Huff_Error HUFFERR_OUTPUT_BUFFER_TOO_SMALL)), out)"
    then show ?thesis by (rule that(1))
  next
    fix k out assume "encode_8bit (h_encoder cl) src (replicate (length src) 0) = (Some (Inr k), out)" "k \<le> length (replicate (length src) (0 :: u8))"
      "length out = length (replicate (length src) (0 :: u8))" "decode_8bit (h_small cl) (h_decoder cl) (take k out) (length src) = Some (Inr src)"
    then show ?thesis unfolding length_replicate by (rule that(2))
  qed
qed

lemma huffman_shrinking:
  assumes "huffman_ready cl" "n < 2 ^ 29"
  shows "shrinking_codec (huffman_compress cl) (huffman_decompress cl) n"
proof unfold_locales
  fix src room out rest assume src: "length src = n" and c: "huffman_compress cl src room = Inr (Inr out)"
  have nr: "n \<le> room" using c src by (simp add: huffman_compress_def split: if_splits)
  have "length src < 2 ^ 29" using assms(2) src by simp
  from assms(1) this show "huffman_decompress cl (out @ rest) (length out) n = Inr (Inr src)"
    by (cases rule: huffman_run) (use c nr src in \<open>auto simp: huffman_compress_def huffman_decompress_def\<close>)
  have "length out \<le> n"
    using assms(1) \<open>length src < 2 ^ 29\<close> by (cases rule: huffman_run) (use c nr src in \<open>auto simp: huffman_compress_def\<close>)
  then show "length out \<le> room" "length out \<le> n" using nr by simp_all
qed

lemma huffman_no_fault:
  assumes "huffman_ready cl" "length src < 2 ^ 29" "length src \<le> room"
  shows "\<not> isl (huffman_compress cl src room)"
  using assms(1,2) by (cases rule: huffman_run) (use assms(3) in \<open>auto simp: huffman_compress_def\<close>)

lemma zstd_no_fault:
  assumes "zstd_laws cl" "length src \<le> room"
  shows "\<not> isl (zstd_compress cl src room)"
proof (cases "zs_initCStream cl")
  case (Some stream)
  obtain crel drel frame where laws: "zstd_encoder_laws cl crel frame" "zstd_decoder_laws cl drel frame"
    using assms unfolding zstd_laws_def by blast
  then have "crel stream src 0 []" using Some by (simp add: zstd_encoder_laws_def)
  from zstd_compress_loop_ends [OF laws(1) this, of room] assms(2) obtain y where
    "zstd_compress_loop cl src room stream 0 [] = Some y" "\<not> isl y" by auto
  then show ?thesis using Some by (cases y) (auto simp: zstd_compress_def split: sum.splits)
qed (simp add: zstd_compress_def)

lemma simple_shrinking:
  assumes "coder_laws cl k" "\<not> framed k" "n < 2 ^ 29"
  shows "shrinking_codec (compress cl k h) (decompress cl k h) n"
  using assms by (cases k) (simp_all add: zlib_shrinking zstd_shrinking lzma_shrinking huffman_shrinking)

lemma simple_no_fault:
  assumes "coder_laws cl k" "\<not> framed k" "length src < 2 ^ 29" "length src \<le> room"
  shows "\<not> isl (compress cl k h src room)"
proof (cases k)
  case Zlib_Codec
  have "length (snd (z_deflate cl src (length src))) \<le> length src" using assms(1) by (simp add: Zlib_Codec zlib_laws_def)
  then show ?thesis using assms(4) by (auto simp: Zlib_Codec zlib_compress_def split: prod.splits)
next
  case Lzma_Codec
  have "length (snd (lz_MemEncode cl h src (length src))) \<le> length src" using assms(1) by (simp add: Lzma_Codec lzma_laws_def)
  then show ?thesis using assms(4) by (auto simp: Lzma_Codec lzma_compress_def split: prod.splits)
next
  case Huffman_Codec
  then show ?thesis using assms huffman_no_fault [of cl src room] by simp
qed (use assms zstd_no_fault in auto)

lemma coder_lossless:
  assumes laws: "coder_laws cl k" and h: "hunkbytes \<le> 2 ^ 24" "framed k \<Longrightarrow> hunkbytes mod FRAME_SIZE = 0"
  shows "lossless_codec (compress cl k hunkbytes) (decompress cl k hunkbytes) hunkbytes"
proof (cases "framed k")
  case False
  then show ?thesis using laws h(1) by (intro shrinking_codec.axioms(1) simple_shrinking) simp_all
next
  case True
  then obtain base sub where k: "k = Cd_Codec base sub" using laws by (cases k) auto
  define frames where "frames = hunkbytes div FRAME_SIZE"
  have hf: "hunkbytes = frames * FRAME_SIZE" using h(2) [OF True] by (auto simp: frames_def)
  have "frames * MAX_SECTOR_DATA < 2 ^ 29" "frames * MAX_SUBCODE_DATA < 2 ^ 29" using h(1) unfolding hf by (simp_all add: frame_sizes)
  then have cd: "cd_pair (compress cl base (frames * MAX_SECTOR_DATA)) (decompress cl base (frames * MAX_SECTOR_DATA))
      (compress cl sub (frames * MAX_SUBCODE_DATA)) (decompress cl sub (frames * MAX_SUBCODE_DATA)) frames"
    using laws h(1) unfolding hf by (intro cd_pair.intro cd_pair_axioms.intro simple_shrinking) (simp_all add: k)
  show ?thesis unfolding k compress.simps decompress.simps frames_def [symmetric]
    unfolding hf by (rule lossless_codec.intro; rule cd_pair.cd_decodes [OF cd] cd_pair.cd_output_length(1) [OF cd]; assumption)
qed

text \<open>The codecs constructed by the program itself, and the CD codec over them for the usual hunk of eight frames.\<close>

definition constructed :: "('s, 'z) coder_libs_scheme \<Rightarrow> ('s, 'z) coder_libs_scheme" where
  "constructed cl = cl\<lparr>h_encoder := projr (huffman_encoder 256 16), h_decoder := projr (huffman_decoder 256 16), h_small := projr (huffman_decoder 24 6)\<rparr>"

lemma constructed_ready: "huffman_ready (constructed cl)"
  by (simp add: huffman_ready_def constructed_def huffman_encoder_def huffman_decoder_def huffman_context_base_def del: replicate.simps)

interpretation cd_huffman: cd_pair "huffman_compress (constructed cl)" "huffman_decompress (constructed cl)"
    "huffman_compress (constructed cl)" "huffman_decompress (constructed cl)" 8
  by (intro cd_pair.intro cd_pair_axioms.intro huffman_shrinking constructed_ready) (simp_all add: frame_sizes)

subsection \<open>The choice between the codecs\<close>

lemma shift_index:
  assumes "\<exists>i k. i < length ks \<and> ks ! i = Some k \<and> c = (n + 1) + int i \<and> P k"
  shows "\<exists>i k. i < length (x # ks) \<and> (x # ks) ! i = Some k \<and> c = n + int i \<and> P k"
proof -
  obtain i k where "i < length ks" "ks ! i = Some k" "c = (n + 1) + int i" "P k" using assms by blast
  then show ?thesis by (intro exI [of _ "Suc i"] exI [of _ k]) simp
qed

lemma best_loop_result:
  assumes "best_loop run ks codecnum complen best = Inr (c, out)" "length (snd best) = complen"
  shows "((c, out) = best \<or> (\<exists>i k. i < length ks \<and> ks ! i = Some k \<and> c = codecnum + int i \<and> run k = Inr (Inr out) \<and> length out < complen)) \<and>
    length out \<le> complen \<and> (\<forall>k z. Some k \<in> set ks \<longrightarrow> run k = Inr (Inr z) \<longrightarrow> length out \<le> length z)"
  using assms
proof (induction run ks codecnum complen best rule: best_loop.induct)
  case (2 run ks codecnum complen best)
  then have "((c, out) = best \<or> (\<exists>i k. i < length ks \<and> ks ! i = Some k \<and> c = (codecnum + 1) + int i \<and> run k = Inr (Inr out) \<and> length out < complen)) \<and>
    length out \<le> complen \<and> (\<forall>k z. Some k \<in> set ks \<longrightarrow> run k = Inr (Inr z) \<longrightarrow> length out \<le> length z)" by simp
  then show ?case
    using shift_index [of ks c codecnum "\<lambda>k. run k = Inr (Inr out) \<and> length out < complen" None] by (auto simp del: nth_Cons_0 length_Cons)
next
  case (3 run k ks codecnum complen best)
  have shift: "\<exists>i k'. i < length (Some k # ks) \<and> (Some k # ks) ! i = Some k' \<and> c = codecnum + int i \<and> run k' = Inr (Inr out) \<and> length out < m"
    if "\<exists>i k'. i < length ks \<and> ks ! i = Some k' \<and> c = (codecnum + 1) + int i \<and> run k' = Inr (Inr out) \<and> length out < m" for m
    using shift_index [OF that] .
  consider t where "run k = Inr (Inl t)" | z where "run k = Inr (Inr z)" "length z < complen" | z where "run k = Inr (Inr z)" "\<not> length z < complen"
    using "3.prems"(1) by (auto split: sum.splits)
  then show ?case
  proof cases
    case 1
    then show ?thesis using "3.IH"(1) [OF 1] "3.prems" shift [of complen] by (auto simp del: nth_Cons_0 length_Cons)
  next
    case 2
    then have ih: "((c, out) = (codecnum, z) \<or> (\<exists>i k. i < length ks \<and> ks ! i = Some k \<and> c = (codecnum + 1) + int i \<and> run k = Inr (Inr out) \<and> length out < length z)) \<and>
      length out \<le> length z \<and> (\<forall>k w. Some k \<in> set ks \<longrightarrow> run k = Inr (Inr w) \<longrightarrow> length out \<le> length w)"
      using "3.IH"(2) "3.prems" by simp
    have "\<exists>i k'. i < length (Some k # ks) \<and> (Some k # ks) ! i = Some k' \<and> c = codecnum + int i \<and> run k' = Inr (Inr out) \<and> length out < complen"
    proof (cases "(c, out) = (codecnum, z)")
      case True then show ?thesis using 2 by (intro exI [of _ 0] exI [of _ k]) simp
    next
      case False
      then have "\<exists>i k'. i < length ks \<and> ks ! i = Some k' \<and> c = (codecnum + 1) + int i \<and> run k' = Inr (Inr out) \<and> length out < complen"
        using ih 2 less_trans [of "length out" "length z" complen] by blast
      then show ?thesis by (rule shift)
    qed
    then show ?thesis using ih 2 by auto
  next
    case 3
    then show ?thesis using "3.IH"(3) "3.prems" shift [of complen] by (auto simp del: nth_Cons_0 length_Cons)
  qed
qed auto

subsection \<open>Libraries for the examples\<close>

text \<open>Coders that store a constant source as its one byte and refuse every other source.\<close>

definition one_byte :: "bytes \<Rightarrow> bool" where
  "one_byte src \<longleftrightarrow> src \<noteq> [] \<and> src = replicate (length src) (hd src)"

definition rle_libs :: "unit coder_libs" where
  "rle_libs =
     \<lparr>z_deflateReset = Z_OK, z_deflate = (\<lambda>src n. if one_byte src \<and> 1 \<le> n then (Z_STREAM_END, [hd src]) else (Z_OK, [])),
      z_inflateReset = Z_OK, z_inflate = (\<lambda>c m. (Z_STREAM_END, replicate m (hd c))),
      zs_initCStream = Some (), zs_compressStream2 = (\<lambda>_ src n. ((), length src, [hd src], if one_byte src then Some 0 else None)),
      zs_initDStream = Some (), zs_decompressStream = (\<lambda>_ c n. ((), 1, replicate n (hd c), Some 0)),
      lz_Create = True, lz_SetProps = (\<lambda>_. SZ_OK),
      lz_MemEncode = (\<lambda>_ src n. if one_byte src \<and> 1 \<le> n then (SZ_OK, [hd src]) else (7, [])),
      lz_DecodeToBuf = (\<lambda>_ c m. (SZ_OK, length c, replicate m (hd c))),
      h_encoder = projr (huffman_encoder 256 16), h_decoder = projr (huffman_decoder 256 16), h_small = projr (huffman_decoder 24 6),
      other_compress = (\<lambda>_ _ _ _. compression_error), other_decompress = (\<lambda>_ _ _ _ _. decompression_error)\<rparr>"

lemma rle_zlib: "zlib_laws rle_libs"
  by (auto simp: zlib_laws_def rle_libs_def Z_OK_def Z_STREAM_END_def one_byte_def)

lemma rle_lzma: "lzma_laws rle_libs"
  by (auto simp: lzma_laws_def rle_libs_def SZ_OK_def one_byte_def)

lemma rle_zstd: "zstd_laws rle_libs"
  unfolding zstd_laws_def
proof (intro exI conjI)
  define frame where "frame src c \<longleftrightarrow> one_byte src \<and> c = [hd src]" for src c
  show "zstd_encoder_laws rle_libs (\<lambda>_ src pos out. pos = 0 \<and> out = [] \<or> pos = length src) frame"
    by (auto simp: zstd_encoder_laws_def rle_libs_def frame_def one_byte_def)
  show "zstd_decoder_laws rle_libs (\<lambda>_ src c pos out. frame src c \<and> (pos = 0 \<and> out = [] \<or> pos = 1 \<and> out = src)) frame"
    by (auto simp: zstd_decoder_laws_def rle_libs_def frame_def one_byte_def)
qed

lemma rle_huffman: "huffman_ready rle_libs"
  using constructed_ready [of rle_libs] by (simp add: constructed_def rle_libs_def)

lemma slice_replicate: "n + k \<le> m \<Longrightarrow> slice n k (replicate m x) = replicate k x"
  by (simp add: slice_def)

lemma overwrite_replicate: "n + k \<le> m \<Longrightarrow> overwrite n (replicate k x) (replicate m x) = replicate m x"
  by (simp add: overwrite_def flip: replicate_add)

lemma collect_zero_frame:
  "cd_collect_frame (replicate 2448 0) 1 0 (replicate 2544 0, dest) = (replicate 2544 0, dest)"
proof -
  have "replicate 12 0 ! 1 \<noteq> f_cd_sync_header ! 1" by (simp add: f_cd_sync_header_def del: replicate.simps)
  then have "replicate 12 0 \<noteq> f_cd_sync_header" by metis
  then show ?thesis
    by (simp add: cd_collect_frame_def frame_sizes slice_replicate overwrite_replicate Let_def del: replicate.simps)
qed

lemma one_byte_replicate: "0 < n \<Longrightarrow> one_byte (replicate n x)" "0 < n \<Longrightarrow> hd (replicate n x) = x"
  by (simp_all add: one_byte_def)

lemma rle_runs:
  "compress rle_libs Zstd_Codec 2448 (replicate 2448 0) 2448 = Inr (Inr [0])"
  "compress rle_libs (Cd_Codec Lzma_Codec Zlib_Codec) 2448 (replicate 2448 0) 2448 = Inr (Inr [0, 0, 1, 0, 0])"
proof -
  have "zstd_compress_loop rle_libs (replicate 2448 0) 2448 () 0 [] = Some (Inr (Inr [0]))"
    by (subst zstd_compress_loop.simps) (simp add: rle_libs_def one_byte_replicate del: replicate.simps)
  then show "compress rle_libs Zstd_Codec 2448 (replicate 2448 0) 2448 = Inr (Inr [0])"
    by (simp add: zstd_compress_def del: replicate.simps) (simp add: rle_libs_def)
  have l: "lzma_compress rle_libs h (replicate 2352 0) 2445 = Inr (Inr [0])" for h
    by (simp add: lzma_compress_def rle_libs_def one_byte_replicate del: replicate.simps)
  have z: "zlib_compress rle_libs (replicate 96 0) 2444 = Inr (Inr [0])"
    by (simp add: zlib_compress_def rle_libs_def one_byte_replicate del: replicate.simps)
  have h: "header_bytes 2448 = 3" "ecc_bytes 1 = 1" "complen_bytes 2448 = 2"
    by (simp_all add: header_bytes_def ecc_bytes_def complen_bytes_def FRAME_SIZE_def)
  have f: "fold (cd_collect_frame (replicate 2448 0) 1) [0..<1] (replicate 2544 0, replicate 3 0) = (replicate 2544 0, replicate 3 0)"
    using collect_zero_frame [of "replicate 3 0"] by (simp del: replicate.simps)
  have p: "at_off 1 (put_u16be 1) (replicate 3 0) = [0, 0, 1]" by (simp add: at_off_def put_u16be_def numeral_eq_Suc)
  show "compress rle_libs (Cd_Codec Lzma_Codec Zlib_Codec) 2448 (replicate 2448 0) 2448 = Inr (Inr [0, 0, 1, 0, 0])"
    using f l z p h by (simp add: cd_compress_def frame_sizes Let_def slice_replicate del: replicate.simps)
qed

subsection \<open>Running the compressors\<close>

lemma cd_no_fault:
  assumes laws: "coder_laws cl (Cd_Codec base sub)" and src: "length src = frames * FRAME_SIZE" and small: "frames * FRAME_SIZE \<le> 2 ^ 24"
    and room: "header_bytes (frames * FRAME_SIZE) + frames * FRAME_SIZE \<le> room"
  shows "\<not> isl (compress cl (Cd_Codec base sub) (frames * FRAME_SIZE) src room)"
proof -
  let ?h = "header_bytes (frames * FRAME_SIZE)"
  let ?be = "compress cl base (frames * MAX_SECTOR_DATA)" and ?se = "compress cl sub (frames * MAX_SUBCODE_DATA)"
  have fr: "frames * FRAME_SIZE div FRAME_SIZE = frames" by (simp add: FRAME_SIZE_def)
  obtain buffer dest where r: "fold (cd_collect_frame src frames) [0..<frames]
      (replicate (frames * FRAME_SIZE + frames * MAX_SUBCODE_DATA) 0, replicate ?h 0) = (buffer, dest)" by fastforce
  have "frames \<le> 8 * ?h" by (simp add: header_bytes_def ecc_bytes_def fr)
  then have "length buffer = frames * FRAME_SIZE + frames * MAX_SUBCODE_DATA"
    using collect_frames [OF src _ _ order_refl, of "replicate (frames * FRAME_SIZE + frames * MAX_SUBCODE_DATA) 0" ?h] unfolding r by simp
  then have l: "length (slice 0 (frames * MAX_SECTOR_DATA) buffer) = frames * MAX_SECTOR_DATA"
    "length (slice (frames * MAX_SECTOR_DATA) (frames * MAX_SUBCODE_DATA) buffer) = frames * MAX_SUBCODE_DATA" by (simp_all add: frame_sizes)
  have sz: "frames * MAX_SECTOR_DATA < 2 ^ 29" "frames * MAX_SUBCODE_DATA < 2 ^ 29" using small by (simp_all add: frame_sizes)
  have b: "\<not> isl (?be (slice 0 (frames * MAX_SECTOR_DATA) buffer) (room - ?h))"
    by (rule simple_no_fault) (use laws l sz room in \<open>simp_all add: frame_sizes\<close>)
  have s: "\<not> isl (?se (slice (frames * MAX_SECTOR_DATA) (frames * MAX_SUBCODE_DATA) buffer) (room - ?h - length z))"
    if "?be (slice 0 (frames * MAX_SECTOR_DATA) buffer) (room - ?h) = Inr (Inr z)" for z
  proof (rule simple_no_fault)
    have "length z \<le> frames * MAX_SECTOR_DATA"
      using shrinking_codec.no_growth [OF simple_shrinking l(1) that] laws sz by simp
    then show "length (slice (frames * MAX_SECTOR_DATA) (frames * MAX_SUBCODE_DATA) buffer) \<le> room - ?h - length z"
      unfolding l using room by (simp add: frame_sizes)
  qed (use laws l sz in simp_all)
  have h: "\<not> room < ?h" using room by simp
  show ?thesis
    using b s unfolding compress.simps cd_compress_def Let_def src fr r case_prod_conv if_not_P [OF h] by (auto split: sum.splits)
qed

subsection \<open>Properties\<close>

text \<open>
  C3: \<open>find_best_compressor\<close> loses nothing and chooses well: with coders that keep their promises, the
  bytes it delivers are those of the hunk itself (-1), or fewer bytes from which the chosen
  decompressor restores the hunk, in whatever buffer they lie; for CD sectors this includes the
  omitted sync patterns and error correction codes. No other compressor of the group has a
  shorter result.
\<close>

theorem find_best_compressor_best:
  assumes laws: "\<And>k. Some k \<in> set ks \<Longrightarrow> coder_laws cl k \<and> (framed k \<longrightarrow> hunkbytes mod FRAME_SIZE = 0)"
    and h: "hunkbytes \<le> 2 ^ 24" and src: "length src = hunkbytes"
    and run: "find_best_compressor cl ks hunkbytes src = Inr (c, out)"
  shows "(c = - 1 \<and> out = src \<or>
      (\<exists>k. 0 \<le> c \<and> nat c < length ks \<and> ks ! nat c = Some k \<and> length out < hunkbytes \<and>
        decompress cl k hunkbytes (out @ rest) (length out) hunkbytes = Inr (Inr src))) \<and>
    (\<forall>k z. Some k \<in> set ks \<longrightarrow> compress cl k hunkbytes src hunkbytes = Inr (Inr z) \<longrightarrow> length out \<le> length z)"
proof -
  note r = best_loop_result [OF run [unfolded find_best_compressor_def]]
  consider "(c, out) = (- 1, src)" | i k where "i < length ks" "ks ! i = Some k" "c = 0 + int i" "compress cl k hunkbytes src hunkbytes = Inr (Inr out)" "length out < hunkbytes"
    using r src by auto
  then show ?thesis
  proof cases
    case 2
    then have "Some k \<in> set ks" by (metis nth_mem)
    then have "lossless_codec (compress cl k hunkbytes) (decompress cl k hunkbytes) hunkbytes" using laws h by (intro coder_lossless) auto
    from lossless_codec.decodes [OF this src 2(4)]
    have "decompress cl k hunkbytes (out @ rest) (length out) hunkbytes = Inr (Inr src)" .
    then show ?thesis using 2 r src by auto
  qed (use r src in auto)
qed

theorem find_best_compressor_best_witness:
  "find_best_compressor rle_libs [None, Some (Cd_Codec Lzma_Codec Zlib_Codec), Some Zstd_Codec] 2448 (replicate 2448 0) = Inr (2, [0]) \<and>
    decompress rle_libs Zstd_Codec 2448 ([0] @ [5, 7]) (length [0 :: u8]) 2448 = Inr (Inr (replicate 2448 0))"
proof -
  let ?ks = "[None, Some (Cd_Codec Lzma_Codec Zlib_Codec), Some Zstd_Codec]"
  have run: "find_best_compressor rle_libs ?ks 2448 (replicate 2448 0) = Inr (2, [0])"
    by (simp add: find_best_compressor_def rle_runs del: replicate.simps compress.simps)
  have laws: "coder_laws rle_libs k \<and> (framed k \<longrightarrow> 2448 mod FRAME_SIZE = 0)" if "Some k \<in> set ?ks" for k
    using that rle_zlib rle_lzma rle_zstd by (auto simp: FRAME_SIZE_def)
  show ?thesis
    using find_best_compressor_best [OF laws _ _ run, of "[5, 7]"] run by (simp del: replicate.simps)
qed

text \<open>
  C17: A compressor stores nothing outside of its destination and ends, if the destination has room
  for the hunk, or for the hunk and its frame header in the case of the CD codecs.
\<close>

theorem compress_in_bounds:
  assumes laws: "coder_laws cl k" and h: "hunkbytes \<le> 2 ^ 24" "framed k \<longrightarrow> hunkbytes mod FRAME_SIZE = 0" and src: "length src = hunkbytes"
    and room: "(if framed k then header_bytes hunkbytes else 0) + hunkbytes \<le> room"
  shows "\<exists>r. compress cl k hunkbytes src room = Inr r"
proof -
  have "\<not> isl (compress cl k hunkbytes src room)"
  proof (cases "framed k")
    case True
    then obtain base sub where k: "k = Cd_Codec base sub" using laws by (cases k) auto
    obtain frames where hf: "hunkbytes = frames * FRAME_SIZE" using h(2) True by (metis div_mult_mod_eq add.right_neutral)
    show ?thesis using cd_no_fault [of cl base sub src frames room] laws h(1) src room True unfolding hf k by simp
  qed (use simple_no_fault [OF laws, of src room] h src room in simp)
  then show ?thesis by (cases "compress cl k hunkbytes src room") auto
qed

theorem compress_in_bounds_witness:
  "\<exists>r. compress rle_libs (Cd_Codec Zstd_Codec Zstd_Codec) 19584 (replicate 19584 7) 19587 = Inr r"
proof (rule compress_in_bounds)
  show "coder_laws rle_libs (Cd_Codec Zstd_Codec Zstd_Codec)" using rle_zstd by simp
qed (simp_all add: frame_sizes header_bytes_def ecc_bytes_def complen_bytes_def)

text \<open>
  C39: The room that \<open>find_best_compressor\<close> gives, one hunk, is not enough for the CD codecs: the
  sectors may compress to one byte less than they have, and the subcode is then given as much
  room as it has bytes, which ends behind the buffer by the size of the frame header less one. There
  is a coder that keeps its promises and a hunk for which bytes are stored past the end.
\<close>

theorem cd_compressor_overruns:
  "\<exists>(cl :: unit coder_libs) src. coder_laws cl (Cd_Codec Zlib_Codec Zlib_Codec) \<and> length src = 2448 \<and>
    find_best_compressor cl [Some (Cd_Codec Zlib_Codec Zlib_Codec)] 2448 src = Inl Bad_Index"
proof (intro exI conjI)
  define tight where "tight = rle_libs\<lparr>z_deflate := (\<lambda>src n.
    if one_byte src \<and> 2 \<le> length src \<and> length src \<le> n + 1 then (Z_STREAM_END, replicate (length src - 1) (hd src)) else (Z_OK, replicate n 0))\<rparr>"
  define src :: bytes where "src = replicate 2352 0 @ [1] @ replicate 95 0"
  show "coder_laws tight (Cd_Codec Zlib_Codec Zlib_Codec)"
    by (auto simp: zlib_laws_def tight_def rle_libs_def Z_OK_def Z_STREAM_END_def one_byte_def)
  show len: "length src = 2448" by (simp add: src_def)
  have s: "slice 0 2352 src = replicate 2352 0" "slice 2352 96 src = 1 # replicate 95 0"
    by (simp_all add: src_def slice_def del: replicate.simps)
  have sync: "replicate 12 0 \<noteq> f_cd_sync_header"
  proof -
    have "replicate 12 0 ! 1 \<noteq> f_cd_sync_header ! 1" by (simp add: f_cd_sync_header_def del: replicate.simps)
    then show ?thesis by metis
  qed
  define buf where "buf = overwrite 2352 (1 # replicate 95 (0 :: u8)) (replicate 2544 0)"
  have b: "slice 0 2352 buf = replicate 2352 0" "slice 2352 96 buf = 1 # replicate 95 0"
    by (simp_all add: buf_def slice_overwrite_same slice_overwrite_before slice_replicate del: replicate.simps)
  have f: "fold (cd_collect_frame src 1) [0..<1] (replicate 2544 0, replicate 3 0) = (buf, replicate 3 0)"
    using b sync by (simp add: cd_collect_frame_def frame_sizes Let_def s overwrite_replicate buf_def [symmetric] del: replicate.simps)
  have z: "zlib_compress tight (replicate 2352 0) 2445 = Inr (Inr (replicate 2351 0))"
    by (simp add: zlib_compress_def tight_def rle_libs_def one_byte_replicate del: replicate.simps)
  have "\<not> one_byte (1 # replicate 95 0)" by (simp add: one_byte_def numeral_eq_Suc)
  then have zs: "zlib_compress tight (1 # replicate 95 0) 94 = Inl Bad_Index"
    by (simp add: zlib_compress_def tight_def rle_libs_def del: replicate.simps)
  have h: "header_bytes 2448 = 3" "ecc_bytes 1 = 1" "complen_bytes 2448 = 2"
    by (simp_all add: header_bytes_def ecc_bytes_def complen_bytes_def FRAME_SIZE_def)
  have "compress tight (Cd_Codec Zlib_Codec Zlib_Codec) 2448 src 2448 = Inl Bad_Index"
    using f b z zs h len by (simp add: cd_compress_def frame_sizes Let_def del: replicate.simps)
  then show "find_best_compressor tight [Some (Cd_Codec Zlib_Codec Zlib_Codec)] 2448 src = Inl Bad_Index"
    by (simp add: find_best_compressor_def del: compress.simps)
qed

end
