(* ===== verification/Chd_Compressor.thy ===== *)
theory Chd_Compressor
  imports Chd_Map Chd_Meta Chd_Coders
begin

text \<open>
  The multi-threaded compressor (class \<open>chd_file_compressor\<close> of \<^verbatim>\<open>lib/util/chd.cpp\<close> and \<^verbatim>\<open>chd.h\<close>): the hash maps,
  \<open>compress_begin\<close>, \<open>compress_continue\<close> and the callbacks of the reader thread and of the workers. A
  step is one round of a loop of \<open>compress_continue\<close>, one part of \<open>async_read\<close> (the read, the queueing
  of one work item, the end) or one callback of a worker; \<open>compressor_step\<close> interleaves the steps
  freely. A callback of a worker, and the storing of the OSD item by the reader, are not split further.
  The numbers \<open>progress\<close> and \<open>ratio\<close>, the waiting at the end of \<open>compress_continue\<close> and the number of the
  worker, with its assert, are left out: the codecs of all workers are the same. A thread whose assert
  fails has no step.
\<close>

subsection \<open>Hash maps\<close>

text \<open>
  The entries of a bucket are chained, the newest first. \<open>hm_blocks\<close> counts the entries taken from
  each block of memory, the current block first.
\<close>

record hashmap =
  hm_map :: "u16 \<Rightarrow> (nat \<times> bytes) list"
  hm_blocks :: "nat list"

definition NOT_FOUND :: nat where "NOT_FOUND = 2 ^ 64 - 1"

definition hashmap_reset :: "hashmap \<Rightarrow> hashmap" where
  "hashmap_reset m = \<lparr>hm_map = (\<lambda>_. []), hm_blocks = [0]\<rparr>"

definition hashmap_find :: "hashmap \<Rightarrow> u16 \<Rightarrow> bytes \<Rightarrow> nat" where
  "hashmap_find m crc16 sha1 = (case List.find (\<lambda>entry. snd entry = sha1) (hm_map m crc16) of None \<Rightarrow> NOT_FOUND | Some entry \<Rightarrow> fst entry)"

definition hashmap_add :: "nat \<Rightarrow> u16 \<Rightarrow> bytes \<Rightarrow> hashmap \<Rightarrow> hashmap" where
  "hashmap_add itemnum crc16 sha1 m =
     (let blocks = (if hd (hm_blocks m) = 16384 then 0 # hm_blocks m else hm_blocks m)
      in \<lparr>hm_map = (hm_map m)(crc16 := (itemnum, sha1) # hm_map m crc16), hm_blocks = Suc (hd blocks) # tl blocks\<rparr>)"

subsection \<open>State\<close>

datatype work_status = WS_READY | WS_READING | WS_QUEUED | WS_COMPLETE

record hash_pair =
  hp_crc16 :: u16
  hp_sha1 :: bytes

text \<open>
  A work item. \<open>wi_walk\<close> is the callback it has been queued with; its data are the bytes of
  \<open>m_work_buffer\<close> at its index; \<open>wi_compressed\<close> are the first \<open>m_complen\<close> bytes of its output buffer.
\<close>

record work_item =
  wi_status :: work_status
  wi_osd :: bool
  wi_walk :: bool
  wi_hunknum :: nat
  wi_compression :: int
  wi_compressed :: bytes
  wi_hash :: "hash_pair list"

definition WORK_BUFFER_HUNKS :: nat where "WORK_BUFFER_HUNKS = 256"

text \<open>The local variables of an \<open>async_read\<close> under way.\<close>

record reading =
  rd_curoffs :: nat
  rd_end_offset :: nat
  rd_dest :: nat
  rd_numbytes :: nat

text \<open>
  The CHD with its parents, the members of the class, the number of items of the read queue and the
  read that is under way. The items of the work queue are those with status \<open>WS_QUEUED\<close>.
\<close>

record compressor =
  cc_chain :: chain
  m_walking_parent :: bool
  m_total_in :: nat
  m_total_out :: nat
  m_compsha1 :: sha1_creator
  m_parent_map :: hashmap
  m_current_map :: hashmap
  m_read_queue_offset :: nat
  m_read_done_offset :: nat
  m_read_error :: "error_condition option"
  m_work_buffer :: bytes
  m_work_item :: "work_item list"
  m_codecs :: "codec_class option list"
  m_write_hunk :: nat
  cc_reads :: nat
  cc_reading :: "reading option"

text \<open>
  What the compressor depends on: the decompressors and the stack for reading the parent, the source
  \<open>read_data\<close>, which gives bytes or throws, the third-party coders, and the memory of a SHA-1 object.
\<close>

record 's env =
  e_codecs :: codecs
  e_fuel :: nat
  e_read_data :: "nat \<Rightarrow> nat \<Rightarrow> error_condition + bytes"
  e_libs :: "'s coder_libs"
  e_sha1_buf :: "u32 list"

abbreviation cc_chd :: "compressor \<Rightarrow> chd_file" where
  "cc_chd st \<equiv> hd (cc_chain st)"

abbreviation set_chd :: "chd_file \<Rightarrow> compressor \<Rightarrow> compressor" where
  "set_chd c st \<equiv> st\<lparr>cc_chain := c # tl (cc_chain st)\<rparr>"

definition item_at :: "compressor \<Rightarrow> nat \<Rightarrow> work_item" where
  "item_at st k = m_work_item st ! (k mod WORK_BUFFER_HUNKS)"

definition update_item :: "nat \<Rightarrow> (work_item \<Rightarrow> work_item) \<Rightarrow> compressor \<Rightarrow> compressor" where
  "update_item k f st = st\<lparr>m_work_item := (m_work_item st)[k mod WORK_BUFFER_HUNKS := f (item_at st k)]\<rparr>"

definition set_status :: "work_status \<Rightarrow> nat \<Rightarrow> compressor \<Rightarrow> compressor" where
  "set_status s k = update_item k (\<lambda>item. item\<lparr>wi_status := s\<rparr>)"

subsection \<open>Starting\<close>

text \<open>
  \<open>compress_begin\<close>; the constructors of the codecs may throw. The states of the work items and of
  the queues are not touched.
\<close>

definition compress_begin :: "compressor_libs \<Rightarrow> 's env \<Rightarrow> compressor \<Rightarrow> (thrown option \<times> compressor) res" where
  "compress_begin libs env st =
     (let c = cc_chd st; hb = m_hunkbytes c in
      if m_unitbytes c = 0 then Inl Div_By_Zero
      else
        let st1 = st\<lparr>m_walking_parent := tl (cc_chain st) \<noteq> [], m_total_in := 0, m_total_out := 0,
                     m_compsha1 := sha1_reset (e_sha1_buf env),
                     m_parent_map := hashmap_reset (m_parent_map st), m_current_map := hashmap_reset (m_current_map st),
                     m_read_queue_offset := 0, m_read_done_offset := 0, m_read_error := None,
                     m_work_buffer := replicate (w32 (hb * (WORK_BUFFER_HUNKS + 1))) 0,
                     m_work_item := map (\<lambda>item. item\<lparr>wi_hash := take (hb div m_unitbytes c)
                         (wi_hash item @ replicate (hb div m_unitbytes c) \<lparr>hp_crc16 = 0, hp_sha1 = sha1_null\<rparr>)\<rparr>) (m_work_item st)\<rparr>
        in case compressor_group libs hb (m_compression c) of
             Inl t \<Rightarrow> Inr (Some t, st1)
           | Inr ks \<Rightarrow> Inr (None, st1\<lparr>m_codecs := ks, m_write_hunk := 0\<rparr>))"

subsection \<open>The main thread\<close>

text \<open>One round of the loop that queues reads; \<open>None\<close> is its end.\<close>

definition queue_read :: "compressor \<Rightarrow> compressor option" where
  "queue_read st =
     (let hb = m_hunkbytes (cc_chd st) in
      if m_read_queue_offset st < m_logicalbytes (cc_chd st) \<and> cc_reads st < 2 then
        let startitem = w32 (m_read_queue_offset st div hb);
            enditem = startitem + WORK_BUFFER_HUNKS div 2
        in if \<not> list_all (\<lambda>curitem. wi_status (item_at st curitem) = WS_READY) [startitem..<enditem] then None
           else if m_walking_parent st \<and> wi_status (item_at st enditem) \<noteq> WS_READY then None
           else Some ((fold (set_status WS_READING) [startitem..<enditem] st)
                  \<lparr>cc_reads := cc_reads st + 1, m_read_queue_offset := m_read_queue_offset st + w32 (WORK_BUFFER_HUNKS * hb) div 2\<rparr>)
      else None)"

text \<open>What is done with a finished item: entries of the parent map, or a hunk of the CHD.\<close>

definition add_units :: "nat \<Rightarrow> nat \<Rightarrow> nat \<Rightarrow> hash_pair list \<Rightarrow> hashmap \<Rightarrow> hashmap" where
  "add_units uph hunknum units hash =
     fold (\<lambda>unit m. if hashmap_find m (hp_crc16 (hash ! unit)) (hp_sha1 (hash ! unit)) = NOT_FOUND
                     then hashmap_add (w32 (hunknum * uph + unit)) (hp_crc16 (hash ! unit)) (hp_sha1 (hash ! unit)) m else m) [0..<units]"

definition walk_units :: "chd_file \<Rightarrow> nat \<Rightarrow> nat" where
  "walk_units c hunknum = (if hunknum = m_hunkcount c - 1 \<or> \<not> compressed c then 1 else m_hunkbytes c div m_unitbytes c)"

text \<open>The results of the three functions that append to a compressed file are not looked at.\<close>

definition write_item :: "work_item \<Rightarrow> bytes \<Rightarrow> compressor \<Rightarrow> (error_condition option \<times> compressor) res" where
  "write_item item data st =
     (let c = cc_chd st; hash = wi_hash item ! 0 in
      if m_walking_parent st then
        if length (wi_hash item) < walk_units c (wi_hunknum item) then Inl Bad_Index
        else Inr (None, st\<lparr>m_parent_map := add_units (m_hunkbytes c div m_unitbytes c) (wi_hunknum item) (walk_units c (wi_hunknum item)) (wi_hash item) (m_parent_map st)\<rparr>)
      else if \<not> compressed c then
        case write_hunk c (wi_hunknum item) data False of
          Inl u \<Rightarrow> Inl u
        | Inr (Some err, c1) \<Rightarrow> Inr (Some err, set_chd c1 st)
        | Inr (None, c1) \<Rightarrow>
            (case hunk_info c1 (wi_hunknum item) (CHD_CODEC_NONE, 0) of
               Inl u \<Rightarrow> Inl u
             | Inr (err, codec, _) \<Rightarrow>
                 Inr (None, (set_chd c1 st)\<lparr>m_total_out := (if err = None \<and> codec = CHD_CODEC_NONE then m_total_out st + m_hunkbytes c else m_total_out st)\<rparr>))
      else if wi_hash item = [] then Inl Bad_Index
      else
        let selfhunk = hashmap_find (m_current_map st) (hp_crc16 hash) (hp_sha1 hash) in
        if selfhunk \<noteq> NOT_FOUND then
          case hunk_copy_from_self c (wi_hunknum item) selfhunk of
            Inl u \<Rightarrow> Inl u
          | Inr (_, c1) \<Rightarrow> Inr (None, set_chd c1 st)
        else
          let parentunit = (if tl (cc_chain st) \<noteq> [] then hashmap_find (m_parent_map st) (hp_crc16 hash) (hp_sha1 hash) else NOT_FOUND) in
          if parentunit \<noteq> NOT_FOUND then
            case hunk_copy_from_parent c (wi_hunknum item) parentunit of
              Inl u \<Rightarrow> Inl u
            | Inr (_, c1) \<Rightarrow> Inr (None, set_chd c1 st)
          else
            case hunk_write_compressed c (wi_hunknum item) (wi_compression item) (wi_compressed item) (length (wi_compressed item)) (hp_crc16 hash) of
              Inl u \<Rightarrow> Inl u
            | Inr (_, c1) \<Rightarrow> Inr (None, (set_chd c1 st)
                \<lparr>m_total_out := m_total_out st + length (wi_compressed item),
                 m_current_map := hashmap_add (wi_hunknum item) (hp_crc16 hash) (hp_sha1 hash) (m_current_map st)\<rparr>))"

text \<open>The end of the last hunk, after waiting for the reader.\<close>

definition finalize :: "compressor \<Rightarrow> (error_condition option \<times> compressor) res" where
  "finalize st =
     (if \<not> compressed (cc_chd st) then Inr (None, st)
      else case set_raw_sha1 (sha1_finish (m_compsha1 st)) (cc_chd st) of
             Inl u \<Rightarrow> Inl u
           | Inr (Some err, c1) \<Rightarrow> Inr (Some err, set_chd c1 st)
           | Inr (None, c1) \<Rightarrow>
               (case compress_v5_map c1 of
                  Inl u \<Rightarrow> Inl u
                | Inr (err, c2) \<Rightarrow> Inr (err, set_chd c2 st)))"

text \<open>
  One round of the loop that flushes finished items: \<open>Wait\<close> when the next one is not finished, or when
  all are and the reader is not, \<open>Go\<close> to the next round, \<open>Return\<close> from \<open>compress_continue\<close>.
\<close>

datatype flushed = Wait | Go compressor | Return "error_condition option" compressor

definition flush_item :: "compressor \<Rightarrow> flushed res" where
  "flush_item st =
     (let w = m_write_hunk st; item = item_at st w; hb = m_hunkbytes (cc_chd st) in
      if wi_status item \<noteq> WS_COMPLETE then Inr Wait
      else if \<not> m_walking_parent st \<and> w + 1 = m_hunkcount (cc_chd st) \<and> cc_reads st \<noteq> 0 then Inr Wait
      else case write_item item (slice (w32 (hb * (w mod WORK_BUFFER_HUNKS))) hb (m_work_buffer st))
                  (update_item w (\<lambda>item. item\<lparr>wi_osd := False\<rparr>) st) of
        Inl u \<Rightarrow> Inl u
      | Inr (Some err, st1) \<Rightarrow> Inr (Return (Some err) st1)
      | Inr (None, st1) \<Rightarrow>
          let st2 = (set_status WS_READY w st1)\<lparr>m_write_hunk := w32 (w + 1)\<rparr> in
          if m_write_hunk st2 = m_hunkcount (cc_chd st2) then
            if m_walking_parent st2 then
              Inr (Go (st2\<lparr>m_walking_parent := False, m_read_queue_offset := 0, m_read_done_offset := 0, m_write_hunk := 0,
                           m_work_item := map (\<lambda>item. item\<lparr>wi_status := WS_READY\<rparr>) (m_work_item st2)\<rparr>))
            else (case finalize st2 of Inl u \<Rightarrow> Inl u | Inr (err, st3) \<Rightarrow> Inr (Return err st3))
          else Inr (Go st2))"

subsection \<open>The reader thread\<close>

text \<open>Reading from the parent goes one hunk further than the work, except at the end of the file.\<close>

fun read_parent :: "'s env \<Rightarrow> nat \<Rightarrow> nat list \<Rightarrow> chain \<Rightarrow> nat \<Rightarrow> bytes \<Rightarrow> (error_condition option \<times> bytes \<times> chain) res" where
  "read_parent env hb [] parents pos buffer = Inr (None, buffer, parents)"
| "read_parent env hb (curhunk # hunks) parents pos buffer =
     (case read_hunk (e_fuel env) (e_codecs env) parents curhunk (drop pos buffer) of
        Inl u \<Rightarrow> Inl u
      | Inr (err, out, parents') \<Rightarrow>
          let buffer' = overwrite pos out buffer in
          if length buffer < pos + length out then Inl Bad_Index
          else if err \<noteq> None \<and> err \<noteq> Some (Chd_Error HUNK_OUT_OF_RANGE) then Inr (err, buffer', parents')
          else read_parent env hb hunks parents' (pos + hb) buffer')"

text \<open>
  \<open>async_read\<close> until the data are in the buffer, with its asserts: a read starts at the begin or in the
  middle of the work buffer, at a whole hunk. With an error before or during the read it is over.
\<close>

definition read_start :: "'s env \<Rightarrow> compressor \<Rightarrow> compressor res" where
  "read_start env st =
     (let c = cc_chd st; hb = m_hunkbytes c; start = m_read_done_offset st;
          work_buffer_bytes = w32 (WORK_BUFFER_HUNKS * hb);
          half = work_buffer_bytes div 2;
          numbytes = (if start + half > m_logicalbytes c then w32 (m_logicalbytes c + (2 ^ 64 - start)) else half);
          over = (\<lambda>err st. st\<lparr>m_read_error := Some err, cc_reads := cc_reads st - 1\<rparr>)
      in if m_read_error st \<noteq> None then Inr (st\<lparr>cc_reads := cc_reads st - 1\<rparr>)
         else if work_buffer_bytes = 0 then Inl Div_By_Zero
         else
           let dest = start mod work_buffer_bytes;
               rd = \<lparr>rd_curoffs = start, rd_end_offset = start + numbytes, rd_dest = dest, rd_numbytes = numbytes\<rparr>
           in if \<not> (dest = 0 \<or> dest = half) then Inl Assert_Failed
              else if start mod hb \<noteq> 0 then Inl Assert_Failed
              else if m_walking_parent st then
                (case read_parent env hb (map w32 [w32 (start div hb)..<w32 (start div hb) + numbytes div hb + 1]) (tl (cc_chain st)) dest (m_work_buffer st) of
                   Inl u \<Rightarrow> Inl u
                 | Inr (Some err, buffer, parents) \<Rightarrow> Inr (over err (st\<lparr>m_work_buffer := buffer, cc_chain := c # parents\<rparr>))
                 | Inr (None, buffer, parents) \<Rightarrow> Inr (st\<lparr>m_work_buffer := buffer, cc_chain := c # parents, cc_reading := Some rd\<rparr>))
              else
                (case e_read_data env start numbytes of
                   Inl err \<Rightarrow> Inr (over err st)
                 | Inr data \<Rightarrow>
                     if length (m_work_buffer st) < dest + length (take numbytes data) then Inl Bad_Index
                     else Inr (st\<lparr>m_work_buffer := overwrite dest (take numbytes data) (m_work_buffer st), cc_reading := Some rd\<rparr>)))"

text \<open>One round of the loop that queues the work; the item is asserted to have been reserved for the read.\<close>

definition read_spawn :: "reading \<Rightarrow> compressor \<Rightarrow> compressor res" where
  "read_spawn rd st =
     (let hb = m_hunkbytes (cc_chd st); hunknum = w32 (rd_curoffs rd div hb)
      in if wi_status (item_at st hunknum) \<noteq> WS_READING then Inl Assert_Failed
         else Inr ((update_item hunknum (\<lambda>item. item\<lparr>wi_status := WS_QUEUED, wi_hunknum := hunknum, wi_osd := True, wi_walk := m_walking_parent st\<rparr>) st)
           \<lparr>cc_reading := Some (rd\<lparr>rd_curoffs := rd_curoffs rd + hb\<rparr>)\<rparr>))"

text \<open>The end of \<open>async_read\<close>; \<open>m_walking_parent\<close> is read again.\<close>

definition read_finish :: "reading \<Rightarrow> compressor \<Rightarrow> compressor" where
  "read_finish rd st =
     (let st1 = (if m_walking_parent st then st
                 else st\<lparr>m_compsha1 := (if compressed (cc_chd st) then sha1_append (slice (rd_dest rd) (rd_numbytes rd) (m_work_buffer st)) (m_compsha1 st)
                                         else m_compsha1 st),
                         m_total_in := m_total_in st + rd_numbytes rd\<rparr>)
      in st1\<lparr>m_read_done_offset := m_read_done_offset st1 + rd_numbytes rd, cc_reading := None, cc_reads := cc_reads st1 - 1\<rparr>)"

subsection \<open>The workers\<close>

definition hash_of :: "'s env \<Rightarrow> bytes \<Rightarrow> hash_pair" where
  "hash_of env data = \<lparr>hp_crc16 = crc16_simple data, hp_sha1 = sha1_simple (e_sha1_buf env) data\<rparr>"

definition async_walk_parent :: "'s env \<Rightarrow> nat \<Rightarrow> compressor \<Rightarrow> compressor res" where
  "async_walk_parent env i st =
     (let c = cc_chd st; hb = m_hunkbytes c; ub = m_unitbytes c; item = item_at st i; units = walk_units c (wi_hunknum item) in
      if length (wi_hash item) < units \<or> length (m_work_buffer st) < hb * i + (units - 1) * ub + hb then Inl Bad_Index
      else Inr (update_item i (\<lambda>item. item\<lparr>wi_hash := map (\<lambda>unit. hash_of env (slice (hb * i + unit * ub) hb (m_work_buffer st))) [0..<units]
                                              @ drop units (wi_hash item), wi_status := WS_COMPLETE\<rparr>) st))"

definition async_compress_hunk :: "'s env \<Rightarrow> nat \<Rightarrow> compressor \<Rightarrow> compressor res" where
  "async_compress_hunk env i st =
     (let hb = m_hunkbytes (cc_chd st); item = item_at st i; data = slice (hb * i) hb (m_work_buffer st); hash = hash_of env data in
      if wi_hash item = [] \<or> length (m_work_buffer st) < hb * i + hb then Inl Bad_Index
      else
        let st1 = update_item i (\<lambda>item. item\<lparr>wi_hash := (wi_hash item)[0 := hash], wi_status := WS_COMPLETE\<rparr>) st in
        if hashmap_find (m_current_map st) (hp_crc16 hash) (hp_sha1 hash) = NOT_FOUND \<and>
           hashmap_find (m_parent_map st) (hp_crc16 hash) (hp_sha1 hash) = NOT_FOUND
        then (case find_best_compressor (e_libs env) (m_codecs st) hb data of
                Inl u \<Rightarrow> Inl u
              | Inr (compression, out) \<Rightarrow> Inr (update_item i (\<lambda>item. item\<lparr>wi_compression := compression, wi_compressed := out\<rparr>) st1))
        else Inr st1)"

definition run_item :: "'s env \<Rightarrow> nat \<Rightarrow> compressor \<Rightarrow> compressor res" where
  "run_item env i st = (if wi_walk (item_at st i) then async_walk_parent env i st else async_compress_hunk env i st)"

subsection \<open>Interleavings\<close>

inductive compressor_step :: "'s env \<Rightarrow> compressor \<Rightarrow> compressor \<Rightarrow> bool" for env where
  queue: "queue_read st = Some st' \<Longrightarrow> compressor_step env st st'"
| flush: "flush_item st = Inr (Go st') \<Longrightarrow> compressor_step env st st'"
| start: "cc_reading st = None \<Longrightarrow> 0 < cc_reads st \<Longrightarrow> read_start env st = Inr st' \<Longrightarrow> compressor_step env st st'"
| spawn: "cc_reading st = Some rd \<Longrightarrow> rd_curoffs rd < rd_end_offset rd \<Longrightarrow> read_spawn rd st = Inr st' \<Longrightarrow> compressor_step env st st'"
| finish: "cc_reading st = Some rd \<Longrightarrow> rd_end_offset rd \<le> rd_curoffs rd \<Longrightarrow> compressor_step env st (read_finish rd st)"
| work: "i < WORK_BUFFER_HUNKS \<Longrightarrow> wi_status (item_at st i) = WS_QUEUED \<Longrightarrow> run_item env i st = Inr st' \<Longrightarrow> compressor_step env st st'"

inductive_cases compressor_stepE: "compressor_step env st st'"

inductive reachable :: "'s env \<Rightarrow> compressor \<Rightarrow> compressor \<Rightarrow> bool" for env st0 where
  begun: "reachable env st0 st0"
| next_step: "reachable env st0 st \<Longrightarrow> compressor_step env st st' \<Longrightarrow> reachable env st0 st'"

text \<open>
  \<open>compress_continue\<close> runs the steps of the main thread as long as there are any, in the order of its
  loops, when nothing happens in between.
\<close>

partial_function (option) queue_loop :: "compressor \<Rightarrow> compressor option" where
  "queue_loop st = (case queue_read st of None \<Rightarrow> Some st | Some st' \<Rightarrow> queue_loop st')"

partial_function (option) flush_loop :: "compressor \<Rightarrow> (error_condition option \<times> compressor) res option" where
  "flush_loop st =
     (case flush_item st of
        Inl u \<Rightarrow> Some (Inl u)
      | Inr Wait \<Rightarrow> Some (Inr (Some (Chd_Error (if m_walking_parent st then WALKING_PARENT else COMPRESSING)), st))
      | Inr (Go st') \<Rightarrow> flush_loop st'
      | Inr (Return err st') \<Rightarrow> Some (Inr (err, st')))"

definition compress_continue :: "compressor \<Rightarrow> (error_condition option \<times> compressor) res option" where
  "compress_continue st =
     (if m_read_error st \<noteq> None then Some (Inr (m_read_error st, st))
      else case queue_loop st of None \<Rightarrow> None | Some st' \<Rightarrow> flush_loop st')"

end
