(* ===== verification/Chd_Compressor_Laws.thy ===== *)
theory Chd_Compressor_Laws
  imports Chd_Compressor Chd_Chain Chd_Coders_Laws
begin

text \<open>
  The multi-threaded compressor computes the result of a sequential one: the invariant \<open>coherent\<close> of all
  interleavings, its preservation by each step, freedom from deadlock, termination, and the order of
  steps at the end of the walk over a parent in which an assert of the reader fails.
\<close>

subsection \<open>Hash maps\<close>

lemma hashmap_find_add:
  "hashmap_find (hashmap_add n crc sha1 m) crc' sha1' = (if crc' = crc \<and> sha1' = sha1 then n else hashmap_find m crc' sha1')"
  by (simp add: hashmap_find_def hashmap_add_def Let_def)

lemma hashmap_find_reset [simp]: "hashmap_find (hashmap_reset m) crc sha1 = NOT_FOUND"
  by (simp add: hashmap_find_def hashmap_reset_def)

subsection \<open>The items of a window\<close>

lemma window_inj:
  fixes h k w :: nat
  assumes "w \<le> h" "h < w + 256" "w \<le> k" "k < w + 256" "h mod 256 = k mod 256"
  shows "h = k"
proof (rule ccontr)
  assume "h \<noteq> k"
  then consider "h < k" | "k < h" by linarith
  then show False
  proof cases
    case 1
    then have "256 dvd k - h" using assms(5) mod_eq_dvd_iff_nat [of h k 256] by simp
    then show False using 1 assms(1,4) dvd_imp_le [of 256 "k - h"] by simp
  next
    case 2
    then have "256 dvd h - k" using assms(5) mod_eq_dvd_iff_nat [of k h 256] by simp
    then show False using 2 assms(2,3) dvd_imp_le [of 256 "h - k"] by simp
  qed
qed

lemma window_cover: "i < 256 \<Longrightarrow> \<exists>h \<ge> w. h < w + 256 \<and> h mod 256 = (i :: nat)"
proof (induction w)
  case (Suc w)
  then obtain h where "w \<le> h" "h < w + 256" "h mod 256 = i" by auto
  then show ?case by (cases "h = w") (auto intro: exI [of _ "w + 256"] exI [of _ h])
qed auto

lemma item_at_update:
  assumes "length (m_work_item st) = 256" "w \<le> h" "h < w + 256" "w \<le> k" "k < w + 256"
  shows "item_at (update_item k f st) h = (if h = k then f (item_at st h) else item_at st h)"
  using assms window_inj [OF assms(2-5)] by (auto simp: item_at_def update_item_def WORK_BUFFER_HUNKS_def nth_list_update)

lemma update_item_simps [simp]:
  "cc_chain (update_item k f st) = cc_chain st" "m_walking_parent (update_item k f st) = m_walking_parent st"
  "m_total_in (update_item k f st) = m_total_in st" "m_total_out (update_item k f st) = m_total_out st"
  "m_compsha1 (update_item k f st) = m_compsha1 st" "m_parent_map (update_item k f st) = m_parent_map st"
  "m_current_map (update_item k f st) = m_current_map st" "m_read_queue_offset (update_item k f st) = m_read_queue_offset st"
  "m_read_done_offset (update_item k f st) = m_read_done_offset st" "m_read_error (update_item k f st) = m_read_error st"
  "m_work_buffer (update_item k f st) = m_work_buffer st" "length (m_work_item (update_item k f st)) = length (m_work_item st)"
  "m_codecs (update_item k f st) = m_codecs st" "m_write_hunk (update_item k f st) = m_write_hunk st"
  "cc_reads (update_item k f st) = cc_reads st" "cc_reading (update_item k f st) = cc_reading st"
  by (simp_all add: update_item_def)

lemma set_status_simps [simp]:
  "cc_chain (set_status s k st) = cc_chain st" "m_walking_parent (set_status s k st) = m_walking_parent st"
  "m_total_in (set_status s k st) = m_total_in st" "m_total_out (set_status s k st) = m_total_out st"
  "m_compsha1 (set_status s k st) = m_compsha1 st" "m_parent_map (set_status s k st) = m_parent_map st"
  "m_current_map (set_status s k st) = m_current_map st" "m_read_queue_offset (set_status s k st) = m_read_queue_offset st"
  "m_read_done_offset (set_status s k st) = m_read_done_offset st" "m_read_error (set_status s k st) = m_read_error st"
  "m_work_buffer (set_status s k st) = m_work_buffer st" "length (m_work_item (set_status s k st)) = length (m_work_item st)"
  "m_codecs (set_status s k st) = m_codecs st" "m_write_hunk (set_status s k st) = m_write_hunk st"
  "cc_reads (set_status s k st) = cc_reads st" "cc_reading (set_status s k st) = cc_reading st"
  by (simp_all add: set_status_def)

text \<open>Marking a range of items changes their states only.\<close>

lemma fold_set_status_frame:
  "\<exists>items. fold (set_status s) ks st = st\<lparr>m_work_item := items\<rparr> \<and> length items = length (m_work_item st)"
proof (induction ks arbitrary: st)
  case Nil
  show ?case by (intro exI [of _ "m_work_item st"]) simp
next
  case (Cons k ks)
  obtain items where it: "fold (set_status s) ks (set_status s k st) = (set_status s k st)\<lparr>m_work_item := items\<rparr>"
    "length items = length (m_work_item st)" using Cons.IH [of "set_status s k st"] by auto
  have "(set_status s k st)\<lparr>m_work_item := items\<rparr> = st\<lparr>m_work_item := items\<rparr>" by (simp add: set_status_def update_item_def)
  with it have "fold (set_status s) (k # ks) st = st\<lparr>m_work_item := items\<rparr>" by (simp only: fold_Cons o_apply)
  then show ?case using it(2) by (intro exI [of _ items] conjI) simp_all
qed

lemma item_at_fold_set_status:
  assumes "length (m_work_item st) = 256" "w \<le> h" "h < w + 256" "\<forall>k \<in> set ks. w \<le> k \<and> k < w + 256"
  shows "item_at (fold (set_status s) ks st) h = (if h \<in> set ks then (item_at st h)\<lparr>wi_status := s\<rparr> else item_at st h)"
  using assms
proof (induction ks arbitrary: st)
  case (Cons k ks)
  have "item_at (set_status s k st) h = (if h = k then (item_at st h)\<lparr>wi_status := s\<rparr> else item_at st h)"
    unfolding set_status_def by (rule item_at_update [of _ w]) (use Cons.prems in simp_all)
  then show ?case using Cons.IH [of "set_status s k st"] Cons.prems by (cases "h = k") simp_all
qed simp

subsection \<open>The sequential compressor\<close>

text \<open>
  What the compressor is to do, without threads: hunk after hunk, a copy of an earlier hunk with the same
  check sums, one of the parent, or the best compression. The state is the CHD, the map of the hunks
  written and the number of bytes written.
\<close>

definition sequential_hunk :: "'s env \<Rightarrow> codec_class option list \<Rightarrow> bool \<Rightarrow> hashmap \<Rightarrow> bytes \<Rightarrow> nat \<Rightarrow> chd_file \<times> hashmap \<times> nat \<Rightarrow> (chd_file \<times> hashmap \<times> nat) res" where
  "sequential_hunk env codecs parent parent_map source h = (\<lambda>(c, current_map, written).
     let data = slice (h * m_hunkbytes c) (m_hunkbytes c) source;
         crc = crc16_simple data; sha1 = fips_sha1 data;
         found = hashmap_find current_map crc sha1; unit = hashmap_find parent_map crc sha1
     in if found \<noteq> NOT_FOUND then map_sum id (\<lambda>(_, c'). (c', current_map, written)) (hunk_copy_from_self c h found)
        else if parent \<and> unit \<noteq> NOT_FOUND then map_sum id (\<lambda>(_, c'). (c', current_map, written)) (hunk_copy_from_parent c h unit)
        else case find_best_compressor (e_libs env) codecs (m_hunkbytes c) data of
               Inl u \<Rightarrow> Inl u
             | Inr (compression, out) \<Rightarrow>
                 map_sum id (\<lambda>(_, c'). (c', hashmap_add h crc sha1 current_map, written + length out))
                   (hunk_write_compressed c h compression out (length out) crc))"

fun sequential_hunks :: "'s env \<Rightarrow> codec_class option list \<Rightarrow> bool \<Rightarrow> hashmap \<Rightarrow> bytes \<Rightarrow> nat \<Rightarrow> chd_file \<times> hashmap \<times> nat \<Rightarrow> (chd_file \<times> hashmap \<times> nat) res" where
  "sequential_hunks env codecs parent parent_map source 0 s = Inr s"
| "sequential_hunks env codecs parent parent_map source (Suc n) s =
     (case sequential_hunks env codecs parent parent_map source n s of
        Inl u \<Rightarrow> Inl u
      | Inr s' \<Rightarrow> sequential_hunk env codecs parent parent_map source n s')"

definition same_layout :: "chd_file \<Rightarrow> chd_file \<Rightarrow> bool" where
  "same_layout c c' \<longleftrightarrow> m_hunkbytes c' = m_hunkbytes c \<and> m_hunkcount c' = m_hunkcount c \<and>
     m_logicalbytes c' = m_logicalbytes c \<and> m_unitbytes c' = m_unitbytes c \<and> m_compression c' = m_compression c"

lemma same_layout_refl [simp]: "same_layout c c" by (simp add: same_layout_def)
lemma same_layout_trans: "same_layout c c' \<Longrightarrow> same_layout c' c'' \<Longrightarrow> same_layout c c''" by (simp add: same_layout_def)
lemma same_layout_entry [simp]: "same_layout c (set_map_entry h t len off crc c)" by (simp add: same_layout_def set_map_entry_def)

lemma append_layout:
  "hunk_copy_from_self c h k = Inr (e, c') \<Longrightarrow> same_layout c c'"
  "hunk_copy_from_parent c h k = Inr (e, c') \<Longrightarrow> same_layout c c'"
  by (auto simp: hunk_copy_from_self_def hunk_copy_from_parent_def split: sum.splits option.splits if_splits)

lemma write_compressed_layout:
  assumes "hunk_write_compressed c h compression d len crc = Inr (e, c')"
  shows "same_layout c c'"
proof -
  obtain r c1 where ap: "file_append c (take len d) 0 = (r, c1)" by fastforce
  then obtain f where "c1 = c\<lparr>m_file := f\<rparr>" using file_append_only_file by blast
  then have "same_layout c c1" by (simp add: same_layout_def)
  then show ?thesis using assms ap same_layout_trans [OF \<open>same_layout c c1\<close> same_layout_entry]
    by (auto simp: hunk_write_compressed_def split: sum.splits option.splits if_splits)
qed

lemma same_layout_compressed: "same_layout c c' \<Longrightarrow> compressed c' = compressed c"
  by (simp add: same_layout_def compressed_def)

lemma sha1_simple_fips: "length buf = 16 \<Longrightarrow> sha1_simple buf data = fips_sha1 data"
  using sha1_finish_digest [OF sha1_append_rep [OF sha1_reset_rep], of buf data]
  by (simp add: sha1_simple_def)

text \<open>An item with the right check sums and, where they are used, the right bytes is written as in the sequential compressor.\<close>

definition item_result :: "'s env \<Rightarrow> codec_class option list \<Rightarrow> hashmap \<Rightarrow> hashmap \<Rightarrow> nat \<Rightarrow> bytes \<Rightarrow> work_item \<Rightarrow> bool" where
  "item_result env codecs parent_map current_map hb data item \<longleftrightarrow>
     wi_hash item \<noteq> [] \<and> wi_hash item ! 0 = hash_of env data \<and>
     (hashmap_find current_map (crc16_simple data) (fips_sha1 data) \<noteq> NOT_FOUND \<or>
      hashmap_find parent_map (crc16_simple data) (fips_sha1 data) \<noteq> NOT_FOUND \<or>
      find_best_compressor (e_libs env) codecs hb data = Inr (wi_compression item, wi_compressed item))"

lemma write_item_sequential:
  assumes "\<not> m_walking_parent st" "compressed (cc_chd st)" "length (e_sha1_buf env) = 16" "cc_chain st \<noteq> []"
    and data: "data = slice (h * m_hunkbytes (cc_chd st)) (m_hunkbytes (cc_chd st)) source" and hn: "wi_hunknum item = h"
    and res: "item_result env codecs (m_parent_map st) (m_current_map st) (m_hunkbytes (cc_chd st)) data item"
    and par: "tl (cc_chain st) = [] \<Longrightarrow> hashmap_find (m_parent_map st) (crc16_simple data) (fips_sha1 data) = NOT_FOUND"
    and wr: "write_item item x st = Inr (e, st1)"
  shows "e = None \<and> (\<exists>c1 m t. sequential_hunk env codecs (tl (cc_chain st) \<noteq> []) (m_parent_map st) source h
       (cc_chd st, m_current_map st, m_total_out st) = Inr (c1, m, t) \<and>
     st1 = (set_chd c1 st)\<lparr>m_current_map := m, m_total_out := t\<rparr> \<and> same_layout (cc_chd st) c1 \<and>
     (h < NOT_FOUND \<longrightarrow> (\<forall>crc sha1. hashmap_find (m_current_map st) crc sha1 \<noteq> NOT_FOUND \<longrightarrow> hashmap_find m crc sha1 \<noteq> NOT_FOUND)))"
proof -
  define crc sha1 where "crc = crc16_simple data" and "sha1 = fips_sha1 data"
  have hash: "wi_hash item \<noteq> []" "wi_hash item ! 0 = \<lparr>hp_crc16 = crc, hp_sha1 = sha1\<rparr>"
    using res by (simp_all add: item_result_def hash_of_def crc_def sha1_def sha1_simple_fips [OF assms(3)])
  note w = wr [unfolded write_item_def Let_def hash(2), simplified hn assms(1,2) hash(1), simplified]
  note s = sequential_hunk_def Let_def data [symmetric] crc_def [symmetric] sha1_def [symmetric]
  show ?thesis
  proof (cases "hashmap_find (m_current_map st) crc sha1 = NOT_FOUND")
    case False
    then show ?thesis using w append_layout(1)
      by (auto simp: s split: sum.splits)
  next
    case cur: True
    show ?thesis
    proof (cases "tl (cc_chain st) \<noteq> [] \<and> hashmap_find (m_parent_map st) crc sha1 \<noteq> NOT_FOUND")
      case True
      then show ?thesis using w cur append_layout(2)
        by (auto simp: s split: sum.splits)
    next
      case False
      then have "hashmap_find (m_parent_map st) crc sha1 = NOT_FOUND" using par by (auto simp: crc_def sha1_def)
      then have fb: "find_best_compressor (e_libs env) codecs (m_hunkbytes (cc_chd st)) data = Inr (wi_compression item, wi_compressed item)"
        using res cur by (simp add: item_result_def crc_def sha1_def)
      show ?thesis using w cur False fb write_compressed_layout
        by (auto simp: s hashmap_find_add split: sum.splits if_splits)
    qed
  qed
qed

subsection \<open>The invariant of a run\<close>

text \<open>
  The assumptions: a compressed CHD whose hunks fill it, sizes that fit their 32 bits, and a source that
  gives the bytes of \<open>source\<close> or throws. The run starts as \<open>compress_begin\<close> leaves the compressor when
  there is no parent, or as \<open>compress_continue\<close> does after walking the parent, with the reader idle.
\<close>

definition prepared :: "'s env \<Rightarrow> bytes \<Rightarrow> compressor \<Rightarrow> bool" where
  "prepared env source st \<longleftrightarrow>
     (let c = cc_chd st; hb = m_hunkbytes c in
      cc_chain st \<noteq> [] \<and> compressed c \<and> 0 < hb \<and> 257 * hb < 2 ^ 32 \<and> m_hunkcount c + 512 < 2 ^ 32 \<and>
      m_logicalbytes c = m_hunkcount c * hb \<and> length source = m_logicalbytes c \<and> length (e_sha1_buf env) = 16 \<and>
      (\<forall>offset n data. e_read_data env offset n = Inr data \<longrightarrow> data = slice offset n source))"

definition idle_start :: "'s env \<Rightarrow> compressor \<Rightarrow> bool" where
  "idle_start env st \<longleftrightarrow>
     \<not> m_walking_parent st \<and> m_total_in st = 0 \<and> m_compsha1 st = sha1_reset (e_sha1_buf env) \<and>
     m_read_queue_offset st = 0 \<and> m_read_done_offset st = 0 \<and> m_read_error st = None \<and>
     length (m_work_buffer st) = 257 * m_hunkbytes (cc_chd st) \<and> length (m_work_item st) = 256 \<and>
     (\<forall>item \<in> set (m_work_item st). wi_status item = WS_READY \<and> wi_hash item \<noteq> []) \<and> m_write_hunk st = 0 \<and> cc_reads st = 0 \<and> cc_reading st = None \<and>
     (tl (cc_chain st) = [] \<longrightarrow> (\<forall>crc sha1. hashmap_find (m_parent_map st) crc sha1 = NOT_FOUND))"

text \<open>\<open>block_end q\<close> is the first hunk behind the first \<open>q\<close> reads.\<close>

definition block_end :: "compressor \<Rightarrow> nat \<Rightarrow> nat" where
  "block_end st q = min (q * 128) (m_hunkcount (cc_chd st))"

definition hunk_of :: "compressor \<Rightarrow> bytes \<Rightarrow> nat \<Rightarrow> bytes" where
  "hunk_of st source h = slice (h * m_hunkbytes (cc_chd st)) (m_hunkbytes (cc_chd st)) source"

definition buffered :: "compressor \<Rightarrow> bytes \<Rightarrow> nat \<Rightarrow> bool" where
  "buffered st source h \<longleftrightarrow>
     slice (h mod 256 * m_hunkbytes (cc_chd st)) (m_hunkbytes (cc_chd st)) (m_work_buffer st) = hunk_of st source h"

text \<open>
  Hunk \<open>h\<close> of the window: queued or finished before the spawn position \<open>S\<close>, being read before the end
  of the \<open>k\<close> reads queued so far, and free from there on.
\<close>

definition item_ok :: "'s env \<Rightarrow> bytes \<Rightarrow> nat \<Rightarrow> nat \<Rightarrow> compressor \<Rightarrow> nat \<Rightarrow> bool" where
  "item_ok env source k S st h \<longleftrightarrow>
     (let item = item_at st h in
      wi_hash item \<noteq> [] \<and>
      (if h < S then wi_hunknum item = h \<and> \<not> wi_walk item \<and> buffered st source h \<and>
         (wi_status item = WS_QUEUED \<or> wi_status item = WS_COMPLETE \<and>
           item_result env (m_codecs st) (m_parent_map st) (m_current_map st) (m_hunkbytes (cc_chd st)) (hunk_of st source h) item)
       else wi_status item = (if h < k * 128 then WS_READING else WS_READY)))"

definition reads_ok :: "bytes \<Rightarrow> nat \<Rightarrow> nat \<Rightarrow> nat \<Rightarrow> compressor \<Rightarrow> bool" where
  "reads_ok source q k S st \<longleftrightarrow>
     (let hb = m_hunkbytes (cc_chd st) in
      m_read_queue_offset st = k * 128 * hb \<and> m_read_done_offset st = block_end st q * hb \<and>
      k * 128 < m_hunkcount (cc_chd st) + 128 \<and> q \<le> k \<and> (m_read_error st = None \<longrightarrow> k = q + cc_reads st) \<and>
      (case cc_reading st of
         None \<Rightarrow> S = block_end st q
       | Some rd \<Rightarrow> m_read_error st = None \<and> 0 < cc_reads st \<and> block_end st q \<le> S \<and> S \<le> block_end st (Suc q) \<and>
           rd = \<lparr>rd_curoffs = S * hb, rd_end_offset = block_end st (Suc q) * hb, rd_dest = q mod 2 * 128 * hb,
                 rd_numbytes = (block_end st (Suc q) - block_end st q) * hb\<rparr> \<and>
           slice (rd_dest rd) (rd_numbytes rd) (m_work_buffer st) = slice (block_end st q * hb) (rd_numbytes rd) source))"

definition run_ok :: "'s env \<Rightarrow> bytes \<Rightarrow> compressor \<Rightarrow> nat \<Rightarrow> nat \<Rightarrow> nat \<Rightarrow> compressor \<Rightarrow> bool" where
  "run_ok env source st0 q k S st \<longleftrightarrow>
     cc_chain st \<noteq> [] \<and> tl (cc_chain st) = tl (cc_chain st0) \<and> same_layout (cc_chd st0) (cc_chd st) \<and>
     \<not> m_walking_parent st \<and> m_parent_map st = m_parent_map st0 \<and> m_codecs st = m_codecs st0 \<and>
     length (m_work_buffer st) = 257 * m_hunkbytes (cc_chd st0) \<and> length (m_work_item st) = 256 \<and>
     m_write_hunk st \<le> S \<and> k * 128 \<le> m_write_hunk st + 256 \<and>
     sha1_rep (m_compsha1 st) (take (m_read_done_offset st) source) \<and> m_total_in st = m_read_done_offset st \<and>
     sequential_hunks env (m_codecs st0) (tl (cc_chain st0) \<noteq> []) (m_parent_map st0) source (m_write_hunk st)
       (cc_chd st0, m_current_map st0, m_total_out st0) = Inr (cc_chd st, m_current_map st, m_total_out st)"

definition coherent :: "'s env \<Rightarrow> bytes \<Rightarrow> compressor \<Rightarrow> nat \<Rightarrow> nat \<Rightarrow> nat \<Rightarrow> compressor \<Rightarrow> bool" where
  "coherent env source st0 q k S st \<longleftrightarrow>
     run_ok env source st0 q k S st \<and> reads_ok source q k S st \<and>
     (\<forall>h. m_write_hunk st \<le> h \<and> h < m_write_hunk st + 256 \<longrightarrow> item_ok env source k S st h)"

lemma layout_frame:
  assumes "same_layout (cc_chd st) (cc_chd st')"
  shows "m_hunkbytes (cc_chd st') = m_hunkbytes (cc_chd st)" "m_hunkcount (cc_chd st') = m_hunkcount (cc_chd st)"
    "m_logicalbytes (cc_chd st') = m_logicalbytes (cc_chd st)" "block_end st' = block_end st" "hunk_of st' = hunk_of st"
    "compressed (cc_chd st') = compressed (cc_chd st)"
  using assms same_layout_compressed [OF assms] by (simp_all add: same_layout_def block_end_def fun_eq_iff hunk_of_def)

lemma block_end_frame [simp]:
  "block_end (update_item j f st) = block_end st" "block_end (st\<lparr>m_work_buffer := b\<rparr>) = block_end st"
  "block_end (st\<lparr>m_compsha1 := d\<rparr>) = block_end st" "block_end (st\<lparr>m_total_in := n\<rparr>) = block_end st"
  "block_end (st\<lparr>m_read_done_offset := n\<rparr>) = block_end st" "block_end (st\<lparr>m_read_queue_offset := n\<rparr>) = block_end st"
  "block_end (st\<lparr>cc_reading := rd\<rparr>) = block_end st" "block_end (st\<lparr>cc_reads := n\<rparr>) = block_end st"
  "block_end (st\<lparr>m_read_error := e\<rparr>) = block_end st" "block_end (st\<lparr>m_work_item := items\<rparr>) = block_end st"
  by (simp_all add: block_end_def fun_eq_iff)

lemma spawn_le_queued: "reads_ok source q k S st \<Longrightarrow> S \<le> k * 128 \<and> S \<le> m_hunkcount (cc_chd st)"
  by (auto simp: reads_ok_def block_end_def Let_def split: option.splits)

lemma preparedD:
  assumes "prepared env source st"
  shows "cc_chain st \<noteq> []" "compressed (cc_chd st)" "0 < m_hunkbytes (cc_chd st)" "257 * m_hunkbytes (cc_chd st) < 2 ^ 32"
    "m_hunkcount (cc_chd st) + 512 < 2 ^ 32" "m_logicalbytes (cc_chd st) = m_hunkcount (cc_chd st) * m_hunkbytes (cc_chd st)"
    "length source = m_logicalbytes (cc_chd st)" "length (e_sha1_buf env) = 16"
  using assms unfolding prepared_def Let_def by - (elim conjE, assumption)+

lemma prepared_source: "prepared env source st \<Longrightarrow> e_read_data env offset n = Inr data \<Longrightarrow> data = slice offset n source"
  unfolding prepared_def Let_def by simp

lemma idle_startD:
  assumes "idle_start env st"
  shows "\<not> m_walking_parent st" "m_total_in st = 0" "m_compsha1 st = sha1_reset (e_sha1_buf env)" "m_read_queue_offset st = 0"
    "m_read_done_offset st = 0" "m_read_error st = None" "length (m_work_buffer st) = 257 * m_hunkbytes (cc_chd st)"
    "length (m_work_item st) = 256" "item \<in> set (m_work_item st) \<Longrightarrow> wi_status item = WS_READY \<and> wi_hash item \<noteq> []" "m_write_hunk st = 0"
    "cc_reads st = 0" "cc_reading st = None"
    "tl (cc_chain st) = [] \<Longrightarrow> hashmap_find (m_parent_map st) crc sha1 = NOT_FOUND"
  using assms unfolding idle_start_def by - ((elim conjE, assumption) | (elim conjE, erule (1) bspec) | (elim conjE, drule (1) mp, elim allE [of _ crc] allE [of _ sha1], assumption))+

lemma coherent_begin:
  assumes "prepared env source st0" "idle_start env st0"
  shows "coherent env source st0 0 0 0 st0"
proof -
  note p = preparedD(1,8) [OF assms(1)] and i = idle_startD(1-8,10-12) [OF assms(2)]
  have "h mod 256 < length (m_work_item st0)" for h using i by simp
  then have ready: "wi_status (item_at st0 h) = WS_READY \<and> wi_hash (item_at st0 h) \<noteq> []" for h
    unfolding item_at_def WORK_BUFFER_HUNKS_def by (rule idle_startD(9) [OF assms(2) nth_mem])
  have "item_ok env source 0 0 st0 h" for h by (simp add: item_ok_def ready)
  moreover have "run_ok env source st0 0 0 0 st0"
    using p i sha1_reset_rep [of "e_sha1_buf env"] by (simp add: run_ok_def)
  moreover have "reads_ok source 0 0 0 st0"
    using i by (simp add: reads_ok_def block_end_def)
  ultimately show ?thesis by (simp add: coherent_def)
qed

lemma coherentD:
  assumes "coherent env source st0 q k S st"
  shows "run_ok env source st0 q k S st" "reads_ok source q k S st" "m_write_hunk st \<le> S" "k * 128 \<le> m_write_hunk st + 256"
    "S \<le> k * 128" "S \<le> m_hunkcount (cc_chd st)" "length (m_work_item st) = 256" "length (m_work_buffer st) = 257 * m_hunkbytes (cc_chd st)"
    "\<not> m_walking_parent st" "same_layout (cc_chd st0) (cc_chd st)" "cc_chain st \<noteq> []"
  using assms spawn_le_queued [of source q k S st]
  by (simp_all add: coherent_def run_ok_def same_layout_def)

lemma coherent_item:
  "coherent env source st0 q k S st \<Longrightarrow> m_write_hunk st \<le> h \<Longrightarrow> h < m_write_hunk st + 256 \<Longrightarrow> item_ok env source k S st h"
  by (simp add: coherent_def)

lemma prepared_layout:
  assumes "prepared env source st0" "coherent env source st0 q k S st"
  shows "0 < m_hunkbytes (cc_chd st)" "257 * m_hunkbytes (cc_chd st) < 2 ^ 32"
    "m_hunkcount (cc_chd st) + 512 < 2 ^ 32" "m_logicalbytes (cc_chd st) = m_hunkcount (cc_chd st) * m_hunkbytes (cc_chd st)"
    "length source = m_hunkcount (cc_chd st) * m_hunkbytes (cc_chd st)" "compressed (cc_chd st)"
  using preparedD [OF assms(1)] layout_frame [OF coherentD(10) [OF assms(2)]] by simp_all

lemma block_spawning:
  assumes "block_end st q \<le> S" "S < block_end st (Suc q)"
  shows "block_end st q = q * 128" "S mod 256 = q mod 2 * 128 + (S - q * 128)"
proof -
  show b: "block_end st q = q * 128" using assms by (auto simp: block_end_def)
  define j where "j = S - q * 128"
  have S: "S = q * 128 + j" "j < 128" using assms b by (auto simp: j_def block_end_def)
  have "q = 2 * (q div 2) + q mod 2" by simp
  then have "S = (q mod 2 * 128 + j) + (q div 2) * 256" using S(1) by linarith
  moreover have "q mod 2 * 128 + j < 256" using S(2) by (cases "q mod 2 = 0") auto
  ultimately show "S mod 256 = q mod 2 * 128 + (S - q * 128)"
    by (metis mod_mult_self1 mod_less j_def)
qed

lemma reading_facts:
  assumes "reads_ok source q k S st" "cc_reading st = Some rd"
  shows "m_read_error st = None" "0 < cc_reads st" "k = q + cc_reads st" "block_end st q \<le> S" "S \<le> block_end st (Suc q)"
    "rd = \<lparr>rd_curoffs = S * m_hunkbytes (cc_chd st), rd_end_offset = block_end st (Suc q) * m_hunkbytes (cc_chd st),
       rd_dest = q mod 2 * 128 * m_hunkbytes (cc_chd st), rd_numbytes = (block_end st (Suc q) - block_end st q) * m_hunkbytes (cc_chd st)\<rparr>"
    "slice (rd_dest rd) (rd_numbytes rd) (m_work_buffer st) = slice (block_end st q * m_hunkbytes (cc_chd st)) (rd_numbytes rd) source"
  using assms unfolding reads_ok_def Let_def assms(2) option.case
  by - ((elim conjE, assumption) | (elim conjE, drule (1) mp, assumption))+

lemma item_ok_keep:
  assumes "item_ok env source k S st h" "item_at st' h = item_at st h" "m_codecs st' = m_codecs st" "m_parent_map st' = m_parent_map st"
    and "same_layout (cc_chd st) (cc_chd st')" "h < S' \<longleftrightarrow> h < S" "S \<le> h \<Longrightarrow> h < k' * 128 \<longleftrightarrow> h < k * 128"
    and "h < S \<Longrightarrow> slice (h mod 256 * m_hunkbytes (cc_chd st)) (m_hunkbytes (cc_chd st)) (m_work_buffer st') =
      slice (h mod 256 * m_hunkbytes (cc_chd st)) (m_hunkbytes (cc_chd st)) (m_work_buffer st)"
    and grow: "\<And>crc sha1. hashmap_find (m_current_map st) crc sha1 \<noteq> NOT_FOUND \<Longrightarrow> hashmap_find (m_current_map st') crc sha1 \<noteq> NOT_FOUND"
  shows "item_ok env source k' S' st' h"
proof (cases "h < S")
  case True
  have "item_result env cs pm (m_current_map st') n d i" if "item_result env cs pm (m_current_map st) n d i" for cs pm n d i
    using that grow by (auto simp: item_result_def)
  then show ?thesis using assms(1-4,6,8) True layout_frame [OF assms(5)] by (auto simp: item_ok_def Let_def buffered_def)
next
  case False
  then show ?thesis using assms(1,2,6,7) by (simp add: item_ok_def Let_def)
qed

lemma reads_ok_keep:
  assumes "reads_ok source q k S st" "same_layout (cc_chd st) (cc_chd st')" "m_read_queue_offset st' = m_read_queue_offset st"
    and "m_read_done_offset st' = m_read_done_offset st" "m_read_error st' = m_read_error st" "cc_reads st' = cc_reads st"
    and "cc_reading st' = cc_reading st" "m_work_buffer st' = m_work_buffer st"
  shows "reads_ok source q k S st'"
  using assms(1) unfolding reads_ok_def assms(3-8) layout_frame [OF assms(2)] .

subsection \<open>Each step keeps the invariant\<close>

lemma coherent_spawn:
  assumes pre: "prepared env source st0" and co: "coherent env source st0 q k S st"
    and rd: "cc_reading st = Some rd" "rd_curoffs rd < rd_end_offset rd"
  defines "st1 \<equiv> (update_item S (\<lambda>item. item\<lparr>wi_status := WS_QUEUED, wi_hunknum := S, wi_osd := True, wi_walk := False\<rparr>) st)
      \<lparr>cc_reading := Some (rd\<lparr>rd_curoffs := Suc S * m_hunkbytes (cc_chd st)\<rparr>)\<rparr>"
  shows "S < m_hunkcount (cc_chd st) \<and> wi_status (item_at st S) = WS_READING \<and> read_spawn rd st = Inr st1 \<and>
    coherent env source st0 q k (Suc S) st1"
proof -
  define hb where "hb = m_hunkbytes (cc_chd st)"
  note L = prepared_layout [OF pre co, folded hb_def] and D = coherentD [OF co, folded hb_def]
  note R = reading_facts [OF D(2) rd(1), folded hb_def]
  note r = R(4,6,7)
  have S: "S < block_end st (Suc q)" using rd(2) r(2) by simp
  note b = block_spawning [OF r(1) S]
  have SH: "S < m_hunkcount (cc_chd st)" "S < k * 128"
  proof -
    show "S < m_hunkcount (cc_chd st)" using S by (simp add: block_end_def)
    have "Suc q \<le> k" using R(2,3) by simp
    then have "Suc q * 128 \<le> k * 128" by (rule mult_le_mono1)
    then show "S < k * 128" using S by (simp add: block_end_def)
  qed
  have win: "m_write_hunk st \<le> S" "S < m_write_hunk st + 256" using D(3,4) SH(2) by auto
  have status: "wi_status (item_at st S) = WS_READING"
    using coherent_item [OF co win] SH(2) by (simp add: item_ok_def Let_def)
  have num: "w32 S = S" using SH(1) L(3) by (simp add: w32_def)
  have new: "st1 = (update_item S (\<lambda>item. item\<lparr>wi_status := WS_QUEUED, wi_hunknum := S, wi_osd := True, wi_walk := False\<rparr>) st)
      \<lparr>cc_reading := Some (rd\<lparr>rd_curoffs := Suc S * hb\<rparr>)\<rparr>"
    by (simp add: st1_def hb_def)
  have spawn: "read_spawn rd st = Inr st1"
    using D(9) L(1) status by (simp add: read_spawn_def Let_def r(2) num new add.commute flip: hb_def)
  have buf: "buffered st source S"
  proof -
    have j: "(S - q * 128) * hb + hb \<le> rd_numbytes rd"
    proof -
      have "Suc (S - q * 128) \<le> block_end st (Suc q) - block_end st q" using S r(1) b(1) by auto
      then have "Suc (S - q * 128) * hb \<le> (block_end st (Suc q) - block_end st q) * hb" by (rule mult_le_mono1)
      then show ?thesis by (simp add: r(2) add.commute)
    qed
    have "slice ((S - q * 128) * hb) hb (slice (rd_dest rd) (rd_numbytes rd) (m_work_buffer st)) =
        slice ((S - q * 128) * hb) hb (slice (block_end st q * hb) (rd_numbytes rd) source)" by (simp only: r(3))
    then have "slice (rd_dest rd + (S - q * 128) * hb) hb (m_work_buffer st) = slice (block_end st q * hb + (S - q * 128) * hb) hb source"
      by (simp only: slice_slice [OF j])
    moreover have "rd_dest rd + (S - q * 128) * hb = S mod 256 * hb" by (simp add: r(2) b(2) add_mult_distrib)
    moreover have "block_end st q * hb + (S - q * 128) * hb = S * hb"
      using r(1) b(1) by (simp flip: add_mult_distrib)
    ultimately show ?thesis by (simp add: buffered_def hunk_of_def hb_def)
  qed
  have items: "item_ok env source k (Suc S) st1 h" if "m_write_hunk st \<le> h" "h < m_write_hunk st + 256" for h
  proof -
    have at: "item_at st1 h =
        (if h = S then (item_at st h)\<lparr>wi_status := WS_QUEUED, wi_hunknum := S, wi_osd := True, wi_walk := False\<rparr> else item_at st h)"
      using item_at_update [OF D(7) that win] by (simp add: new item_at_def)
    have f: "cc_chain st1 = cc_chain st" "m_work_buffer st1 = m_work_buffer st"
      "m_codecs st1 = m_codecs st" "m_parent_map st1 = m_parent_map st"
      "m_current_map st1 = m_current_map st" by (simp_all add: new)
    show ?thesis
    proof (cases "h = S")
      case True
      have "buffered st1 source S" using buf by (simp only: buffered_def hunk_of_def f)
      then show ?thesis using at coherent_item [OF co that] by (simp add: True item_ok_def Let_def)
    next
      case False
      show ?thesis by (rule item_ok_keep [OF coherent_item [OF co that]]) (use False in \<open>auto simp: at f\<close>)
    qed
  qed
  have "run_ok env source st0 q k (Suc S) st1"
    using D(1) by (simp add: run_ok_def new)
  moreover have "reads_ok source q k (Suc S) st1"
    unfolding new using D(2) rd(1) S R(1,2,4,7) by (simp add: reads_ok_def Let_def hb_def)
  ultimately have "coherent env source st0 q k (Suc S) st1"
    using items by (simp add: coherent_def new)
  then show ?thesis using SH(1) status spawn by simp
qed

lemma coherent_finish:
  assumes pre: "prepared env source st0" and co: "coherent env source st0 q k S st"
    and rd: "cc_reading st = Some rd" "rd_end_offset rd \<le> rd_curoffs rd"
  shows "coherent env source st0 (Suc q) k S (read_finish rd st)"
proof -
  define hb where "hb = m_hunkbytes (cc_chd st)"
  note L = prepared_layout [OF pre co, folded hb_def] and D = coherentD [OF co, folded hb_def]
  note R = reading_facts [OF D(2) rd(1), folded hb_def]
  have S: "S = block_end st (Suc q)" using R(5) rd(2) L(1) by (simp add: R(6))
  have le: "block_end st q \<le> block_end st (Suc q)" by (simp add: block_end_def)
  then have off: "block_end st q * hb + rd_numbytes rd = block_end st (Suc q) * hb" by (simp add: R(6) flip: add_mult_distrib)
  have dn: "m_read_done_offset st = block_end st q * hb" using D(2) by (simp add: reads_ok_def hb_def Let_def)
  have new: "read_finish rd st = st\<lparr>m_compsha1 := sha1_append (slice (block_end st q * hb) (rd_numbytes rd) source) (m_compsha1 st),
      m_total_in := m_total_in st + rd_numbytes rd, m_read_done_offset := block_end st (Suc q) * hb, cc_reading := None, cc_reads := cc_reads st - 1\<rparr>"
    using D(9) L(6) R(7) by (simp add: read_finish_def Let_def dn off)
  have rep: "sha1_rep (m_compsha1 st) (take (block_end st q * hb) source)" and tin: "m_total_in st = block_end st q * hb"
    using D(1) by (simp_all add: run_ok_def dn)
  have "take (block_end st q * hb) source @ slice (block_end st q * hb) (rd_numbytes rd) source = take (block_end st (Suc q) * hb) source"
    unfolding slice_def off [symmetric] by (rule take_add [symmetric])
  with sha1_append_rep [OF rep, of "slice (block_end st q * hb) (rd_numbytes rd) source"]
  have rep': "sha1_rep (sha1_append (slice (block_end st q * hb) (rd_numbytes rd) source) (m_compsha1 st)) (take (block_end st (Suc q) * hb) source)"
    by simp
  have "run_ok env source st0 (Suc q) k S (read_finish rd st)"
    using D(1) rep' tin off by (simp add: run_ok_def new)
  moreover have "reads_ok source (Suc q) k S (read_finish rd st)"
    unfolding new using D(2) R(1-3) by (simp add: reads_ok_def S Let_def hb_def)
  moreover have "item_ok env source k S (read_finish rd st) h" if "m_write_hunk st \<le> h" "h < m_write_hunk st + 256" for h
    by (rule item_ok_keep [OF coherent_item [OF co that]]) (simp_all add: new item_at_def)
  moreover have "m_write_hunk (read_finish rd st) = m_write_hunk st" by (simp add: new)
  ultimately show ?thesis by (simp add: coherent_def)
qed

lemma block_behind:
  fixes h q :: nat
  assumes "h < q * 128" "Suc q * 128 \<le> h + 256"
  shows "if q mod 2 = 0 then 128 \<le> h mod 256 else h mod 256 < 128"
proof (cases "q mod 2 = 0")
  case True
  then obtain p where q: "q = 2 * p" by (auto elim: evenE)
  then obtain j where h: "h = (p - 1) * 256 + (128 + j)" "j < 128"
    using assms by (intro that [of "h - ((p - 1) * 256 + 128)"]) (cases p; simp)+
  have "h mod 256 = 128 + j" using h(2) by (simp add: h(1))
  then show ?thesis using True by simp
next
  case False
  then obtain p where q: "q = Suc (2 * p)" by (metis Suc_eq_plus1 not_mod_2_eq_0_eq_1 odd_iff_mod_2_eq_one oddE)
  then obtain j where h: "h = p * 256 + j" "j < 128"
    using assms by (intro that [of "h - p * 256"]) simp_all
  have "h mod 256 = j" using h(2) by (simp add: h(1))
  then show ?thesis using False h(2) by simp
qed

text \<open>The extent of read \<open>q\<close>, of hunks from \<open>q * 128\<close> on, and its half of the buffer.\<close>

lemma read_extent:
  fixes hb H q :: nat
  assumes hb: "0 < hb" "257 * hb < 2 ^ 32" and H: "H + 512 < 2 ^ 32" "q * 128 < H"
  defines "n \<equiv> (min (Suc q * 128) H - q * 128) * hb" and "dest \<equiv> q mod 2 * 128 * hb"
  shows "n \<le> 128 * hb" "dest = 0 \<or> dest = 128 * hb" "q * 128 * hb mod (256 * hb) = dest" "q * 128 * hb + n = min (Suc q * 128) H * hb"
    "(if q * 128 * hb + 128 * hb > H * hb then w32 (H * hb + (2 ^ 64 - q * 128 * hb)) else 128 * hb) = n"
proof -
  show n: "n \<le> 128 * hb" unfolding n_def by (intro mult_le_mono1) simp
  show "dest = 0 \<or> dest = 128 * hb" by (cases "q mod 2 = 0") (auto simp: dest_def)
  have "(2 * d + m) * 128 * hb = m * 128 * hb + d * (256 * hb)" for d m by (simp add: algebra_simps)
  from this [of "q div 2" "q mod 2"] have "q * 128 * hb = dest + (q div 2) * (256 * hb)" by (simp add: dest_def)
  moreover have "dest < 256 * hb" using hb(1) by (cases "q mod 2 = 0") (auto simp: dest_def)
  ultimately show "q * 128 * hb mod (256 * hb) = dest" by simp
  have "q * 128 + (min (Suc q * 128) H - q * 128) = min (Suc q * 128) H" using H(2) by simp
  then show end_eq: "q * 128 * hb + n = min (Suc q * 128) H * hb" unfolding n_def by (simp only: flip: add_mult_distrib)
  have step: "Suc q * 128 * hb = q * 128 * hb + 128 * hb" by (simp add: add_mult_distrib)
  show "(if q * 128 * hb + 128 * hb > H * hb then w32 (H * hb + (2 ^ 64 - q * 128 * hb)) else 128 * hb) = n"
  proof (cases "Suc q * 128 \<le> H")
    case True
    then have "Suc q * 128 * hb \<le> H * hb" by (rule mult_le_mono1)
    then have "\<not> q * 128 * hb + 128 * hb > H * hb" using step by linarith
    moreover have "128 * hb = n" using True by (simp add: n_def)
    ultimately show ?thesis by (simp only: if_False)
  next
    case False
    have "H * hb < Suc q * 128 * hb" by (rule mult_strict_right_mono) (use False hb(1) in simp_all)
    then have gt: "q * 128 * hb + 128 * hb > H * hb" using step by linarith
    have eq: "H * hb = q * 128 * hb + n" using end_eq False by simp
    have "H * hb < 2 ^ 32 * 2 ^ 32" by (rule mult_strict_mono) (use hb H in simp_all)
    then have lt: "q * 128 * hb \<le> 2 ^ 32 * 2 ^ 32" unfolding eq by linarith
    have wrap: "x + n + (2 ^ 64 - x) = n + 2 ^ 32 * 2 ^ 32" if "x \<le> 2 ^ 32 * 2 ^ 32" for x :: nat using that by simp
    have "H * hb + (2 ^ 64 - q * 128 * hb) = n + 2 ^ 32 * 2 ^ 32" unfolding eq by (rule wrap [OF lt])
    moreover have "n < 2 ^ 32" using n hb(2) by simp
    ultimately show ?thesis using gt by (simp only: w32_def mod_mult_self2 if_True mod_less)
  qed
qed

lemma overwrite_behind:
  fixes h q hb :: nat
  assumes "h < q * 128" "Suc q * 128 \<le> h + 256" "length data \<le> 128 * hb" "q mod 2 * 128 * hb + length data \<le> length buffer"
  shows "slice (h mod 256 * hb) hb (overwrite (q mod 2 * 128 * hb) data buffer) = slice (h mod 256 * hb) hb buffer"
proof (cases "q mod 2 = 0")
  case True
  then have "128 * hb \<le> h mod 256 * hb" using block_behind [OF assms(1,2)] by (intro mult_le_mono1) simp
  with assms(3) have "length data \<le> h mod 256 * hb" by (rule order_trans)
  then show ?thesis using True assms(4) by (intro slice_overwrite_after) simp_all
next
  case False
  then have "Suc (h mod 256) * hb \<le> 128 * hb" using block_behind [OF assms(1,2)] by (intro mult_le_mono1) simp
  then show ?thesis using False assms(4) by (intro slice_overwrite_before) simp_all
qed

lemma coherent_over:
  assumes co: "coherent env source st0 q k S st" and rd: "cc_reading st = None" and e: "e \<noteq> None"
  shows "coherent env source st0 q k S (st\<lparr>m_read_error := e, cc_reads := cc_reads st - 1\<rparr>)" (is "coherent _ _ _ _ _ _ ?st1")
proof -
  note D = coherentD [OF co]
  have "run_ok env source st0 q k S ?st1" using D(1) by (simp add: run_ok_def)
  moreover have "reads_ok source q k S ?st1" using D(2) rd e by (cases e) (simp_all add: reads_ok_def Let_def)
  moreover have "item_ok env source k S ?st1 h" if "m_write_hunk st \<le> h" "h < m_write_hunk st + 256" for h
    by (rule item_ok_keep [OF coherent_item [OF co that]]) (simp_all add: item_at_def)
  ultimately show ?thesis by (simp add: coherent_def)
qed

text \<open>The data arrive in the half of the buffer that no item in use has.\<close>

lemma coherent_data:
  assumes pre: "prepared env source st0" and co: "coherent env source st0 q k S st"
    and idle: "cc_reading st = None" "0 < cc_reads st" "m_read_error st = None" and q: "q * 128 < m_hunkcount (cc_chd st)" "Suc q * 128 \<le> k * 128"
    and hb: "hb = m_hunkbytes (cc_chd st)" and n: "n = (block_end st (Suc q) - block_end st q) * hb"
    and st': "st' = st\<lparr>m_work_buffer := overwrite (q mod 2 * 128 * hb) (slice (q * 128 * hb) n source) (m_work_buffer st),
      cc_reading := Some \<lparr>rd_curoffs = q * 128 * hb, rd_end_offset = q * 128 * hb + n, rd_dest = q mod 2 * 128 * hb, rd_numbytes = n\<rparr>\<rparr>"
  shows "coherent env source st0 q k S st'"
proof -
  note L = prepared_layout [OF pre co, folded hb] and D = coherentD [OF co, folded hb]
  note X = read_extent [OF L(1,2,3) q(1)]
  have b: "block_end st q = q * 128" "block_end st (Suc q) = min (Suc q * 128) (m_hunkcount (cc_chd st))"
    using q(1) by (simp_all add: block_end_def)
  have S: "S = q * 128" using D(2) idle b by (simp add: reads_ok_def Let_def)
  note n' = n [unfolded b]
  have "min (Suc q * 128) (m_hunkcount (cc_chd st)) * hb \<le> length source" unfolding L(5) by (intro mult_le_mono1) simp
  then have len: "length (slice (q * 128 * hb) n source) = n" using X(4) n' by simp
  have fit: "q mod 2 * 128 * hb + length (slice (q * 128 * hb) n source) \<le> length (m_work_buffer st)"
    unfolding len D(8) using X(1,2) n' by auto
  have "run_ok env source st0 q k S st'" using D(1) fit by (simp add: run_ok_def st')
  moreover have "reads_ok source q k S st'"
  proof -
    have F: "m_read_queue_offset st = k * 128 * hb" "m_read_done_offset st = q * 128 * hb" "k * 128 < m_hunkcount (cc_chd st) + 128" "k = q + cc_reads st"
      using D(2) idle by (simp_all add: reads_ok_def Let_def hb b(1))
    have E: "block_end st (Suc q) * hb = q * 128 * hb + n" using X(4) by (simp only: b(2) n')
    show ?thesis
      using F(1-3) idle slice_overwrite_same [OF fit len [symmetric]] q(1) n [symmetric] E F(4) [symmetric]
      unfolding reads_ok_def Let_def st' S b(1) by (simp add: hb [symmetric] b(1))  (simp add: block_end_def)
  qed
  moreover have "item_ok env source k S st' h" if h: "m_write_hunk st \<le> h" "h < m_write_hunk st + 256" for h
  proof -
    have "n \<le> 128 * hb" unfolding n' by (rule X(1))
    then have "length (slice (q * 128 * hb) n source) \<le> 128 * hb" by (simp only: len)
    moreover have "Suc q * 128 \<le> h + 256" using h(1) D(4) q(2) by linarith
    ultimately have keep: "slice (h mod 256 * hb) hb (m_work_buffer st') = slice (h mod 256 * hb) hb (m_work_buffer st)" if "h < S"
      using overwrite_behind [OF that [unfolded S] _ _ fit] by (simp add: st')
    have f: "item_at st' h = item_at st h" "m_codecs st' = m_codecs st" "m_parent_map st' = m_parent_map st"
      "cc_chain st' = cc_chain st" "m_current_map st' = m_current_map st" by (simp_all add: st' item_at_def)
    show ?thesis by (rule item_ok_keep [OF coherent_item [OF co h]]) (use keep [unfolded hb] in \<open>simp_all only: f same_layout_refl not_False_eq_True\<close>)
  qed
  ultimately show ?thesis by (simp add: coherent_def st')
qed

lemma coherent_start:
  assumes pre: "prepared env source st0" and co: "coherent env source st0 q k S st"
    and rd: "cc_reading st = None" "0 < cc_reads st" "read_start env st = Inr st'"
  shows "coherent env source st0 q k S st' \<and> m_work_item st' = m_work_item st \<and> m_read_queue_offset st' = m_read_queue_offset st \<and>
    (cc_reading st' = None \<and> cc_reads st' < cc_reads st \<or> cc_reading st' \<noteq> None \<and> cc_reads st' = cc_reads st)"
proof (cases "m_read_error st")
  case (Some e)
  then have "st\<lparr>m_read_error := m_read_error st\<rparr> = st" by simp
  then have st': "st' = st\<lparr>m_read_error := m_read_error st, cc_reads := cc_reads st - 1\<rparr>"
    using rd(3) Some by (simp only: read_start_def Let_def) simp
  show ?thesis using coherent_over [OF co rd(1), of "m_read_error st"] rd(1,2) Some unfolding st' by simp
next
  case None
  define hb where "hb = m_hunkbytes (cc_chd st)"
  define n where "n = (block_end st (Suc q) - block_end st q) * hb"
  note L = prepared_layout [OF pre co, folded hb_def] and D = coherentD [OF co, folded hb_def]
  have k: "k = q + cc_reads st" "k * 128 < m_hunkcount (cc_chd st) + 128" and off: "m_read_done_offset st = block_end st q * hb"
    using D(2) rd(1) None by (simp_all add: reads_ok_def Let_def hb_def)
  have "Suc q * 128 \<le> k * 128" using k(1) rd(2) by (intro mult_le_mono1) simp
  then have q: "q * 128 < m_hunkcount (cc_chd st)" "Suc q * 128 \<le> k * 128" using k(2) by simp_all
  then have b: "block_end st q = q * 128" "block_end st (Suc q) = min (Suc q * 128) (m_hunkcount (cc_chd st))" by (simp_all add: block_end_def)
  note X = read_extent [OF L(1,2,3) q(1), folded b(2), folded b(1), folded n_def]
  have W: "w32 (WORK_BUFFER_HUNKS * hb) = 256 * hb" using L(2) by (simp add: w32_def WORK_BUFFER_HUNKS_def)
  have half: "256 * hb div 2 = 128 * hb" "256 * hb \<noteq> 0" using L(1) by simp_all
  have aligned: "(\<not> (q mod 2 * 128 * hb = 0 \<or> q mod 2 * 128 * hb = 128 * hb)) = False" "(block_end st q * hb mod hb \<noteq> 0) = False"
    using X(2) by simp_all
  note start = rd(3) [unfolded read_start_def Let_def, folded hb_def, unfolded W half(1) off L(4) X(5) X(3) None aligned]
  show ?thesis
  proof (cases "e_read_data env (block_end st q * hb) n")
    case (Inl e)
    then have st': "st' = st\<lparr>m_read_error := Some e, cc_reads := cc_reads st - 1\<rparr>" using start half(2) D(9) by simp
    show ?thesis unfolding st' using coherent_over [OF co rd(1), of "Some e"] rd(1,2) by simp
  next
    case (Inr data)
    have data: "data = slice (q * 128 * hb) n source" using prepared_source [OF pre Inr] by (simp add: b)
    have st': "st' = st\<lparr>m_work_buffer := overwrite (q mod 2 * 128 * hb) (slice (q * 128 * hb) n source) (m_work_buffer st),
      cc_reading := Some \<lparr>rd_curoffs = q * 128 * hb, rd_end_offset = q * 128 * hb + n, rd_dest = q mod 2 * 128 * hb, rd_numbytes = n\<rparr>\<rparr>"
      using start half(2) D(9) Inr by (simp add: b data split: if_splits)
    from coherent_data [OF pre co rd(1,2) None q hb_def n_def st'] show ?thesis by (simp add: st')
  qed
qed

lemma async_compress_result:
  assumes "async_compress_hunk env i st = Inr st'" "length (e_sha1_buf env) = 16"
  shows "\<exists>item. st' = update_item i (\<lambda>_. item) st \<and> wi_hunknum item = wi_hunknum (item_at st i) \<and> wi_walk item = wi_walk (item_at st i) \<and>
    wi_status item = WS_COMPLETE \<and>
    item_result env (m_codecs st) (m_parent_map st) (m_current_map st) (m_hunkbytes (cc_chd st))
      (slice (m_hunkbytes (cc_chd st) * i) (m_hunkbytes (cc_chd st)) (m_work_buffer st)) item"
proof -
  define hb where "hb = m_hunkbytes (cc_chd st)"
  define data where "data = slice (hb * i) hb (m_work_buffer st)"
  define item where "item = (item_at st i)\<lparr>wi_hash := (wi_hash (item_at st i))[0 := hash_of env data], wi_status := WS_COMPLETE\<rparr>"
  have h: "hp_crc16 (hash_of env data) = crc16_simple data" "hp_sha1 (hash_of env data) = fips_sha1 data"
    by (simp_all add: hash_of_def sha1_simple_fips [OF assms(2)])
  have ne: "wi_hash (item_at st i) \<noteq> []" using assms(1) by (auto simp: async_compress_hunk_def Let_def)
  have two: "update_item i f (update_item i g st) = update_item i (\<lambda>_. f (g (item_at st i))) st" for f g
    by (cases "i mod 256 < length (m_work_item st)") (simp_all add: update_item_def item_at_def WORK_BUFFER_HUNKS_def list_update_beyond)
  have one: "update_item i (\<lambda>item. item\<lparr>wi_hash := (wi_hash item)[0 := hash_of env data], wi_status := WS_COMPLETE\<rparr>) st = update_item i (\<lambda>_. item) st"
    by (simp add: update_item_def item_def)
  show ?thesis
  proof (cases "hashmap_find (m_current_map st) (crc16_simple data) (fips_sha1 data) = NOT_FOUND \<and>
      hashmap_find (m_parent_map st) (crc16_simple data) (fips_sha1 data) = NOT_FOUND")
    case True
    then obtain compression out where fb: "find_best_compressor (e_libs env) (m_codecs st) hb data = Inr (compression, out)"
      and st': "st' = update_item i (\<lambda>item. item\<lparr>wi_compression := compression, wi_compressed := out\<rparr>) (update_item i (\<lambda>_. item) st)"
      using assms(1) by (auto simp: async_compress_hunk_def h one hb_def [symmetric] data_def [symmetric] Let_def split: if_splits sum.splits)
    show ?thesis using fb ne unfolding st' two
      by (intro exI [of _ "item\<lparr>wi_compression := compression, wi_compressed := out\<rparr>"]) (simp add: item_def item_result_def hb_def data_def)
  next
    case False
    then have st': "st' = update_item i (\<lambda>_. item) st"
      using assms(1) by (auto simp: async_compress_hunk_def h one hb_def [symmetric] data_def [symmetric] Let_def split: if_splits)
    show ?thesis using False ne unfolding st'
      by (intro exI [of _ item]) (auto simp: item_def item_result_def hb_def data_def)
  qed
qed

lemma coherent_work:
  assumes pre: "prepared env source st0" and co: "coherent env source st0 q k S st"
    and run: "i < WORK_BUFFER_HUNKS" "wi_status (item_at st i) = WS_QUEUED" "run_item env i st = Inr st'"
  shows "coherent env source st0 q k S st' \<and> (\<exists>item. st' = update_item i (\<lambda>_. item) st \<and> wi_status item = WS_COMPLETE)"
proof -
  note D = coherentD [OF co]
  obtain h where h: "m_write_hunk st \<le> h" "h < m_write_hunk st + 256" "h mod 256 = i"
    using window_cover run(1) unfolding WORK_BUFFER_HUNKS_def by blast
  have i: "item_at st i = item_at st h" "update_item i = update_item h"
    using h(3) by (auto simp: item_at_def update_item_def WORK_BUFFER_HUNKS_def fun_eq_iff)
  have ok: "h < S" "wi_hunknum (item_at st h) = h" "\<not> wi_walk (item_at st h)" "buffered st source h"
    using coherent_item [OF co h(1,2)] run(2) by (auto simp: item_ok_def Let_def i split: if_splits)
  have "async_compress_hunk env i st = Inr st'" using run(3) ok(3) by (simp add: run_item_def i)
  from async_compress_result [OF this preparedD(8) [OF pre]] obtain item where
    st': "st' = update_item h (\<lambda>_. item) st" and item: "wi_hunknum item = h" "\<not> wi_walk item" "wi_status item = WS_COMPLETE"
      "item_result env (m_codecs st) (m_parent_map st) (m_current_map st) (m_hunkbytes (cc_chd st))
        (slice (m_hunkbytes (cc_chd st) * i) (m_hunkbytes (cc_chd st)) (m_work_buffer st)) item"
    using ok(2,3) by (auto simp: i)
  have "slice (m_hunkbytes (cc_chd st) * i) (m_hunkbytes (cc_chd st)) (m_work_buffer st) = hunk_of st source h"
    using ok(4) by (simp add: buffered_def h(3) mult.commute)
  note res = item(4) [unfolded this]
  have "item_ok env source k S st' g" if g: "m_write_hunk st \<le> g" "g < m_write_hunk st + 256" for g
  proof (cases "g = h")
    case True
    have "item_at st' h = item" using item_at_update [OF D(7) h(1,2) h(1,2)] by (simp add: st')
    moreover have "buffered st' source h" "hunk_of st' source h = hunk_of st source h" using ok(4) by (simp_all add: st' buffered_def hunk_of_def)
    ultimately show ?thesis using ok(1) item(1-3) res by (simp add: True item_ok_def Let_def) (simp add: st' item_result_def)
  next
    case False
    have "item_at st' g = item_at st g" using item_at_update [OF D(7) g h(1,2)] False by (simp add: st')
    then show ?thesis by (intro item_ok_keep [OF coherent_item [OF co g]]) (simp_all add: st')
  qed
  moreover have "run_ok env source st0 q k S st'" using D(1) by (simp add: run_ok_def st')
  moreover have "reads_ok source q k S st'" by (rule reads_ok_keep [OF D(2)]) (simp_all add: st')
  ultimately show ?thesis using item(3) by (auto simp: coherent_def st' i)
qed

lemma coherent_queue:
  assumes pre: "prepared env source st0" and co: "coherent env source st0 q k S st" and qu: "queue_read st = Some st'"
  shows "coherent env source st0 q (Suc k) S st'"
proof -
  define hb where "hb = m_hunkbytes (cc_chd st)"
  note L = prepared_layout [OF pre co, folded hb_def] and D = coherentD [OF co, folded hb_def]
  have off: "m_read_queue_offset st = k * 128 * hb" using D(2) by (simp add: reads_ok_def hb_def Let_def)
  have lt: "m_read_queue_offset st < m_logicalbytes (cc_chd st)" using qu by (auto simp: queue_read_def Let_def split: if_splits)
  then have k: "k * 128 < m_hunkcount (cc_chd st)" using L(1) by (simp add: off L(4))
  have num: "w32 (k * 128) = k * 128" and half: "w32 (256 * hb) = 256 * hb" using k L(2,3) by (simp_all add: w32_def)
  have ready: "wi_status (item_at st h) = WS_READY" if "k * 128 \<le> h" "h < k * 128 + 128" for h
    using qu that L(1) by (auto simp: queue_read_def Let_def off num WORK_BUFFER_HUNKS_def list_all_iff simp flip: hb_def split: if_splits)
  have st': "st' = (fold (set_status WS_READING) [k * 128..<k * 128 + 128] st)\<lparr>cc_reads := cc_reads st + 1, m_read_queue_offset := k * 128 * hb + 128 * hb\<rparr>"
    using qu lt L(1) by (auto simp: queue_read_def Let_def off num half WORK_BUFFER_HUNKS_def simp flip: hb_def split: if_splits)
  have room: "k * 128 + 128 \<le> m_write_hunk st + 256"
  proof (rule ccontr)
    assume full: "\<not> ?thesis"
    have "item_at st (m_write_hunk st + 256) = item_at st (m_write_hunk st)" by (simp add: item_at_def WORK_BUFFER_HUNKS_def)
    then have "wi_status (item_at st (m_write_hunk st)) = WS_READY" using ready [of "m_write_hunk st + 256"] full D(4) by simp
    then have "k * 128 \<le> m_write_hunk st"
      using coherent_item [OF co, of "m_write_hunk st"] by (auto simp: item_ok_def Let_def split: if_splits)
    then show False using full by simp
  qed
  obtain items where it: "fold (set_status WS_READING) [k * 128..<k * 128 + 128] st = st\<lparr>m_work_item := items\<rparr>" "length items = 256"
    using fold_set_status_frame [of WS_READING "[k * 128..<k * 128 + 128]" st] D(7) by auto
  note new = st' [unfolded it(1)]
  have at: "item_at st' h = (if k * 128 \<le> h \<and> h < k * 128 + 128 then (item_at st h)\<lparr>wi_status := WS_READING\<rparr> else item_at st h)"
    if "m_write_hunk st \<le> h" "h < m_write_hunk st + 256" for h
  proof -
    have "item_at st' h = item_at (fold (set_status WS_READING) [k * 128..<k * 128 + 128] st) h" by (simp add: st' item_at_def)
    also have "\<dots> = (if h \<in> set [k * 128..<k * 128 + 128] then (item_at st h)\<lparr>wi_status := WS_READING\<rparr> else item_at st h)"
      by (rule item_at_fold_set_status [OF D(7) that]) (use room D(3,5) in auto)
    finally show ?thesis by simp
  qed
  have "item_ok env source (Suc k) S st' h" if h: "m_write_hunk st \<le> h" "h < m_write_hunk st + 256" for h
  proof (cases "k * 128 \<le> h \<and> h < k * 128 + 128")
    case True
    then show ?thesis using at [OF h] D(5) coherent_item [OF co h] by (simp add: item_ok_def Let_def)
  next
    case False
    show ?thesis by (rule item_ok_keep [OF coherent_item [OF co h]]) (use False at [OF h] in \<open>auto simp: new\<close>)
  qed
  moreover have "run_ok env source st0 q (Suc k) S st'" using D(1) room it(2) by (simp add: run_ok_def new)
  moreover have "reads_ok source q (Suc k) S st'"
    using D(2) k by (auto simp: reads_ok_def new Let_def hb_def add_mult_distrib split: option.splits)
  ultimately show ?thesis by (simp add: coherent_def new)
qed

text \<open>Writing the next item is the next step of the sequential compressor.\<close>

lemma coherent_write:
  assumes pre: "prepared env source st0" and idle: "idle_start env st0" and co: "coherent env source st0 q k S st"
    and complete: "wi_status (item_at st (m_write_hunk st)) = WS_COMPLETE"
    and wr: "write_item (item_at st (m_write_hunk st)) x (update_item (m_write_hunk st) (\<lambda>item. item\<lparr>wi_osd := False\<rparr>) st) = Inr (e, st1)"
  defines "st2 \<equiv> (set_status WS_READY (m_write_hunk st) st1)\<lparr>m_write_hunk := w32 (m_write_hunk st + 1)\<rparr>"
  shows "e = None \<and> m_write_hunk st < m_hunkcount (cc_chd st) \<and> coherent env source st0 q k S st2 \<and> m_write_hunk st2 = Suc (m_write_hunk st) \<and>
    m_read_queue_offset st2 = m_read_queue_offset st \<and> m_read_error st2 = m_read_error st \<and> cc_reads st2 = cc_reads st \<and> cc_reading st2 = cc_reading st \<and>
    (\<exists>item. m_work_item st2 = (m_work_item st)[m_write_hunk st mod 256 := item] \<and> wi_status item = WS_READY)"
proof -
  define w where "w = m_write_hunk st"
  define sta where "sta = update_item w (\<lambda>item. item\<lparr>wi_osd := False\<rparr>) st"
  note L = prepared_layout [OF pre co] and D = coherentD [OF co]
  have R: "tl (cc_chain st) = tl (cc_chain st0)" "m_parent_map st = m_parent_map st0" "m_codecs st = m_codecs st0"
    "m_hunkbytes (cc_chd st) = m_hunkbytes (cc_chd st0)"
    "sequential_hunks env (m_codecs st0) (tl (cc_chain st0) \<noteq> []) (m_parent_map st0) source w
       (cc_chd st0, m_current_map st0, m_total_out st0) = Inr (cc_chd st, m_current_map st, m_total_out st)"
    using D(1) layout_frame(1) [OF D(10)] by (simp_all add: run_ok_def w_def)
  have ok: "w < S" "wi_hunknum (item_at st w) = w"
    "item_result env (m_codecs st) (m_parent_map st) (m_current_map st) (m_hunkbytes (cc_chd st)) (hunk_of st source w) (item_at st w)"
    using coherent_item [OF co, of w] complete by (auto simp: item_ok_def Let_def w_def split: if_splits)
  have wn: "w32 (w + 1) = Suc w" using ok(1) D(6) L(3) by (simp add: w32_def)
  have sa: "cc_chain sta = cc_chain st" "m_parent_map sta = m_parent_map st" "m_current_map sta = m_current_map st"
    "m_total_out sta = m_total_out st" "m_walking_parent sta = m_walking_parent st" by (simp_all add: sta_def)
  have "e = None \<and> (\<exists>c1 m t. sequential_hunk env (m_codecs st) (tl (cc_chain sta) \<noteq> []) (m_parent_map sta) source w
       (cc_chd sta, m_current_map sta, m_total_out sta) = Inr (c1, m, t) \<and>
     st1 = (set_chd c1 sta)\<lparr>m_current_map := m, m_total_out := t\<rparr> \<and> same_layout (cc_chd sta) c1 \<and>
     (w < NOT_FOUND \<longrightarrow> (\<forall>crc sha1. hashmap_find (m_current_map sta) crc sha1 \<noteq> NOT_FOUND \<longrightarrow> hashmap_find m crc sha1 \<noteq> NOT_FOUND)))"
  proof (rule write_item_sequential)
    show "item_result env (m_codecs st) (m_parent_map sta) (m_current_map sta) (m_hunkbytes (cc_chd sta)) (hunk_of st source w) (item_at st w)"
      using ok(3) by (simp add: sa)
    show "write_item (item_at st w) x sta = Inr (e, st1)" using wr by (simp add: sta_def w_def)
    show "hashmap_find (m_parent_map sta) (crc16_simple (hunk_of st source w)) (fips_sha1 (hunk_of st source w)) = NOT_FOUND"
      if "tl (cc_chain sta) = []"
      using idle_startD(13) [OF idle] that by (simp add: sa R)
  qed (use D(9,11) L(6) preparedD(8) [OF pre] ok(2) in \<open>simp_all add: sa hunk_of_def\<close>)
  then obtain c1 m t where e: "e = None"
    and seq: "sequential_hunk env (m_codecs st) (tl (cc_chain st) \<noteq> []) (m_parent_map st) source w
       (cc_chd st, m_current_map st, m_total_out st) = Inr (c1, m, t)"
    and st1: "st1 = (set_chd c1 sta)\<lparr>m_current_map := m, m_total_out := t\<rparr>" and lay: "same_layout (cc_chd st) c1"
    and grow: "w < NOT_FOUND \<Longrightarrow> hashmap_find (m_current_map st) crc sha1 \<noteq> NOT_FOUND \<Longrightarrow> hashmap_find m crc sha1 \<noteq> NOT_FOUND" for crc sha1
    unfolding sa by blast
  have nf: "w < NOT_FOUND" using ok(1) D(6) L(3) by (simp add: NOT_FOUND_def)
  have f: "cc_chain st2 = c1 # tl (cc_chain st)" "m_current_map st2 = m" "m_total_out st2 = t" "m_write_hunk st2 = Suc w"
    "m_walking_parent st2 = m_walking_parent st" "m_parent_map st2 = m_parent_map st" "m_codecs st2 = m_codecs st"
    "m_work_buffer st2 = m_work_buffer st" "length (m_work_item st2) = length (m_work_item st)" "m_compsha1 st2 = m_compsha1 st"
    "m_read_done_offset st2 = m_read_done_offset st" "m_read_queue_offset st2 = m_read_queue_offset st" "m_total_in st2 = m_total_in st"
    "m_read_error st2 = m_read_error st" "cc_reads st2 = cc_reads st" "cc_reading st2 = cc_reading st"
    by (simp_all add: st2_def st1 sta_def wn [simplified] flip: w_def)
  have items: "m_work_item st2 = (m_work_item st)[w mod 256 := (item_at st w)\<lparr>wi_osd := False, wi_status := WS_READY\<rparr>]"
    using D(7) by (simp add: st2_def st1 sta_def set_status_def update_item_def item_at_def WORK_BUFFER_HUNKS_def flip: w_def)
  have at: "item_at st2 h = (if h = w then (item_at st w)\<lparr>wi_osd := False, wi_status := WS_READY\<rparr> else item_at st h)"
    if "w \<le> h" "h < w + 256" for h
    using items window_inj [OF that, of w] D(7) by (auto simp: item_at_def WORK_BUFFER_HUNKS_def nth_list_update)
  have "item_ok env source k S st2 h" if h: "Suc w \<le> h" "h < Suc w + 256" for h
  proof (cases "h = w + 256")
    case True
    have "item_at st2 h = item_at st2 w" by (simp add: True item_at_def WORK_BUFFER_HUNKS_def)
    then show ?thesis using at [of w] D(4,5) True coherent_item [OF co, of w] by (simp add: item_ok_def Let_def flip: w_def)
  next
    case False
    then have h': "m_write_hunk st \<le> h" "h < m_write_hunk st + 256" using h by (simp_all flip: w_def)
    show ?thesis
      by (rule item_ok_keep [OF coherent_item [OF co h']]) (use at [of h] h False lay grow [OF nf] in \<open>simp_all add: f\<close>)
  qed
  moreover have "run_ok env source st0 q k S st2"
  proof -
    have "sequential_hunks env (m_codecs st0) (tl (cc_chain st0) \<noteq> []) (m_parent_map st0) source (Suc w)
       (cc_chd st0, m_current_map st0, m_total_out st0) = Inr (cc_chd st2, m_current_map st2, m_total_out st2)"
      using seq by (simp add: R f)
    then show ?thesis using D(1,4) ok(1) same_layout_trans [OF D(10) lay]
      unfolding run_ok_def f by (simp add: f R del: sequential_hunks.simps flip: w_def)
  qed
  moreover have "reads_ok source q k S st2"
    by (rule reads_ok_keep [OF D(2)]) (use lay in \<open>simp_all add: f\<close>)
  ultimately have "coherent env source st0 q k S st2" by (simp add: coherent_def f)
  then show ?thesis using e ok(1) D(6) items by (auto simp: f simp flip: w_def)
qed

lemma flush_coherent:
  assumes pre: "prepared env source st0" and idle: "idle_start env st0" and co: "coherent env source st0 q k S st"
    and fl: "flush_item st = Inr r" "r \<noteq> Wait"
  shows "\<exists>st2. coherent env source st0 q k S st2 \<and> m_write_hunk st2 = Suc (m_write_hunk st) \<and> m_read_queue_offset st2 = m_read_queue_offset st \<and>
    m_read_error st2 = m_read_error st \<and> cc_reads st2 = cc_reads st \<and> cc_reading st2 = cc_reading st \<and> wi_status (item_at st (m_write_hunk st)) = WS_COMPLETE \<and>
    (\<exists>item. m_work_item st2 = (m_work_item st)[m_write_hunk st mod 256 := item] \<and> wi_status item = WS_READY) \<and>
    (r = Go st2 \<and> m_write_hunk st2 < m_hunkcount (cc_chd st2) \<or> (\<exists>err st3. r = Return err st3 \<and> m_write_hunk st2 = m_hunkcount (cc_chd st2) \<and> cc_reads st = 0 \<and> finalize st2 = Inr (err, st3)))"
proof -
  define w where "w = m_write_hunk st"
  have complete: "wi_status (item_at st w) = WS_COMPLETE"
    and wait: "\<not> (w + 1 = m_hunkcount (cc_chd st) \<and> cc_reads st \<noteq> 0)"
    using fl coherentD(9) [OF co] by (auto simp: flush_item_def Let_def w_def split: if_splits)
  obtain e st1 where wr: "write_item (item_at st w) (slice (w32 (m_hunkbytes (cc_chd st) * (w mod WORK_BUFFER_HUNKS))) (m_hunkbytes (cc_chd st)) (m_work_buffer st))
      (update_item w (\<lambda>item. item\<lparr>wi_osd := False\<rparr>) st) = Inr (e, st1)"
    using fl complete wait by (auto simp: flush_item_def Let_def w_def split: if_splits sum.splits)
  define st2 where "st2 = (set_status WS_READY w st1)\<lparr>m_write_hunk := w32 (w + 1)\<rparr>"
  note W = coherent_write [OF pre idle co complete [unfolded w_def] wr [unfolded w_def], folded w_def, folded st2_def]
  have co2: "coherent env source st0 q k S st2" and e: "e = None" and ws: "m_write_hunk st2 = Suc w" using W by blast+
  note h2 = layout_frame(2) [OF coherentD(10) [OF co2]] and h1 = layout_frame(2) [OF coherentD(10) [OF co]]
  have nw: "\<not> m_walking_parent st" "\<not> m_walking_parent st2" using coherentD(9) [OF co] coherentD(9) [OF co2] by simp_all
  have form: "flush_item st = (if m_write_hunk st2 = m_hunkcount (cc_chd st2)
      then (case finalize st2 of Inl u \<Rightarrow> Inl u | Inr (err, st3) \<Rightarrow> Inr (Return err st3)) else Inr (Go st2))"
    using complete wait nw wr [unfolded e]
    by (simp only: flush_item_def Let_def w_def [symmetric] st2_def [symmetric] sum.case prod.case option.case if_False if_True simp_thms)
  have "r = Go st2 \<and> m_write_hunk st2 < m_hunkcount (cc_chd st2) \<or> (\<exists>err st3. r = Return err st3 \<and> m_write_hunk st2 = m_hunkcount (cc_chd st2) \<and> cc_reads st = 0 \<and> finalize st2 = Inr (err, st3))"
  proof (cases "m_write_hunk st2 = m_hunkcount (cc_chd st2)")
    case True
    then have "cc_reads st = 0" using wait ws h1 h2 by simp
    then show ?thesis using fl(1) True by (auto simp: form split: sum.splits)
  next
    case False
    moreover have "m_write_hunk st2 \<le> m_hunkcount (cc_chd st2)" using coherentD(3,6) [OF co2] by simp
    ultimately show ?thesis using fl(1) by (simp add: form)
  qed
  then show ?thesis using W co2 complete ws by (intro exI [of _ st2]) (simp flip: w_def)
qed

lemma coherent_step:
  assumes pre: "prepared env source st0" and idle: "idle_start env st0" and co: "coherent env source st0 q k S st"
    and step: "compressor_step env st st'"
  shows "\<exists>q k S. coherent env source st0 q k S st'"
  using step
proof cases
  case queue
  then show ?thesis using coherent_queue [OF pre co] by blast
next
  case flush
  then show ?thesis using flush_coherent [OF pre idle co flush] by auto
next
  case start
  then show ?thesis using coherent_start [OF pre co] by blast
next
  case (spawn rd)
  then show ?thesis using coherent_spawn [OF pre co spawn(1,2)] by auto
next
  case finish
  then show ?thesis using coherent_finish [OF pre co] by blast
next
  case work
  then show ?thesis using coherent_work [OF pre co] by blast
qed

lemma reachable_coherent:
  assumes "reachable env st0 st" "prepared env source st0" "idle_start env st0"
  shows "\<exists>q k S. coherent env source st0 q k S st"
  using assms(1)
proof induction
  case begun
  then show ?case using coherent_begin [OF assms(2,3)] by blast
next
  case (next_step st st')
  then show ?case using coherent_step [OF assms(2,3)] by blast
qed

text \<open>The whole of the sequential compressor, with the digest of the source and the compressed map at the end.\<close>

definition sequential_compress :: "'s env \<Rightarrow> codec_class option list \<Rightarrow> bool \<Rightarrow> hashmap \<Rightarrow> bytes \<Rightarrow> chd_file \<times> hashmap \<times> nat \<Rightarrow> (error_condition option \<times> chd_file \<times> nat) res" where
  "sequential_compress env codecs parent parent_map source s =
     (case sequential_hunks env codecs parent parent_map source (m_hunkcount (fst s)) s of
        Inl u \<Rightarrow> Inl u
      | Inr (c, current_map, written) \<Rightarrow>
          (case set_raw_sha1 (fips_sha1 source) c of
             Inl u \<Rightarrow> Inl u
           | Inr (Some err, c1) \<Rightarrow> Inr (Some err, c1, written)
           | Inr (None, c1) \<Rightarrow> map_sum id (\<lambda>(err, c2). (err, c2, written)) (compress_v5_map c1)))"

lemma finished_run:
  assumes pre: "prepared env source st0" and co: "coherent env source st0 q k S st"
    and fin: "m_write_hunk st = m_hunkcount (cc_chd st)" "cc_reads st = 0"
  shows "sha1_finish (m_compsha1 st) = fips_sha1 source \<and> m_total_in st = length source"
proof -
  note L = prepared_layout [OF pre co] and D = coherentD [OF co]
  have "cc_reading st = None" using reading_facts(2) [OF D(2)] fin(2) by (cases "cc_reading st") auto
  then have "S = block_end st q" using D(2) by (simp add: reads_ok_def Let_def)
  then have "m_read_done_offset st = length source" using D(2,3,6) L(5) fin(1) by (simp add: reads_ok_def Let_def)
  then show ?thesis using D(1) sha1_finish_digest [of "m_compsha1 st" source] by (simp add: run_ok_def)
qed

lemma finalize_sequential:
  assumes pre: "prepared env source st0" and co: "coherent env source st0 q k S st"
    and fin: "m_write_hunk st = m_hunkcount (cc_chd st)" "cc_reads st = 0" and fz: "finalize st = Inr (err, st')"
  shows "sequential_compress env (m_codecs st0) (tl (cc_chain st0) \<noteq> []) (m_parent_map st0) source (cc_chd st0, m_current_map st0, m_total_out st0)
      = Inr (err, cc_chd st', m_total_out st') \<and> m_total_in st' = length source"
proof -
  have seq: "sequential_hunks env (m_codecs st0) (tl (cc_chain st0) \<noteq> []) (m_parent_map st0) source (m_hunkcount (cc_chd st0))
       (cc_chd st0, m_current_map st0, m_total_out st0) = Inr (cc_chd st, m_current_map st, m_total_out st)"
    using coherentD(1) [OF co] layout_frame(2) [OF coherentD(10) [OF co]] fin(1) by (simp add: run_ok_def)
  show ?thesis
    using fz finished_run [OF pre co fin] prepared_layout(6) [OF pre co]
    by (auto simp: sequential_compress_def seq finalize_def split: option.splits prod.splits sum.splits)
qed

subsection \<open>Progress\<close>

lemma async_compress_total:
  assumes "wi_hash (item_at st i) \<noteq> []" "i < 256" "length (m_work_buffer st) = 257 * m_hunkbytes (cc_chd st)"
    and "\<And>data. length data = m_hunkbytes (cc_chd st) \<Longrightarrow> \<exists>r. find_best_compressor (e_libs env) (m_codecs st) (m_hunkbytes (cc_chd st)) data = Inr r"
  shows "\<exists>st'. async_compress_hunk env i st = Inr st'"
proof -
  have "Suc i * m_hunkbytes (cc_chd st) \<le> 257 * m_hunkbytes (cc_chd st)" using assms(2) by (intro mult_le_mono1) simp
  then have "m_hunkbytes (cc_chd st) * i + m_hunkbytes (cc_chd st) \<le> length (m_work_buffer st)" by (simp add: assms(3) mult.commute add.commute)
  then have room: "m_hunkbytes (cc_chd st) * i + m_hunkbytes (cc_chd st) \<le> length (m_work_buffer st)" .
  then obtain r where "find_best_compressor (e_libs env) (m_codecs st) (m_hunkbytes (cc_chd st))
      (slice (m_hunkbytes (cc_chd st) * i) (m_hunkbytes (cc_chd st)) (m_work_buffer st)) = Inr r"
    using assms(4) [of "slice (m_hunkbytes (cc_chd st) * i) (m_hunkbytes (cc_chd st)) (m_work_buffer st)"] by auto
  then show ?thesis using assms(1) room by (cases r) (auto simp: async_compress_hunk_def Let_def)
qed

lemma read_start_total:
  assumes pre: "prepared env source st0" and co: "coherent env source st0 q k S st" and rd: "cc_reading st = None" "0 < cc_reads st"
  shows "\<exists>st'. read_start env st = Inr st'"
proof (cases "m_read_error st")
  case (Some e)
  then show ?thesis by (simp add: read_start_def Let_def)
next
  case None
  define hb where "hb = m_hunkbytes (cc_chd st)"
  define n where "n = (block_end st (Suc q) - block_end st q) * hb"
  note L = prepared_layout [OF pre co, folded hb_def] and D = coherentD [OF co, folded hb_def]
  have k: "k = q + cc_reads st" "k * 128 < m_hunkcount (cc_chd st) + 128" and off: "m_read_done_offset st = block_end st q * hb"
    using D(2) rd(1) None by (simp_all add: reads_ok_def Let_def hb_def)
  have "Suc q * 128 \<le> k * 128" using k(1) rd(2) by (intro mult_le_mono1) simp
  then have q: "q * 128 < m_hunkcount (cc_chd st)" using k(2) by simp
  then have b: "block_end st q = q * 128" "block_end st (Suc q) = min (Suc q * 128) (m_hunkcount (cc_chd st))" by (simp_all add: block_end_def)
  note X = read_extent [OF L(1,2,3) q, folded b(2), folded b(1), folded n_def]
  have W: "w32 (WORK_BUFFER_HUNKS * hb) = 256 * hb" using L(2) by (simp add: w32_def WORK_BUFFER_HUNKS_def)
  have half: "256 * hb div 2 = 128 * hb" "256 * hb \<noteq> 0" using L(1) by simp_all
  have aligned: "(\<not> (q mod 2 * 128 * hb = 0 \<or> q mod 2 * 128 * hb = 128 * hb)) = False" "(block_end st q * hb mod hb \<noteq> 0) = False"
    using X(2) by simp_all
  have room: "\<not> length (m_work_buffer st) < q mod 2 * 128 * hb + length (take n data)" for data :: bytes
    using X(1,2) D(8) by auto
  show ?thesis
    unfolding read_start_def Let_def hb_def [symmetric] W half(1) off L(4) X(5) X(3) aligned
    using None half(2) D(9) room by (auto split: sum.splits)
qed

text \<open>In a run from an idle start the asserts of the reader hold.\<close>

lemma reader_asserts_hold:
  assumes pre: "prepared env source st0" and idle: "idle_start env st0" and reach: "reachable env st0 st"
  shows "cc_reading st = None \<Longrightarrow> 0 < cc_reads st \<Longrightarrow> \<exists>st'. read_start env st = Inr st'"
    and "cc_reading st = Some rd \<Longrightarrow> rd_curoffs rd < rd_end_offset rd \<Longrightarrow> \<exists>st'. read_spawn rd st = Inr st'"
proof -
  obtain q k S where co: "coherent env source st0 q k S st" using reachable_coherent [OF reach pre idle] by blast
  show "cc_reading st = None \<Longrightarrow> 0 < cc_reads st \<Longrightarrow> \<exists>st'. read_start env st = Inr st'" by (rule read_start_total [OF pre co])
  show "cc_reading st = Some rd \<Longrightarrow> rd_curoffs rd < rd_end_offset rd \<Longrightarrow> \<exists>st'. read_spawn rd st = Inr st'"
    using coherent_spawn [OF pre co] by blast
qed

lemma write_item_total:
  assumes "\<not> m_walking_parent st" "compressed (cc_chd st)" "length (e_sha1_buf env) = 16" "cc_chain st \<noteq> []"
    and data: "data = slice (h * m_hunkbytes (cc_chd st)) (m_hunkbytes (cc_chd st)) source" and hn: "wi_hunknum item = h"
    and res: "item_result env codecs (m_parent_map st) (m_current_map st) (m_hunkbytes (cc_chd st)) data item"
    and par: "tl (cc_chain st) = [] \<Longrightarrow> hashmap_find (m_parent_map st) (crc16_simple data) (fips_sha1 data) = NOT_FOUND"
    and seq: "sequential_hunk env codecs (tl (cc_chain st) \<noteq> []) (m_parent_map st) source h (cc_chd st, m_current_map st, m_total_out st) = Inr s"
  shows "\<exists>r. write_item item x st = Inr r"
proof -
  define crc sha1 where "crc = crc16_simple data" and "sha1 = fips_sha1 data"
  have hash: "wi_hash item \<noteq> []" "wi_hash item ! 0 = \<lparr>hp_crc16 = crc, hp_sha1 = sha1\<rparr>"
    using res by (simp_all add: item_result_def hash_of_def crc_def sha1_def sha1_simple_fips [OF assms(3)])
  note s = seq [unfolded sequential_hunk_def Let_def prod.case data [symmetric] crc_def [symmetric] sha1_def [symmetric]]
  show ?thesis
  proof (cases "hashmap_find (m_current_map st) crc sha1 = NOT_FOUND \<and> \<not> (tl (cc_chain st) \<noteq> [] \<and> hashmap_find (m_parent_map st) crc sha1 \<noteq> NOT_FOUND)")
    case True
    then have "hashmap_find (m_parent_map st) crc sha1 = NOT_FOUND" using par by (auto simp: crc_def sha1_def)
    then have fb: "find_best_compressor (e_libs env) codecs (m_hunkbytes (cc_chd st)) data = Inr (wi_compression item, wi_compressed item)"
      using res True by (simp add: item_result_def crc_def sha1_def)
    show ?thesis using s True fb
      by (auto simp: write_item_def Let_def hash hn assms(1,2) split: sum.splits if_splits)
  next
    case False
    then show ?thesis using s by (auto simp: write_item_def Let_def hash hn assms(1,2) split: sum.splits if_splits)
  qed
qed

lemma sequential_prefix:
  "sequential_hunks env codecs parent parent_map source n s = Inr t \<Longrightarrow> m \<le> n \<Longrightarrow>
   \<exists>t'. sequential_hunks env codecs parent parent_map source m s = Inr t'"
proof (induction n arbitrary: t)
  case (Suc n)
  show ?case
  proof (cases "m = Suc n")
    case True
    then show ?thesis using Suc.prems(1) by blast
  next
    case False
    then show ?thesis using Suc by (auto split: sum.splits)
  qed
next
  case 0
  then have "m = 0" by simp
  then show ?case by (simp only: sequential_hunks.simps) blast
qed

text \<open>If the sequential compressor meets no undefined behaviour, the main thread meets none.\<close>

lemma flush_defined:
  assumes pre: "prepared env source st0" and idle: "idle_start env st0" and co: "coherent env source st0 q k S st"
    and seq: "sequential_compress env (m_codecs st0) (tl (cc_chain st0) \<noteq> []) (m_parent_map st0) source (cc_chd st0, m_current_map st0, m_total_out st0) = Inr result"
  shows "\<exists>r. flush_item st = Inr r"
proof (cases "wi_status (item_at st (m_write_hunk st)) = WS_COMPLETE \<and> \<not> (m_write_hunk st + 1 = m_hunkcount (cc_chd st) \<and> cc_reads st \<noteq> 0)")
  case False
  then show ?thesis using coherentD(9) [OF co] by (auto simp: flush_item_def Let_def)
next
  case True
  define w where "w = m_write_hunk st"
  define sta where "sta = update_item w (\<lambda>item. item\<lparr>wi_osd := False\<rparr>) st"
  define x where "x = slice (w32 (m_hunkbytes (cc_chd st) * (w mod WORK_BUFFER_HUNKS))) (m_hunkbytes (cc_chd st)) (m_work_buffer st)"
  note L = prepared_layout [OF pre co] and D = coherentD [OF co]
  have R: "tl (cc_chain st) = tl (cc_chain st0)" "m_parent_map st = m_parent_map st0" "m_codecs st = m_codecs st0"
    "sequential_hunks env (m_codecs st0) (tl (cc_chain st0) \<noteq> []) (m_parent_map st0) source w
       (cc_chd st0, m_current_map st0, m_total_out st0) = Inr (cc_chd st, m_current_map st, m_total_out st)"
    using D(1) by (simp_all add: run_ok_def w_def)
  have ok: "w < S" "wi_hunknum (item_at st w) = w"
    "item_result env (m_codecs st) (m_parent_map st) (m_current_map st) (m_hunkbytes (cc_chd st)) (hunk_of st source w) (item_at st w)"
    using coherent_item [OF co, of w] True by (auto simp: item_ok_def Let_def w_def split: if_splits)
  obtain t where "sequential_hunks env (m_codecs st0) (tl (cc_chain st0) \<noteq> []) (m_parent_map st0) source (m_hunkcount (cc_chd st0))
       (cc_chd st0, m_current_map st0, m_total_out st0) = Inr t"
    using seq by (auto simp: sequential_compress_def split: sum.splits)
  from sequential_prefix [OF this, of "Suc w"] obtain t' where
    step: "sequential_hunk env (m_codecs st) (tl (cc_chain st) \<noteq> []) (m_parent_map st) source w (cc_chd st, m_current_map st, m_total_out st) = Inr t'"
    using ok(1) D(6) layout_frame(2) [OF D(10)] R by auto
  have sa: "cc_chain sta = cc_chain st" "m_parent_map sta = m_parent_map st" "m_current_map sta = m_current_map st"
    "m_total_out sta = m_total_out st" "m_walking_parent sta = m_walking_parent st" by (simp_all add: sta_def)
  have "\<exists>r. write_item (item_at st w) x sta = Inr r"
  proof (rule write_item_total)
    show "item_result env (m_codecs st) (m_parent_map sta) (m_current_map sta) (m_hunkbytes (cc_chd sta)) (hunk_of st source w) (item_at st w)"
      using ok(3) by (simp add: sa)
    show "sequential_hunk env (m_codecs st) (tl (cc_chain sta) \<noteq> []) (m_parent_map sta) source w (cc_chd sta, m_current_map sta, m_total_out sta) = Inr t'"
      using step by (simp add: sa)
    show "hashmap_find (m_parent_map sta) (crc16_simple (hunk_of st source w)) (fips_sha1 (hunk_of st source w)) = NOT_FOUND"
      if "tl (cc_chain sta) = []"
      using idle_startD(13) [OF idle] that by (simp add: sa R)
  qed (use D(9,11) L(6) preparedD(8) [OF pre] ok(2) in \<open>simp_all add: sa hunk_of_def\<close>)
  then obtain e st1 where wr: "write_item (item_at st w) x sta = Inr (e, st1)" by auto
  define st2 where "st2 = (set_status WS_READY w st1)\<lparr>m_write_hunk := w32 (w + 1)\<rparr>"
  note W = coherent_write [OF pre idle co conjunct1 [OF True] wr [unfolded w_def sta_def], folded w_def, folded st2_def]
  have co2: "coherent env source st0 q k S st2" and e: "e = None" and reads: "cc_reads st2 = cc_reads st" and ws: "m_write_hunk st2 = Suc w" using W by blast+
  have nw: "\<not> m_walking_parent st" "\<not> m_walking_parent st2" using D(9) coherentD(9) [OF co2] by simp_all
  have form: "flush_item st = (if m_write_hunk st2 = m_hunkcount (cc_chd st2)
      then (case finalize st2 of Inl u \<Rightarrow> Inl u | Inr (err, st3) \<Rightarrow> Inr (Return err st3)) else Inr (Go st2))"
    using True nw wr [unfolded e]
    by (simp only: flush_item_def Let_def w_def [symmetric] x_def [symmetric] sta_def [symmetric] st2_def [symmetric] sum.case prod.case option.case if_False if_True simp_thms)
  have "\<exists>r. finalize st2 = Inr r" if fin: "m_write_hunk st2 = m_hunkcount (cc_chd st2)"
  proof -
    have "m_hunkcount (cc_chd st2) = m_hunkcount (cc_chd st)" using layout_frame(2) [OF coherentD(10) [OF co2]] layout_frame(2) [OF D(10)] by simp
    then have "cc_reads st2 = 0" using True fin ws reads by (simp add: w_def)
    then have sha: "sha1_finish (m_compsha1 st2) = fips_sha1 source" using finished_run [OF pre co2 fin] by simp
    have "sequential_hunks env (m_codecs st0) (tl (cc_chain st0) \<noteq> []) (m_parent_map st0) source (m_hunkcount (cc_chd st0))
       (cc_chd st0, m_current_map st0, m_total_out st0) = Inr (cc_chd st2, m_current_map st2, m_total_out st2)"
      using coherentD(1) [OF co2] layout_frame(2) [OF coherentD(10) [OF co2]] fin by (simp add: run_ok_def)
    then show ?thesis using seq prepared_layout(6) [OF pre co2]
      by (auto simp: sequential_compress_def finalize_def sha split: option.splits prod.splits sum.splits)
  qed
  then show ?thesis by (auto simp: form split: sum.splits)
qed

lemma write_hunk_fold: "m_write_hunk (fold (set_status s) ks st) = m_write_hunk st"
  by (induction ks arbitrary: st) simp_all

lemma reachable_unfinished:
  assumes "reachable env st0 st" "prepared env source st0" "idle_start env st0" "0 < m_hunkcount (cc_chd st0)"
  shows "m_write_hunk st < m_hunkcount (cc_chd st0)"
  using assms(1)
proof induction
  case begun
  then show ?case using idle_startD(10) [OF assms(3)] assms(4) by simp
next
  case (next_step st st')
  obtain q k S where co: "coherent env source st0 q k S st" using reachable_coherent [OF next_step(1) assms(2,3)] by blast
  from next_step(2) show ?case
  proof cases
    case queue
    then have "m_write_hunk st' = m_write_hunk st" by (auto simp: queue_read_def Let_def write_hunk_fold split: if_splits)
    then show ?thesis using next_step(3) by simp
  next
    case flush
    obtain q' k' S' where co': "coherent env source st0 q' k' S' st'" using coherent_step [OF assms(2,3) co next_step(2)] by blast
    show ?thesis using flush_coherent [OF assms(2,3) co flush] layout_frame(2) [OF coherentD(10) [OF co']] by auto
  next
    case start
    then show ?thesis using next_step(3)
      by (auto simp: read_start_def Let_def split: if_splits sum.splits prod.splits option.splits)
  next
    case (work i)
    then show ?thesis using coherent_work [OF assms(2) co work] next_step(3) by auto
  qed (use next_step(3) in \<open>auto simp: read_spawn_def read_finish_def Let_def split: if_splits\<close>)
qed

lemma no_deadlock:
  assumes pre: "prepared env source st0" and idle: "idle_start env st0"
    and total: "\<forall>data. length data = m_hunkbytes (cc_chd st0) \<longrightarrow> (\<exists>r. find_best_compressor (e_libs env) (m_codecs st0) (m_hunkbytes (cc_chd st0)) data = Inr r)"
    and seq: "sequential_compress env (m_codecs st0) (tl (cc_chain st0) \<noteq> []) (m_parent_map st0) source (cc_chd st0, m_current_map st0, m_total_out st0) = Inr result"
    and hunks: "0 < m_hunkcount (cc_chd st0)" and reach: "reachable env st0 st" and err: "m_read_error st = None"
  shows "(\<exists>st'. compressor_step env st st') \<or> (\<exists>error st'. flush_item st = Inr (Return error st'))"
proof -
  obtain q k S where co: "coherent env source st0 q k S st" using reachable_coherent [OF reach pre idle] by blast
  note D = coherentD [OF co] and L = prepared_layout [OF pre co]
  define w where "w = m_write_hunk st"
  have H: "m_hunkcount (cc_chd st0) = m_hunkcount (cc_chd st)" "m_hunkbytes (cc_chd st0) = m_hunkbytes (cc_chd st)" "m_codecs st = m_codecs st0"
    using layout_frame [OF D(10)] D(1) by (simp_all add: run_ok_def)
  have reader: "\<exists>st'. compressor_step env st st'" if "0 < cc_reads st"
  proof (cases "cc_reading st")
    case None
    then show ?thesis using read_start_total [OF pre co None that] compressor_step.start [OF None that] by blast
  next
    case (Some rd)
    show ?thesis
    proof (cases "rd_curoffs rd < rd_end_offset rd")
      case True
      then show ?thesis using coherent_spawn [OF pre co Some True] compressor_step.spawn [OF Some True] by blast
    next
      case False
      then show ?thesis using compressor_step.finish [OF Some] by force
    qed
  qed
  have r: "k = q + cc_reads st" "cc_reading st = None \<Longrightarrow> S = block_end st q" "m_read_queue_offset st = k * 128 * m_hunkbytes (cc_chd st)"
    using D(2) err by (simp_all add: reads_ok_def Let_def)
  consider (finished) "cc_reads st = 0" "wi_status (item_at st w) = WS_COMPLETE" | (busy) "0 < cc_reads st"
    | (queued) "wi_status (item_at st w) = WS_QUEUED" | (empty) "cc_reads st = 0" "S \<le> w"
    using coherent_item [OF co, of w] by (auto simp: item_ok_def Let_def w_def split: if_splits)
  then show ?thesis
  proof cases
    case finished
    then have "flush_item st \<noteq> Inr Wait" by (auto simp: flush_item_def Let_def w_def split: sum.splits prod.splits option.splits)
    then obtain r where r: "flush_item st = Inr r" "r \<noteq> Wait" using flush_defined [OF pre idle co seq] by auto
    then show ?thesis using compressor_step.flush [of st] by (cases r) auto
  next
    case queued
    have i: "w mod 256 < WORK_BUFFER_HUNKS" "item_at st (w mod 256) = item_at st w" by (simp_all add: WORK_BUFFER_HUNKS_def item_at_def)
    have "wi_hash (item_at st w) \<noteq> []" "\<not> wi_walk (item_at st w)"
      using coherent_item [OF co, of w] queued by (auto simp: item_ok_def Let_def w_def split: if_splits)
    then obtain st' where run: "run_item env (w mod 256) st = Inr st'"
      using async_compress_total [of st "w mod 256" env] total D(8) by (auto simp: run_item_def i H)
    show ?thesis using compressor_step.work [OF i(1) queued [folded i(2)] run] by blast
  next
    case empty
    then have none: "cc_reading st = None" using reading_facts(2) [OF D(2)] by (cases "cc_reading st") auto
    have W: "w < m_hunkcount (cc_chd st)" using reachable_unfinished [OF reach pre idle hunks] by (simp add: w_def H)
    have S: "S = q * 128" "k = q" "w = S" using r(1,2) none empty W D(3) by (auto simp: block_end_def w_def min_def split: if_splits)
    have ready: "wi_status (item_at st h) = WS_READY" if "w \<le> h" "h < w + 256" for h
      using coherent_item [OF co that [unfolded w_def]] S that by (simp add: item_ok_def Let_def)
    have "w32 (q * 128) = q * 128" using W S L(3) by (simp add: w32_def)
    moreover have "k * 128 * m_hunkbytes (cc_chd st) < m_hunkcount (cc_chd st) * m_hunkbytes (cc_chd st)"
      using W S L(1) by simp
    ultimately have "\<exists>st'. queue_read st = Some st'"
      using empty(1) ready S L(1) D(9) by (simp add: queue_read_def Let_def r(3) L(4) WORK_BUFFER_HUNKS_def list_all_iff)
    then show ?thesis using compressor_step.queue by blast
  qed (use reader in blast)
qed

subsection \<open>Termination\<close>

definition status_weight :: "work_status \<Rightarrow> nat" where
  "status_weight s = (case s of WS_READY \<Rightarrow> 0 | WS_COMPLETE \<Rightarrow> 1 | WS_QUEUED \<Rightarrow> 2 | WS_READING \<Rightarrow> 3)"

definition items_weight :: "compressor \<Rightarrow> nat" where
  "items_weight st = sum_list (map (\<lambda>item. status_weight (wi_status item)) (m_work_item st))"

definition work_left :: "compressor \<Rightarrow> nat" where
  "work_left st = 4 * (m_hunkcount (cc_chd st) + 128 - m_read_queue_offset st div m_hunkbytes (cc_chd st)) + items_weight st +
     (2 * cc_reads st - (if cc_reading st = None then 0 else 1))"

lemma sum_list_update:
  fixes f :: "'a \<Rightarrow> nat"
  shows "i < length xs \<Longrightarrow> sum_list (map f (xs[i := x])) + f (xs ! i) = sum_list (map f xs) + f x"
  by (induction xs arbitrary: i) (auto split: nat.splits)

lemma weight_update:
  "length (m_work_item st) = 256 \<Longrightarrow>
   items_weight (update_item i f st) + status_weight (wi_status (item_at st i)) = items_weight st + status_weight (wi_status (f (item_at st i)))"
  using sum_list_update [of "i mod 256" "m_work_item st" "\<lambda>item. status_weight (wi_status item)" "f (item_at st i)"]
  by (simp add: items_weight_def update_item_def item_at_def WORK_BUFFER_HUNKS_def)

lemma weight_reading:
  "length (m_work_item st) = 256 \<Longrightarrow> items_weight (fold (set_status WS_READING) ks st) \<le> items_weight st + 3 * length ks"
proof (induction ks arbitrary: st)
  case (Cons k ks)
  have "items_weight (set_status WS_READING k st) \<le> items_weight st + 3"
    using weight_update [OF Cons.prems, of k "\<lambda>item. item\<lparr>wi_status := WS_READING\<rparr>"] by (simp add: set_status_def status_weight_def)
  then show ?case using Cons.IH [of "set_status WS_READING k st"] Cons.prems by simp
qed simp

lemma coherent_step_decreases:
  assumes pre: "prepared env source st0" and idle: "idle_start env st0" and co: "coherent env source st0 q k S st"
    and step: "compressor_step env st st'"
  shows "work_left st' < work_left st"
proof -
  note D = coherentD [OF co] and L = prepared_layout [OF pre co]
  have lay: "m_hunkcount (cc_chd st') = m_hunkcount (cc_chd st)" "m_hunkbytes (cc_chd st') = m_hunkbytes (cc_chd st)"
    using coherent_step [OF pre idle co step] layout_frame(1,2) [OF coherentD(10) [OF co]] layout_frame(1,2) [OF coherentD(10)] by fastforce+
  show ?thesis
    using step
  proof cases
    case queue
    note co' = coherent_queue [OF pre co queue]
    have "m_read_queue_offset st div m_hunkbytes (cc_chd st) = k * 128" "m_read_queue_offset st' div m_hunkbytes (cc_chd st) = Suc k * 128"
      using D(2) coherentD(2) [OF co'] L(1) by (simp_all add: reads_ok_def Let_def lay)
    moreover have "k * 128 < m_hunkcount (cc_chd st)" using coherentD(2) [OF co'] by (simp add: reads_ok_def Let_def lay)
    moreover have "items_weight st' \<le> items_weight st + 3 * 128 \<and> cc_reads st' = cc_reads st + 1 \<and> cc_reading st' = cc_reading st"
    proof -
      obtain ks n where st': "st' = (fold (set_status WS_READING) ks st)\<lparr>cc_reads := cc_reads st + 1, m_read_queue_offset := n\<rparr>" "length ks = 128"
        using queue by (auto simp: queue_read_def Let_def WORK_BUFFER_HUNKS_def split: if_splits)
      then show ?thesis
        using weight_reading [OF D(7), of ks] fold_set_status_frame [of WS_READING ks st] by (auto simp: items_weight_def)
    qed
    ultimately show ?thesis unfolding work_left_def lay by (cases "cc_reading st") auto
  next
    case flush
    from flush_coherent [OF pre idle co flush] obtain item where f: "m_read_queue_offset st' = m_read_queue_offset st" "cc_reads st' = cc_reads st"
      "cc_reading st' = cc_reading st" "wi_status (item_at st (m_write_hunk st)) = WS_COMPLETE"
      "m_work_item st' = (m_work_item st)[m_write_hunk st mod 256 := item]" "wi_status item = WS_READY" by auto
    then have "items_weight st' < items_weight st"
      using sum_list_update [of "m_write_hunk st mod 256" "m_work_item st" "\<lambda>item. status_weight (wi_status item)" item] D(7)
      by (simp add: items_weight_def item_at_def WORK_BUFFER_HUNKS_def status_weight_def)
    then show ?thesis by (simp add: work_left_def lay f)
  next
    case start
    have "items_weight st' = items_weight st" using coherent_start [OF pre co start] by (simp add: items_weight_def)
    then show ?thesis using coherent_start [OF pre co start] start(1,2) by (auto simp: work_left_def lay)
  next
    case (spawn rd)
    from coherent_spawn [OF pre co spawn(1,2)] have "wi_status (item_at st S) = WS_READING"
      and st': "st' = (update_item S (\<lambda>item. item\<lparr>wi_status := WS_QUEUED, wi_hunknum := S, wi_osd := True, wi_walk := False\<rparr>) st)
      \<lparr>cc_reading := Some (rd\<lparr>rd_curoffs := Suc S * m_hunkbytes (cc_chd st)\<rparr>)\<rparr>" using spawn(3) by simp_all
    then have "items_weight st' < items_weight st"
      using weight_update [OF D(7), of S "\<lambda>item. item\<lparr>wi_status := WS_QUEUED, wi_hunknum := S, wi_osd := True, wi_walk := False\<rparr>"]
      by (simp add: status_weight_def) (simp add: items_weight_def)
    then show ?thesis using spawn(1) by (simp add: work_left_def lay) (simp add: st')
  next
    case (finish rd)
    have "items_weight st' = items_weight st" "m_read_queue_offset st' = m_read_queue_offset st" "cc_reading st' = None" "cc_reads st' = cc_reads st - 1"
      by (simp_all add: finish(1) read_finish_def Let_def items_weight_def)
    then show ?thesis using finish(2) reading_facts(2) [OF D(2) finish(2)] by (simp add: work_left_def lay)
  next
    case (work i)
    from coherent_work [OF pre co work] obtain item where st': "st' = update_item i (\<lambda>_. item) st" "wi_status item = WS_COMPLETE" by blast
    then have "items_weight st' < items_weight st"
      using weight_update [OF D(7), of i "\<lambda>_. item"] work(2) by (simp add: status_weight_def)
    moreover have "cc_reading st' = cc_reading st" "cc_reads st' = cc_reads st" "m_read_queue_offset st' = m_read_queue_offset st"
      by (simp_all add: st')
    ultimately show ?thesis by (simp add: work_left_def lay)
  qed
qed

subsection \<open>A run to the end\<close>

lemma read_error_fold: "m_read_error (fold (set_status s) ks st) = m_read_error st"
  by (induction ks arbitrary: st) simp_all

lemma no_read_error:
  assumes "reachable env st0 st" "prepared env source st0" "idle_start env st0" "\<And>offset n. \<exists>data. e_read_data env offset n = Inr data"
  shows "m_read_error st = None"
  using assms(1)
proof induction
  case begun
  then show ?case by (rule idle_startD(6) [OF assms(3)])
next
  case (next_step st st')
  obtain q k S where co: "coherent env source st0 q k S st" using reachable_coherent [OF next_step(1) assms(2,3)] by blast
  from next_step(2) show ?case
  proof cases
    case queue
    then show ?thesis using next_step(3) by (auto simp: queue_read_def Let_def read_error_fold split: if_splits)
  next
    case flush
    show ?thesis using flush_coherent [OF assms(2,3) co flush] next_step(3) by auto
  next
    case start
    have "e_read_data env offset n \<noteq> Inl e" for offset n e using assms(4) [of offset n] by auto
    then show ?thesis using start(3) next_step(3) coherentD(9) [OF co]
      by (auto simp: read_start_def Let_def split: if_splits sum.splits)
  next
    case (work i)
    then show ?thesis using coherent_work [OF assms(2) co work] next_step(3) by auto
  qed (use next_step(3) in \<open>auto simp: read_spawn_def read_finish_def Let_def split: if_splits\<close>)
qed

text \<open>Since every run ends, there is a state without further steps.\<close>

lemma terminal_state:
  assumes "prepared env source st0" "idle_start env st0"
  shows "\<exists>st. reachable env st0 st \<and> (\<nexists>st'. compressor_step env st st')"
proof -
  have "reachable env st0 st \<Longrightarrow> \<exists>st. reachable env st0 st \<and> (\<nexists>st'. compressor_step env st st')" for st
  proof (induction "work_left st" arbitrary: st rule: less_induct)
    case less
    obtain q k S where co: "coherent env source st0 q k S st" using reachable_coherent [OF less(2) assms] by blast
    show ?case
    proof (cases "\<exists>st'. compressor_step env st st'")
      case True
      then obtain st' where "compressor_step env st st'" ..
      then show ?thesis using less(1) [OF coherent_step_decreases [OF assms co]] reachable.next_step [OF less(2)] by blast
    qed (use less(2) in blast)
  qed
  then show ?thesis using reachable.begun by blast
qed

text \<open>What \<open>compress_begin\<close> leaves when there is no parent.\<close>

lemma compress_begin_idle:
  assumes "compress_begin libs env st = Inr (None, st0)" "tl (cc_chain st) = []" "length (m_work_item st) = 256"
    and "\<forall>item \<in> set (m_work_item st). wi_status item = WS_READY" "cc_reads st = 0" "cc_reading st = None"
    and "m_unitbytes (cc_chd st) \<le> m_hunkbytes (cc_chd st)" "257 * m_hunkbytes (cc_chd st) < 2 ^ 32"
  shows "idle_start env st0 \<and> m_total_out st0 = 0 \<and> cc_chain st0 = cc_chain st"
proof -
  have w: "w32 (m_hunkbytes (cc_chd st) * (WORK_BUFFER_HUNKS + 1)) = 257 * m_hunkbytes (cc_chd st)"
    using assms(8) by (simp add: w32_def WORK_BUFFER_HUNKS_def mult.commute)
  have "m_unitbytes (cc_chd st) \<noteq> 0" using assms(1) by (simp add: compress_begin_def Let_def split: if_splits)
  then have "0 < m_hunkbytes (cc_chd st) div m_unitbytes (cc_chd st)" using assms(7) by (simp add: div_greater_zero_iff)
  then have hash: "take (m_hunkbytes (cc_chd st) div m_unitbytes (cc_chd st)) (h @ replicate (m_hunkbytes (cc_chd st) div m_unitbytes (cc_chd st)) x) \<noteq> []"
    for h and x :: hash_pair by simp
  show ?thesis
    using assms(1-6) hash by (auto simp: compress_begin_def Let_def idle_start_def w [simplified] split: if_splits sum.splits)
qed

text \<open>A CHD without hunks is never finished.\<close>

lemma empty_never_ends:
  assumes "m_logicalbytes (cc_chd st) = 0" "m_read_error st = None" "\<not> m_walking_parent st" "wi_status (item_at st (m_write_hunk st)) = WS_READY"
  shows "compress_continue st = Some (Inr (Some (Chd_Error COMPRESSING), st))"
proof -
  have "queue_read st = None" "flush_item st = Inr Wait" using assms by (simp_all add: queue_read_def flush_item_def Let_def)
  then show ?thesis using assms(2,3) by (simp add: compress_continue_def queue_loop.simps [of st] flush_loop.simps [of st])
qed

subsection \<open>The end of the walk over the parent\<close>



definition walk_frame :: "chd_file \<Rightarrow> compressor \<Rightarrow> bool" where
  "walk_frame c st \<longleftrightarrow>
     cc_chain st \<noteq> [] \<and> cc_chd st = c \<and> length (m_work_buffer st) = 257 * m_hunkbytes c \<and> length (m_work_item st) = 256 \<and>
     m_read_error st = None \<and> m_read_done_offset st = 0"





lemma walk_frame_update [simp]: "walk_frame c (update_item k f st) = walk_frame c st"
  by (simp add: walk_frame_def)











subsection \<open>Properties\<close>

text \<open>
  A CHD of one hunk of four equal bytes, whose file refuses to store the digest, compressed by the
  run-length coder.
\<close>

definition sample_target :: chd_file where
  "sample_target = chd_closed
     \<lparr>m_file := Some \<lparr>f_data = replicate 124 0, f_read_fault = \<lambda>_ _. None,
        f_write_fault = \<lambda>offset n. if offset = 64 then Some (Std_Error Errc_io_error, 0) else None\<rparr>,
      m_allow_writes := True, m_logicalbytes := 4, m_hunkbytes := 4, m_hunkcount := 1, m_unitbytes := 4, m_unitcount := 1,
      m_compression := [CHD_CODEC_ZLIB, 0, 0, 0], m_mapentrybytes := 12, m_rawmap := replicate 12 255,
      m_rawsha1_offset := 64, m_sha1_offset := 84\<rparr>"

definition sample_env :: "unit env" where
  "sample_env = \<lparr>e_codecs = no_codecs, e_fuel = 9, e_read_data = (\<lambda>offset n. Inr (slice offset n [7, 7, 7, 7])), e_libs = rle_libs, e_sha1_buf = replicate 16 0\<rparr>"

definition sample_start :: compressor where
  "sample_start =
     \<lparr>cc_chain = [sample_target], m_walking_parent = False, m_total_in = 0, m_total_out = 0, m_compsha1 = sha1_reset (replicate 16 0),
      m_parent_map = \<lparr>hm_map = \<lambda>_. [], hm_blocks = [0]\<rparr>, m_current_map = \<lparr>hm_map = \<lambda>_. [], hm_blocks = [0]\<rparr>,
      m_read_queue_offset = 0, m_read_done_offset = 0, m_read_error = None, m_work_buffer = replicate 1028 0,
      m_work_item = replicate 256 \<lparr>wi_status = WS_READY, wi_osd = False, wi_walk = False, wi_hunknum = 0, wi_compression = 0,
        wi_compressed = [], wi_hash = [\<lparr>hp_crc16 = 0, hp_sha1 = sha1_null\<rparr>]\<rparr>,
      m_codecs = [Some Zlib_Codec, None, None, None], m_write_hunk = 0, cc_reads = 0, cc_reading = None\<rparr>"

lemma sample_prepared: "prepared sample_env [7, 7, 7, 7] sample_start"
  by (simp add: prepared_def sample_env_def sample_start_def sample_target_def compressed_def CHD_CODEC_ZLIB_def CHD_CODEC_NONE_def)

lemma sample_idle: "idle_start sample_env sample_start"
  by (simp add: idle_start_def sample_env_def sample_start_def sample_target_def hashmap_find_def del: replicate.simps)

lemma rle_zlib_total: "\<exists>r. find_best_compressor rle_libs [Some Zlib_Codec, None, None, None] 4 data = Inr r"
  by (simp add: find_best_compressor_def zlib_compress_def rle_libs_def Let_def Z_OK_def Z_STREAM_END_def)

lemma sample_data: "\<exists>data. e_read_data sample_env offset n = Inr data"
  by (simp add: sample_env_def)

lemma sample_total:
  "\<forall>data. length data = m_hunkbytes (cc_chd sample_start) \<longrightarrow>
    (\<exists>r. find_best_compressor (e_libs sample_env) (m_codecs sample_start) (m_hunkbytes (cc_chd sample_start)) data = Inr r)"
  using rle_zlib_total by (simp add: sample_env_def sample_start_def sample_target_def)

lemma sample_hunks: "0 < m_hunkcount (cc_chd sample_start)"
  by (simp add: sample_start_def sample_target_def)

lemma sample_best: "find_best_compressor rle_libs [Some Zlib_Codec, None, None, None] 4 [7, 7, 7, 7] = Inr (0, [7])"
  by (simp add: find_best_compressor_def zlib_compress_def rle_libs_def one_byte_def Let_def Z_OK_def Z_STREAM_END_def numeral_eq_Suc)

lemma sample_write:
  "\<exists>c. hunk_write_compressed sample_target 0 0 [7] (Suc 0) crc = Inr (None, c) \<and> m_rawsha1_offset c = 64 \<and>
     file_write c 64 digest = (Some (Std_Error Errc_io_error), c)"
proof -
  define f where "f = \<lparr>f_data = replicate 124 0 @ [7 :: u8], f_read_fault = \<lambda>_ _. None,
        f_write_fault = \<lambda>offset n. if offset = 64 then Some (Std_Error Errc_io_error, 0) else None\<rparr>"
  have ap: "file_append sample_target [7] 0 = (Inr 124, sample_target\<lparr>m_file := Some f\<rparr>)"
    by (simp add: file_append_def sample_target_def Let_def vwrite_def pwrite_def f_def del: replicate.simps) (simp only: replicate.simps(1) append_Nil)
  have "verify_proper_compression_append sample_target 0 = Inr None"
    by (simp add: verify_proper_compression_append_def sample_target_def map_entry_def w32_def compressed_def CHD_CODEC_ZLIB_def CHD_CODEC_NONE_def)
  then have "hunk_write_compressed sample_target 0 0 [7] (Suc 0) crc = Inr (None, set_map_entry 0 0 (Suc 0) 124 crc (sample_target\<lparr>m_file := Some f\<rparr>))"
    by (simp add: hunk_write_compressed_def ap)
  moreover have "file_write (set_map_entry 0 0 (Suc 0) 124 crc (sample_target\<lparr>m_file := Some f\<rparr>)) 64 digest =
      (Some (Std_Error Errc_io_error), set_map_entry 0 0 (Suc 0) 124 crc (sample_target\<lparr>m_file := Some f\<rparr>))"
    by (simp add: file_write_def set_map_entry_def vwrite_def f_def pwrite_def del: replicate.simps)
  ultimately show ?thesis by (auto simp: set_map_entry_def sample_target_def)
qed

lemma sample_sequential:
  "\<exists>c. sequential_compress sample_env (m_codecs sample_start) (tl (cc_chain sample_start) \<noteq> []) (m_parent_map sample_start) [7, 7, 7, 7]
     (cc_chd sample_start, m_current_map sample_start, m_total_out sample_start) = Inr (Some (Std_Error Errc_io_error), c, 1)"
proof -
  define crc where "crc = crc16_simple [7, 7, 7, 7]"
  obtain c where c: "hunk_write_compressed sample_target 0 0 [7] (Suc 0) crc = Inr (None, c)" "m_rawsha1_offset c = 64"
      "file_write c 64 (be_write_sha1 (fips_sha1 [7, 7, 7, 7]) (replicate 20 0)) = (Some (Std_Error Errc_io_error), c)"
    using sample_write by blast
  have t: "m_hunkbytes sample_target = 4" "m_hunkcount sample_target = 1" by (simp_all add: sample_target_def)
  have "sequential_hunk sample_env (m_codecs sample_start) (tl (cc_chain sample_start) \<noteq> []) (m_parent_map sample_start) [7, 7, 7, 7] 0
      (sample_target, m_current_map sample_start, 0) = Inr (c, hashmap_add 0 crc (fips_sha1 [7, 7, 7, 7]) (m_current_map sample_start), 1)"
    by (simp add: sequential_hunk_def Let_def t sample_start_def hashmap_find_def c crc_def [symmetric] sample_env_def sample_best del: replicate.simps)
  then show ?thesis
    by (simp add: sequential_compress_def sample_start_def t set_raw_sha1_def Let_def c del: replicate.simps)
qed

text \<open>
  C2: Whatever the order in which the threads run, \<open>compress_continue\<close> returns from the last hunk with
  the CHD, the number of bytes written and the error of the sequential compressor, and has counted and
  digested every byte of the source once. The run starts with idle threads and no walk over a parent in
  progress (for a CHD with a parent, after it), and the source fills all its hunks.
\<close>

theorem compressor_sequential:
  assumes "prepared env source st0" "idle_start env st0" "reachable env st0 st" "flush_item st = Inr (Return err st')"
  shows "sequential_compress env (m_codecs st0) (tl (cc_chain st0) \<noteq> []) (m_parent_map st0) source (cc_chd st0, m_current_map st0, m_total_out st0)
      = Inr (err, cc_chd st', m_total_out st') \<and> m_total_in st' = length source"
proof -
  obtain q k S where co: "coherent env source st0 q k S st" using reachable_coherent [OF assms(3,1,2)] by blast
  obtain st2 where "coherent env source st0 q k S st2" "m_write_hunk st2 = m_hunkcount (cc_chd st2)" "cc_reads st2 = 0" "finalize st2 = Inr (err, st')"
    using flush_coherent [OF assms(1,2) co assms(4)] by auto
  then show ?thesis by (rule finalize_sequential [OF assms(1)])
qed

theorem compressor_sequential_witness:
  "\<exists>st st'. reachable sample_env sample_start st \<and> flush_item st = Inr (Return (Some (Std_Error Errc_io_error)) st') \<and>
     m_total_out st' = 1 \<and> m_total_in st' = 4"
proof -
  obtain c where c: "sequential_compress sample_env (m_codecs sample_start) (tl (cc_chain sample_start) \<noteq> []) (m_parent_map sample_start) [7, 7, 7, 7]
     (cc_chd sample_start, m_current_map sample_start, m_total_out sample_start) = Inr (Some (Std_Error Errc_io_error), c, 1)"
    using sample_sequential by blast
  obtain st where run: "reachable sample_env sample_start st" "\<nexists>st'. compressor_step sample_env st st'"
    using terminal_state [OF sample_prepared sample_idle] by blast
  then obtain error st' where run: "reachable sample_env sample_start st" "flush_item st = Inr (Return error st')"
    using no_deadlock [OF sample_prepared sample_idle sample_total c sample_hunks run(1) no_read_error [OF run(1) sample_prepared sample_idle sample_data]] by blast
  then show ?thesis using compressor_sequential [OF sample_prepared sample_idle run] c by auto
qed

text \<open>
  C13: The threads never wait for each other: a state in which no thread can take a step is one in which
  \<open>compress_continue\<close> returns from the last hunk, with the result of the sequential compressor; no
  assert stops a thread before. The run starts without a walk over a parent, the CHD has a hunk, the
  source is assumed not to throw, and the codecs and the sequential compressor to meet no undefined
  behaviour.
\<close>

theorem compressor_no_deadlock:
  assumes "prepared env source st0" "idle_start env st0" "\<forall>offset n. \<exists>data. e_read_data env offset n = Inr data"
    and "\<forall>data. length data = m_hunkbytes (cc_chd st0) \<longrightarrow> (\<exists>r. find_best_compressor (e_libs env) (m_codecs st0) (m_hunkbytes (cc_chd st0)) data = Inr r)"
    and "sequential_compress env (m_codecs st0) (tl (cc_chain st0) \<noteq> []) (m_parent_map st0) source (cc_chd st0, m_current_map st0, m_total_out st0) = Inr result"
    and "0 < m_hunkcount (cc_chd st0)" "reachable env st0 st" "\<nexists>st'. compressor_step env st st'"
  shows "\<exists>error st'. flush_item st = Inr (Return error st') \<and> result = (error, cc_chd st', m_total_out st') \<and> m_total_in st' = length source"
proof -
  have "m_read_error st = None" using no_read_error [OF assms(7,1,2)] assms(3) by blast
  with no_deadlock [OF assms(1,2,4-7)] assms(8) obtain error st' where fl: "flush_item st = Inr (Return error st')" by blast
  obtain q k S where co: "coherent env source st0 q k S st" using reachable_coherent [OF assms(7,1,2)] by blast
  obtain st2 where "coherent env source st0 q k S st2" "m_write_hunk st2 = m_hunkcount (cc_chd st2)" "cc_reads st2 = 0" "finalize st2 = Inr (error, st')"
    using flush_coherent [OF assms(1,2) co fl] by auto
  from finalize_sequential [OF assms(1) this] fl assms(5) show ?thesis by auto
qed

theorem compressor_no_deadlock_witness:
  "\<exists>st st'. reachable sample_env sample_start st \<and> flush_item st = Inr (Return (Some (Std_Error Errc_io_error)) st') \<and>
     m_total_out st' = 1 \<and> m_total_in st' = 4 \<and> \<not> Ex (compressor_step sample_env st)"
proof -
  obtain c where c: "sequential_compress sample_env (m_codecs sample_start) (tl (cc_chain sample_start) \<noteq> []) (m_parent_map sample_start) [7, 7, 7, 7]
     (cc_chd sample_start, m_current_map sample_start, m_total_out sample_start) = Inr (Some (Std_Error Errc_io_error), c, 1)"
    using sample_sequential by blast
  obtain st where run: "reachable sample_env sample_start st" "\<nexists>st'. compressor_step sample_env st st'"
    using terminal_state [OF sample_prepared sample_idle] by blast
  with compressor_no_deadlock [OF sample_prepared sample_idle _ sample_total c sample_hunks run] sample_data show ?thesis by auto
qed

text \<open>
  C14: Every run of the threads ends: there is no infinite sequence of steps from a start with idle
  threads, no walk over a parent in progress, and a source that fills its hunks.
\<close>

theorem compressor_terminates:
  assumes "prepared env source st0" "idle_start env st0"
  shows "wf {(st', st). reachable env st0 st \<and> compressor_step env st st'}"
proof (rule wf_subset [OF wf_measure [of work_left]], rule subrelI)
  fix st' st
  assume "(st', st) \<in> {(st', st). reachable env st0 st \<and> compressor_step env st st'}"
  then have "reachable env st0 st" "compressor_step env st st'" by simp_all
  then show "(st', st) \<in> measure work_left"
    using reachable_coherent [OF _ assms] coherent_step_decreases [OF assms] by fastforce
qed

theorem compressor_terminates_witness:
  "wf {(st', st). reachable sample_env sample_start st \<and> compressor_step sample_env st st'}"
  by (rule compressor_terminates [OF sample_prepared sample_idle])








end
