(* ===== verification/Spec2Isabelle.thy ===== *)
theory Spec2Isabelle
  imports Multibyte Huffman_8bit Hashing Chd_Chain Chd_Meta_Laws Chd_Map_Laws Chd_Open_Laws Chd_Coders_Laws Chd_Compressor_Laws
begin

text \<open>
  Verification of the CHD library (compressed hunks of data), the C++ code under
  \<^verbatim>\<open>src/mame-chd-src/src/lib/util\<close> that the crate wraps. File names below are relative to it.

  \<^bold>\<open>The program.\<close> A CHD stores a logical array of bytes in hunks of equal size. A header names the sizes,
  the codecs and the places of the hunk map and of the metadata; the map says for each hunk whether
  it is stored plainly, compressed, a copy of another hunk of the file, or a copy of a part of a
  parent CHD; metadata is a linked list of tagged entries. \<open>chd_file\<close> reads and writes hunks, units and
  bytes through this map. \<open>chd_file_compressor\<close> fills a new compressed file with several threads. Codecs
  turn hunks into fewer bytes. Below them are Huffman coding, bit streams, integer access and hashes.

  \<^bold>\<open>Theories, bottom up.\<close>

  \<^item> \<open>Prelude\<close>: machine integers as words, buffers as lists with \<open>at_off\<close>, \<open>slice\<close> and \<open>overwrite\<close> for pointer
    arithmetic, \<^verbatim>\<open>memcpy\<close> and \<^verbatim>\<open>memset\<close>, and 32- and 64-bit wrap-around on naturals (\<open>w32\<close>, \<open>w64\<close>).

  \<^item> \<open>Multibyte\<close> (\<^verbatim>\<open>multibyte.h\<close>): the accessors of both byte orders. The locale \<open>int_field\<close> is their
    contract, interpreted on each pair; headers and map entries are verified through it.

  \<^item> \<open>Bitstream\<close> (\<^verbatim>\<open>bitstream.h\<close>): \<open>bitstream_in\<close> and \<open>bitstream_out\<close>, abstracted to lists of bits. The locales
    \<open>symbol_writer\<close> and \<open>symbol_coder\<close> are the contract between a bit stream and a code on it.

  \<^item> \<open>Huffman\<close>, \<open>Huffman_Tree\<close>, \<open>Huffman_Build\<close>, \<open>Huffman_8bit\<close> (\<^verbatim>\<open>huffman.cpp\<close>, \<^verbatim>\<open>huffman.h\<close>): canonical codes, the
    lookup table, both representations of a tree in a file, the construction of the tree with its
    search for a weight, and the 8-bit coder. Lemmas: the code words of accepted lengths are prefix
    free exactly when the Kraft sum allows it, a decoder built from the lengths inverts the encoder, the
    construction always ends within the length limit.

  \<^item> \<open>Hashing\<close> (\<^verbatim>\<open>hashing.cpp\<close>, \<^verbatim>\<open>hashing.h\<close>): SHA-1, CRC-16, CRC-32 and their text forms, against reference
    definitions of the standards.

  \<^item> \<open>Chd_File\<close>, \<open>Chd_Hunk\<close> (\<^verbatim>\<open>chd.h\<close>, \<^verbatim>\<open>chd.cpp\<close>): the record \<open>chd_file\<close> with the members of the class, the
    underlying file, and the operations on hunks, units and bytes. A CHD with its parents is a list of
    records (\<open>chain\<close>), because reading changes the caches of the parents too.

  \<^item> \<open>Chd_Bytes\<close>, \<open>Chd_Store\<close>, \<open>Chd_Chain\<close>: the byte interface over any hunk reader (locales \<open>hunk_reader\<close> and
    \<open>hunk_writer\<close>), the refinement of an uncompressed CHD, of a hunk size that is a multiple of four,
    to a flat array, and the recursion over self and parent references.

  \<^item> \<open>Chd_Meta\<close>, \<open>Chd_Meta_Laws\<close>: metadata in the file and its refinement to a list of items.

  \<^item> \<open>Chd_Map\<close>, \<open>Chd_Map_Code\<close>, \<open>Chd_Map_Laws\<close>: \<open>compress_v5_map\<close> and \<open>decompress_v5_map\<close>, layer by layer; the map of
    a single hunk does not fit the buffer computed for it, and an assert fails.

  \<^item> \<open>Chd_Codec\<close>, \<open>Chd_Open\<close>, \<open>Chd_Open_Laws\<close>: the list of codecs, the header parsers, creating and opening.

  \<^item> \<open>Cd_Ecc\<close> (\<^verbatim>\<open>cdrom.cpp\<close>), \<open>Chd_Coders\<close>, \<open>Chd_Coders_Laws\<close> (\<^verbatim>\<open>chdcodec.cpp\<close>): the error correction codes of CD
    sectors, compared with the product code of the standard, the codecs and the choice between them. The locales \<open>lossless_codec\<close>, \<open>shrinking_codec\<close> and \<open>cd_pair\<close>
    are the contracts of a codec and of a CD codec over two others.

  \<^item> \<open>Chd_Compressor\<close>, \<open>Chd_Compressor_Laws\<close> (\<open>chd_file_compressor\<close>, \<^verbatim>\<open>chd.cpp\<close>): the record \<open>compressor\<close> with the
    members of the class; the main thread, the reader and the workers are steps of the relation
    \<open>compressor_step\<close>, which interleaves them freely. \<open>sequential_compress\<close> is the specification without
    threads. Lemmas: the invariant \<open>coherent\<close> and its preservation by each step, that the half of the
    buffer being read into is not in use, a measure of the steps left. They
    start without a walk over a parent in progress; for the end of that walk an order of the steps is shown in
    which an assert of the reader fails.

  \<^bold>\<open>Conventions.\<close> Errors the code returns or throws are values (\<open>error_condition\<close>, \<open>thrown\<close>). Behaviour that C++
  does not define, or that ends the program, is the left side of the type \<open>res\<close>: an index outside a
  buffer, a null pointer, division by zero, a shift by too much, a recursion or a loop without end. The
  build does not define \<^verbatim>\<open>NDEBUG\<close> for these sources, so a failed \<^verbatim>\<open>assert\<close> aborts the program and is such an
  outcome too (\<open>Assert_Failed\<close>).
  Theorems therefore also say that none of these happens, or, where one does, for which input.

  \<^bold>\<open>Fuel and bounds.\<close> \<open>read_hunk\<close> recurses over references and has fuel; running out of it is the overflow of
  the stack. \<open>read_hunk_terminates\<close> gives an amount that suffices, one more than the sum of
  the hunk counts plus one over the files of the chain, for maps whose references point backwards, and \<open>append_keeps_refs_earlier\<close> shows that the compressor
  writes only such maps. Loops that need not end for every input are partial functions in the option type
  (\<open>weight_search\<close>, \<open>import_huffman_loop\<close>, the loops over metadata and the Zstandard loops); their results are proved
  to exist where the code relies on them. Bounds such as 2 to the 24 for a hunk in the codec theorems are the
  widths of the fields in the format.

  \<^bold>\<open>Parameters.\<close> Code that is not the program's own is an argument: the results of the operating system's file
  calls (\<open>vfile\<close>), zlib, Zstandard and LZMA (\<open>codec_libs\<close>, \<open>coder_libs\<close>), the contents of uninitialised memory
  (\<open>small0\<close>, \<open>decoder0\<close>). What is assumed of them is stated where it is used (\<open>zlib_laws\<close>, \<open>zstd_laws\<close>, \<open>lzma_laws\<close>), and
  examples instantiate them.

  \<^bold>\<open>Not modelled.\<close> The FLAC and A/V codecs (\<^verbatim>\<open>flac.cpp\<close>, \<^verbatim>\<open>avhuff.cpp\<close>) are a parameter of the codec model: their
  work is done in callbacks of libFLAC. The table of contents and image parsers of \<^verbatim>\<open>cdrom.cpp\<close>, files and
  streams (\<^verbatim>\<open>corefile.cpp\<close>, \<^verbatim>\<open>ioprocs.cpp\<close>), MD5, strings, formatting, delegates, palettes and bitmaps are not
  modelled: they are input and output or general utilities beside the container format. The bundled
  libraries and the Rust interface are not C++ code of this program.
\<close>

end
